(* ===== verification/Prelude.thy ===== *)
theory Prelude
  imports Main "HOL-Library.Word" "HOL-Library.Signed_Division"
begin

text \<open>
  Shared vocabulary of the development: the outcome of a kernel routine, the C integer
  types, and the generic facts on lists that the component theories rely on.

  A routine of the kernel either returns, or ends the run of the calling thread in one of
  three ways: it calls \<^verbatim>\<open>panic\<close>, it touches memory outside the object it is given (which C
  leaves undefined), or it has to give up the processor until another thread acts. The
  last three are the constructors of \<open>kerr\<close>; a routine that may end so has type
  \<open>kerr + 'a\<close>, and \<open>bnd\<close> sequences such routines.
\<close>

named_theorems kdefs \<open>unfolding of the routines of a component\<close>
named_theorems frame \<open>what a routine leaves unchanged\<close>

section \<open>Outcomes\<close>

datatype kerr = Panic string | Fault string | Blocked string

type_synonym 'a res = "kerr + 'a"

definition bnd :: "'e + 'a \<Rightarrow> ('a \<Rightarrow> 'e + 'b) \<Rightarrow> 'e + 'b" where
  "bnd m f = (case m of Inl e \<Rightarrow> Inl e | Inr x \<Rightarrow> f x)"

lemma bnd_simps [simp]: "bnd (Inl e) f = Inl e" "bnd (Inr x) f = f x"
  by (simp_all add: bnd_def)

lemma bnd_cong [fundef_cong]:
  "m = m' \<Longrightarrow> (\<And>x. m' = Inr x \<Longrightarrow> f x = g x) \<Longrightarrow> bnd m f = bnd m' g"
  by (auto simp: bnd_def split: sum.splits)

lemma bnd_Inr_iff: "bnd m f = Inr y \<longleftrightarrow> (\<exists>x. m = Inr x \<and> f x = Inr y)"
  by (auto simp: bnd_def split: sum.splits)

lemma bnd_Inl_iff: "bnd m f = Inl e \<longleftrightarrow> m = Inl e \<or> (\<exists>x. m = Inr x \<and> f x = Inl e)"
  by (auto simp: bnd_def split: sum.splits)

lemma bnd_InrE:
  assumes "bnd m f = Inr y"
  obtains x where "m = Inr x" and "f x = Inr y"
  using assms by (auto simp: bnd_Inr_iff)

lemma bnd_Inr_id [simp]: "bnd m Inr = m"
  by (simp add: bnd_def split: sum.splits)

lemma bnd_assoc: "bnd (bnd m f) g = bnd m (\<lambda>x. bnd (f x) g)"
  by (auto simp: bnd_def split: sum.splits)

text \<open>Loops over an array or an index range whose body may end the run.\<close>

fun mapR :: "('a \<Rightarrow> 'b res) \<Rightarrow> 'a list \<Rightarrow> 'b list res" where
  "mapR f [] = Inr []"
| "mapR f (x # xs) = bnd (f x) (\<lambda>y. bnd (mapR f xs) (\<lambda>ys. Inr (y # ys)))"

fun foldR :: "('a \<Rightarrow> 's \<Rightarrow> 's res) \<Rightarrow> 'a list \<Rightarrow> 's \<Rightarrow> 's res" where
  "foldR f [] s = Inr s"
| "foldR f (x # xs) s = bnd (f x s) (foldR f xs)"

lemma mapR_cong [fundef_cong]:
  "xs = ys \<Longrightarrow> (\<And>x. x \<in> set ys \<Longrightarrow> f x = g x) \<Longrightarrow> mapR f xs = mapR g ys"
  by (induction ys arbitrary: xs) auto

lemma mapR_Inr: "(\<And>x. x \<in> set xs \<Longrightarrow> f x = Inr (g x)) \<Longrightarrow> mapR f xs = Inr (map g xs)"
  by (induction xs) auto

lemma mapR_InrD:
  "mapR f xs = Inr ys \<Longrightarrow> length ys = length xs \<and> (\<forall>i < length xs. f (xs ! i) = Inr (ys ! i))"
proof (induction xs arbitrary: ys)
  case Nil
  then show ?case by simp
next
  case (Cons x xs)
  then obtain y zs where "f x = Inr y" "mapR f xs = Inr zs" "ys = y # zs"
    by (auto simp: bnd_Inr_iff)
  with Cons.IH [of zs] show ?case by (auto simp: nth_Cons split: nat.splits)
qed

lemma foldR_append: "foldR f (xs @ ys) s = bnd (foldR f xs s) (foldR f ys)"
  by (induction xs arbitrary: s) (simp_all add: bnd_assoc bnd_def fun_eq_iff split: sum.splits)

lemma foldR_invariant:
  assumes "foldR f xs s = Inr t" and "P s"
    and "\<And>x s t. x \<in> set xs \<Longrightarrow> f x s = Inr t \<Longrightarrow> P s \<Longrightarrow> P t"
  shows "P t"
  using assms
proof (induction xs arbitrary: s)
  case Nil
  then show ?case by simp
next
  case (Cons x xs)
  then obtain u where "f x s = Inr u" "foldR f xs u = Inr t" by (auto simp: bnd_Inr_iff)
  with Cons show ?case by (metis list.set_intros)
qed

section \<open>C integers\<close>

text \<open>
  \<^verbatim>\<open>uint\<close>, \<^verbatim>\<open>ushort\<close> and \<^verbatim>\<open>uchar\<close> are words of 32, 16 and 8 bits, so their arithmetic wraps.
  A signed \<^verbatim>\<open>int\<close> is an \<open>int\<close> whose results are brought back into 32-bit two's complement
  by \<open>i32\<close>; C's \<^verbatim>\<open>/\<close> on them is \<open>sdiv\<close>, which truncates towards zero.
\<close>

type_synonym u8 = "8 word"
type_synonym u16 = "16 word"
type_synonym u32 = "32 word"

definition i32 :: "int \<Rightarrow> int" where
  "i32 x = (x + 2 ^ 31) mod 2 ^ 32 - 2 ^ 31"

definition is_i32 :: "int \<Rightarrow> bool" where
  "is_i32 x \<longleftrightarrow> - (2 ^ 31) \<le> x \<and> x < 2 ^ 31"

lemma i32_id [simp]: "is_i32 x \<Longrightarrow> i32 x = x"
  by (simp add: i32_def is_i32_def)

lemma is_i32_i32 [simp]: "is_i32 (i32 x)"
proof -
  have "0 \<le> (x + 2 ^ 31) mod 2 ^ 32" and "(x + 2 ^ 31) mod 2 ^ 32 < (2::int) ^ 32"
    by simp_all
  then show ?thesis by (simp add: i32_def is_i32_def)
qed

lemma i32_lower: "- (2 ^ 31) \<le> i32 x"
  using is_i32_i32 [of x] by (simp add: is_i32_def)

lemma i32_upper: "i32 x < 2 ^ 31"
  using is_i32_i32 [of x] by (simp add: is_i32_def)

lemma sdiv_nonneg: "0 \<le> a \<Longrightarrow> 0 < b \<Longrightarrow> a sdiv b = a div (b :: int)"
  by (cases "a = 0") (simp_all add: signed_divide_int_def)

section \<open>Arrays as lists\<close>

text \<open>
  A C array is a list of its elements. \<open>fetch\<close> and \<open>modify\<close> are the accesses \<^verbatim>\<open>a[i]\<close> and
  \<^verbatim>\<open>a[i] = f(a[i])\<close> with an \<^verbatim>\<open>int\<close> index: an index outside the array is a \<open>Fault\<close> that
  names it.
\<close>

definition in_range :: "int \<Rightarrow> 'a list \<Rightarrow> bool" where
  "in_range i xs \<longleftrightarrow> 0 \<le> i \<and> i < int (length xs)"

definition fetch :: "string \<Rightarrow> 'a list \<Rightarrow> int \<Rightarrow> 'a res" where
  "fetch what xs i = (if in_range i xs then Inr (xs ! nat i) else Inl (Fault what))"

definition modify :: "string \<Rightarrow> 'a list \<Rightarrow> int \<Rightarrow> ('a \<Rightarrow> 'a) \<Rightarrow> 'a list res" where
  "modify what xs i f =
     (if in_range i xs then Inr (xs[nat i := f (xs ! nat i)]) else Inl (Fault what))"

lemma in_range_int [simp]: "in_range (int n) xs \<longleftrightarrow> n < length xs"
  by (simp add: in_range_def)

lemma in_range_neg [simp]: "\<not> in_range (- 1) xs"
  by (simp add: in_range_def)

lemma in_range_nat: "in_range i xs \<Longrightarrow> nat i < length xs"
  by (auto simp: in_range_def)

lemma fetch_Inr_iff: "fetch w xs i = Inr x \<longleftrightarrow> in_range i xs \<and> x = xs ! nat i"
  by (auto simp: fetch_def)

lemma modify_Inr_iff:
  "modify w xs i f = Inr ys \<longleftrightarrow> in_range i xs \<and> ys = xs[nat i := f (xs ! nat i)]"
  by (auto simp: modify_def)

lemma modify_length: "modify w xs i f = Inr ys \<Longrightarrow> length ys = length xs"
  by (auto simp: modify_Inr_iff)

lemma modify_all:
  assumes "modify w xs i f = Inr ys" and "\<forall>x \<in> set xs. P x"
    and "in_range i xs \<Longrightarrow> P (f (xs ! nat i))"
  shows "\<forall>y \<in> set ys. P y"
  using assms set_update_subset_insert [of xs "nat i" "f (xs ! nat i)"]
  by (auto simp: modify_Inr_iff)

text \<open>
  The loop \<^verbatim>\<open>for(i = 0; i < N; i++) if(P(a[i])) ... break\<close> that looks for the first element
  satisfying a condition.
\<close>

fun first_idx :: "('a \<Rightarrow> bool) \<Rightarrow> 'a list \<Rightarrow> nat option" where
  "first_idx P [] = None"
| "first_idx P (x # xs) = (if P x then Some 0 else map_option Suc (first_idx P xs))"

lemma first_idx_None_iff: "first_idx P xs = None \<longleftrightarrow> (\<forall>x \<in> set xs. \<not> P x)"
  by (induction xs) auto

lemma first_idx_SomeD:
  "first_idx P xs = Some i \<Longrightarrow> i < length xs \<and> P (xs ! i) \<and> (\<forall>j < i. \<not> P (xs ! j))"
proof (induction xs arbitrary: i)
  case Nil
  then show ?case by simp
next
  case (Cons x xs)
  show ?case
  proof (cases "P x")
    case True
    with Cons.prems show ?thesis by simp
  next
    case False
    with Cons.prems obtain k where k: "first_idx P xs = Some k" and i: "i = Suc k"
      by auto
    from Cons.IH [OF k] False show ?thesis
      by (auto simp: i nth_Cons split: nat.splits)
  qed
qed

lemma first_idx_SomeI:
  assumes "i < length xs" and "P (xs ! i)" and "\<And>j. j < i \<Longrightarrow> \<not> P (xs ! j)"
  shows "first_idx P xs = Some i"
proof (cases "first_idx P xs")
  case None
  with assms show ?thesis by (auto simp: first_idx_None_iff)
next
  case (Some k)
  from first_idx_SomeD [OF Some] assms have "k = i"
    by (metis linorder_neqE_nat)
  with Some show ?thesis by simp
qed

lemma first_idx_Some_iff:
  "first_idx P xs = Some i \<longleftrightarrow> i < length xs \<and> P (xs ! i) \<and> (\<forall>j < i. \<not> P (xs ! j))"
  using first_idx_SomeD [of P xs i] first_idx_SomeI [of i xs P] by blast

lemma first_idx_False [simp]: "first_idx (\<lambda>_. False) xs = None"
  by (simp add: first_idx_None_iff)

lemma first_idx_cong:
  "(\<And>x. x \<in> set xs \<Longrightarrow> P x = Q x) \<Longrightarrow> first_idx P xs = first_idx Q xs"
  by (induction xs) auto

text \<open>
  The kernel's slot allocators (process table, file table, descriptor table, container
  table) share one contract: scan for the first free entry, mark it used, leave the other
  entries alone. \<open>alloc\<close> returns the entry's index and the new table.
\<close>

locale slot_alloc =
  fixes free :: "'e \<Rightarrow> bool" and alloc :: "'e list \<Rightarrow> (nat \<times> 'e list) option"
  assumes alloc_None: "alloc tab = None \<longleftrightarrow> (\<forall>e \<in> set tab. \<not> free e)"
    and alloc_first: "alloc tab = Some (i, tab') \<Longrightarrow> first_idx free tab = Some i"
    and alloc_upd: "alloc tab = Some (i, tab') \<Longrightarrow> \<exists>e. \<not> free e \<and> tab' = tab[i := e]"
begin

lemma alloc_other:
  assumes "alloc tab = Some (i, tab')" and "j \<noteq> i"
  shows "tab' ! j = tab ! j"
  using alloc_upd [OF assms(1)] assms(2) by auto

lemma alloc_length: "alloc tab = Some (i, tab') \<Longrightarrow> length tab' = length tab"
  by (drule alloc_upd) auto

lemma alloc_free:
  assumes "alloc tab = Some (i, tab')"
  shows "i < length tab" and "free (tab ! i)" and "\<not> free (tab' ! i)"
  using alloc_upd [OF assms] first_idx_SomeD [OF alloc_first [OF assms]] by auto

lemma alloc_count:
  assumes a: "alloc tab = Some (i, tab')"
  shows "length (filter free tab) = Suc (length (filter free tab'))"
proof -
  note i = alloc_free [OF a]
  obtain e where e: "\<not> free e" and t: "tab' = tab[i := e]"
    using alloc_upd [OF a] by blast
  have "tab' = take i tab @ e # drop (Suc i) tab"
    unfolding t using i(1) by (rule upd_conv_take_nth_drop)
  then have "length (filter free tab')
      = length (filter free (take i tab)) + length (filter free (drop (Suc i) tab))"
    using e by simp
  moreover have "tab = take i tab @ tab ! i # drop (Suc i) tab"
    using i(1) by (rule id_take_nth_drop)
  then have "length (filter free tab)
      = length (filter free (take i tab @ tab ! i # drop (Suc i) tab))"
    by (rule arg_cong)
  ultimately show ?thesis using i(2) by simp
qed

lemma alloc_progress: "\<exists>e \<in> set tab. free e \<Longrightarrow> \<exists>i tab'. alloc tab = Some (i, tab')"
  using alloc_None [of tab] by (cases "alloc tab") auto

fun alloc_many :: "nat \<Rightarrow> 'e list \<Rightarrow> nat list \<times> 'e list" where
  "alloc_many 0 tab = ([], tab)"
| "alloc_many (Suc n) tab =
     (case alloc tab of
        None \<Rightarrow> ([], tab)
      | Some (i, tab') \<Rightarrow> (let (is, tab'') = alloc_many n tab' in (i # is, tab'')))"

lemma alloc_many_free:
  "alloc_many n tab = (is, tab') \<Longrightarrow> i \<in> set is \<Longrightarrow> i < length tab \<and> free (tab ! i)"
proof (induction n arbitrary: tab "is" tab')
  case 0
  then show ?case by simp
next
  case (Suc n)
  show ?case
  proof (cases "alloc tab")
    case None
    with Suc.prems show ?thesis by simp
  next
    case (Some p)
    obtain k tab1 where p: "p = (k, tab1)" by (cases p)
    note al = Some [unfolded p]
    obtain js tab2 where m: "alloc_many n tab1 = (js, tab2)" by fastforce
    from Suc.prems(1) al m have iss: "is = k # js" by simp
    from Suc.prems(2) iss consider "i = k" | "i \<in> set js" by auto
    then show ?thesis
    proof cases
      case 1
      with alloc_free [OF al] show ?thesis by simp
    next
      case 2
      from Suc.IH [OF m 2] have i: "i < length tab1" "free (tab1 ! i)" by simp_all
      then have "i \<noteq> k" using alloc_free(3) [OF al] by auto
      with i alloc_length [OF al] alloc_other [OF al] show ?thesis by simp
    qed
  qed
qed

text \<open>Successive allocations never hand out one entry twice, and succeed exactly as often
  as there are free entries.\<close>

lemma alloc_many_distinct: "alloc_many n tab = (is, tab') \<Longrightarrow> distinct is"
proof (induction n arbitrary: tab "is" tab')
  case 0
  then show ?case by simp
next
  case (Suc n)
  show ?case
  proof (cases "alloc tab")
    case None
    with Suc.prems show ?thesis by simp
  next
    case (Some p)
    obtain k tab1 where p: "p = (k, tab1)" by (cases p)
    note al = Some [unfolded p]
    obtain js tab2 where m: "alloc_many n tab1 = (js, tab2)" by fastforce
    from Suc.prems al m have iss: "is = k # js" by simp
    have "k \<notin> set js"
      using alloc_many_free [OF m] alloc_free(3) [OF al] by blast
    with Suc.IH [OF m] iss show ?thesis by simp
  qed
qed

lemma alloc_many_other: "alloc_many n tab = (is, tab') \<Longrightarrow> i \<notin> set is \<Longrightarrow> tab' ! i = tab ! i"
proof (induction n arbitrary: tab "is")
  case 0
  then show ?case by simp
next
  case (Suc n)
  show ?case
  proof (cases "alloc tab")
    case None
    with Suc.prems show ?thesis by simp
  next
    case (Some p)
    obtain k tab1 where p: "p = (k, tab1)" by (cases p)
    note al = Some [unfolded p]
    obtain js tab2 where m: "alloc_many n tab1 = (js, tab2)" by fastforce
    with Suc.IH [of tab1 js] Suc.prems al alloc_other [OF al, of i] show ?thesis by auto
  qed
qed

lemma alloc_many_mark:
  assumes mark: "\<And>tab i tab'. alloc tab = Some (i, tab') \<Longrightarrow> P (tab' ! i)"
  shows "alloc_many n tab = (is, tab') \<Longrightarrow> i \<in> set is \<Longrightarrow> P (tab' ! i)"
proof (induction n arbitrary: tab "is")
  case 0
  then show ?case by simp
next
  case (Suc n)
  show ?case
  proof (cases "alloc tab")
    case None
    with Suc.prems show ?thesis by simp
  next
    case (Some p)
    obtain k tab1 where p: "p = (k, tab1)" by (cases p)
    note al = Some [unfolded p]
    obtain js tab2 where m: "alloc_many n tab1 = (js, tab2)" by fastforce
    from Suc.prems al m have iss: "is = k # js" "tab' = tab2" by auto
    show ?thesis
    proof (cases "i \<in> set js")
      case True
      with Suc.IH [of tab1 js] m iss show ?thesis by simp
    next
      case False
      then have "i = k" "tab2 ! i = tab1 ! i" using Suc.prems(2) iss alloc_many_other [OF m] by auto
      with mark [OF al] iss show ?thesis by simp
    qed
  qed
qed

lemma alloc_many_length:
  "length (fst (alloc_many n tab)) = min n (length (filter free tab))"
proof (induction n arbitrary: tab)
  case 0
  then show ?case by simp
next
  case (Suc n)
  show ?case
  proof (cases "alloc tab")
    case None
    then have "filter free tab = []" by (simp add: alloc_None filter_empty_conv)
    with None show ?thesis by simp
  next
    case (Some p)
    obtain k tab1 where p: "p = (k, tab1)" by (cases p)
    note al = Some [unfolded p]
    from Suc.IH [of tab1] alloc_count [OF al] al show ?thesis
      by (simp add: split_beta)
  qed
qed

end

text \<open>An allocator that marks the first free entry meets the contract.\<close>

lemma slot_allocI:
  assumes "\<And>e. \<not> free (mark e)"
    and "\<And>tab. alloc tab = (case first_idx free tab of None \<Rightarrow> None | Some i \<Rightarrow> Some (i, tab[i := mark (tab ! i)]))"
  shows "slot_alloc free alloc"
proof unfold_locales
  show "alloc tab = None \<longleftrightarrow> (\<forall>e \<in> set tab. \<not> free e)" for tab
    unfolding first_idx_None_iff [symmetric] by (simp add: assms(2) split: option.split)
qed (use assms in \<open>auto split: option.splits\<close>)

lemma sint_small: "unat (w :: u32) < 2 ^ 31 \<Longrightarrow> sint w = int (unat w)"
proof -
  assume *: "unat w < 2 ^ 31"
  have "uint w = int (unat w)" by simp
  then have "sint w = signed_take_bit 31 (int (unat w))" by (simp only: sint_uint) simp
  also have "\<dots> = int (unat w)"
  proof (rule signed_take_bit_int_eq_self)
    have "- (2 ^ 31) \<le> int n \<and> int n < 2 ^ 31" if "n < 2 ^ 31" for n using that by simp
    from this [OF *] show "- (2 ^ 31) \<le> int (unat w)" "int (unat w) < 2 ^ 31" by blast+
  qed
  finally show ?thesis .
qed

end
