(* ===== verification/CString.thy ===== *)
theory CString
  imports Prelude
begin

text \<open>
  The byte and string routines of \<^verbatim>\<open>string.c\<close> (kernel) and \<^verbatim>\<open>ulib.c\<close> (user library), and the
  copies of \<^verbatim>\<open>strcmp\<close> that \<^verbatim>\<open>container.c\<close>, \<^verbatim>\<open>proc.c\<close> and \<^verbatim>\<open>file.c\<close> carry.

  The block routines work on a memory \<open>nat \<Rightarrow> u8\<close> addressed by naturals, so that overlapping
  arguments share cells. The string routines read through a \<^verbatim>\<open>char *\<close> that is the list of the
  characters from the pointer on: \<^verbatim>\<open>*p\<close> is \<open>deref p\<close>, \<^verbatim>\<open>p++\<close> is \<open>tl p\<close>, and a list that is
  used up stands at its terminating NUL. A routine that writes a string returns the
  characters it stores, in order; the caller places them in the destination array.
\<close>

section \<open>Blocks of memory\<close>

type_synonym mem = "nat \<Rightarrow> u8"

fun stosb :: "mem \<Rightarrow> nat \<Rightarrow> u8 \<Rightarrow> nat \<Rightarrow> mem" where
  "stosb m d c 0 = m"
| "stosb m d c (Suc n) = stosb (m(d := c)) (d + 1) c n"

text \<open>\<^verbatim>\<open>rep stosl\<close> stores a little-endian word at each step.\<close>

fun stosl :: "mem \<Rightarrow> nat \<Rightarrow> u32 \<Rightarrow> nat \<Rightarrow> mem" where
  "stosl m d w 0 = m"
| "stosl m d w (Suc n) =
     stosl (m(d := ucast w, d + 1 := ucast (drop_bit 8 w), d + 2 := ucast (drop_bit 16 w),
              d + 3 := ucast (drop_bit 24 w))) (d + 4) w n"

unbundle bit_operations_syntax

definition memset :: "mem \<Rightarrow> nat \<Rightarrow> u32 \<Rightarrow> nat \<Rightarrow> mem" where
  "memset m dst c n =
     (if dst mod 4 = 0 \<and> n mod 4 = 0
      then (let c = c AND 0xFF
            in stosl m dst (push_bit 24 c OR push_bit 16 c OR push_bit 8 c OR c) (n div 4))
      else stosb m dst (ucast c) n)"

fun memcmp :: "mem \<Rightarrow> nat \<Rightarrow> nat \<Rightarrow> nat \<Rightarrow> int" where
  "memcmp m s1 s2 0 = 0"
| "memcmp m s1 s2 (Suc n) =
     (if m s1 \<noteq> m s2 then uint (m s1) - uint (m s2) else memcmp m (s1 + 1) (s2 + 1) n)"

fun copy_up :: "mem \<Rightarrow> nat \<Rightarrow> nat \<Rightarrow> nat \<Rightarrow> mem" where
  "copy_up m d s 0 = m"
| "copy_up m d s (Suc n) = copy_up (m(d := m s)) (d + 1) (s + 1) n"

fun copy_down :: "mem \<Rightarrow> nat \<Rightarrow> nat \<Rightarrow> nat \<Rightarrow> mem" where
  "copy_down m d s 0 = m"
| "copy_down m d s (Suc n) = copy_down (m(d - 1 := m (s - 1))) (d - 1) (s - 1) n"

definition memmove :: "mem \<Rightarrow> nat \<Rightarrow> nat \<Rightarrow> nat \<Rightarrow> mem" where
  "memmove m dst src n =
     (if src < dst \<and> src + n > dst then copy_down m (dst + n) (src + n) n
      else copy_up m dst src n)"

section \<open>Strings\<close>

abbreviation NUL :: char where "NUL \<equiv> CHR 0x00"

definition deref :: "string \<Rightarrow> char" where
  "deref p = (case p of [] \<Rightarrow> NUL | c # _ \<Rightarrow> c)"

definition uchar :: "char \<Rightarrow> int" where
  "uchar c = of_char c"

text \<open>The string a pointer denotes: what comes before the first NUL.\<close>

definition cstr :: "string \<Rightarrow> string" where
  "cstr p = takeWhile (\<lambda>c. c \<noteq> NUL) p"

function strcmp :: "string \<Rightarrow> string \<Rightarrow> int" where
  "strcmp p q =
     (if deref p \<noteq> NUL \<and> deref p = deref q then strcmp (tl p) (tl q)
      else uchar (deref p) - uchar (deref q))"
  by pat_completeness auto
termination
  by (relation "measure (\<lambda>(p, q). length p)") (auto simp: deref_def split: list.splits)

function strncmp :: "string \<Rightarrow> string \<Rightarrow> nat \<Rightarrow> int" where
  "strncmp p q n =
     (if n > 0 \<and> deref p \<noteq> NUL \<and> deref p = deref q then strncmp (tl p) (tl q) (n - 1)
      else if n = 0 then 0 else uchar (deref p) - uchar (deref q))"
  by pat_completeness auto
termination
  by (relation "measure (\<lambda>(p, q, n). n)") auto

function strlen :: "string \<Rightarrow> nat" where
  "strlen s = (if deref s \<noteq> NUL then 1 + strlen (tl s) else 0)"
  by pat_completeness auto
termination
  by (relation "measure length") (auto simp: deref_def split: list.splits)

text \<open>\<^verbatim>\<open>while((*s++ = *t++) != 0)\<close>: the terminator is stored too.\<close>

function strcpy :: "string \<Rightarrow> string" where
  "strcpy t = (if deref t \<noteq> NUL then deref t # strcpy (tl t) else [NUL])"
  by pat_completeness auto
termination
  by (relation "measure length") (auto simp: deref_def split: list.splits)

text \<open>
  \<^verbatim>\<open>strncpy\<close> runs two loops over the same counter. The first returns what it stored and
  the counter it left, which is one less than the number of bytes still to fill.
\<close>

function strncpy_copy :: "string \<Rightarrow> int \<Rightarrow> string \<times> int" where
  "strncpy_copy t n =
     (if n > 0
      then (if deref t \<noteq> NUL
            then (let (w, n') = strncpy_copy (tl t) (n - 1) in (deref t # w, n'))
            else ([NUL], n - 1))
      else ([], n - 1))"
  by pat_completeness auto
termination
  by (relation "measure (\<lambda>(t, n). nat n)") auto

function strncpy_pad :: "int \<Rightarrow> string" where
  "strncpy_pad n = (if n > 0 then NUL # strncpy_pad (n - 1) else [])"
  by pat_completeness auto
termination
  by (relation "measure nat") auto

definition strncpy :: "string \<Rightarrow> int \<Rightarrow> string" where
  "strncpy t n = (let (w, n') = strncpy_copy t n in w @ strncpy_pad n')"

text \<open>\<^verbatim>\<open>safestrcpy\<close> stores one more NUL behind a terminator it copied.\<close>

function safestrcpy_copy :: "string \<Rightarrow> int \<Rightarrow> string" where
  "safestrcpy_copy t n =
     (if n - 1 > 0
      then (if deref t \<noteq> NUL then deref t # safestrcpy_copy (tl t) (n - 1) else [NUL, NUL])
      else [NUL])"
  by pat_completeness auto
termination
  by (relation "measure (\<lambda>(t, n). nat n)") auto

definition safestrcpy :: "string \<Rightarrow> int \<Rightarrow> string" where
  "safestrcpy t n = (if n \<le> 0 then [] else safestrcpy_copy t n)"

function strchr :: "string \<Rightarrow> char \<Rightarrow> string option" where
  "strchr s c =
     (if deref s \<noteq> NUL then (if deref s = c then Some s else strchr (tl s) c) else None)"
  by pat_completeness auto
termination
  by (relation "measure (\<lambda>(s, c). length s)") (auto simp: deref_def split: list.splits)

section \<open>Numbers\<close>

function atoi_loop :: "string \<Rightarrow> int \<Rightarrow> int" where
  "atoi_loop s n =
     (if uchar (CHR ''0'') \<le> uchar (deref s) \<and> uchar (deref s) \<le> uchar (CHR ''9'')
      then atoi_loop (tl s) (i32 (n * 10 + uchar (deref s) - uchar (CHR ''0'')))
      else n)"
  by pat_completeness auto
termination
  by (relation "measure (\<lambda>(s, n). length s)")
    (auto simp: deref_def uchar_def split: list.splits)

definition atoi :: "string \<Rightarrow> int" where
  "atoi s = atoi_loop s 0"

definition itoa_digit :: "nat \<Rightarrow> char" where
  "itoa_digit i =
     (if i < 10 then char_of (i + of_char (CHR ''0'')) else char_of (i + of_char (CHR ''a'') - 10))"

text \<open>
  The digits are produced from the least significant one into \<^verbatim>\<open>tmp[16]\<close>; \<open>tmp\<close> holds
  them last first. A seventeenth digit would be stored outside the array.
\<close>

function itoa_digits :: "nat \<Rightarrow> nat \<Rightarrow> string \<Rightarrow> string res" where
  "itoa_digits radix v tmp =
     (if v \<noteq> 0 \<or> tmp = []
      then (if radix = 0 then Inl (Fault ''division by zero'')
            else if length tmp < 16
            then itoa_digits radix (v div radix) (itoa_digit (v mod radix) # tmp)
            else Inl (Fault ''tmp''))
      else Inr tmp)"
  by pat_completeness auto
termination
  by (relation "measure (\<lambda>(radix, v, tmp). 16 - length tmp)") auto

text \<open>
  \<open>sp\<close> is the array behind the pointer. The characters go over its front and what follows them stays:
  no terminator is stored. The result is the number of characters and the array.
\<close>

definition itoa :: "int \<Rightarrow> string \<Rightarrow> nat \<Rightarrow> (int \<times> string) res" where
  "itoa value sp radix =
     (let sign = (radix = 10 \<and> value < 0);
          v = (if sign then unat (word_of_int (- value) :: u32) else unat (word_of_int value :: u32))
      in bnd (itoa_digits radix v []) (\<lambda>ds.
           let out = (if sign then [CHR ''-''] else []) @ ds
           in if length out \<le> length sp then Inr (int (length out), out @ drop (length out) sp)
              else Inl (Fault ''itoa'')))"

declare strcmp.simps [simp del] strncmp.simps [simp del] strlen.simps [simp del]
  strcpy.simps [simp del] strncpy_copy.simps [simp del] strncpy_pad.simps [simp del]
  safestrcpy_copy.simps [simp del] strchr.simps [simp del] atoi_loop.simps [simp del]
  itoa_digits.simps [simp del]

section \<open>Block routines\<close>

definition fill :: "mem \<Rightarrow> nat \<Rightarrow> u8 \<Rightarrow> nat \<Rightarrow> mem" where
  "fill m d c n = (\<lambda>a. if d \<le> a \<and> a < d + n then c else m a)"

lemma fill_0 [simp]: "fill m d c 0 = m"
  by (auto simp: fill_def fun_eq_iff)

lemma fill_split: "fill (fill m d c k) (d + k) c n = fill m d c (k + n)"
  by (auto simp: fill_def fun_eq_iff)

lemma stosb_fill: "stosb m d c n = fill m d c n"
proof (induction n arbitrary: m d)
  case (Suc n)
  have "m(d := c) = fill m d c 1" by (auto simp: fill_def)
  with Suc.IH [of "m(d := c)" "d + 1"] show ?case by (simp add: fill_split [of m d c 1, simplified])
qed simp

lemma repeated_byte:
  fixes c :: u32
  defines "w \<equiv> push_bit 24 (c AND 0xFF) OR push_bit 16 (c AND 0xFF) OR push_bit 8 (c AND 0xFF)
    OR (c AND 0xFF)"
  shows "(ucast w :: u8) = ucast c" and "(ucast (drop_bit 8 w) :: u8) = ucast c"
    and "(ucast (drop_bit 16 w) :: u8) = ucast c" and "(ucast (drop_bit 24 w) :: u8) = ucast c"
proof -
  have mask: "(0xFF :: u32) = mask 8" by (simp add: mask_eq_exp_minus_1)
  show "(ucast w :: u8) = ucast c" "(ucast (drop_bit 8 w) :: u8) = ucast c"
    "(ucast (drop_bit 16 w) :: u8) = ucast c" "(ucast (drop_bit 24 w) :: u8) = ucast c"
    unfolding w_def mask
    by (intro bit_word_eqI; auto simp: bit_simps)+
qed

lemma stosl_fill:
  assumes "(ucast w :: u8) = c" and "(ucast (drop_bit 8 w) :: u8) = c"
    and "(ucast (drop_bit 16 w) :: u8) = c" and "(ucast (drop_bit 24 w) :: u8) = c"
  shows "stosl m d w n = fill m d c (4 * n)"
proof (induction n arbitrary: m d)
  case (Suc n)
  have "m(d := c, d + 1 := c, d + 2 := c, d + 3 := c) = fill m d c 4"
    by (auto simp: fill_def fun_eq_iff)
  with Suc.IH [of "fill m d c 4" "d + 4"] show ?case
    by (simp add: assms fill_split)
qed simp

lemma memset_eq_fill: "memset m dst c n = fill m dst (ucast c) n"
proof (cases "dst mod 4 = 0 \<and> n mod 4 = 0")
  case True
  then have "4 * (n div 4) = n" by auto
  with True show ?thesis
    unfolding memset_def Let_def if_P [OF True] stosl_fill [OF repeated_byte] by simp
next
  case False
  show ?thesis unfolding memset_def if_not_P [OF False] by (rule stosb_fill)
qed

definition moved :: "mem \<Rightarrow> nat \<Rightarrow> nat \<Rightarrow> nat \<Rightarrow> mem" where
  "moved m d s n = (\<lambda>a. if d \<le> a \<and> a < d + n then m (s + (a - d)) else m a)"

lemma copy_up_moved: "d \<le> s \<or> s + n \<le> d \<Longrightarrow> copy_up m d s n = moved m d s n"
proof (induction n arbitrary: m d s)
  case 0
  then show ?case by (auto simp: moved_def fun_eq_iff)
next
  case (Suc n)
  then have "d + 1 \<le> s + 1 \<or> s + 1 + n \<le> d + 1" by auto
  from Suc.IH [OF this, of "m(d := m s)"] have "copy_up m d s (Suc n) = moved (m(d := m s)) (d + 1) (s + 1) n"
    by (simp only: copy_up.simps)
  also have "\<dots> = moved m d s (Suc n)"
    using Suc.prems by (auto simp: moved_def fun_eq_iff Suc_diff_Suc)
  finally show ?case .
qed

lemma copy_down_moved: "s \<le> d \<Longrightarrow> copy_down m (d + n) (s + n) n = moved m d s n"
proof (induction n arbitrary: m)
  case 0
  then show ?case by (auto simp: moved_def fun_eq_iff)
next
  case (Suc n)
  then have "copy_down (m(d + n := m (s + n))) (d + n) (s + n) n
      = moved (m(d + n := m (s + n))) d s n"
    by auto
  with Suc.prems show ?case by (auto simp: moved_def fun_eq_iff)
qed

text \<open>C10: \<open>memmove\<close> copies the \<open>n\<close> bytes at \<open>src\<close> as they were before the call to \<open>dst\<close> and
  changes no other byte, however the two ranges overlap: copying downwards when the
  destination starts inside the source is exactly what makes the loop safe.\<close>

theorem memmove_correct:
  "memmove m dst src n a = (if dst \<le> a \<and> a < dst + n then m (src + (a - dst)) else m a)"
proof (cases "src < dst \<and> src + n > dst")
  case True
  then have "memmove m dst src n = moved m dst src n"
    by (simp add: memmove_def copy_down_moved)
  then show ?thesis by (simp add: moved_def)
next
  case False
  then have "dst \<le> src \<or> src + n \<le> dst" by linarith
  then have "memmove m dst src n = moved m dst src n"
    unfolding memmove_def if_not_P [OF False] by (rule copy_up_moved)
  then show ?thesis by (simp add: moved_def)
qed

text \<open>\<open>memset\<close> stores the low byte of its argument in exactly the \<open>n\<close> bytes from \<open>dst\<close> on,
  on the aligned path that stores whole words as on the path that stores bytes.\<close>

theorem memset_correct:
  "memset m dst c n a = (if dst \<le> a \<and> a < dst + n then ucast c else m a)"
  by (simp add: memset_eq_fill fill_def)

lemma memcmp_zero_iff: "memcmp m s1 s2 n = 0 \<longleftrightarrow> (\<forall>i < n. m (s1 + i) = m (s2 + i))"
proof (induction n arbitrary: s1 s2)
  case 0
  then show ?case by simp
next
  case (Suc n)
  have "(\<forall>i < Suc n. m (s1 + i) = m (s2 + i)) \<longleftrightarrow>
      m s1 = m s2 \<and> (\<forall>i < n. m (Suc s1 + i) = m (Suc s2 + i))"
    by (simp add: All_less_Suc2)
  with Suc.IH [of "s1 + 1" "s2 + 1"] show ?case by (simp add: word_uint_eq_iff)
qed

section \<open>String routines\<close>

lemma deref_Nil [simp]: "deref [] = NUL"
  by (simp add: deref_def)

lemma deref_Cons [simp]: "deref (c # p) = c"
  by (simp add: deref_def)

lemma cstr_Nil [simp]: "cstr [] = []"
  by (simp add: cstr_def)

lemma cstr_Cons [simp]: "cstr (c # p) = (if c = NUL then [] else c # cstr p)"
  by (simp add: cstr_def)

lemma cstr_deref_NUL: "deref p = NUL \<longleftrightarrow> cstr p = []"
  by (cases p) auto

lemma cstr_step: "deref p \<noteq> NUL \<Longrightarrow> cstr p = deref p # cstr (tl p)"
  by (cases p) auto

lemma NUL_notin_cstr [simp]: "NUL \<notin> set (cstr p)"
  by (induction p) auto

lemma cstr_id [simp]: "NUL \<notin> set p \<Longrightarrow> cstr p = p"
  by (induction p) auto

lemma cstr_append_NUL: "cstr (cstr p @ NUL # r) = cstr p"
  by (induction p) auto

lemma cstr_take [simp]: "cstr (take n (cstr p)) = take n (cstr p)"
  by (rule cstr_id) (meson NUL_notin_cstr in_set_takeD)

lemma uchar_eq_iff [simp]: "uchar c = uchar d \<longleftrightarrow> c = d"
  by (simp add: uchar_def)

lemma strcmp_zero_iff [simp]: "strcmp p q = 0 \<longleftrightarrow> cstr p = cstr q"
proof (induction p q rule: strcmp.induct)
  case (1 p q)
  show ?case
  proof (cases "deref p \<noteq> NUL \<and> deref p = deref q")
    case True
    then have "cstr p = deref p # cstr (tl p)" and "cstr q = deref p # cstr (tl q)"
      using cstr_step [of p] cstr_step [of q] by force+
    moreover have "strcmp p q = strcmp (tl p) (tl q)"
      by (subst strcmp.simps) (rule if_P [OF True])
    ultimately show ?thesis using 1 [OF True] by simp
  next
    case False
    then show ?thesis
      by (subst strcmp.simps) (cases p; cases q; auto)
  qed
qed

lemma strncmp_zero_iff [simp]: "strncmp p q n = 0 \<longleftrightarrow> take n (cstr p) = take n (cstr q)"
proof (induction p q n rule: strncmp.induct)
  case (1 p q n)
  show ?case
  proof (cases "n > 0 \<and> deref p \<noteq> NUL \<and> deref p = deref q")
    case True
    then have "cstr p = deref p # cstr (tl p)" and "cstr q = deref p # cstr (tl q)"
      using cstr_step [of p] cstr_step [of q] by force+
    moreover from True obtain k where n: "n = Suc k" by (cases n) auto
    moreover have "strncmp p q n = strncmp (tl p) (tl q) (n - 1)"
      by (subst strncmp.simps) (rule if_P [OF True])
    ultimately show ?thesis using 1 [OF True] by simp
  next
    case False
    then show ?thesis
      by (subst strncmp.simps) (cases n; cases p; cases q; auto)
  qed
qed

lemma strlen_cstr [simp]: "strlen s = length (cstr s)"
proof (induction s rule: strlen.induct)
  case (1 s)
  then show ?case by (subst strlen.simps) (auto simp: cstr_step cstr_deref_NUL)
qed

lemma strcpy_cstr [simp]: "strcpy t = cstr t @ [NUL]"
proof (induction t rule: strcpy.induct)
  case (1 t)
  then show ?case by (subst strcpy.simps) (auto simp: cstr_step cstr_deref_NUL)
qed

lemma strncpy_pad_replicate [simp]: "strncpy_pad n = replicate (nat n) NUL"
proof (induction n rule: strncpy_pad.induct)
  case (1 n)
  show ?case
  proof (cases "n > 0")
    case True
    then have "nat n = Suc (nat (n - 1))" by linarith
    with True 1 show ?thesis by (simp add: strncpy_pad.simps [of n])
  next
    case False
    then show ?thesis by (simp add: strncpy_pad.simps [of n])
  qed
qed

lemma strncpy_copy_cases:
  assumes "0 \<le> n"
  shows "strncpy_copy t n =
    (if length (cstr t) < nat n then (cstr t @ [NUL], n - int (length (cstr t)) - 1)
     else (take (nat n) (cstr t), - 1))"
  using assms
proof (induction t n rule: strncpy_copy.induct)
  case (1 t n)
  show ?case
  proof (cases "n > 0 \<and> deref t \<noteq> NUL")
    case True
    then have nat: "nat n = Suc (nat (n - 1))" by linarith
    from True 1 have "strncpy_copy (tl t) (n - 1) =
      (if length (cstr (tl t)) < nat (n - 1)
       then (cstr (tl t) @ [NUL], n - 1 - int (length (cstr (tl t))) - 1)
       else (take (nat (n - 1)) (cstr (tl t)), - 1))"
      by simp
    with True show ?thesis
      by (simp add: strncpy_copy.simps [of t n] cstr_step nat)
  next
    case False
    with 1 show ?thesis
      by (auto simp: strncpy_copy.simps [of t n] cstr_deref_NUL)
  qed
qed

lemma strncpy_cut:
  assumes "0 \<le> n"
  shows "strncpy t n = take (nat n) (cstr t) @ replicate (nat n - length (cstr t)) NUL"
proof (cases "length (cstr t) < nat n")
  case True
  then have "nat n - length (cstr t) = Suc (nat (n - int (length (cstr t)) - 1))"
    using assms by linarith
  with True assms show ?thesis
    by (simp add: strncpy_def strncpy_copy_cases)
next
  case False
  with assms show ?thesis by (simp add: strncpy_def strncpy_copy_cases)
qed

text \<open>\<open>strncpy\<close> with a count of at least 0 stores exactly that many characters: the source
  string cut to the count, then NULs. The second loop fills what the first left, although
  both decrement the same counter in their test.\<close>

theorem strncpy_correct:
  assumes "0 \<le> n"
  shows "strncpy t n = take (nat n) (cstr t) @ replicate (nat n - length (cstr t)) NUL
    \<and> length (strncpy t n) = nat n"
  using assms by (simp add: strncpy_cut)

theorem strncpy_correct_witness:
  "(0::int) \<le> 4 \<and> strncpy ''ab'' 4 = ''ab'' @ [NUL, NUL] \<and> length (strncpy ''ab'' 4) = 4"
  using strncpy_correct [of 4 "''ab''"] by (simp add: numeral_eq_Suc)

lemma length_strncpy [simp]: "0 \<le> n \<Longrightarrow> length (strncpy t n) = nat n"
  by (simp add: strncpy_cut)

lemma cstr_append_NULs: "NUL \<notin> set p \<Longrightarrow> cstr (p @ replicate k NUL) = p"
proof (induction p)
  case Nil
  then show ?case by (cases k) auto
qed auto

lemma cstr_strncpy:
  assumes "0 \<le> n"
  shows "cstr (strncpy t n) = take (nat n) (cstr t)"
proof -
  have "NUL \<notin> set (take (nat n) (cstr t))"
    by (meson NUL_notin_cstr in_set_takeD)
  from cstr_append_NULs [OF this] show ?thesis unfolding strncpy_cut [OF assms] .
qed

lemma safestrcpy_copy_spec:
  "0 < n \<Longrightarrow> length (safestrcpy_copy t n) \<le> nat n
     \<and> (\<exists>r. safestrcpy_copy t n = take (nat (n - 1)) (cstr t) @ NUL # r)"
proof (induction t n rule: safestrcpy_copy.induct)
  case (1 t n)
  show ?case
  proof (cases "n - 1 > 0 \<and> deref t \<noteq> NUL")
    case True
    then have n: "nat (n - 1) = Suc (nat (n - 1 - 1))" by linarith
    from True "1.IH" obtain r where
      r: "safestrcpy_copy (tl t) (n - 1) = take (nat (n - 1 - 1)) (cstr (tl t)) @ NUL # r"
      and l: "length (safestrcpy_copy (tl t) (n - 1)) \<le> nat (n - 1)"
      by auto
    have "safestrcpy_copy t n = deref t # safestrcpy_copy (tl t) (n - 1)"
      using True by (simp add: safestrcpy_copy.simps [of t n])
    moreover have "Suc (nat (n - 1)) = nat n" using True by linarith
    ultimately show ?thesis using True r l by (auto simp: cstr_step n)
  next
    case False
    with "1.prems" show ?thesis
      by (auto simp: safestrcpy_copy.simps [of t n] cstr_deref_NUL)
  qed
qed

lemma cstr_prefix_NUL: "NUL \<notin> set p \<Longrightarrow> cstr (p @ NUL # r) = p"
  by (induction p) auto

text \<open>\<open>safestrcpy\<close> into an array of \<open>n > 0\<close> characters stays inside the array and leaves a
  terminated string there: the source cut to \<open>n - 1\<close> characters.\<close>

theorem safestrcpy_correct:
  assumes "0 < n"
  shows "length (safestrcpy t n) \<le> nat n \<and> NUL \<in> set (safestrcpy t n)
    \<and> cstr (safestrcpy t n) = take (nat (n - 1)) (cstr t)"
proof -
  from safestrcpy_copy_spec [OF assms, of t] obtain r where
    l: "length (safestrcpy_copy t n) \<le> nat n"
    and r: "safestrcpy_copy t n = take (nat (n - 1)) (cstr t) @ NUL # r"
    by blast
  have "NUL \<notin> set (take (nat (n - 1)) (cstr t))"
    by (meson NUL_notin_cstr in_set_takeD)
  with assms l r show ?thesis
    by (simp add: safestrcpy_def cstr_prefix_NUL)
qed

theorem safestrcpy_correct_witness:
  "(0::int) < 3 \<and> length (safestrcpy ''init'' 3) \<le> 3
    \<and> NUL \<in> set (safestrcpy ''init'' 3) \<and> cstr (safestrcpy ''init'' 3) = ''in''"
  using safestrcpy_correct [of 3 "''init''"] by simp

lemma strchr_spec:
  "strchr s c = (if c \<in> set (cstr s) then Some (dropWhile (\<lambda>x. x \<noteq> c) s) else None)"
proof (induction s c rule: strchr.induct)
  case (1 s c)
  then show ?case by (subst strchr.simps) (cases s; auto)
qed

section \<open>Number conversions\<close>

lemma itoa_digit_uchar:
  assumes "i < 10"
  shows "uchar (itoa_digit i) = int i + 48"
proof -
  have "uchar (itoa_digit i) = int (of_char (itoa_digit i))"
    by (simp add: uchar_def of_char_def)
  also have "of_char (itoa_digit i) = i + (48 :: nat)"
    using assms by (simp add: itoa_digit_def)
  finally show ?thesis by simp
qed

lemma atoi_loop_stop: "atoi_loop [] n = n"
  by (simp add: atoi_loop.simps [of "[]"] uchar_def)

lemma atoi_loop_digit:
  "i < 10 \<Longrightarrow> atoi_loop (itoa_digit i # s) n = atoi_loop s (i32 (n * 10 + int i))"
  by (simp add: atoi_loop.simps [of "itoa_digit i # s"] itoa_digit_uchar) (simp add: uchar_def)

text \<open>The digits of \<open>v\<close> in front of what is already stored: the reference definition for
  the digit loop.\<close>

fun digits10 :: "nat \<Rightarrow> string" where
  "digits10 v = (if v < 10 then [itoa_digit v] else digits10 (v div 10) @ [itoa_digit (v mod 10)])"

declare digits10.simps [simp del]

lemma length_digits10: "v < 10 ^ Suc k \<Longrightarrow> length (digits10 v) \<le> Suc k"
proof (induction k arbitrary: v)
  case 0
  then show ?case by (simp add: digits10.simps [of v])
next
  case (Suc k)
  from Suc.prems have "v div 10 < 10 ^ Suc k" by (simp add: less_mult_imp_div_less)
  from Suc.IH [OF this] show ?case by (simp add: digits10.simps [of v])
qed

lemma itoa_digits_eq:
  "length (digits10 v) + length tmp \<le> 16 \<Longrightarrow> v \<noteq> 0 \<or> tmp = [] \<Longrightarrow>
   itoa_digits 10 v tmp = Inr (digits10 v @ tmp)"
proof (induction v arbitrary: tmp rule: digits10.induct)
  case (1 v)
  show ?case
  proof (cases "v < 10")
    case True
    with "1.prems" have "length tmp < 16" by (simp add: digits10.simps [of v])
    with True "1.prems" show ?thesis
      by (simp add: digits10.simps [of v] itoa_digits.simps [of 10 v]
            itoa_digits.simps [of 10 0])
  next
    case False
    with "1.prems" have l: "length (digits10 (v div 10)) + length tmp < 16"
      by (simp add: digits10.simps [of v])
    from False l "1.IH" [of "itoa_digit (v mod 10) # tmp"]
    have "itoa_digits 10 (v div 10) (itoa_digit (v mod 10) # tmp)
        = Inr (digits10 (v div 10) @ itoa_digit (v mod 10) # tmp)"
      by simp
    with False l show ?thesis
      by (simp add: digits10.simps [of v] itoa_digits.simps [of 10 v])
  qed
qed

lemma atoi_loop_digits10:
  "int v < 2 ^ 31 \<Longrightarrow> atoi_loop (digits10 v @ s) 0 = atoi_loop s (int v)"
proof (induction v arbitrary: s rule: digits10.induct)
  case (1 v)
  show ?case
  proof (cases "v < 10")
    case True
    with "1.prems" show ?thesis
      by (simp add: digits10.simps [of v] atoi_loop_digit is_i32_def)
  next
    case False
    from "1.prems" have "int (v div 10) < 2 ^ 31" by (simp add: zdiv_int)
    with False "1.IH" [of "itoa_digit (v mod 10) # s"]
    have "atoi_loop (digits10 (v div 10) @ itoa_digit (v mod 10) # s) 0
        = atoi_loop (itoa_digit (v mod 10) # s) (int (v div 10))"
      by simp
    also have "\<dots> = atoi_loop s (i32 (int (v div 10) * 10 + int (v mod 10)))"
      by (simp add: atoi_loop_digit)
    also have "int (v div 10) * 10 + int (v mod 10) = int v"
      by (metis div_mult_mod_eq of_nat_add of_nat_mult of_nat_numeral)
    finally show ?thesis
      using False "1.prems" by (simp add: digits10.simps [of v] is_i32_def)
  qed
qed

lemma unat_word_of_int32: "0 \<le> v \<Longrightarrow> v < 2 ^ 32 \<Longrightarrow> unat (word_of_int v :: u32) = nat v"
  by (simp add: unat_eq_nat_uint uint_word_of_int)

lemma atoi_loop_nondigit: "c \<notin> set ''0123456789'' \<Longrightarrow> atoi_loop (c # s) n = n"
proof -
  assume "c \<notin> set ''0123456789''"
  moreover have "uchar c = int (of_char c)" by (simp add: uchar_def of_char_def)
  moreover have "c = char_of (of_char c :: nat)" by simp
  moreover have "k \<in> {48, 49, 50, 51, 52, 53, 54, 55, 56, 57}" if "48 \<le> k" "k \<le> 57" for k :: nat using that by simp presburger
  ultimately show ?thesis
    by (subst atoi_loop.simps) (fastforce simp: uchar_def char_of_def bit_simps)
qed

text \<open>C11: reading back what \<open>itoa\<close> printed in base ten gives the number again, for every
  non-negative 32-bit integer, when the array has room and a character that is not a digit, such as a terminator,
  follows the digits. \<open>itoa\<close> does not store it: what lies behind the digits is what was there before, so the
  caller has to provide it, in advance or afterwards at the place the result tells. The digits fit \<^verbatim>\<open>tmp[16]\<close>,
  at most ten characters are stored, and \<open>atoi\<close> does not overflow on them.\<close>

theorem atoi_itoa:
  assumes "0 \<le> v" and "v < 2 ^ 31" and "10 < length sp"
  shows "\<exists>n sp'. itoa v sp 10 = Inr (int n, sp') \<and> 0 < n \<and> n \<le> 10 \<and> length sp' = length sp \<and> drop n sp' = drop n sp
    \<and> atoi (sp'[n := NUL]) = v \<and> (sp ! n \<notin> set ''0123456789'' \<longrightarrow> atoi sp' = v)"
proof -
  let ?ds = "digits10 (nat v)"
  have "nat v < 10 ^ Suc 9" using assms by simp
  then have len: "length ?ds \<le> Suc 9" by (rule length_digits10)
  have pos: "0 < length ?ds" by (simp add: digits10.simps [of "nat v"])
  have it: "itoa v sp 10 = Inr (int (length ?ds), ?ds @ drop (length ?ds) sp)"
    using assms len by (simp add: itoa_def unat_word_of_int32 itoa_digits_eq)
  have rd: "atoi (?ds @ r) = atoi_loop r v" for r
    using assms atoi_loop_digits10 [of "nat v" r] by (simp add: atoi_def)
  have dr: "drop (length ?ds) sp = sp ! length ?ds # drop (Suc (length ?ds)) sp"
    using len assms(3) by (simp add: Cons_nth_drop_Suc)
  have "(?ds @ drop (length ?ds) sp)[length ?ds := NUL] = ?ds @ NUL # drop (Suc (length ?ds)) sp"
    by (simp add: dr list_update_append)
  then have z: "atoi ((?ds @ drop (length ?ds) sp)[length ?ds := NUL]) = v"
    by (simp add: rd atoi_loop_nondigit)
  have "atoi (?ds @ drop (length ?ds) sp) = v" if "sp ! length ?ds \<notin> set ''0123456789''"
    unfolding rd dr by (rule atoi_loop_nondigit [OF that])
  with it pos len z assms(3) show ?thesis
    by (intro exI [of _ "length ?ds"] exI [of _ "?ds @ drop (length ?ds) sp"]) simp
qed

theorem atoi_itoa_witness:
  "\<exists>sp'. itoa 120 (replicate 12 NUL) 10 = Inr (3, sp') \<and> atoi sp' = 120"
proof -
  obtain n sp' where r: "itoa 120 (replicate 12 NUL) 10 = Inr (int n, sp')" "n \<le> 10"
    "replicate 12 NUL ! n \<notin> set ''0123456789'' \<longrightarrow> atoi sp' = 120"
    using atoi_itoa [of 120 "replicate 12 NUL"] by auto
  moreover have "length (digits10 120) = 3" by (simp add: digits10.simps)
  then have "int n = 3" using r(1) by (simp add: itoa_def unat_word_of_int32 itoa_digits_eq split: if_splits)
  ultimately show ?thesis by auto
qed

text \<open>Over an array that holds other digits the number read back is another one.\<close>

lemma itoa_no_terminator: "\<exists>sp'. itoa 7 ''99999'' 10 = Inr (1, sp') \<and> atoi sp' = 79999"
proof -
  have d: "digits10 7 = ''7''" by code_simp
  then have "itoa 7 ''99999'' 10 = Inr (1, ''79999'')"
    by (simp add: itoa_def unat_word_of_int32 itoa_digits_eq)
  moreover have "atoi ''79999'' = 79999" by (simp add: atoi_def atoi_loop.simps uchar_def is_i32_def)
  ultimately show ?thesis by blast
qed

end
