(* ===== verification/Bytes.thy ===== *)
theory Bytes
  imports CString
begin

text \<open>
  Little-endian words in memory and in arrays of bytes, and the copy of a run of bytes into
  an array. A disk block, a page and a \<^verbatim>\<open>struct\<close> that is copied as raw bytes are lists of
  bytes; \<open>splice\<close> is \<^verbatim>\<open>memmove\<close> into such an array.
\<close>

unbundle bit_operations_syntax

section \<open>Words\<close>

definition bytes32 :: "u32 \<Rightarrow> u8 list" where
  "bytes32 w = [ucast w, ucast (drop_bit 8 w), ucast (drop_bit 16 w), ucast (drop_bit 24 w)]"

definition join32 :: "u8 \<Rightarrow> u8 \<Rightarrow> u8 \<Rightarrow> u8 \<Rightarrow> u32" where
  "join32 a b c d =
     ucast a OR push_bit 8 (ucast b) OR push_bit 16 (ucast c) OR push_bit 24 (ucast d)"

definition bytes16 :: "u16 \<Rightarrow> u8 list" where
  "bytes16 w = [ucast w, ucast (drop_bit 8 w)]"

definition join16 :: "u8 \<Rightarrow> u8 \<Rightarrow> u16" where
  "join16 a b = ucast a OR push_bit 8 (ucast b)"

lemma join32_bytes:
  "join32 (ucast w) (ucast (drop_bit 8 w)) (ucast (drop_bit 16 w)) (ucast (drop_bit 24 w)) = w"
proof (rule bit_word_eqI)
  fix n assume "n < LENGTH(32)"
  then have "n < 8 \<or> n \<in> {8..15} \<or> n \<in> {16..23} \<or> n \<in> {24..31}" by auto
  then show "bit (join32 (ucast w) (ucast (drop_bit 8 w)) (ucast (drop_bit 16 w))
       (ucast (drop_bit 24 w))) n = bit w n"
    by (auto simp: join32_def bit_simps)
qed

lemma join16_bytes: "join16 (ucast w) (ucast (drop_bit 8 w)) = w"
proof (rule bit_word_eqI)
  fix n assume "n < LENGTH(16)"
  then have "n < 8 \<or> n \<in> {8..15}" by auto
  then show "bit (join16 (ucast w) (ucast (drop_bit 8 w))) n = bit w n"
    by (auto simp: join16_def bit_simps)
qed

lemma ucast_join32:
  "ucast (join32 a b c d) = a" "ucast (drop_bit 8 (join32 a b c d)) = b"
  "ucast (drop_bit 16 (join32 a b c d)) = c" "ucast (drop_bit 24 (join32 a b c d)) = d"
  by (rule bit_word_eqI; auto simp: join32_def bit_simps dest: bit_imp_le_length)+

lemma ucast_join16: "ucast (join16 a b) = a" "ucast (drop_bit 8 (join16 a b)) = b"
  by (rule bit_word_eqI; auto simp: join16_def bit_simps dest: bit_imp_le_length)+

lemma length_bytes [simp]: "length (bytes32 w) = 4" "length (bytes16 h) = 2"
  by (simp_all add: bytes32_def bytes16_def)

section \<open>Words in memory\<close>

definition get32 :: "mem \<Rightarrow> nat \<Rightarrow> u32" where
  "get32 m a = join32 (m a) (m (a + 1)) (m (a + 2)) (m (a + 3))"

definition put32 :: "mem \<Rightarrow> nat \<Rightarrow> u32 \<Rightarrow> mem" where
  "put32 m a w = m(a := ucast w, a + 1 := ucast (drop_bit 8 w), a + 2 := ucast (drop_bit 16 w),
                   a + 3 := ucast (drop_bit 24 w))"

lemma get32_put32 [simp]: "get32 (put32 m a w) a = w"
  by (simp add: get32_def put32_def join32_bytes)

lemma put32_other: "x < a \<or> a + 4 \<le> x \<Longrightarrow> put32 m a w x = m x"
  by (auto simp: put32_def)

lemma get32_put32_other [simp]: "a + 4 \<le> b \<or> b + 4 \<le> a \<Longrightarrow> get32 (put32 m a w) b = get32 m b"
  by (auto simp: get32_def put32_other)

lemma get32_cong: "(\<And>x. a \<le> x \<Longrightarrow> x < a + 4 \<Longrightarrow> m x = m' x) \<Longrightarrow> get32 m a = get32 m' a"
  by (simp add: get32_def)

section \<open>Words in arrays of bytes\<close>

text \<open>Reading past the end of an array gives zeros here; every use is inside the array.\<close>

definition byte_at :: "u8 list \<Rightarrow> nat \<Rightarrow> u8" where
  "byte_at bs i = (if i < length bs then bs ! i else 0)"

definition word_at :: "u8 list \<Rightarrow> nat \<Rightarrow> u32" where
  "word_at bs i = join32 (byte_at bs i) (byte_at bs (i + 1)) (byte_at bs (i + 2)) (byte_at bs (i + 3))"

definition half_at :: "u8 list \<Rightarrow> nat \<Rightarrow> u16" where
  "half_at bs i = join16 (byte_at bs i) (byte_at bs (i + 1))"

definition splice :: "u8 list \<Rightarrow> nat \<Rightarrow> u8 list \<Rightarrow> u8 list" where
  "splice bs off xs = take off bs @ xs @ drop (off + length xs) bs"

lemma length_splice [simp]: "off + length xs \<le> length bs \<Longrightarrow> length (splice bs off xs) = length bs"
  by (simp add: splice_def)

lemma splice_nth:
  assumes "off + length xs \<le> length bs"
  shows "splice bs off xs ! i =
    (if off \<le> i \<and> i < off + length xs then xs ! (i - off) else bs ! i)"
proof (cases "i < off")
  case True
  with assms show ?thesis by (simp add: splice_def nth_append)
next
  case False
  show ?thesis
  proof (cases "i < off + length xs")
    case True
    with False have "i - off < length xs" by linarith
    with True False assms show ?thesis by (simp add: splice_def nth_append)
  next
    case nin: False
    with False assms have "\<not> i - off < length xs" by simp
    with nin False assms show ?thesis by (simp add: splice_def nth_append)
  qed
qed

lemma byte_at_splice:
  assumes "off + length xs \<le> length bs"
  shows "byte_at (splice bs off xs) i =
    (if off \<le> i \<and> i < off + length xs then xs ! (i - off) else byte_at bs i)"
  using assms by (simp add: byte_at_def splice_nth)

lemma take_drop_splice [simp]:
  "off + length xs \<le> length bs \<Longrightarrow> take (length xs) (drop off (splice bs off xs)) = xs"
  by (simp add: splice_def)

lemma splice_self: "off + n \<le> length bs \<Longrightarrow> splice bs off (take n (drop off bs)) = bs"
  by (simp add: splice_def) (metis add.commute append_take_drop_id drop_drop)

lemma splice_twice:
  assumes "length xs = length ys" and "off + length xs \<le> length bs"
  shows "splice (splice bs off xs) off ys = splice bs off ys"
  using assms by (intro nth_equalityI) (auto simp: splice_nth)

lemma splice_swap:
  assumes "off + length xs \<le> off'" and "off' + length ys \<le> length bs"
  shows "splice (splice bs off xs) off' ys = splice (splice bs off' ys) off xs"
  using assms by (intro nth_equalityI) (auto simp: splice_nth)

lemma word_at_splice:
  assumes "off + 4 \<le> length bs"
  shows "word_at (splice bs off (bytes32 w)) off = w"
  using assms by (simp add: word_at_def byte_at_splice) (simp add: bytes32_def join32_bytes)

lemma word_at_splice_other:
  assumes "off + length xs \<le> length bs" and "i + 4 \<le> off \<or> off + length xs \<le> i"
  shows "word_at (splice bs off xs) i = word_at bs i"
  using assms by (auto simp: word_at_def byte_at_splice)

lemma half_at_splice:
  assumes "off + 2 \<le> length bs"
  shows "half_at (splice bs off (bytes16 w)) off = w"
  using assms by (simp add: half_at_def byte_at_splice) (simp add: bytes16_def join16_bytes)

lemma half_at_splice_other:
  assumes "off + length xs \<le> length bs" and "i + 2 \<le> off \<or> off + length xs \<le> i"
  shows "half_at (splice bs off xs) i = half_at bs i"
  using assms by (auto simp: half_at_def byte_at_splice)


section \<open>Byte strings in memory\<close>

text \<open>\<^verbatim>\<open>memmove\<close> between the memory and an object that is not part of it.\<close>

definition load_bytes :: "mem \<Rightarrow> nat \<Rightarrow> nat \<Rightarrow> u8 list" where
  "load_bytes m a n = map m [a ..< a + n]"

definition store_bytes :: "mem \<Rightarrow> nat \<Rightarrow> u8 list \<Rightarrow> mem" where
  "store_bytes m a bs = (\<lambda>i. if a \<le> i \<and> i < a + length bs then bs ! (i - a) else m i)"

lemma length_load_bytes [simp]: "length (load_bytes m a n) = n"
  by (simp add: load_bytes_def)

lemma load_store_bytes [simp]: "load_bytes (store_bytes m a bs) a (length bs) = bs"
  by (rule nth_equalityI) (simp_all add: load_bytes_def store_bytes_def)

lemma store_bytes_other: "i < a \<or> a + length bs \<le> i \<Longrightarrow> store_bytes m a bs i = m i"
  by (auto simp: store_bytes_def)


text \<open>Characters and bytes.\<close>

definition bytes_str :: "u8 list \<Rightarrow> string" where
  "bytes_str bs = map (\<lambda>b. char_of (unat b)) bs"

definition str_bytes :: "string \<Rightarrow> u8 list" where
  "str_bytes cs = map (\<lambda>c. of_nat (of_char c)) cs"

lemma length_bytes_str [simp]: "length (bytes_str bs) = length bs" "length (str_bytes cs) = length cs"
  by (simp_all add: bytes_str_def str_bytes_def)

lemma unat_of_char [simp]: "unat (of_nat (of_char c) :: u8) = of_char c"
proof -
  have "(of_char c :: nat) < 256" by simp
  then show ?thesis by (simp add: unat_of_nat)
qed

lemma bytes_str_bytes [simp]: "bytes_str (str_bytes cs) = cs"
  by (simp add: bytes_str_def str_bytes_def comp_def map_idI)

end
