(* ===== verification/Container.thy ===== *)
theory Container
  imports CString
begin

text \<open>
  The container table of \<^verbatim>\<open>container.c\<close>: four slots that hold the limits, the current use and
  the name of a container; a slot is free when its name is empty. The table, the byte count
  \<^verbatim>\<open>disk_used\<close> and the generator state \<^verbatim>\<open>next\<close> are the record \<open>conts\<close>; the theories above
  extend this record with their own globals, so every routine here works unchanged on the
  full kernel state.

  \<^verbatim>\<open>containers[vc_num]\<close> is not bounds-checked by the source. The model makes an access
  outside the four slots a \<open>Fault\<close>. What is printed on the console is not modelled.
\<close>

section \<open>State\<close>

record container =
  c_max_mem :: int
  c_max_proc :: int
  c_max_disk :: int
  c_curr_mem :: int
  c_curr_proc :: int
  c_curr_disk :: int
  c_os_sz :: int
  c_name :: string
  c_root :: "nat option"
  c_ticks :: int

record conts =
  containers :: "container list"
  disk_used :: int
  next_rand :: int

definition MAX_CONTAINERS :: nat where "MAX_CONTAINERS = 4"

definition cont_get :: "int \<Rightarrow> 'z conts_scheme \<Rightarrow> container res" where
  "cont_get vc_num s = fetch ''containers'' (containers s) vc_num"

definition cont_upd ::
  "int \<Rightarrow> (container \<Rightarrow> container) \<Rightarrow> 'z conts_scheme \<Rightarrow> 'z conts_scheme res" where
  "cont_upd vc_num f s =
     bnd (modify ''containers'' (containers s) vc_num f) (\<lambda>cs. Inr (s\<lparr>containers := cs\<rparr>))"

section \<open>Look-up\<close>

fun find_from :: "string \<Rightarrow> container list \<Rightarrow> int \<Rightarrow> int" where
  "find_from name [] i = - 1"
| "find_from name (c # cs) i =
     (if strcmp name '''' = 0 then find_from name cs (i + 1)
      else if strcmp name (c_name c) = 0 then i
      else find_from name cs (i + 1))"

definition find_c :: "string \<Rightarrow> 'z conts_scheme \<Rightarrow> int" where
  "find_c name s = find_from name (containers s) 0"

fun is_full_from :: "container list \<Rightarrow> int \<Rightarrow> int" where
  "is_full_from [] i = - 1"
| "is_full_from (c # cs) i = (if strlen (c_name c) = 0 then i else is_full_from cs (i + 1))"

definition is_full :: "'z conts_scheme \<Rightarrow> int" where
  "is_full s = is_full_from (containers s) 0"

fun get_used_from :: "container list \<Rightarrow> int \<Rightarrow> int" where
  "get_used_from [] x = x"
| "get_used_from (c # cs) x =
     (if strcmp (c_name c) '''' = 0 then get_used_from cs x else get_used_from cs (x + 1))"

definition get_used :: "'z conts_scheme \<Rightarrow> int" where
  "get_used s = get_used_from (containers s) 0"

text \<open>\<^verbatim>\<open>get_name\<close> copies the name into the caller's array and terminates it there.\<close>

definition get_name :: "int \<Rightarrow> string \<Rightarrow> 'z conts_scheme \<Rightarrow> string res" where
  "get_name vc_num buf s =
     bnd (cont_get vc_num s)
       (\<lambda>c. let i = strlen (c_name c)
            in if i < length buf then Inr (take i (c_name c) @ NUL # drop (i + 1) buf)
               else Inl (Fault ''name''))"

definition g_name :: "int \<Rightarrow> 'z conts_scheme \<Rightarrow> string res" where
  "g_name vc_num s = bnd (cont_get vc_num s) (\<lambda>c. Inr (c_name c))"

section \<open>Reading and setting the fields\<close>

definition get_max_proc :: "int \<Rightarrow> 'z conts_scheme \<Rightarrow> int res" where
  "get_max_proc vc_num s = bnd (cont_get vc_num s) (\<lambda>x. Inr (c_max_proc x))"

definition get_os :: "'z conts_scheme \<Rightarrow> int" where
  "get_os s = disk_used s"

definition get_max_mem :: "int \<Rightarrow> 'z conts_scheme \<Rightarrow> int res" where
  "get_max_mem vc_num s = bnd (cont_get vc_num s) (\<lambda>x. Inr (c_max_mem x))"

definition get_max_disk :: "int \<Rightarrow> 'z conts_scheme \<Rightarrow> int res" where
  "get_max_disk vc_num s = bnd (cont_get vc_num s) (\<lambda>x. Inr (c_max_disk x))"

definition get_curr_proc :: "int \<Rightarrow> 'z conts_scheme \<Rightarrow> int res" where
  "get_curr_proc vc_num s = bnd (cont_get vc_num s) (\<lambda>x. Inr (c_curr_proc x))"

definition get_curr_mem :: "int \<Rightarrow> 'z conts_scheme \<Rightarrow> int res" where
  "get_curr_mem vc_num s = bnd (cont_get vc_num s) (\<lambda>x. Inr (c_curr_mem x))"

definition get_curr_disk :: "int \<Rightarrow> 'z conts_scheme \<Rightarrow> int res" where
  "get_curr_disk vc_num s = bnd (cont_get vc_num s) (\<lambda>x. Inr (c_curr_disk x))"

text \<open>The name array has 32 characters, terminator included.\<close>

definition set_name :: "string \<Rightarrow> int \<Rightarrow> 'z conts_scheme \<Rightarrow> 'z conts_scheme res" where
  "set_name name vc_num s =
     (if length (strcpy name) \<le> 32
      then cont_upd vc_num (\<lambda>c. c\<lparr>c_name := cstr (strcpy name)\<rparr>) s
      else Inl (Fault ''name''))"

definition set_max_mem :: "int \<Rightarrow> int \<Rightarrow> 'z conts_scheme \<Rightarrow> 'z conts_scheme res" where
  "set_max_mem mem vc_num s = cont_upd vc_num (\<lambda>c. c\<lparr>c_max_mem := mem\<rparr>) s"

definition set_os :: "int \<Rightarrow> 'z conts_scheme \<Rightarrow> 'z conts_scheme" where
  "set_os os s = s\<lparr>disk_used := i32 (disk_used s + os)\<rparr>"

definition set_max_disk :: "int \<Rightarrow> int \<Rightarrow> 'z conts_scheme \<Rightarrow> 'z conts_scheme res" where
  "set_max_disk disk vc_num s = cont_upd vc_num (\<lambda>c. c\<lparr>c_max_disk := disk\<rparr>) s"

definition set_max_proc :: "int \<Rightarrow> int \<Rightarrow> 'z conts_scheme \<Rightarrow> 'z conts_scheme res" where
  "set_max_proc procs vc_num s = cont_upd vc_num (\<lambda>c. c\<lparr>c_max_proc := procs\<rparr>) s"

text \<open>The charging routines refuse a charge that would pass the limit, by leaving the
  counter as it is. The first argument of the memory routines is not used.\<close>

definition set_curr_mem :: "int \<Rightarrow> int \<Rightarrow> 'z conts_scheme \<Rightarrow> 'z conts_scheme res" where
  "set_curr_mem mem vc_num s =
     cont_upd vc_num
       (\<lambda>c. if i32 (c_curr_mem c + 1) > c_max_mem c then c
            else c\<lparr>c_curr_mem := i32 (c_curr_mem c + 1)\<rparr>) s"

definition reduce_curr_mem :: "int \<Rightarrow> int \<Rightarrow> 'z conts_scheme \<Rightarrow> 'z conts_scheme res" where
  "reduce_curr_mem mem vc_num s =
     cont_upd vc_num (\<lambda>c. c\<lparr>c_curr_mem := i32 (c_curr_mem c - 1)\<rparr>) s"

definition set_curr_disk :: "int \<Rightarrow> int \<Rightarrow> 'z conts_scheme \<Rightarrow> 'z conts_scheme res" where
  "set_curr_disk disk vc_num s =
     cont_upd vc_num
       (\<lambda>c. if i32 (c_curr_disk c + disk) sdiv 1024 > c_max_disk c then c
            else c\<lparr>c_curr_disk := i32 (c_curr_disk c + disk)\<rparr>) s"

definition set_curr_proc :: "int \<Rightarrow> int \<Rightarrow> 'z conts_scheme \<Rightarrow> 'z conts_scheme res" where
  "set_curr_proc procs vc_num s =
     cont_upd vc_num
       (\<lambda>c. if i32 (c_curr_proc c + procs) > c_max_proc c then c
            else c\<lparr>c_curr_proc := i32 (c_curr_proc c + procs)\<rparr>) s"

definition max_containers :: int where
  "max_containers = int MAX_CONTAINERS"

section \<open>Choosing the container to run\<close>

definition rand :: "'z conts_scheme \<Rightarrow> int \<times> 'z conts_scheme" where
  "rand s =
     (let n = i32 (next_rand s * 1103515245 + 12345)
      in (uint ((word_of_int (n sdiv 65536) :: u32) mod 7), s\<lparr>next_rand := n\<rparr>))"

fun cticks_scan :: "int \<Rightarrow> container list \<Rightarrow> int \<Rightarrow> int \<Rightarrow> int" where
  "cticks_scan holder [] i c_num = c_num"
| "cticks_scan holder (c # cs) i c_num =
     cticks_scan holder cs (i + 1)
       (if c_ticks c < holder \<and> strcmp (c_name c) '''' \<noteq> 0 then i else c_num)"

definition get_cticks :: "'z conts_scheme \<Rightarrow> int \<times> 'z conts_scheme" where
  "get_cticks s =
     (if get_used s = 0 then (- 1, s)
      else (let (r, s) = rand s
            in if r = 0 then (- 1, s)
               else (cticks_scan (c_ticks (containers s ! 0)) (containers s) 0 0, s)))"

section \<open>Initialisation and reset\<close>

definition reset_slot :: "container \<Rightarrow> container" where
  "reset_slot c = c\<lparr>c_name := cstr (strcpy ''''), c_max_proc := 6, c_max_disk := 100,
     c_max_mem := 500, c_curr_proc := 1, c_curr_disk := 0, c_curr_mem := 0, c_ticks := 0\<rparr>"

definition container_init :: "'z conts_scheme \<Rightarrow> 'z conts_scheme" where
  "container_init s = s\<lparr>containers := map reset_slot (containers s)\<rparr>"

definition tick_reset2 :: "'z conts_scheme \<Rightarrow> 'z conts_scheme" where
  "tick_reset2 s = s\<lparr>containers := map (\<lambda>c. c\<lparr>c_ticks := 0\<rparr>) (containers s)\<rparr>"

definition container_reset :: "int \<Rightarrow> 'z conts_scheme \<Rightarrow> 'z conts_scheme res" where
  "container_reset vc_num s = cont_upd vc_num reset_slot s"

section \<open>Well-formedness\<close>

definition wf_slot :: "container \<Rightarrow> bool" where
  "wf_slot c \<longleftrightarrow> NUL \<notin> set (c_name c) \<and> length (c_name c) < 32"

definition wf_conts :: "'z conts_scheme \<Rightarrow> bool" where
  "wf_conts s \<longleftrightarrow> length (containers s) = MAX_CONTAINERS \<and> (\<forall>c \<in> set (containers s). wf_slot c)"

definition uniq_names :: "container list \<Rightarrow> bool" where
  "uniq_names cs \<longleftrightarrow> (\<forall>i < length cs. \<forall>j < length cs.
     c_name (cs ! i) \<noteq> [] \<longrightarrow> c_name (cs ! i) = c_name (cs ! j) \<longrightarrow> i = j)"

lemma cont_upd_Inr_iff:
  "cont_upd vc f s = Inr s' \<longleftrightarrow> in_range vc (containers s)
     \<and> s' = s\<lparr>containers := (containers s)[nat vc := f (containers s ! nat vc)]\<rparr>"
  by (auto simp: cont_upd_def bnd_Inr_iff modify_Inr_iff)

lemma cont_upd_out: "\<not> in_range vc (containers s) \<Longrightarrow> cont_upd vc f s = Inl (Fault ''containers'')"
  by (simp add: cont_upd_def modify_def)

lemma cont_upd_in:
  "in_range vc (containers s) \<Longrightarrow>
     cont_upd vc f s = Inr (s\<lparr>containers := (containers s)[nat vc := f (containers s ! nat vc)]\<rparr>)"
  by (simp add: cont_upd_Inr_iff)

lemma cont_get_in: "in_range vc (containers s) \<Longrightarrow> cont_get vc s = Inr (containers s ! nat vc)"
  by (simp add: cont_get_def fetch_def)

lemmas setter_defs = set_name_def set_max_mem_def set_max_disk_def set_max_proc_def
  set_curr_mem_def reduce_curr_mem_def set_curr_disk_def set_curr_proc_def container_reset_def

lemmas getter_defs = get_max_proc_def get_max_mem_def get_max_disk_def get_curr_proc_def
  get_curr_mem_def get_curr_disk_def

lemma wf_slot_name [simp]: "wf_slot c \<Longrightarrow> cstr (c_name c) = c_name c"
  by (simp add: wf_slot_def)

lemma wf_conts_nth: "wf_conts s \<Longrightarrow> i < MAX_CONTAINERS \<Longrightarrow> wf_slot (containers s ! i)"
  by (auto simp: wf_conts_def)

lemma wf_slot_reset [simp]: "wf_slot (reset_slot c)"
  by (simp add: wf_slot_def reset_slot_def)

lemma wf_cont_upd:
  assumes "cont_upd vc f s = Inr s'" and "wf_conts s"
    and "in_range vc (containers s) \<Longrightarrow> wf_slot (f (containers s ! nat vc))"
  shows "wf_conts s'"
  using assms set_update_subset_insert [of "containers s" "nat vc"]
  by (fastforce simp: cont_upd_Inr_iff wf_conts_def)

text \<open>Every routine that changes the table keeps it well-formed.\<close>

lemma wf_setters:
  assumes "wf_conts s"
  shows "set_name n vc s = Inr s' \<Longrightarrow> wf_conts s'"
    and "set_max_mem m vc s = Inr s' \<Longrightarrow> wf_conts s'"
    and "set_max_disk m vc s = Inr s' \<Longrightarrow> wf_conts s'"
    and "set_max_proc m vc s = Inr s' \<Longrightarrow> wf_conts s'"
    and "set_curr_mem m vc s = Inr s' \<Longrightarrow> wf_conts s'"
    and "reduce_curr_mem m vc s = Inr s' \<Longrightarrow> wf_conts s'"
    and "set_curr_disk m vc s = Inr s' \<Longrightarrow> wf_conts s'"
    and "set_curr_proc m vc s = Inr s' \<Longrightarrow> wf_conts s'"
    and "container_reset vc s = Inr s' \<Longrightarrow> wf_conts s'"
proof -
  have slot: "in_range vc (containers s) \<Longrightarrow> wf_slot (containers s ! nat vc)"
    using assms by (auto simp: wf_conts_def in_range_def)
  show "set_name n vc s = Inr s' \<Longrightarrow> wf_conts s'"
    using assms slot unfolding set_name_def
    by (auto split: if_splits elim!: wf_cont_upd simp: wf_slot_def cstr_append_NUL)
  show "set_max_mem m vc s = Inr s' \<Longrightarrow> wf_conts s'" "set_max_disk m vc s = Inr s' \<Longrightarrow> wf_conts s'"
    "set_max_proc m vc s = Inr s' \<Longrightarrow> wf_conts s'" "set_curr_mem m vc s = Inr s' \<Longrightarrow> wf_conts s'"
    "reduce_curr_mem m vc s = Inr s' \<Longrightarrow> wf_conts s'"
    "set_curr_disk m vc s = Inr s' \<Longrightarrow> wf_conts s'" "set_curr_proc m vc s = Inr s' \<Longrightarrow> wf_conts s'"
    using assms slot unfolding setter_defs
    by (auto elim!: wf_cont_upd simp: wf_slot_def)
  show "container_reset vc s = Inr s' \<Longrightarrow> wf_conts s'"
    using assms unfolding container_reset_def by (auto elim!: wf_cont_upd)
qed

lemma wf_container_init:
  "length (containers s) = MAX_CONTAINERS \<Longrightarrow> wf_conts (container_init s)"
  by (auto simp: wf_conts_def container_init_def)

section \<open>Look-up\<close>

lemma find_from_first:
  "find_from name cs i =
     (case first_idx (\<lambda>c. cstr name \<noteq> [] \<and> cstr (c_name c) = cstr name) cs of
        None \<Rightarrow> - 1 | Some k \<Rightarrow> i + int k)"
  by (induction cs arbitrary: i) (auto split: option.splits)

lemma is_full_from_first:
  "is_full_from cs i =
     (case first_idx (\<lambda>c. cstr (c_name c) = []) cs of None \<Rightarrow> - 1 | Some k \<Rightarrow> i + int k)"
  by (induction cs arbitrary: i) (auto split: option.splits)

lemma get_used_from_count:
  "get_used_from cs x = x + int (length (filter (\<lambda>c. cstr (c_name c) \<noteq> []) cs))"
  by (induction cs arbitrary: x) auto

lemma get_used_zero_iff: "get_used s = 0 \<longleftrightarrow> (\<forall>c \<in> set (containers s). cstr (c_name c) = [])"
  by (auto simp: get_used_def get_used_from_count filter_empty_conv)

lemma find_c_first:
  assumes "wf_conts s"
  shows "find_c name s =
    (case first_idx (\<lambda>c. cstr name \<noteq> [] \<and> c_name c = cstr name) (containers s) of
       None \<Rightarrow> - 1 | Some k \<Rightarrow> int k)"
proof -
  have "first_idx (\<lambda>c. cstr name \<noteq> [] \<and> cstr (c_name c) = cstr name) (containers s)
      = first_idx (\<lambda>c. cstr name \<noteq> [] \<and> c_name c = cstr name) (containers s)"
    using assms by (intro first_idx_cong) (simp add: wf_conts_def)
  then show ?thesis by (simp add: find_c_def find_from_first cong: option.case_cong)
qed

lemma is_full_first:
  assumes "wf_conts s"
  shows "is_full s =
    (case first_idx (\<lambda>c. c_name c = []) (containers s) of None \<Rightarrow> - 1 | Some k \<Rightarrow> int k)"
proof -
  have "first_idx (\<lambda>c. cstr (c_name c) = []) (containers s)
      = first_idx (\<lambda>c. c_name c = []) (containers s)"
    using assms by (intro first_idx_cong) (simp add: wf_conts_def)
  then show ?thesis by (simp add: is_full_def is_full_from_first cong: option.case_cong)
qed

lemma first_case_nat_iff:
  "(case first_idx P xs of None \<Rightarrow> - 1 | Some k \<Rightarrow> int k) = int k \<longleftrightarrow> first_idx P xs = Some k"
  "(case first_idx P xs of None \<Rightarrow> - 1 | Some k \<Rightarrow> int k) = - 1 \<longleftrightarrow> first_idx P xs = None"
  by (auto split: option.splits)

lemma find_c_nat_iff:
  "wf_conts s \<Longrightarrow> find_c name s = int k \<longleftrightarrow>
     k < MAX_CONTAINERS \<and> cstr name \<noteq> [] \<and> c_name (containers s ! k) = cstr name
     \<and> (\<forall>j < k. c_name (containers s ! j) \<noteq> cstr name)"
  unfolding find_c_first first_case_nat_iff first_idx_Some_iff by (auto simp: wf_conts_def)

lemma find_c_neg_iff:
  "wf_conts s \<Longrightarrow>
     find_c name s = - 1 \<longleftrightarrow> cstr name = [] \<or> (\<forall>c \<in> set (containers s). c_name c \<noteq> cstr name)"
  unfolding find_c_first first_case_nat_iff first_idx_None_iff by auto


lemma find_c_range: "wf_conts s \<Longrightarrow> find_c name s = - 1 \<or> in_range (find_c name s) (containers s)"
  by (auto simp: find_c_def find_from_first in_range_def split: option.splits
        dest!: first_idx_SomeD)

text \<open>C8: \<open>find\<close> returns the first slot that carries the name, and -1 exactly when the name is
  empty or no slot carries it; the result is never out of range.\<close>

theorem find_c_correct:
  assumes "wf_conts s"
  shows "(\<exists>k < MAX_CONTAINERS. find_c name s = int k \<and> cstr name \<noteq> []
            \<and> c_name (containers s ! k) = cstr name
            \<and> (\<forall>j < k. c_name (containers s ! j) \<noteq> cstr name))
       \<or> (find_c name s = - 1
            \<and> (cstr name = [] \<or> (\<forall>k < MAX_CONTAINERS. c_name (containers s ! k) \<noteq> cstr name)))"
proof (cases "find_c name s = - 1")
  case True
  then have "cstr name = [] \<or> (\<forall>c \<in> set (containers s). c_name c \<noteq> cstr name)"
    using find_c_neg_iff [OF assms] by blast
  with True assms show ?thesis by (auto simp: wf_conts_def)
next
  case False
  with find_c_range [OF assms, of name] obtain k where "find_c name s = int k"
    by (metis in_range_def nonneg_int_cases)
  with find_c_nat_iff [OF assms] show ?thesis by blast
qed

text \<open>A table with two containers, for the examples.\<close>

definition slot0 :: container where
  "slot0 = \<lparr>c_max_mem = 500, c_max_proc = 6, c_max_disk = 100, c_curr_mem = 0, c_curr_proc = 1,
     c_curr_disk = 0, c_os_sz = 0, c_name = '''', c_root = None, c_ticks = 0\<rparr>"

definition conts_ex :: conts where
  "conts_ex = \<lparr>containers = [slot0\<lparr>c_name := ''web''\<rparr>, slot0, slot0\<lparr>c_name := ''db''\<rparr>, slot0],
     disk_used = 0, next_rand = 1\<rparr>"

lemma wf_conts_ex: "wf_conts conts_ex"
  by (simp add: wf_conts_def wf_slot_def conts_ex_def slot0_def MAX_CONTAINERS_def)

theorem find_c_correct_witness:
  "wf_conts conts_ex \<and> find_c ''db'' conts_ex = 2 \<and>
   ((\<exists>k < MAX_CONTAINERS. find_c ''db'' conts_ex = int k \<and> cstr ''db'' \<noteq> []
            \<and> c_name (containers conts_ex ! k) = cstr ''db''
            \<and> (\<forall>j < k. c_name (containers conts_ex ! j) \<noteq> cstr ''db''))
       \<or> (find_c ''db'' conts_ex = - 1
            \<and> (cstr ''db'' = []
               \<or> (\<forall>k < MAX_CONTAINERS. c_name (containers conts_ex ! k) \<noteq> cstr ''db''))))"
proof -
  have "find_c ''db'' conts_ex = 2"
    by (simp add: find_c_def conts_ex_def slot0_def)
  with find_c_correct [OF wf_conts_ex, of "''db''"] wf_conts_ex show ?thesis by blast
qed

lemma filter_update_gain:
  assumes "i < length xs" and "\<not> P (xs ! i)" and "P y"
  shows "length (filter P (xs[i := y])) = Suc (length (filter P xs))"
proof -
  have "filter P xs = filter P (take i xs @ xs ! i # drop (Suc i) xs)"
    using id_take_nth_drop [OF assms(1)] by (rule arg_cong)
  with assms show ?thesis by (simp add: upd_conv_take_nth_drop)
qed



text \<open>Resetting the slot of a container frees it: the name is not found any more, the slot is
  available again with the default limits and no use charged, and no other slot changes.\<close>

theorem container_reset_frees:
  assumes "wf_conts s" and "uniq_names (containers s)" and "find_c name s = int k"
    and "container_reset (int k) s = Inr s'"
  shows "find_c name s' = - 1 \<and> get_used s' = get_used s - 1
    \<and> (\<exists>j \<le> k. is_full s' = int j)
    \<and> c_curr_mem (containers s' ! k) = 0 \<and> c_curr_proc (containers s' ! k) = 1
    \<and> c_curr_disk (containers s' ! k) = 0 \<and> c_max_mem (containers s' ! k) = 500
    \<and> c_max_proc (containers s' ! k) = 6 \<and> c_max_disk (containers s' ! k) = 100
    \<and> (\<forall>j. j \<noteq> k \<longrightarrow> containers s' ! j = containers s ! j)"
proof -
  let ?cs = "containers s"
  from assms(4) have k: "k < length ?cs" and s': "s' = s\<lparr>containers := ?cs[k := reset_slot (?cs ! k)]\<rparr>"
    by (auto simp: container_reset_def cont_upd_Inr_iff)
  have wf': "wf_conts s'" using assms(1,4) by (rule wf_setters)
  have name: "c_name (?cs ! k) = cstr name" and ne: "cstr name \<noteq> []"
    using assms(1,3) by (simp_all add: find_c_nat_iff)
  have reset: "c_name (reset_slot c) = []" for c by (simp add: reset_slot_def)
  have "\<forall>j < length ?cs. c_name (containers s' ! j) \<noteq> cstr name"
    using assms(2) name ne k by (auto simp: uniq_names_def s' nth_list_update reset)
  then have "find_c name s' = - 1"
    using wf' by (auto simp: find_c_neg_iff s' in_set_conv_nth)
  moreover have "get_used s' = get_used s - 1"
  proof -
    let ?P = "\<lambda>c. cstr (c_name c) \<noteq> []"
    have "?cs = (containers s')[k := ?cs ! k]" using k by (simp add: s')
    then have "length (filter ?P ?cs) = Suc (length (filter ?P (containers s')))"
      using filter_update_gain [of k "containers s'" ?P "?cs ! k"] k name ne reset
      by (simp add: s')
    then show ?thesis by (simp add: get_used_def get_used_from_count)
  qed
  moreover have "\<exists>j \<le> k. is_full s' = int j"
  proof (cases "first_idx (\<lambda>c. c_name c = []) (containers s')")
    case None
    have "reset_slot (?cs ! k) \<in> set (containers s')"
      using k by (simp add: s' set_update_memI)
    with None show ?thesis by (auto simp: first_idx_None_iff reset)
  next
    case (Some j)
    from first_idx_SomeD [OF Some] k have "\<not> k < j" by (auto simp: s' reset)
    with Some show ?thesis by (intro exI [of _ j]) (simp add: is_full_first [OF wf'])
  qed
  ultimately show ?thesis using k by (simp add: s' reset_slot_def)
qed

theorem container_reset_frees_witness:
  "find_c ''db'' conts_ex = int 2 \<and>
   (\<exists>s'. container_reset (int 2) conts_ex = Inr s' \<and> find_c ''db'' s' = - 1
      \<and> get_used s' = get_used conts_ex - 1)"
proof -
  have u: "uniq_names (containers conts_ex)"
    by (auto simp: uniq_names_def conts_ex_def slot0_def nth_Cons' numeral_eq_Suc less_Suc_eq)
  have f: "find_c ''db'' conts_ex = int 2"
    by (simp add: find_c_def conts_ex_def slot0_def)
  have "in_range 2 (containers conts_ex)" by (simp add: in_range_def conts_ex_def)
  then obtain s' where s': "container_reset (int 2) conts_ex = Inr s'"
    by (simp add: container_reset_def cont_upd_in)
  from container_reset_frees [OF wf_conts_ex u f s'] f s' show ?thesis by blast
qed

section \<open>Resource limits\<close>

definition quota_ok :: "container \<Rightarrow> bool" where
  "quota_ok c \<longleftrightarrow> c_curr_mem c \<le> c_max_mem c \<and> c_curr_proc c \<le> c_max_proc c
     \<and> c_curr_disk c sdiv 1024 \<le> c_max_disk c"

text \<open>The charges and releases the kernel makes on behalf of the processes of a container,
  and a run of them.\<close>

datatype charge_op =
  ChargeMem int | ReleaseMem int | ChargeProc int int | ChargeDisk int int

fun charge :: "charge_op \<Rightarrow> 'z conts_scheme \<Rightarrow> 'z conts_scheme res" where
  "charge (ChargeMem vc) s = set_curr_mem 1 vc s"
| "charge (ReleaseMem vc) s = reduce_curr_mem 1 vc s"
| "charge (ChargeProc n vc) s = set_curr_proc n vc s"
| "charge (ChargeDisk n vc) s = set_curr_disk n vc s"

fun charges :: "charge_op list \<Rightarrow> 'z conts_scheme \<Rightarrow> 'z conts_scheme res" where
  "charges [] s = Inr s"
| "charges (x # xs) s = bnd (charge x s) (charges xs)"

text \<open>A charge may wrap the memory counter round once it has drifted \<open>2\<^sup>3\<^sup>1\<close> pages away from
  zero; \<open>mem_within\<close> bounds the drift.\<close>

definition mem_within :: "int \<Rightarrow> container \<Rightarrow> bool" where
  "mem_within n c \<longleftrightarrow> - n \<le> c_curr_mem c \<and> c_curr_mem c \<le> n"

lemma mem_within_mono: "mem_within n c \<Longrightarrow> n \<le> m \<Longrightarrow> mem_within m c"
  by (simp add: mem_within_def)

lemma charge_slots:
  assumes "charge x s = Inr s'"
  shows "\<exists>k f. k < length (containers s) \<and> containers s' = (containers s)[k := f (containers s ! k)]
    \<and> (\<forall>c n. quota_ok c \<longrightarrow> mem_within n c \<longrightarrow> n < 2 ^ 31 - 1 \<longrightarrow>
              quota_ok (f c) \<and> mem_within (n + 1) (f c))
    \<and> (\<forall>c. c_max_mem (f c) = c_max_mem c \<and> c_max_proc (f c) = c_max_proc c
         \<and> c_max_disk (f c) = c_max_disk c \<and> c_name (f c) = c_name c)"
proof -
  have upd: "cont_upd vc f s = Inr s' \<Longrightarrow>
      nat vc < length (containers s) \<and> containers s' = (containers s)[nat vc := f (containers s ! nat vc)]"
    for vc f by (auto simp: cont_upd_Inr_iff in_range_nat)
  show ?thesis
  proof (cases x)
    case (ChargeMem vc)
    with assms upd have "cont_upd vc (\<lambda>c. if i32 (c_curr_mem c + 1) > c_max_mem c then c
            else c\<lparr>c_curr_mem := i32 (c_curr_mem c + 1)\<rparr>) s = Inr s'"
      by (simp add: set_curr_mem_def)
    from upd [OF this] show ?thesis
      by (intro exI conjI) (auto simp: quota_ok_def mem_within_def is_i32_def)
  next
    case (ReleaseMem vc)
    with assms have "cont_upd vc (\<lambda>c. c\<lparr>c_curr_mem := i32 (c_curr_mem c - 1)\<rparr>) s = Inr s'"
      by (simp add: reduce_curr_mem_def)
    from upd [OF this] show ?thesis
      by (intro exI conjI) (auto simp: quota_ok_def mem_within_def is_i32_def)
  next
    case (ChargeProc n vc)
    with assms have "cont_upd vc (\<lambda>c. if i32 (c_curr_proc c + n) > c_max_proc c then c
            else c\<lparr>c_curr_proc := i32 (c_curr_proc c + n)\<rparr>) s = Inr s'"
      by (simp add: set_curr_proc_def)
    from upd [OF this] show ?thesis
      by (intro exI conjI) (auto simp: quota_ok_def mem_within_def)
  next
    case (ChargeDisk n vc)
    with assms have "cont_upd vc (\<lambda>c. if i32 (c_curr_disk c + n) sdiv 1024 > c_max_disk c then c
            else c\<lparr>c_curr_disk := i32 (c_curr_disk c + n)\<rparr>) s = Inr s'"
      by (simp add: set_curr_disk_def)
    from upd [OF this] show ?thesis
      by (intro exI conjI) (auto simp: quota_ok_def mem_within_def)
  qed
qed

lemma charge_quota:
  assumes "charge x s = Inr s'" and "\<forall>c \<in> set (containers s). quota_ok c \<and> mem_within n c"
    and "n < 2 ^ 31 - 1"
  shows "\<forall>c \<in> set (containers s'). quota_ok c \<and> mem_within (n + 1) c"
proof -
  from charge_slots [OF assms(1)] obtain k f where k: "k < length (containers s)"
    and cs: "containers s' = (containers s)[k := f (containers s ! k)]"
    and f: "\<And>c. quota_ok c \<Longrightarrow> mem_within n c \<Longrightarrow> quota_ok (f c) \<and> mem_within (n + 1) (f c)"
    using assms(3) by blast
  from k assms(2) have "quota_ok (f (containers s ! k)) \<and> mem_within (n + 1) (f (containers s ! k))"
    by (intro f) auto
  moreover have "\<forall>c \<in> set (containers s). quota_ok c \<and> mem_within (n + 1) c"
    using assms(2) by (auto intro: mem_within_mono)
  ultimately show ?thesis
    using set_update_subset_insert [of "containers s" k] by (auto simp: cs)
qed

lemma charges_quota:
  assumes "charges xs s = Inr s'" and "\<forall>c \<in> set (containers s). quota_ok c \<and> mem_within n c"
    and "n + int (length xs) < 2 ^ 31"
  shows "\<forall>c \<in> set (containers s'). quota_ok c"
  using assms
proof (induction xs arbitrary: s n)
  case Nil
  then show ?case by simp
next
  case (Cons x xs)
  from Cons.prems(1) obtain t where t: "charge x s = Inr t" and ts: "charges xs t = Inr s'"
    by (auto simp: bnd_Inr_iff)
  from Cons.prems(3) have "n < 2 ^ 31 - 1" by simp
  with charge_quota [OF t Cons.prems(2)]
  have "\<forall>c \<in> set (containers t). quota_ok c \<and> mem_within (n + 1) c" by blast
  from Cons.IH [OF ts this] Cons.prems(3) show ?case by simp
qed

text \<open>C2: the limits hold. Starting from the table that \<open>container_init\<close> sets up, no sequence of
  fewer than \<open>2 ^ 31\<close> charges and releases, for whatever amounts, ever takes a container past
  its memory, process or disk limit.\<close>

theorem charges_respect_limits:
  assumes "charges xs (container_init s) = Inr s'" and "int (length xs) < 2 ^ 31"
    and "c \<in> set (containers s')"
  shows "c_curr_mem c \<le> c_max_mem c \<and> c_curr_proc c \<le> c_max_proc c
    \<and> c_curr_disk c sdiv 1024 \<le> c_max_disk c"
proof -
  have "\<forall>c \<in> set (containers (container_init s)). quota_ok c \<and> mem_within 0 c"
    by (auto simp: container_init_def reset_slot_def quota_ok_def mem_within_def)
  from charges_quota [OF assms(1) this] assms(2,3) show ?thesis
    by (auto simp: quota_ok_def)
qed

theorem charges_respect_limits_witness:
  "\<exists>s' c. charges [ChargeProc 1 2, ChargeDisk 5000 2, ChargeMem 2, ReleaseMem 2, ChargeProc 9 2]
        (container_init conts_ex) = Inr s'
    \<and> c \<in> set (containers s') \<and> c_curr_proc c = 2 \<and> c_curr_disk c = 5000
    \<and> c_curr_mem c \<le> c_max_mem c \<and> c_curr_proc c \<le> c_max_proc c
    \<and> c_curr_disk c sdiv 1024 \<le> c_max_disk c"
proof -
  let ?xs = "[ChargeProc 1 2, ChargeDisk 5000 2, ChargeMem 2, ReleaseMem 2, ChargeProc 9 2]"
  let ?s' = "conts_ex\<lparr>containers := [slot0, slot0, slot0\<lparr>c_curr_proc := 2, c_curr_disk := 5000\<rparr>, slot0]\<rparr>"
  have run: "charges ?xs (container_init conts_ex) = Inr ?s'"
    by (simp add: setter_defs cont_upd_def modify_def in_range_def container_init_def conts_ex_def
          slot0_def reset_slot_def i32_def signed_divide_int_def)
  let ?c = "slot0\<lparr>c_curr_proc := 2, c_curr_disk := 5000\<rparr>"
  have c: "?c \<in> set (containers ?s')" by simp
  from charges_respect_limits [OF run _ c] show ?thesis
    by (intro exI [of _ ?s'] exI [of _ ?c] conjI run c) simp_all
qed

section \<open>Fair choice\<close>

lemma rand_range: "0 \<le> fst (rand s) \<and> fst (rand s) < 7"
proof -
  have "(w mod 7 :: u32) < 7" for w by (rule word_mod_less_divisor) simp
  then have "uint (w mod 7 :: u32) < 7" for w by (simp add: word_less_def)
  then show ?thesis by (simp add: rand_def Let_def)
qed

lemma containers_rand [simp]: "containers (snd (rand s)) = containers s"
  by (simp add: rand_def Let_def)

lemma cticks_scan_cases:
  "cticks_scan h cs i n = n \<or>
   (\<exists>k < length cs. cticks_scan h cs i n = i + int k \<and> c_ticks (cs ! k) < h \<and> cstr (c_name (cs ! k)) \<noteq> [])"
proof (induction cs arbitrary: i n)
  case Nil
  then show ?case by simp
next
  case (Cons c cs)
  let ?n = "if c_ticks c < h \<and> cstr (c_name c) \<noteq> [] then i else n"
  have step: "cticks_scan h (c # cs) i n = cticks_scan h cs (i + 1) ?n" by simp
  from Cons.IH [of "i + 1" ?n] show ?case
  proof
    assume "cticks_scan h cs (i + 1) ?n = ?n"
    then show ?thesis unfolding step by (cases "c_ticks c < h \<and> cstr (c_name c) \<noteq> []") auto
  next
    assume "\<exists>k < length cs. cticks_scan h cs (i + 1) ?n = i + 1 + int k \<and> c_ticks (cs ! k) < h
      \<and> cstr (c_name (cs ! k)) \<noteq> []"
    then obtain k where k: "k < length cs" "cticks_scan h cs (i + 1) ?n = i + 1 + int k"
      "c_ticks (cs ! k) < h" "cstr (c_name (cs ! k)) \<noteq> []" by blast
    then show ?thesis unfolding step
      by (intro disjI2 exI [of _ "Suc k"]) simp
  qed
qed

lemma fst_get_cticks:
  "fst (get_cticks s) = (if get_used s = 0 \<or> fst (rand s) = 0 then - 1
     else cticks_scan (c_ticks (containers s ! 0)) (containers s) 0 0)"
  using containers_rand [of s] by (cases "rand s") (simp add: get_cticks_def)

lemma get_cticks_cases:
  "fst (get_cticks s) = - 1 \<or> fst (get_cticks s) = 0 \<or>
   (\<exists>k < length (containers s). fst (get_cticks s) = int k
      \<and> c_ticks (containers s ! k) < c_ticks (containers s ! 0)
      \<and> cstr (c_name (containers s ! k)) \<noteq> [])"
  using cticks_scan_cases [of "c_ticks (containers s ! 0)" "containers s" 0 0]
  by (auto simp: fst_get_cticks)

lemma containers_get_cticks [simp]: "containers (snd (get_cticks s)) = containers s"
  by (auto simp: get_cticks_def split_beta Let_def)

end
