(* ===== verification/Proc.thy ===== *)
theory Proc
  imports Container
begin

text \<open>
  The process table of \<^verbatim>\<open>proc.c\<close> and the routines that only touch the table: sleeping and
  waking, killing, pausing, resuming and stopping the processes of a container, and the
  process listings.

  \<open>kproc\<close> extends the container state with the table, \<^verbatim>\<open>nextpid\<close>, \<^verbatim>\<open>initproc\<close>, the process
  that runs on the executing processor (what \<^verbatim>\<open>myproc()\<close> returns) and the tick counter. A
  \<^verbatim>\<open>struct proc *\<close> is an index into the table. \<^verbatim>\<open>p->cont\<close> is \<open>None\<close> for NULL and otherwise
  the index of the container. The kernel follows \<^verbatim>\<open>p->cont->name\<close> for processes whose \<^verbatim>\<open>cont\<close>
  is NULL; on this machine that reads the first bytes of the current address space, and
  \<open>null_cont\<close> stands for the \<^verbatim>\<open>struct container\<close> found there. It is a component of the state of its
  own, on which no lemma puts a condition; it is not tied to the pages of the user, so that
  what a program or the kernel stores there is not followed. The text printed on the console is
  the list of printed argument tuples.
\<close>

section \<open>State\<close>

datatype procstate = UNUSED | EMBRYO | SLEEPING | RUNNABLE | RUNNING | ZOMBIE | PAUSE

fun state_num :: "procstate \<Rightarrow> nat" where
  "state_num UNUSED = 0"
| "state_num EMBRYO = 1"
| "state_num SLEEPING = 2"
| "state_num RUNNABLE = 3"
| "state_num RUNNING = 4"
| "state_num ZOMBIE = 5"
| "state_num PAUSE = 6"

lemma state_num_inject [simp]: "state_num x = state_num y \<longleftrightarrow> x = y"
  by (cases x; cases y) simp_all

instantiation procstate :: linorder
begin

definition less_eq_procstate :: "procstate \<Rightarrow> procstate \<Rightarrow> bool" where
  "less_eq_procstate x y \<longleftrightarrow> state_num x \<le> state_num y"

definition less_procstate :: "procstate \<Rightarrow> procstate \<Rightarrow> bool" where
  "less_procstate x y \<longleftrightarrow> state_num x < state_num y"

instance
  by standard (auto simp: less_eq_procstate_def less_procstate_def)

end

text \<open>The addresses that processes sleep on.\<close>

datatype chan =
    ChProc nat
  | ChTicks
  | ChPipeRead nat
  | ChPipeWrite nat
  | ChBufLock nat
  | ChBuf nat
  | ChInodeLock nat
  | ChLog
  | ChCons

record trapframe =
  tf_edi :: u32
  tf_esi :: u32
  tf_ebp :: u32
  tf_oesp :: u32
  tf_ebx :: u32
  tf_edx :: u32
  tf_ecx :: u32
  tf_eax :: u32
  tf_gs :: u16
  tf_fs :: u16
  tf_es :: u16
  tf_ds :: u16
  tf_trapno :: u32
  tf_err :: u32
  tf_eip :: u32
  tf_cs :: u16
  tf_eflags :: u32
  tf_esp :: u32
  tf_ss :: u16

record proc =
  p_sz :: u32
  p_pgdir :: u32
  p_kstack :: u32
  p_state :: procstate
  p_pid :: int
  p_parent :: "nat option"
  p_tf :: trapframe
  p_chan :: "chan option"
  p_killed :: bool
  p_ofile :: "nat option list"
  p_cwd :: "nat option"
  p_name :: string
  p_ticks :: u32
  p_cont :: "int option"
  p_usage :: int

record kproc = conts +
  ptable :: "proc list"
  nextpid :: int
  initproc :: "nat option"
  cur :: "nat option"
  null_cont :: container
  ticks :: u32

definition NPROC :: nat where "NPROC = 64"

definition proc_upd :: "nat \<Rightarrow> (proc \<Rightarrow> proc) \<Rightarrow> 'z kproc_scheme \<Rightarrow> 'z kproc_scheme" where
  "proc_upd i f s = s\<lparr>ptable := (ptable s)[i := f (ptable s ! i)]\<rparr>"

definition myproc :: "'z kproc_scheme \<Rightarrow> nat option" where
  "myproc s = cur s"

text \<open>\<^verbatim>\<open>*myproc()\<close>, for the routines that follow the pointer without a test.\<close>

definition my_proc :: "'z kproc_scheme \<Rightarrow> proc res" where
  "my_proc s = (case myproc s of None \<Rightarrow> Inl (Fault ''myproc'')
                | Some i \<Rightarrow> fetch ''ptable'' (ptable s) (int i))"

definition my_upd :: "(proc \<Rightarrow> proc) \<Rightarrow> 'z kproc_scheme \<Rightarrow> 'z kproc_scheme res" where
  "my_upd f s = (case myproc s of None \<Rightarrow> Inl (Fault ''myproc'')
                 | Some i \<Rightarrow> Inr (proc_upd i f s))"

text \<open>\<^verbatim>\<open>*p->cont\<close>.\<close>

definition cont_deref :: "int option \<Rightarrow> 'z kproc_scheme \<Rightarrow> container res" where
  "cont_deref cont s = (case cont of None \<Rightarrow> Inr (null_cont s) | Some vc \<Rightarrow> cont_get vc s)"

definition initp :: "'z kproc_scheme \<Rightarrow> nat option" where
  "initp s = initproc s"

definition c_proc :: "'z kproc_scheme \<Rightarrow> nat option" where
  "c_proc s = myproc s"

definition get_container :: "int \<Rightarrow> int option" where
  "get_container vc_num = Some vc_num"

function strcmp1 :: "string \<Rightarrow> string \<Rightarrow> int" where
  "strcmp1 p q =
     (if deref p \<noteq> NUL \<and> deref p = deref q then strcmp1 (tl p) (tl q)
      else uchar (deref p) - uchar (deref q))"
  by pat_completeness auto
termination
  by (relation "measure (\<lambda>(p, q). length p)") (auto simp: deref_def split: list.splits)

declare strcmp1.simps [simp del]

lemma strcmp1_strcmp: "strcmp1 p q = strcmp p q"
proof (induction p q rule: strcmp1.induct)
  case (1 p q)
  then show ?case by (subst strcmp1.simps, subst strcmp.simps) auto
qed

lemma strcmp1_zero_iff [simp]: "strcmp1 p q = 0 \<longleftrightarrow> cstr p = cstr q"
  by (simp add: strcmp1_strcmp)

section \<open>Sleeping and waking\<close>

text \<open>The part of \<^verbatim>\<open>sleep\<close> up to the call of \<^verbatim>\<open>sched\<close>, and the part after it. \<open>lk\<close> is the
  caller's lock, \<open>None\<close> for a null pointer.\<close>

definition sleep_enter ::
  "chan option \<Rightarrow> 'l option \<Rightarrow> 'z kproc_scheme \<Rightarrow> 'z kproc_scheme res" where
  "sleep_enter ch lk s =
     (case myproc s of
        None \<Rightarrow> Inl (Panic ''sleep'')
      | Some p \<Rightarrow>
          (if lk = None then Inl (Panic ''sleep without lk'')
           else Inr (proc_upd p (\<lambda>p. p\<lparr>p_chan := ch, p_state := SLEEPING\<rparr>) s)))"

definition sleep_leave :: "nat \<Rightarrow> 'z kproc_scheme \<Rightarrow> 'z kproc_scheme" where
  "sleep_leave p s = proc_upd p (\<lambda>p. p\<lparr>p_chan := None\<rparr>) s"

definition wakeup_one :: "chan option \<Rightarrow> proc \<Rightarrow> proc" where
  "wakeup_one ch p = (if p_state p = SLEEPING \<and> p_chan p = ch then p\<lparr>p_state := RUNNABLE\<rparr> else p)"

definition wakeup1 :: "chan option \<Rightarrow> 'z kproc_scheme \<Rightarrow> 'z kproc_scheme" where
  "wakeup1 ch s = s\<lparr>ptable := map (wakeup_one ch) (ptable s)\<rparr>"

definition wakeup :: "chan option \<Rightarrow> 'z kproc_scheme \<Rightarrow> 'z kproc_scheme" where
  "wakeup ch s = wakeup1 ch s"

section \<open>Killing\<close>

definition set_killed :: "proc \<Rightarrow> proc" where
  "set_killed p = (let p = p\<lparr>p_killed := True\<rparr>
                   in if p_state p = SLEEPING then p\<lparr>p_state := RUNNABLE\<rparr> else p)"

text \<open>May the caller kill \<open>p\<close>? A process outside every container may kill any process.\<close>

definition kill_allowed :: "proc \<Rightarrow> proc \<Rightarrow> 'z kproc_scheme \<Rightarrow> bool res" where
  "kill_allowed me p s =
     (if p_cont me \<noteq> None
      then (if p_cont p = None then Inr False
            else bnd (cont_deref (p_cont me) s) (\<lambda>mc.
                 bnd (cont_deref (p_cont p) s) (\<lambda>pc.
                 Inr (strcmp1 (c_name mc) (c_name pc) = 0))))
      else Inr True)"

definition kill :: "int \<Rightarrow> 'z kproc_scheme \<Rightarrow> (int \<times> 'z kproc_scheme) res" where
  "kill pid s =
     (case first_idx (\<lambda>p. p_pid p = pid) (ptable s) of
        None \<Rightarrow> Inr (- 1, s)
      | Some i \<Rightarrow>
          bnd (my_proc s) (\<lambda>me.
          bnd (kill_allowed me (ptable s ! i) s) (\<lambda>ok.
            Inr (if ok then (0, proc_upd i set_killed s) else (- 1, s)))))"

section \<open>Stopping, pausing and resuming a container\<close>

definition cstop_container_visit :: "int option \<Rightarrow> nat \<Rightarrow> 'z kproc_scheme \<Rightarrow> 'z kproc_scheme res" where
  "cstop_container_visit cont i s =
     bnd (cont_deref (p_cont (ptable s ! i)) s) (\<lambda>pc.
     bnd (cont_deref cont s) (\<lambda>c.
       if strcmp1 (c_name pc) (c_name c) = 0
       then bnd (kill (p_pid (ptable s ! i)) s) (\<lambda>(r, s). Inr s)
       else Inr s))"

definition cstop_container_helper :: "int option \<Rightarrow> 'z kproc_scheme \<Rightarrow> 'z kproc_scheme res" where
  "cstop_container_helper cont s =
     bnd (foldR (cstop_container_visit cont) [0 ..< length (ptable s)] s) (\<lambda>s.
     bnd (cont_deref cont s) (\<lambda>c. container_reset (find_c (c_name c) s) s))"

definition cstop_visit :: "string \<Rightarrow> nat \<Rightarrow> 'z kproc_scheme \<Rightarrow> 'z kproc_scheme res" where
  "cstop_visit name i s =
     (if p_cont (ptable s ! i) = None then Inr s
      else bnd (cont_deref (p_cont (ptable s ! i)) s) (\<lambda>pc.
             if strcmp1 (c_name pc) name = 0
             then bnd (kill (p_pid (ptable s ! i)) s) (\<lambda>(r, s). Inr s)
             else Inr s))"

definition cstop_helper :: "string \<Rightarrow> 'z kproc_scheme \<Rightarrow> 'z kproc_scheme res" where
  "cstop_helper name s =
     bnd (foldR (cstop_visit name) [0 ..< length (ptable s)] s) (\<lambda>s.
       container_reset (find_c name s) s)"

definition pause_one :: "string \<Rightarrow> 'z kproc_scheme \<Rightarrow> proc \<Rightarrow> proc res" where
  "pause_one name s p =
     (if p_state p = UNUSED \<or> p_cont p = None then Inr p
      else bnd (cont_deref (p_cont p) s) (\<lambda>c.
             Inr (if strcmp1 (c_name c) name = 0 then p\<lparr>p_state := PAUSE\<rparr> else p)))"

definition pause :: "string \<Rightarrow> 'z kproc_scheme \<Rightarrow> 'z kproc_scheme res" where
  "pause name s = bnd (mapR (pause_one name s) (ptable s)) (\<lambda>ps. Inr (s\<lparr>ptable := ps\<rparr>))"

definition resume_one :: "string \<Rightarrow> 'z kproc_scheme \<Rightarrow> proc \<Rightarrow> proc res" where
  "resume_one name s p =
     (if p_state p = PAUSE
      then bnd (cont_deref (p_cont p) s) (\<lambda>c.
             Inr (if strcmp1 (c_name c) name = 0 then p\<lparr>p_state := RUNNABLE\<rparr> else p))
      else Inr p)"

definition resume :: "string \<Rightarrow> 'z kproc_scheme \<Rightarrow> 'z kproc_scheme res" where
  "resume name s = bnd (mapR (resume_one name s) (ptable s)) (\<lambda>ps. Inr (s\<lparr>ptable := ps\<rparr>))"

section \<open>Listings\<close>

text \<open>The tables of state names; \<^verbatim>\<open>procdump\<close>'s has no entry for \<open>PAUSE\<close>.\<close>

definition states_short :: "string list" where
  "states_short = [''unused'', ''embryo'', ''sleep '', ''runble'', ''run   '', ''zombie'']"

definition states_long :: "string list" where
  "states_long = states_short @ [''pause '']"

definition state_name :: "string list \<Rightarrow> procstate \<Rightarrow> string" where
  "state_name states st = (if state_num st < length states then states ! state_num st else ''pause'')"

definition procdump ::
  "'z kproc_scheme \<Rightarrow> (int \<times> string \<times> string \<times> string \<times> u32) list res" where
  "procdump s =
     mapR (\<lambda>p.
       if p_cont p = None
       then Inr (p_pid p, ''root'', state_name states_short (p_state p), p_name p, p_ticks p)
       else bnd (cont_deref (p_cont p) s) (\<lambda>c.
         Inr (p_pid p, c_name c, state_name states_short (p_state p), p_name p, p_ticks p)))
       (filter (\<lambda>p. p_state p \<noteq> UNUSED) (ptable s))"

text \<open>The processes of the named container that are in use, in table order.\<close>

fun cont_procs :: "string \<Rightarrow> 'z kproc_scheme \<Rightarrow> proc list \<Rightarrow> proc list res" where
  "cont_procs name s [] = Inr []"
| "cont_procs name s (p # ps) =
     (if p_state p = UNUSED \<or> p_cont p = None then cont_procs name s ps
      else bnd (cont_deref (p_cont p) s) (\<lambda>c.
             if strcmp1 (c_name c) name = 0
             then bnd (cont_procs name s ps) (\<lambda>qs. Inr (p # qs))
             else cont_procs name s ps))"

definition c_procdump ::
  "string \<Rightarrow> 'z kproc_scheme \<Rightarrow> (string \<times> string \<times> int \<times> string \<times> u32) list res" where
  "c_procdump name s =
     bnd (cont_procs name s (ptable s)) (\<lambda>ps.
       Inr (map (\<lambda>p. (name, p_name p, p_pid p, state_name states_long (p_state p), p_ticks p)) ps))"

text \<open>\<^verbatim>\<open>total\<close> is a signed \<^verbatim>\<open>int\<close> to which the unsigned ticks are added; in the division it
  is converted back to unsigned. Dividing by zero is a processor exception.\<close>

definition ticks_total :: "proc list \<Rightarrow> int" where
  "ticks_total ps = fold (\<lambda>p tot. i32 (tot + uint (p_ticks p))) ps 0"

definition cpu_consumption :: "int \<Rightarrow> proc \<Rightarrow> u32 res" where
  "cpu_consumption tot x =
     (if tot = 0 then Inl (Fault ''divide'') else Inr (p_ticks x * 100 div word_of_int tot))"

definition c_proc_data ::
  "string \<Rightarrow> 'z kproc_scheme \<Rightarrow> (string \<times> int \<times> string \<times> u32 \<times> u32) list res" where
  "c_proc_data name s =
     bnd (cont_procs name s (ptable s)) (\<lambda>ps.
       mapR (\<lambda>x. bnd (cpu_consumption (ticks_total ps) x) (\<lambda>pct.
               Inr (p_name x, p_pid x, state_name states_long (p_state x), p_ticks x, pct))) ps)"

section \<open>Facts on the table\<close>

text \<open>Every process that points to a container points into the table.\<close>

definition wf_cont_ptr :: "'z kproc_scheme \<Rightarrow> int option \<Rightarrow> bool" where
  "wf_cont_ptr s c \<longleftrightarrow> (case c of None \<Rightarrow> True | Some vc \<Rightarrow> in_range vc (containers s))"

definition wf_procs :: "'z kproc_scheme \<Rightarrow> bool" where
  "wf_procs s \<longleftrightarrow> wf_conts s \<and> length (ptable s) = NPROC
     \<and> (\<forall>p \<in> set (ptable s). wf_cont_ptr s (p_cont p))
     \<and> (case cur s of None \<Rightarrow> True | Some i \<Rightarrow> i < NPROC)"

text \<open>The name of the container that a process belongs to; \<open>None\<close> outside every container.\<close>

definition cont_name :: "'z kproc_scheme \<Rightarrow> proc \<Rightarrow> string option" where
  "cont_name s p = map_option (\<lambda>vc. c_name (containers s ! nat vc)) (p_cont p)"

lemma wf_procs_conts: "wf_procs s \<Longrightarrow> wf_conts s"
  by (simp add: wf_procs_def)

lemma cont_deref_wf:
  "wf_cont_ptr s (Some vc) \<Longrightarrow> cont_deref (Some vc) s = Inr (containers s ! nat vc)"
  by (simp add: cont_deref_def wf_cont_ptr_def cont_get_in)

lemma wf_cont_ptr_name:
  assumes "wf_conts s" and "wf_cont_ptr s (Some vc)"
  shows "cstr (c_name (containers s ! nat vc)) = c_name (containers s ! nat vc)"
proof (rule wf_slot_name, rule wf_conts_nth [OF assms(1)])
  from assms show "nat vc < MAX_CONTAINERS"
    by (auto simp: wf_cont_ptr_def wf_conts_def in_range_def)
qed

lemma proc_upd_simps [simp]:
  "ptable (proc_upd i f s) = (ptable s)[i := f (ptable s ! i)]"
  "containers (proc_upd i f s) = containers s" "null_cont (proc_upd i f s) = null_cont s"
  "cur (proc_upd i f s) = cur s" "disk_used (proc_upd i f s) = disk_used s"
  "next_rand (proc_upd i f s) = next_rand s" "initproc (proc_upd i f s) = initproc s"
  "nextpid (proc_upd i f s) = nextpid s" "ticks (proc_upd i f s) = ticks s"
  by (simp_all add: proc_upd_def)

lemma set_killed_simps [simp]:
  "p_killed (set_killed p)" "p_cont (set_killed p) = p_cont p" "p_pid (set_killed p) = p_pid p"
  "p_state (set_killed p) \<noteq> SLEEPING" "p_parent (set_killed p) = p_parent p"
  "p_state (set_killed p) = UNUSED \<longleftrightarrow> p_state p = UNUSED"
  by (auto simp: set_killed_def Let_def)

lemma set_killed_idem [simp]: "set_killed (set_killed p) = set_killed p"
  by (simp add: set_killed_def Let_def)

lemma my_proc_wf:
  "wf_procs s \<Longrightarrow> cur s = Some m \<Longrightarrow> my_proc s = Inr (ptable s ! m)"
  by (simp add: my_proc_def myproc_def fetch_def wf_procs_def)

lemma kill_allowed_wf:
  assumes "wf_conts s" and "wf_cont_ptr s (p_cont me)" and "wf_cont_ptr s (p_cont p)"
  shows "kill_allowed me p s
    = Inr (cont_name s me = None \<or> cont_name s p = cont_name s me)"
proof (cases "p_cont me")
  case None
  then show ?thesis by (simp add: kill_allowed_def cont_name_def)
next
  case (Some mc)
  with assms show ?thesis
    by (cases "p_cont p")
      (auto simp: kill_allowed_def cont_name_def cont_deref_wf wf_cont_ptr_name)
qed

lemma kill_wf:
  assumes "wf_procs s" and "cur s = Some m"
  shows "kill pid s =
    (case first_idx (\<lambda>p. p_pid p = pid) (ptable s) of
       None \<Rightarrow> Inr (- 1, s)
     | Some i \<Rightarrow>
         Inr (if cont_name s (ptable s ! m) = None
                 \<or> cont_name s (ptable s ! i) = cont_name s (ptable s ! m)
              then (0, proc_upd i set_killed s) else (- 1, s)))"
proof (cases "first_idx (\<lambda>p. p_pid p = pid) (ptable s)")
  case None
  then show ?thesis by (simp add: kill_def)
next
  case (Some i)
  from assms have "m < length (ptable s)" by (simp add: wf_procs_def)
  moreover from first_idx_SomeD [OF Some] have "i < length (ptable s)" by simp
  ultimately have "wf_cont_ptr s (p_cont (ptable s ! m))" "wf_cont_ptr s (p_cont (ptable s ! i))"
    using assms by (simp_all add: wf_procs_def)
  with assms Some show ?thesis
    by (simp add: kill_def my_proc_wf kill_allowed_wf wf_procs_conts)
qed

lemma kill_total: "wf_procs s \<Longrightarrow> cur s = Some m \<Longrightarrow> \<exists>r u. kill pid s = Inr (r, u)"
  by (simp add: kill_wf split: option.splits)

text \<open>C3: containers are isolated from each other's \<open>kill\<close>. When the calling process is in a
  container, \<open>kill\<close> never touches a process outside every container or in a container of
  another name; it succeeds exactly when the first process with that pid is in the caller's
  container, and then only that process changes: it is marked killed and no longer sleeps.\<close>

theorem kill_container_isolation:
  assumes "wf_procs s" and "cur s = Some m" and "cont_name s (ptable s ! m) = Some name"
    and "kill pid s = Inr (r, s')"
  shows "(\<forall>j < NPROC. cont_name s (ptable s ! j) \<noteq> Some name \<longrightarrow> ptable s' ! j = ptable s ! j)
    \<and> containers s' = containers s
    \<and> (r = 0 \<longleftrightarrow> (\<exists>i. first_idx (\<lambda>p. p_pid p = pid) (ptable s) = Some i
                    \<and> cont_name s (ptable s ! i) = Some name
                    \<and> ptable s' = (ptable s)[i := set_killed (ptable s ! i)]))
    \<and> (r \<noteq> 0 \<longrightarrow> r = - 1 \<and> s' = s)"
proof (cases "first_idx (\<lambda>p. p_pid p = pid) (ptable s)")
  case None
  with assms show ?thesis by (simp add: kill_wf)
next
  case (Some i)
  from first_idx_SomeD [OF Some] have "i < length (ptable s)" by simp
  with Some assms show ?thesis
    by (cases "cont_name s (ptable s ! i) = Some name")
      (auto simp: kill_wf nth_list_update)
qed

definition proc0 :: proc where
  "proc0 = \<lparr>p_sz = 0, p_pgdir = 0, p_kstack = 0, p_state = UNUSED, p_pid = 0, p_parent = None,
     p_tf = \<lparr>tf_edi = 0, tf_esi = 0, tf_ebp = 0, tf_oesp = 0, tf_ebx = 0, tf_edx = 0, tf_ecx = 0,
       tf_eax = 0, tf_gs = 0, tf_fs = 0, tf_es = 0, tf_ds = 0, tf_trapno = 0, tf_err = 0, tf_eip = 0,
       tf_cs = 0, tf_eflags = 0, tf_esp = 0, tf_ss = 0\<rparr>,
     p_chan = None, p_killed = False, p_ofile = replicate 16 None, p_cwd = None, p_name = '''',
     p_ticks = 0, p_cont = None, p_usage = 0\<rparr>"

text \<open>A table with the process \<^verbatim>\<open>init\<close>, one running process in \<^verbatim>\<open>web\<close> and a sleeping one in
  each of \<^verbatim>\<open>web\<close> and \<^verbatim>\<open>db\<close>.\<close>

definition procs_ex :: "proc list" where
  "procs_ex =
     [proc0\<lparr>p_pid := 1, p_state := SLEEPING, p_chan := Some (ChProc 0), p_name := ''init''\<rparr>,
      proc0\<lparr>p_pid := 2, p_state := RUNNING, p_parent := Some 0, p_cont := Some 0\<rparr>,
      proc0\<lparr>p_pid := 3, p_state := SLEEPING, p_parent := Some 1, p_chan := Some ChTicks, p_cont := Some 0\<rparr>,
      proc0\<lparr>p_pid := 4, p_state := SLEEPING, p_parent := Some 0, p_chan := Some ChTicks, p_cont := Some 2\<rparr>]
     @ replicate 60 proc0"

definition kproc_ex :: "nat option \<Rightarrow> kproc" where
  "kproc_ex c = conts.extend conts_ex
     (kproc.fields procs_ex 5 (Some 0) c slot0 1)"

lemma kproc_ex_simps [simp]:
  "containers (kproc_ex c) = containers conts_ex" "ptable (kproc_ex c) = procs_ex"
  "cur (kproc_ex c) = c" "initproc (kproc_ex c) = Some 0" "null_cont (kproc_ex c) = slot0"
  "nextpid (kproc_ex c) = 5" "ticks (kproc_ex c) = 1"
  by (simp_all add: kproc_ex_def conts.defs kproc.defs)

lemma wf_procs_ex: "(case c of None \<Rightarrow> True | Some i \<Rightarrow> i < NPROC) \<Longrightarrow> wf_procs (kproc_ex c)"
  using wf_conts_ex
  by (auto simp: wf_procs_def wf_conts_def procs_ex_def NPROC_def wf_cont_ptr_def proc0_def
      conts_ex_def in_range_def)

theorem kill_container_isolation_witness:
  "\<exists>s'. kill 3 (kproc_ex (Some 1)) = Inr (0, s') \<and> p_killed (ptable s' ! 2)
    \<and> kill 4 (kproc_ex (Some 1)) = Inr (- 1, kproc_ex (Some 1))
    \<and> ptable s' ! 3 = procs_ex ! 3"
proof -
  let ?s = "kproc_ex (Some 1)"
  have wf: "wf_procs ?s" by (rule wf_procs_ex) (simp add: NPROC_def)
  have me: "cont_name ?s (ptable ?s ! 1) = Some ''web''"
    by (simp add: cont_name_def procs_ex_def proc0_def conts_ex_def)
  have k3: "kill 3 ?s = Inr (0, proc_upd 2 set_killed ?s)"
    using wf by (simp add: kill_wf, simp add: procs_ex_def cont_name_def proc0_def conts_ex_def)
  have k4: "kill 4 ?s = Inr (- 1, ?s)"
    using wf by (simp add: kill_wf, simp add: procs_ex_def cont_name_def proc0_def conts_ex_def slot0_def)
  have "cont_name ?s (ptable ?s ! 3) \<noteq> Some ''web''"
    by (simp add: cont_name_def procs_ex_def proc0_def conts_ex_def slot0_def)
  with kill_container_isolation [OF wf _ me k3] k3 k4 show ?thesis
    by (auto simp: NPROC_def procs_ex_def)
qed

section \<open>What the routines leave alone\<close>

text \<open>The routines above change nothing of the fields that the theories above this one add to
  the state.\<close>

lemma more_cont_upd [frame]: "cont_upd vc f s = Inr s' \<Longrightarrow> conts.more s' = conts.more s"
  by (auto simp: cont_upd_Inr_iff)

lemma cont_upd_kproc [frame]:
  assumes "cont_upd vc f s = Inr s'"
  shows "kproc.more s' = kproc.more s" "ptable s' = ptable s" "cur s' = cur s" "ticks s' = ticks s"
    "null_cont s' = null_cont s" "initproc s' = initproc s"
  using assms by (auto simp: cont_upd_Inr_iff)

lemma more_proc_upd [simp, frame]: "kproc.more (proc_upd i f s) = kproc.more s"
  by (simp add: proc_upd_def)

lemma more_my_upd [frame]: "my_upd f s = Inr s' \<Longrightarrow> kproc.more s' = kproc.more s"
  by (auto simp: my_upd_def split: option.splits)

lemma wakeup_frame [simp, frame]:
  "kproc.more (wakeup ch s) = kproc.more s" "length (ptable (wakeup ch s)) = length (ptable s)"
  "containers (wakeup ch s) = containers s" "cur (wakeup ch s) = cur s" "ticks (wakeup ch s) = ticks s"
  "initproc (wakeup ch s) = initproc s" "null_cont (wakeup ch s) = null_cont s"
  by (simp_all add: wakeup_def wakeup1_def)

lemma kill_cases:
  assumes "kill pid s = Inr (r, s')"
  shows "s' = s \<or> (\<exists>i < length (ptable s). s' = proc_upd i set_killed s)"
proof (cases "first_idx (\<lambda>p. p_pid p = pid) (ptable s)")
  case None
  with assms show ?thesis by (simp add: kill_def)
next
  case (Some i)
  with assms first_idx_SomeD [OF Some] show ?thesis
    by (auto simp: kill_def bnd_Inr_iff split: if_splits)
qed

lemma kill_frame [frame]:
  assumes "kill pid s = Inr (r, s')"
  shows "kproc.more s' = kproc.more s" "ticks s' = ticks s" "cur s' = cur s"
    "containers s' = containers s"
  using assms by (auto simp: kill_def bnd_Inr_iff split: option.splits if_splits)

lemma cstop_container_visit_frame:
  assumes "cstop_container_visit cont i s = Inr s'"
  shows "kproc.more s' = kproc.more s \<and> ticks s' = ticks s"
  using assms
  by (auto simp: cstop_container_visit_def bnd_Inr_iff kill_frame split: if_splits)

lemma cstop_container_frame [frame]:
  assumes "cstop_container_helper cont s = Inr s'"
  shows "kproc.more s' = kproc.more s \<and> ticks s' = ticks s"
proof -
  from assms obtain t and c :: container where t: "foldR (cstop_container_visit cont) [0 ..< length (ptable s)] s = Inr t"
    and r: "container_reset (find_c (c_name c) t) t = Inr s'"
    by (auto simp: cstop_container_helper_def bnd_Inr_iff)
  have "kproc.more t = kproc.more s \<and> ticks t = ticks s"
    using t by (rule foldR_invariant) (auto dest: cstop_container_visit_frame)
  with r show ?thesis by (auto simp: container_reset_def dest: cont_upd_kproc)
qed

section \<open>Stopping a container\<close>

text \<open>Live processes have pids of their own; a slot that is not live has pid 0 or a pid that
  no other slot has.\<close>

definition uniq_pids :: "proc list \<Rightarrow> bool" where
  "uniq_pids ps \<longleftrightarrow>
     (\<forall>i < length ps. p_state (ps ! i) \<noteq> UNUSED \<longrightarrow> p_pid (ps ! i) \<noteq> 0) \<and>
     (\<forall>i < length ps. \<forall>j < length ps. p_pid (ps ! i) = p_pid (ps ! j) \<longrightarrow> p_pid (ps ! i) \<noteq> 0 \<longrightarrow> i = j)"

text \<open>\<open>stop_inv name s k t\<close>: \<open>t\<close> is \<open>s\<close> after the stop loop has visited the first \<open>k\<close> slots.\<close>

definition stop_inv :: "string \<Rightarrow> 'z kproc_scheme \<Rightarrow> nat \<Rightarrow> 'z kproc_scheme \<Rightarrow> bool" where
  "stop_inv name s k t \<longleftrightarrow> t = s\<lparr>ptable := ptable t\<rparr> \<and> length (ptable t) = length (ptable s)
     \<and> (\<forall>i < length (ptable s). ptable t ! i = ptable s ! i \<or> ptable t ! i = set_killed (ptable s ! i))
     \<and> (\<forall>i < length (ptable s). p_state (ptable s ! i) \<noteq> UNUSED \<longrightarrow>
          ptable t ! i = (if i < k \<and> cont_name s (ptable s ! i) = Some (cstr name)
                          then set_killed (ptable s ! i) else ptable s ! i))"

lemma stop_inv_same:
  assumes "stop_inv name s k t"
  shows "containers t = containers s" "cur t = cur s" "length (ptable t) = length (ptable s)"
    and "\<And>i. i < length (ptable s) \<Longrightarrow> p_cont (ptable t ! i) = p_cont (ptable s ! i)"
    and "\<And>i. i < length (ptable s) \<Longrightarrow> p_pid (ptable t ! i) = p_pid (ptable s ! i)"
proof -
  from assms have t: "t = s\<lparr>ptable := ptable t\<rparr>" by (simp add: stop_inv_def)
  show "containers t = containers s" by (subst t) simp
  show "cur t = cur s" by (subst t) simp
  show "length (ptable t) = length (ptable s)" using assms by (simp add: stop_inv_def)
  fix i assume "i < length (ptable s)"
  with assms have "ptable t ! i = ptable s ! i \<or> ptable t ! i = set_killed (ptable s ! i)"
    by (simp add: stop_inv_def)
  then show "p_cont (ptable t ! i) = p_cont (ptable s ! i)" "p_pid (ptable t ! i) = p_pid (ptable s ! i)"
    by auto
qed

lemma stop_inv_wf:
  assumes "stop_inv name s k t" and "wf_procs s"
  shows "wf_procs t"
  using assms stop_inv_same [OF assms(1)]
  by (auto simp: wf_procs_def wf_conts_def wf_cont_ptr_def all_set_conv_all_nth split: option.splits)

lemma stop_inv_name:
  "stop_inv name s k t \<Longrightarrow> i < length (ptable s) \<Longrightarrow>
     cont_name t (ptable t ! i) = cont_name s (ptable s ! i)"
  by (simp add: cont_name_def stop_inv_same)

lemma stop_inv_skip:
  assumes "stop_inv name s k t"
    and "p_state (ptable s ! k) = UNUSED \<or> cont_name s (ptable s ! k) \<noteq> Some (cstr name)"
  shows "stop_inv name s (Suc k) t"
  using assms less_Suc_eq by (auto simp: stop_inv_def)

lemma stop_inv_hit:
  assumes inv: "stop_inv name s k t" and j: "j < length (ptable s)"
    and "j = k \<and> cont_name s (ptable s ! k) = Some (cstr name)
      \<or> p_state (ptable s ! j) = UNUSED \<and>
         (p_state (ptable s ! k) = UNUSED \<or> cont_name s (ptable s ! k) \<noteq> Some (cstr name))"
  shows "stop_inv name s (Suc k) (proc_upd j set_killed t)"
proof -
  have "t\<lparr>ptable := ps\<rparr> = s\<lparr>ptable := ps\<rparr>" for ps
  proof -
    have t: "t = s\<lparr>ptable := ptable t\<rparr>" using inv by (simp add: stop_inv_def)
    show ?thesis by (subst t) simp
  qed
  then show ?thesis
    using inv j assms(3) less_Suc_eq by (auto simp: stop_inv_def proc_upd_def nth_list_update)
qed

text \<open>The process that \<open>kill\<close> finds for the pid of slot \<open>k\<close> is slot \<open>k\<close> itself, or neither is
  live.\<close>

lemma stop_inv_find:
  assumes "stop_inv name s k t" and "k < length (ptable s)" and "uniq_pids (ptable s)"
  obtains j where "first_idx (\<lambda>p. p_pid p = p_pid (ptable t ! k)) (ptable t) = Some j"
    and "j < length (ptable s)"
    and "j = k \<or> p_state (ptable s ! j) = UNUSED \<and> p_state (ptable s ! k) = UNUSED"
proof -
  note same = stop_inv_same [OF assms(1)]
  let ?P = "\<lambda>p. p_pid p = p_pid (ptable t ! k)"
  have "ptable t ! k \<in> set (ptable t)" using assms(2) same by simp
  then obtain j where j: "first_idx ?P (ptable t) = Some j"
    by (cases "first_idx ?P (ptable t)") (auto simp: first_idx_None_iff)
  from first_idx_SomeD [OF j] have jl: "j < length (ptable s)" "p_pid (ptable s ! j) = p_pid (ptable s ! k)"
    using same assms(2) by auto
  moreover have "j = k \<or> p_state (ptable s ! j) = UNUSED \<and> p_state (ptable s ! k) = UNUSED"
    using assms(2,3) jl unfolding uniq_pids_def by metis
  ultimately show thesis using j that by blast
qed

lemma stop_inv_deref:
  assumes "stop_inv name s n t" and "wf_procs s" and "k < length (ptable s)"
    and "p_cont (ptable t ! k) = Some vc"
  shows "cont_deref (Some vc) t = Inr (containers s ! nat vc)"
    and "cont_name s (ptable s ! k) = Some (cstr (c_name (containers s ! nat vc)))"
proof -
  note same = stop_inv_same [OF assms(1)]
  have wft: "wf_procs t" using assms(1,2) by (rule stop_inv_wf)
  have ptr: "wf_cont_ptr t (Some vc)"
    using wft assms(3,4) same by (auto simp: wf_procs_def all_set_conv_all_nth dest!: spec [of _ k])
  show "cont_deref (Some vc) t = Inr (containers s ! nat vc)"
    using cont_deref_wf [OF ptr] same by simp
  show "cont_name s (ptable s ! k) = Some (cstr (c_name (containers s ! nat vc)))"
    using assms(3,4) same wf_cont_ptr_name [OF wf_procs_conts [OF wft] ptr]
    by (simp add: cont_name_def)
qed

lemma cstop_visit_step:
  assumes inv: "stop_inv name s k t" and wf: "wf_procs s" and k: "k < length (ptable s)"
    and me: "cur s = Some m" "p_cont (ptable s ! m) = None" and pids: "uniq_pids (ptable s)"
  shows "\<exists>u. cstop_visit name k t = Inr u \<and> stop_inv name s (Suc k) u"
proof (cases "cont_name s (ptable s ! k) = Some (cstr name)")
  case False
  then have "cstop_visit name k t = Inr t"
    using stop_inv_deref [OF inv wf k]
    by (cases "p_cont (ptable t ! k)") (auto simp: cstop_visit_def)
  with False stop_inv_skip [OF inv] show ?thesis by auto
next
  case True
  note same = stop_inv_same [OF inv]
  have wft: "wf_procs t" using inv wf by (rule stop_inv_wf)
  have m: "m < length (ptable s)" using wf me by (simp add: wf_procs_def)
  have root: "cont_name t (ptable t ! m) = None"
    using stop_inv_name [OF inv m] me by (simp add: cont_name_def)
  from True obtain vc where "p_cont (ptable t ! k) = Some vc"
    using same k by (auto simp: cont_name_def)
  with True stop_inv_deref [OF inv wf k]
  have visit: "cstop_visit name k t = bnd (kill (p_pid (ptable t ! k)) t) (\<lambda>(r, s). Inr s)"
    by (simp add: cstop_visit_def)
  obtain j where j: "first_idx (\<lambda>p. p_pid p = p_pid (ptable t ! k)) (ptable t) = Some j"
    "j < length (ptable s)" "j = k \<or> p_state (ptable s ! j) = UNUSED \<and> p_state (ptable s ! k) = UNUSED"
    using inv k pids by (rule stop_inv_find)
  then have "cstop_visit name k t = Inr (proc_upd j set_killed t)"
    using visit kill_wf [OF wft] same me root by simp
  with stop_inv_hit [OF inv j(2)] j(3) True show ?thesis by auto
qed

lemma cstop_container_visit_step:
  assumes inv: "stop_inv (c_name c) s k t" and wf: "wf_procs s" and k: "k < length (ptable s)"
    and me: "cur s = Some m" "p_cont (ptable s ! m) = Some vc" and c: "c = containers s ! nat vc"
    and pids: "uniq_pids (ptable s)"
  shows "\<exists>u. cstop_container_visit (Some vc) k t = Inr u \<and> stop_inv (c_name c) s (Suc k) u"
proof -
  note same = stop_inv_same [OF inv]
  have wft: "wf_procs t" using inv wf by (rule stop_inv_wf)
  have m: "m < length (ptable s)" using wf me by (simp add: wf_procs_def)
  have mt: "p_cont (ptable t ! m) = Some vc" using same m me by simp
  note my = stop_inv_deref [OF inv wf m mt]
  have mn: "cont_name t (ptable t ! m) = Some (cstr (c_name c))"
    using stop_inv_name [OF inv m] my c by simp
  obtain j where j: "first_idx (\<lambda>p. p_pid p = p_pid (ptable t ! k)) (ptable t) = Some j"
    "j < length (ptable s)" "j = k \<or> p_state (ptable s ! j) = UNUSED \<and> p_state (ptable s ! k) = UNUSED"
    using inv k pids by (rule stop_inv_find)
  have kill: "kill (p_pid (ptable t ! k)) t =
      Inr (if cont_name s (ptable s ! j) = Some (cstr (c_name c)) then (0, proc_upd j set_killed t)
           else (- 1, t))"
    using kill_wf [OF wft] same me j mn stop_inv_name [OF inv j(2)] by simp
  obtain pc where pc: "cont_deref (p_cont (ptable t ! k)) t = Inr pc"
    and pn: "p_cont (ptable t ! k) \<noteq> None \<longrightarrow> cont_name s (ptable s ! k) = Some (cstr (c_name pc))"
    using stop_inv_deref [OF inv wf k] by (cases "p_cont (ptable t ! k)") (auto simp: cont_deref_def)
  have none: "cont_name s (ptable s ! k) = None" if "p_cont (ptable t ! k) = None"
    using that same k by (simp add: cont_name_def)
  have visit: "cstop_container_visit (Some vc) k t =
      Inr (if cstr (c_name pc) = cstr (c_name c) \<and> cont_name s (ptable s ! j) = Some (cstr (c_name c))
           then proc_upd j set_killed t else t)"
    using pc my c kill by (simp add: cstop_container_visit_def)
  show ?thesis
  proof (cases "cstr (c_name pc) = cstr (c_name c) \<and> cont_name s (ptable s ! j) = Some (cstr (c_name c))")
    case True
    with visit stop_inv_hit [OF inv j(2)] j(3) show ?thesis by auto
  next
    case False
    then have "p_state (ptable s ! k) = UNUSED \<or> cont_name s (ptable s ! k) \<noteq> Some (cstr (c_name c))"
      using j(3) pn none by auto
    with False visit stop_inv_skip [OF inv] show ?thesis by auto
  qed
qed

lemma cstop_loop:
  assumes "wf_procs s" and "cur s = Some m" and "p_cont (ptable s ! m) = None"
    and "uniq_pids (ptable s)" and "k \<le> length (ptable s)"
  shows "\<exists>t. foldR (cstop_visit name) [0 ..< k] s = Inr t \<and> stop_inv name s k t"
  using assms(5)
proof (induction k)
  case 0
  then show ?case by (simp add: stop_inv_def)
next
  case (Suc k)
  then obtain t where "foldR (cstop_visit name) [0 ..< k] s = Inr t" and inv: "stop_inv name s k t"
    by auto
  with cstop_visit_step [OF inv assms(1) _ assms(2-4)] Suc.prems show ?case
    by (auto simp: foldR_append)
qed

text \<open>What a finished stop loop followed by \<open>container_reset\<close> leaves.\<close>

lemma stop_inv_reset:
  assumes "wf_procs s" and "uniq_names (containers s)" and "find_c name s = int k"
    and inv: "stop_inv name s (length (ptable s)) t"
  shows "\<exists>s'. container_reset (find_c name t) t = Inr s'
    \<and> (\<forall>i < NPROC. p_state (ptable s ! i) \<noteq> UNUSED \<longrightarrow>
          ptable s' ! i = (if cont_name s (ptable s ! i) = Some (cstr name)
                           then set_killed (ptable s ! i) else ptable s ! i))
    \<and> containers s' = (containers s)[k := reset_slot (containers s ! k)]
    \<and> find_c name s' = - 1 \<and> cur s' = cur s"
proof -
  have len: "length (ptable s) = NPROC" using assms(1) by (simp add: wf_procs_def)
  note same = stop_inv_same [OF inv]
  have wf: "wf_conts s" using assms(1) by (rule wf_procs_conts)
  have wft: "wf_conts t" using stop_inv_wf [OF inv assms(1)] by (rule wf_procs_conts)
  have f: "find_c name t = int k" using assms(3) same by (simp add: find_c_def)
  then have rng: "in_range (int k) (containers t)"
    using find_c_range [OF wft, of name] by auto
  let ?s' = "t\<lparr>containers := (containers t)[k := reset_slot (containers t ! k)]\<rparr>"
  have r: "container_reset (int k) t = Inr ?s'"
    using rng by (simp add: container_reset_def cont_upd_in)
  have wfs': "wf_conts ?s'" using wft r by (rule wf_setters)
  have name: "c_name (containers s ! k) = cstr name" "cstr name \<noteq> []" "k < MAX_CONTAINERS"
    using find_c_nat_iff [OF wf] assms(3) by auto
  have "c_name (containers ?s' ! j) \<noteq> cstr name" if "j < MAX_CONTAINERS" for j
    using that assms(2) name wf same(1)
    by (cases "j = k") (auto simp: uniq_names_def wf_conts_def reset_slot_def)
  then have "find_c name ?s' = - 1"
    using wfs' find_c_neg_iff [OF wfs', of name] by (auto simp: wf_conts_def all_set_conv_all_nth)
  then show ?thesis
    using f r inv same len by (auto simp: stop_inv_def)
qed

text \<open>C4: stopping a container from outside stops all of it and nothing else. Every live process
  of the named container is marked killed and does not sleep any more, no other live process
  changes, the slot is free again and the name is not found.\<close>

theorem cstop_helper_stops:
  assumes "wf_procs s" and "cur s = Some m" and "p_cont (ptable s ! m) = None"
    and "uniq_pids (ptable s)" and "uniq_names (containers s)" and "find_c name s = int k"
  shows "\<exists>s'. cstop_helper name s = Inr s'
    \<and> (\<forall>i < NPROC. p_state (ptable s ! i) \<noteq> UNUSED \<longrightarrow>
          ptable s' ! i = (if cont_name s (ptable s ! i) = Some (cstr name)
                           then set_killed (ptable s ! i) else ptable s ! i))
    \<and> containers s' = (containers s)[k := reset_slot (containers s ! k)]
    \<and> find_c name s' = - 1"
proof -
  obtain t where t: "foldR (cstop_visit name) [0 ..< length (ptable s)] s = Inr t"
    and inv: "stop_inv name s (length (ptable s)) t"
    using cstop_loop [OF assms(1-4), of "length (ptable s)" name] by auto
  with stop_inv_reset [OF assms(1,5,6) inv] show ?thesis by (auto simp: cstop_helper_def)
qed

theorem cstop_helper_stops_witness:
  "\<exists>s'. cstop_helper ''web'' (kproc_ex (Some 0)) = Inr s' \<and> find_c ''web'' s' = - 1
    \<and> p_killed (ptable s' ! 2) \<and> p_state (ptable s' ! 2) = RUNNABLE \<and> ptable s' ! 3 = procs_ex ! 3"
proof -
  let ?s = "kproc_ex (Some 0)"
  have wf: "wf_procs ?s" by (rule wf_procs_ex) (simp add: NPROC_def)
  have pids: "uniq_pids (ptable ?s)"
    by (simp add: uniq_pids_def procs_ex_def proc0_def nth_Cons' nth_append)
  have u: "uniq_names (containers ?s)"
    by (auto simp: uniq_names_def conts_ex_def slot0_def nth_Cons' numeral_eq_Suc less_Suc_eq)
  have f: "find_c ''web'' ?s = int 0" by (simp add: find_c_def conts_ex_def slot0_def)
  have root: "p_cont (ptable ?s ! 0) = None" by (simp add: procs_ex_def proc0_def)
  obtain s' where s': "cstop_helper ''web'' ?s = Inr s'" "find_c ''web'' s' = - 1"
    and procs: "\<And>i. i < NPROC \<Longrightarrow> p_state (procs_ex ! i) \<noteq> UNUSED \<Longrightarrow>
          ptable s' ! i = (if cont_name ?s (procs_ex ! i) = Some (cstr ''web'')
                           then set_killed (procs_ex ! i) else procs_ex ! i)"
    using cstop_helper_stops [OF wf _ root pids u f] by auto
  have "p_state (procs_ex ! 2) = SLEEPING" "p_state (procs_ex ! 3) = SLEEPING"
    "cont_name ?s (procs_ex ! 2) = Some ''web''" "cont_name ?s (procs_ex ! 3) \<noteq> Some ''web''"
    by (simp_all add: procs_ex_def cont_name_def proc0_def conts_ex_def slot0_def)
  with procs [of 2] procs [of 3] s' show ?thesis
    by (simp add: NPROC_def set_killed_def)
qed

lemma cstop_container_loop:
  assumes "wf_procs s" and "cur s = Some m" and "p_cont (ptable s ! m) = Some vc"
    and "c = containers s ! nat vc" and "uniq_pids (ptable s)" and "k \<le> length (ptable s)"
  shows "\<exists>t. foldR (cstop_container_visit (Some vc)) [0 ..< k] s = Inr t \<and> stop_inv (c_name c) s k t"
  using assms(6)
proof (induction k)
  case 0
  then show ?case by (simp add: stop_inv_def)
next
  case (Suc k)
  then obtain t where "foldR (cstop_container_visit (Some vc)) [0 ..< k] s = Inr t"
    and inv: "stop_inv (c_name c) s k t" by auto
  with cstop_container_visit_step [OF inv assms(1) _ assms(2-5)] Suc.prems show ?case
    by (auto simp: foldR_append)
qed

text \<open>The same when a process of the container stops it, as the kernel does on its behalf when
  a limit is passed.\<close>

lemma cstop_container_stops:
  assumes "wf_procs s" and "cur s = Some m" and "p_cont (ptable s ! m) = Some vc"
    and "uniq_pids (ptable s)" and "uniq_names (containers s)"
    and "find_c (c_name (containers s ! nat vc)) s = int k"
  shows "\<exists>s'. cstop_container_helper (Some vc) s = Inr s'
    \<and> (\<forall>i < NPROC. p_state (ptable s ! i) \<noteq> UNUSED \<longrightarrow>
          ptable s' ! i = (if cont_name s (ptable s ! i) = cont_name s (ptable s ! m)
                           then set_killed (ptable s ! i) else ptable s ! i))
    \<and> containers s' = (containers s)[k := reset_slot (containers s ! k)]
    \<and> find_c (c_name (containers s ! nat vc)) s' = - 1 \<and> cur s' = cur s"
proof -
  let ?c = "containers s ! nat vc"
  have m: "m < length (ptable s)" using assms(1,2) by (simp add: wf_procs_def)
  obtain t where t: "foldR (cstop_container_visit (Some vc)) [0 ..< length (ptable s)] s = Inr t"
    and inv: "stop_inv (c_name ?c) s (length (ptable s)) t"
    using cstop_container_loop [OF assms(1-3) refl assms(4), of "length (ptable s)"] by auto
  note same = stop_inv_same [OF inv]
  have mt: "p_cont (ptable t ! m) = Some vc" using same m assms(3) by simp
  note my = stop_inv_deref [OF inv assms(1) m mt]
  from t my stop_inv_reset [OF assms(1,5,6) inv] show ?thesis
    by (auto simp: cstop_container_helper_def)
qed

section \<open>Pausing and resuming\<close>

definition in_cont :: "'z kproc_scheme \<Rightarrow> string \<Rightarrow> proc \<Rightarrow> bool" where
  "in_cont s name p \<longleftrightarrow> p_state p \<noteq> UNUSED \<and> cont_name s p = Some (cstr name)"

lemma cont_match_wf:
  assumes "wf_procs s" and "p \<in> set (ptable s)" and "p_cont p \<noteq> None"
  shows "bnd (cont_deref (p_cont p) s) (\<lambda>c. Inr (if strcmp1 (c_name c) name = 0 then x else y))
    = Inr (if cont_name s p = Some (cstr name) then x else y)"
proof -
  from assms obtain vc where vc: "p_cont p = Some vc" "wf_cont_ptr s (Some vc)"
    by (auto simp: wf_procs_def)
  with cont_deref_wf [OF vc(2)] wf_cont_ptr_name [OF wf_procs_conts [OF assms(1)] vc(2)]
  show ?thesis by (simp add: cont_name_def)
qed

lemma pause_wf:
  assumes "wf_procs s"
  shows "pause name s =
    Inr (s\<lparr>ptable := map (\<lambda>p. if in_cont s name p then p\<lparr>p_state := PAUSE\<rparr> else p) (ptable s)\<rparr>)"
proof -
  have "mapR (pause_one name s) (ptable s)
      = Inr (map (\<lambda>p. if in_cont s name p then p\<lparr>p_state := PAUSE\<rparr> else p) (ptable s))"
  proof (rule mapR_Inr)
    fix p assume p: "p \<in> set (ptable s)"
    then show "pause_one name s p = Inr (if in_cont s name p then p\<lparr>p_state := PAUSE\<rparr> else p)"
      using cont_match_wf [OF assms p, of name "p\<lparr>p_state := PAUSE\<rparr>" p]
      by (auto simp: pause_one_def in_cont_def cont_name_def)
  qed
  then show ?thesis by (simp add: pause_def)
qed

text \<open>Only processes in a container are ever paused.\<close>

definition paused_in_cont :: "'z kproc_scheme \<Rightarrow> bool" where
  "paused_in_cont s \<longleftrightarrow> (\<forall>p \<in> set (ptable s). p_state p = PAUSE \<longrightarrow> p_cont p \<noteq> None)"

lemma resume_wf:
  assumes "wf_procs s" and "paused_in_cont s"
  shows "resume name s =
    Inr (s\<lparr>ptable := map (\<lambda>p. if in_cont s name p \<and> p_state p = PAUSE then p\<lparr>p_state := RUNNABLE\<rparr>
                              else p) (ptable s)\<rparr>)"
proof -
  have "mapR (resume_one name s) (ptable s)
      = Inr (map (\<lambda>p. if in_cont s name p \<and> p_state p = PAUSE then p\<lparr>p_state := RUNNABLE\<rparr> else p)
              (ptable s))"
  proof (rule mapR_Inr)
    fix p assume p: "p \<in> set (ptable s)"
    with assms(2) show "resume_one name s p
        = Inr (if in_cont s name p \<and> p_state p = PAUSE then p\<lparr>p_state := RUNNABLE\<rparr> else p)"
      using cont_match_wf [OF assms(1) p, of name "p\<lparr>p_state := RUNNABLE\<rparr>" p]
      by (auto simp: resume_one_def in_cont_def paused_in_cont_def)
  qed
  then show ?thesis by (simp add: resume_def)
qed

lemma wf_procs_map:
  assumes "wf_procs s" and "\<And>p. p_cont (f p) = p_cont p"
  shows "wf_procs (s\<lparr>ptable := map f (ptable s)\<rparr>)"
  using assms by (auto simp: wf_procs_def wf_conts_def wf_cont_ptr_def split: option.splits)

lemma paused_in_cont_pause:
  assumes "wf_procs s" and "paused_in_cont s" and "pause name s = Inr s'"
  shows "paused_in_cont s' \<and> wf_procs s'"
  using assms
  by (auto simp: pause_wf paused_in_cont_def in_cont_def cont_name_def intro!: wf_procs_map)

lemma pause_resume_wf:
  assumes "wf_procs s" and "paused_in_cont s"
  shows "\<exists>s1. pause name s = Inr s1
    \<and> s1 = s\<lparr>ptable := map (\<lambda>p. if in_cont s name p then p\<lparr>p_state := PAUSE\<rparr> else p) (ptable s)\<rparr>
    \<and> resume name s1 = Inr (s\<lparr>ptable := map (\<lambda>p. if in_cont s name p then p\<lparr>p_state := RUNNABLE\<rparr> else p) (ptable s)\<rparr>)"
proof -
  let ?s1 = "s\<lparr>ptable := map (\<lambda>p. if in_cont s name p then p\<lparr>p_state := PAUSE\<rparr> else p) (ptable s)\<rparr>"
  have s1: "pause name s = Inr ?s1" using assms(1) by (rule pause_wf)
  note wf1 = paused_in_cont_pause [OF assms s1]
  have "in_cont ?s1 name (p\<lparr>p_state := PAUSE\<rparr>) = in_cont s name p" if "in_cont s name p" for p
    using that by (simp add: in_cont_def cont_name_def)
  moreover have "in_cont ?s1 name p = in_cont s name p" for p by (simp add: in_cont_def cont_name_def)
  ultimately show ?thesis
    using s1 resume_wf [OF conjunct2 [OF wf1] conjunct1 [OF wf1], of name] by (simp add: comp_def cong: if_cong)
qed

text \<open>C7: \<open>resume\<close> undoes \<open>pause\<close> for the processes that wait for a processor. \<open>pause\<close> takes every runnable process of
  the container out of the scheduler's sight and \<open>resume\<close> puts back exactly the entry it had; the processes of
  other containers and those outside the containers are untouched by both, whatever they do. When all the live
  processes of the container were runnable, the two calls together give back the state before.
  The table is well formed, and a process that is already paused is in a container.\<close>

theorem resume_after_pause:
  assumes "wf_procs s" and "paused_in_cont s"
  shows "\<exists>s1 s2. pause name s = Inr s1 \<and> resume name s1 = Inr s2
    \<and> (\<forall>i < NPROC. cont_name s (ptable s ! i) = Some (cstr name) \<longrightarrow> p_state (ptable s ! i) = RUNNABLE
        \<longrightarrow> p_state (ptable s1 ! i) = PAUSE \<and> ptable s2 ! i = ptable s ! i)
    \<and> (\<forall>i < NPROC. cont_name s (ptable s ! i) \<noteq> Some (cstr name)
        \<longrightarrow> ptable s1 ! i = ptable s ! i \<and> ptable s2 ! i = ptable s ! i)
    \<and> ((\<forall>p \<in> set (ptable s). cont_name s p = Some (cstr name) \<longrightarrow> p_state p \<in> {UNUSED, RUNNABLE}) \<longrightarrow> s2 = s)"
proof -
  let ?f = "\<lambda>st p. if in_cont s name p then p\<lparr>p_state := st\<rparr> else p"
  let ?s = "\<lambda>st. s\<lparr>ptable := map (?f st) (ptable s)\<rparr>"
  have run: "pause name s = Inr (?s PAUSE)" "resume name (?s PAUSE) = Inr (?s RUNNABLE)"
    using pause_resume_wf [OF assms, of name] by auto
  have len: "length (ptable s) = NPROC" using assms(1) by (simp add: wf_procs_def)
  have "?s RUNNABLE = s" if r: "\<forall>p \<in> set (ptable s). cont_name s p = Some (cstr name) \<longrightarrow> p_state p \<in> {UNUSED, RUNNABLE}"
  proof -
    have "map (?f RUNNABLE) (ptable s) = ptable s"
      by (rule map_idI) (use r in \<open>auto simp: in_cont_def\<close>)
    then show ?thesis by simp
  qed
  with run len show ?thesis
    by (intro exI [of _ "?s PAUSE"] exI [of _ "?s RUNNABLE"]) (simp add: in_cont_def)
qed

text \<open>The container db has one process, at index 3, and it is runnable.\<close>

theorem resume_after_pause_witness:
  "\<exists>s1. let s = proc_upd 3 (\<lambda>p. p\<lparr>p_state := RUNNABLE\<rparr>) (kproc_ex (Some 0)) in
     pause ''db'' s = Inr s1 \<and> p_state (ptable s1 ! 3) = PAUSE \<and> resume ''db'' s1 = Inr s"
proof -
  let ?s = "proc_upd 3 (\<lambda>p. p\<lparr>p_state := RUNNABLE\<rparr>) (kproc_ex (Some 0))"
  have wf: "wf_procs ?s"
    using wf_conts_ex
    by (auto simp: wf_procs_def wf_conts_def procs_ex_def NPROC_def wf_cont_ptr_def proc0_def
        conts_ex_def in_range_def)
  have pc: "paused_in_cont ?s" by (simp add: paused_in_cont_def procs_ex_def proc0_def)
  have "\<forall>p \<in> set (ptable ?s). cont_name ?s p = Some (cstr ''db'') \<longrightarrow> p_state p \<in> {UNUSED, RUNNABLE}"
    "cont_name ?s (ptable ?s ! 3) = Some (cstr ''db'')" "p_state (ptable ?s ! 3) = RUNNABLE"
    by (simp_all add: cont_name_def procs_ex_def proc0_def conts_ex_def)
  with resume_after_pause [OF wf pc, of "''db''"] show ?thesis
    by (auto simp: Let_def NPROC_def)
qed

text \<open>For a process that has exited this is not so: \<open>pause\<close> does not look at the state, so that \<open>resume\<close> makes a zombie runnable.\<close>

lemma resume_revives_zombie:
  assumes "wf_procs s" and "paused_in_cont s" and "p \<in> set (ptable s)" and "p_state p = ZOMBIE"
    and "cont_name s p = Some (cstr name)"
  shows "\<exists>s1 s2. pause name s = Inr s1 \<and> resume name s1 = Inr s2 \<and> p\<lparr>p_state := RUNNABLE\<rparr> \<in> set (ptable s2)"
proof -
  have "in_cont s name p" using assms(4,5) by (simp add: in_cont_def)
  with pause_resume_wf [OF assms(1,2), of name] assms(3) show ?thesis by force
qed

text \<open>The table operations that other processes and interrupts may run while a container is
  paused.\<close>

datatype table_op = OpWakeup "chan option" | OpKill int | OpPause string | OpResume string

fun table_run :: "table_op list \<Rightarrow> 'z kproc_scheme \<Rightarrow> 'z kproc_scheme res" where
  "table_run [] s = Inr s"
| "table_run (OpWakeup ch # xs) s = table_run xs (wakeup ch s)"
| "table_run (OpKill pid # xs) s = bnd (kill pid s) (\<lambda>(r, s). table_run xs s)"
| "table_run (OpPause n # xs) s = bnd (pause n s) (table_run xs)"
| "table_run (OpResume n # xs) s = bnd (resume n s) (table_run xs)"

definition paused_at :: "container list \<Rightarrow> string \<Rightarrow> nat \<Rightarrow> 'z kproc_scheme \<Rightarrow> bool" where
  "paused_at cs name i s \<longleftrightarrow> wf_procs s \<and> cur s \<noteq> None \<and> paused_in_cont s \<and> containers s = cs
     \<and> i < NPROC \<and> p_state (ptable s ! i) = PAUSE \<and> cont_name s (ptable s ! i) = Some (cstr name)"

lemma paused_at_upd:
  assumes "paused_at cs name i s" and "length ps = length (ptable s)"
    and "\<And>j. j < NPROC \<Longrightarrow> p_cont (ps ! j) = p_cont (ptable s ! j)"
    and "\<And>j. j < NPROC \<Longrightarrow> p_state (ps ! j) = PAUSE \<Longrightarrow>
           p_state (ptable s ! j) = PAUSE \<or> p_cont (ptable s ! j) \<noteq> None"
    and "p_state (ps ! i) = PAUSE"
  shows "paused_at cs name i (s\<lparr>ptable := ps\<rparr>)"
proof -
  have "wf_procs (s\<lparr>ptable := ps\<rparr>)"
    using assms(1-3)
    by (auto simp: paused_at_def wf_procs_def wf_conts_def wf_cont_ptr_def all_set_conv_all_nth
        split: option.splits)
  moreover have "p_cont (ps ! j) \<noteq> None" if "j < NPROC" "p_state (ps ! j) = PAUSE" for j
    using assms(1) assms(4) [OF that] assms(3) [OF that(1)] that
    by (auto simp: paused_at_def wf_procs_def paused_in_cont_def all_set_conv_all_nth)
  then have "paused_in_cont (s\<lparr>ptable := ps\<rparr>)"
    using assms(1,2)
    by (auto simp: paused_at_def wf_procs_def paused_in_cont_def all_set_conv_all_nth)
  ultimately show ?thesis
    using assms by (auto simp: paused_at_def cont_name_def)
qed

lemma paused_at_ops:
  assumes "paused_at cs name i s"
  shows "paused_at cs name i (wakeup ch s)"
    and "kill pid s = Inr (r, t) \<Longrightarrow> paused_at cs name i t"
    and "pause n s = Inr t \<Longrightarrow> paused_at cs name i t"
    and "resume n s = Inr t \<Longrightarrow> cstr n \<noteq> cstr name \<Longrightarrow> paused_at cs name i t"
proof -
  from assms obtain m where m: "cur s = Some m" and wf: "wf_procs s" and pc: "paused_in_cont s"
    and len: "length (ptable s) = NPROC" and i: "i < NPROC" "p_state (ptable s ! i) = PAUSE"
    and n: "cont_name s (ptable s ! i) = Some (cstr name)"
    by (auto simp: paused_at_def wf_procs_def)
  show "paused_at cs name i (wakeup ch s)"
    unfolding wakeup_def wakeup1_def
    by (rule paused_at_upd [OF assms]) (auto simp: len i wakeup_one_def split: if_splits)
  have k: "p_state (set_killed q) = PAUSE \<longleftrightarrow> p_state q = PAUSE" for q
    by (auto simp: set_killed_def Let_def)
  have "paused_at cs name i (proc_upd j set_killed s)" if "j < NPROC" for j
    unfolding proc_upd_def
    by (rule paused_at_upd [OF assms]) (auto simp: len i nth_list_update k that split: if_splits)
  then show "paused_at cs name i t" if "kill pid s = Inr (r, t)"
    using that assms kill_wf [OF wf m] len
    by (fastforce split: option.splits if_splits dest!: first_idx_SomeD)
  show "paused_at cs name i t" if "pause n s = Inr t"
  proof -
    have "t = s\<lparr>ptable := map (\<lambda>p. if in_cont s n p then p\<lparr>p_state := PAUSE\<rparr> else p) (ptable s)\<rparr>"
      using that pause_wf [OF wf] by simp
    then show ?thesis
      by (auto intro!: paused_at_upd [OF assms] simp: len i in_cont_def cont_name_def split: if_splits)
  qed
  show "paused_at cs name i t" if "resume n s = Inr t" "cstr n \<noteq> cstr name"
  proof -
    have "t = s\<lparr>ptable := map (\<lambda>p. if in_cont s n p \<and> p_state p = PAUSE
                                  then p\<lparr>p_state := RUNNABLE\<rparr> else p) (ptable s)\<rparr>"
      using that resume_wf [OF wf pc] by simp
    then show ?thesis
      using that n by (auto intro!: paused_at_upd [OF assms] simp: len i in_cont_def split: if_splits)
  qed
qed

lemma paused_at_run:
  assumes "table_run ops s = Inr t" and "paused_at cs name i s"
    and "\<forall>n. OpResume n \<in> set ops \<longrightarrow> cstr n \<noteq> cstr name"
  shows "paused_at cs name i t"
  using assms
proof (induction ops s rule: table_run.induct)
  case (3 pid xs s)
  then obtain r u where "kill pid s = Inr (r, u)" "table_run xs u = Inr t"
    by (auto simp: bnd_Inr_iff)
  with 3 paused_at_ops(2) show ?case by fastforce
next
  case (4 n xs s)
  then obtain u where "pause n s = Inr u" "table_run xs u = Inr t" by (auto simp: bnd_Inr_iff)
  with 4 paused_at_ops(3) show ?case by fastforce
next
  case (5 n xs s)
  then obtain u where "resume n s = Inr u" "table_run xs u = Inr t" by (auto simp: bnd_Inr_iff)
  with 5 paused_at_ops(4) show ?case by fastforce
qed (auto intro: paused_at_ops)

text \<open>C6: a paused container stays paused. Whatever wake-ups, kills, pauses, and resumes of other
  containers follow, no live process of it becomes runnable.\<close>

theorem pause_is_stable:
  assumes "wf_procs s" and "cur s \<noteq> None" and "paused_in_cont s" and "pause name s = Inr s1"
    and "table_run ops s1 = Inr s2"
    and "\<forall>n. OpResume n \<in> set ops \<longrightarrow> cstr n \<noteq> cstr name"
    and "i < NPROC" and "cont_name s (ptable s ! i) = Some (cstr name)"
    and "p_state (ptable s ! i) \<noteq> UNUSED"
  shows "p_state (ptable s2 ! i) = PAUSE"
proof -
  have "length (ptable s) = NPROC" using assms(1) by (simp add: wf_procs_def)
  then have "paused_at (containers s) name i s1"
    using assms paused_in_cont_pause [OF assms(1,3,4)] pause_wf [OF assms(1), of name]
    by (auto simp: paused_at_def in_cont_def cont_name_def)
  from paused_at_run [OF assms(5) this assms(6)] show ?thesis by (simp add: paused_at_def)
qed

theorem pause_is_stable_witness:
  "\<exists>s1 s2. pause ''web'' (kproc_ex (Some 0)) = Inr s1
    \<and> table_run [OpKill 3, OpWakeup (Some ChTicks), OpResume ''db''] s1 = Inr s2
    \<and> p_state (ptable s2 ! 2) = PAUSE"
proof -
  let ?s = "kproc_ex (Some 0)" and ?ops = "[OpKill 3, OpWakeup (Some ChTicks), OpResume ''db'']"
  have wf: "wf_procs ?s" by (rule wf_procs_ex) (simp add: NPROC_def)
  have pc: "paused_in_cont ?s" by (simp add: paused_in_cont_def procs_ex_def proc0_def)
  obtain s1 where s1: "pause ''web'' ?s = Inr s1" using pause_wf [OF wf] by blast
  obtain s2 where s2: "table_run ?ops s1 = Inr s2"
  proof -
    have a1: "paused_at (containers ?s) ''web'' 2 s1"
      using s1 paused_in_cont_pause [OF wf pc s1] pause_wf [OF wf, of "''web''"]
      by (auto simp: paused_at_def in_cont_def cont_name_def NPROC_def procs_ex_def proc0_def conts_ex_def)
    obtain r u where u: "kill 3 s1 = Inr (r, u)"
      using a1 kill_total [of s1 _ 3] by (auto simp: paused_at_def)
    have "paused_at (containers ?s) ''web'' 2 (wakeup (Some ChTicks) u)"
      using paused_at_ops(1) [OF paused_at_ops(2) [OF a1 u]] .
    then obtain v where "resume ''db'' (wakeup (Some ChTicks) u) = Inr v"
      using resume_wf [of "wakeup (Some ChTicks) u" "''db''"] by (auto simp: paused_at_def)
    with u that show thesis by simp
  qed
  have "p_state (ptable s2 ! 2) = PAUSE"
    by (rule pause_is_stable [OF wf _ pc s1 s2])
      (simp_all add: NPROC_def procs_ex_def proc0_def cont_name_def conts_ex_def)
  with s1 s2 show ?thesis by blast
qed

section \<open>CPU consumption\<close>

lemma ticks_total_sum:
  assumes "sum_list (map (\<lambda>p. uint (p_ticks p)) ps) + a < 2 ^ 31" and "0 \<le> a"
  shows "fold (\<lambda>p tot. i32 (tot + uint (p_ticks p))) ps a
    = a + sum_list (map (\<lambda>p. uint (p_ticks p)) ps)"
  using assms
proof (induction ps arbitrary: a)
  case Nil
  then show ?case by simp
next
  case (Cons p ps)
  have "0 \<le> sum_list (map (\<lambda>p. uint (p_ticks p)) ps)" by (rule sum_list_nonneg) auto
  with Cons.prems have "i32 (a + uint (p_ticks p)) = a + uint (p_ticks p)"
    by (intro i32_id) (simp add: is_i32_def, smt (verit) uint_ge_0)
  with Cons.IH [of "a + uint (p_ticks p)"] Cons.prems show ?case by simp
qed

text \<open>the percentages that \<open>c_proc_data\<close> prints. For the processes of a container, as long as
  their ticks are not all zero and stay below \<open>2\<^sup>3\<^sup>2 / 100\<close> in total, each share is the
  rounded-down percentage of the total. When the ticks are all zero, which they are right
  after the container started, the kernel divides by zero.\<close>

theorem c_proc_data_percent:
  assumes "cont_procs name s (ptable s) = Inr ps" and "ps \<noteq> []"
    and "tot = sum_list (map (\<lambda>p. unat (p_ticks p)) ps)" and "tot * 100 < 2 ^ 32"
  shows "if tot = 0 then c_proc_data name s = Inl (Fault ''divide'')
    else \<exists>out. c_proc_data name s = Inr out \<and> length out = length ps
      \<and> (\<forall>i < length ps. case out ! i of (nm, pid, st, tk, pct) \<Rightarrow>
            pid = p_pid (ps ! i) \<and> tk = p_ticks (ps ! i)
            \<and> unat pct = unat tk * 100 div tot)"
proof -
  have ui: "uint w = int (unat w)" for w :: u32 by simp
  have tot: "int tot = sum_list (map (\<lambda>p. uint (p_ticks p)) ps)"
    unfolding assms(3) by (induction ps) simp_all
  have "ticks_total ps = int tot"
    unfolding ticks_total_def tot using assms(4) ticks_total_sum [of ps 0] by (simp flip: tot)
  moreover have "unat (p_ticks x * 100 div word_of_int (int tot)) = unat (p_ticks x) * 100 div tot"
    if "x \<in> set ps" for x
  proof -
    have "unat (p_ticks x) \<le> tot"
      unfolding assms(3) using that by (intro member_le_sum_list) auto
    with assms(4) have "unat (p_ticks x) * 100 < 2 ^ 32" by simp
    moreover from assms(4) have "unat (word_of_int (int tot) :: u32) = tot"
      by (simp add: unat_of_nat)
    ultimately show ?thesis
      by (simp add: unat_div unat_mult_lem [THEN iffD1])
  qed
  ultimately show ?thesis
    using assms(1,2)
    by (cases "tot = 0"; cases ps rule: list.exhaust)
      (simp_all add: c_proc_data_def cpu_consumption_def mapR_Inr nth_Cons split: nat.splits)
qed

theorem c_proc_data_percent_witness:
  "let s = proc_upd 2 (\<lambda>p. p\<lparr>p_ticks := 3\<rparr>) (proc_upd 1 (\<lambda>p. p\<lparr>p_ticks := 5\<rparr>) (kproc_ex (Some 0)))
   in \<exists>out. c_proc_data ''web'' s = Inr out \<and> length out = 2
        \<and> c_proc_data ''web'' (kproc_ex (Some 0)) = Inl (Fault ''divide'')"
proof -
  let ?z = "kproc_ex (Some 0)"
  let ?s = "proc_upd 2 (\<lambda>p. p\<lparr>p_ticks := 3\<rparr>) (proc_upd 1 (\<lambda>p. p\<lparr>p_ticks := 5\<rparr>) ?z)"
  have get: "cont_deref (Some 0) s = Inr (slot0\<lparr>c_name := ''web''\<rparr>)"
    "cont_deref (Some 2) s = Inr (slot0\<lparr>c_name := ''db''\<rparr>)"
    if "containers s = containers conts_ex" for s :: kproc
    using that by (simp_all add: cont_deref_def cont_get_def fetch_def conts_ex_def in_range_def)
  have [simp]: "p_cont proc0 = None" "p_state proc0 = UNUSED" by (simp_all add: proc0_def)
  have un: "cont_procs n s (replicate k proc0) = Inr []" for n k and s :: kproc
    by (induction k) (simp_all add: proc0_def)
  have p: "cont_procs ''web'' ?s (ptable ?s) = Inr [(procs_ex ! 1)\<lparr>p_ticks := 5\<rparr>, (procs_ex ! 2)\<lparr>p_ticks := 3\<rparr>]"
    by (simp add: procs_ex_def get un)
  have p0: "cont_procs ''web'' ?z (ptable ?z) = Inr [procs_ex ! 1, procs_ex ! 2]"
    by (simp add: procs_ex_def get un)
  show ?thesis
    using c_proc_data_percent [OF p _ refl] c_proc_data_percent [OF p0 _ refl]
    by (auto simp: Let_def procs_ex_def proc0_def)
qed

end
