(* ===== verification/Kalloc.thy ===== *)
theory Kalloc
  imports Bytes Proc
begin

text \<open>
  The page allocator of \<^verbatim>\<open>kalloc.c\<close>. Free pages form a linked list whose links are stored in
  the pages themselves, so the state has the memory \<open>pmem\<close>, addressed by kernel virtual
  address, and the head \<open>freelist\<close> (0 for NULL). \<open>kend\<close> and \<open>kdata\<close> are the
  linker's symbols \<^verbatim>\<open>end\<close> and \<^verbatim>\<open>data\<close>. The state also has what \<^verbatim>\<open>vm.c\<close> adds: the kernel's page
  directory, the page-directory register of the CPU and the stack its task segment names.

  Once the clock has ticked, every page that a process of a container gets or gives back is
  charged to the container; when the limit is reached, the container is stopped. \<open>kalloc\<close>
  returns the page in that case too.
\<close>

record kmem = kproc +
  pmem :: mem
  freelist :: u32
  use_lock :: bool
  kmem_i :: int
  kend :: u32
  kdata :: u32
  kpgdir :: u32
  cr3 :: u32
  ts_esp0 :: u32

definition PGSIZE :: nat where "PGSIZE = 4096"
definition KERNBASE :: u32 where "KERNBASE = 0x80000000"
definition PHYSTOP :: u32 where "PHYSTOP = 0xE000000"

definition V2P :: "u32 \<Rightarrow> u32" where "V2P a = a - KERNBASE"
definition P2V :: "u32 \<Rightarrow> u32" where "P2V a = a + KERNBASE"

unbundle bit_operations_syntax

definition PGROUNDUP :: "u32 \<Rightarrow> u32" where
  "PGROUNDUP sz = (sz + of_nat PGSIZE - 1) AND NOT (of_nat PGSIZE - 1)"

definition PGROUNDDOWN :: "u32 \<Rightarrow> u32" where
  "PGROUNDDOWN a = a AND NOT (of_nat PGSIZE - 1)"

section \<open>Freeing\<close>

definition kfree_bad :: "u32 \<Rightarrow> u32 \<Rightarrow> bool" where
  "kfree_bad e v \<longleftrightarrow> v mod of_nat PGSIZE \<noteq> 0 \<or> v < e \<or> V2P v \<ge> PHYSTOP"

definition kfree_uncharge :: "'z kmem_scheme \<Rightarrow> 'z kmem_scheme res" where
  "kfree_uncharge s =
     (if ticks s > 0
      then bnd (my_proc s) (\<lambda>me.
           bnd (cont_deref (p_cont me) s) (\<lambda>c.
             let x = find_c (c_name c) s
             in if x \<ge> 0
                then bnd (reduce_curr_mem 1 x s) (my_upd (\<lambda>p. p\<lparr>p_usage := i32 (p_usage p - 1)\<rparr>))
                else Inr s))
      else Inr s)"

definition kfree :: "u32 \<Rightarrow> 'z kmem_scheme \<Rightarrow> 'z kmem_scheme res" where
  "kfree v s =
     (if kfree_bad (kend s) v then Inl (Panic ''kfree'')
      else
        let s = s\<lparr>pmem := memset (pmem s) (unat v) 1 PGSIZE\<rparr>
        in bnd (if use_lock s then kfree_uncharge s else Inr s) (\<lambda>s.
             Inr (s\<lparr>pmem := put32 (pmem s) (unat v) (freelist s),
                    freelist := v, kmem_i := i32 (kmem_i s - 1)\<rparr>)))"

lemma kfree_ok_bound:
  assumes "\<not> kfree_bad e v"
  shows "0x80000000 \<le> unat v \<and> unat v < 0x8E000000 \<and> 4096 dvd unat v"
proof -
  have "unat (v - 0x80000000) < 0xE000000"
    using assms by (simp add: kfree_bad_def V2P_def KERNBASE_def PHYSTOP_def word_less_nat_alt not_le)
  moreover have "unat v < 2 ^ 32" using unsigned_less [of v] by simp
  ultimately have "0x80000000 \<le> unat v \<and> unat v < 0x8E000000"
    by (simp add: unat_sub_if' word_le_nat_alt split: if_splits)
  moreover have "unat (v mod 4096) = 0"
    using assms by (simp add: kfree_bad_def PGSIZE_def)
  then have "4096 dvd unat v" by (simp add: unat_mod dvd_eq_mod_eq_0)
  ultimately show ?thesis by blast
qed

text \<open>The loop of \<^verbatim>\<open>freerange\<close>; \<open>kfree\<close> accepts no address that is high enough for \<open>p\<close> to wrap.\<close>

function freerange_loop :: "u32 \<Rightarrow> u32 \<Rightarrow> 'z kmem_scheme \<Rightarrow> 'z kmem_scheme res" where
  "freerange_loop p vend s =
     (if p + of_nat PGSIZE \<le> vend
      then bnd (kfree p s) (\<lambda>s. freerange_loop (p + of_nat PGSIZE) vend s)
      else Inr s)"
  by pat_completeness auto
termination
proof (relation "measure (\<lambda>(p, _, _). 2 ^ 32 - unat p)")
  fix p vend :: u32 and s t :: "'z kmem_scheme"
  assume "kfree p s = Inr t"
  then have "\<not> kfree_bad (kend s) p" by (auto simp: kfree_def)
  then have "unat p < 0x8E000000" using kfree_ok_bound by blast
  then have "unat (p + 4096) = unat p + 4096" by (simp add: unat_add_lem [THEN iffD1])
  with \<open>unat p < 0x8E000000\<close>
  show "((p + of_nat PGSIZE, vend, t), (p, vend, s)) \<in> measure (\<lambda>(p, _, _). 2 ^ 32 - unat p)"
    by (simp add: PGSIZE_def)
qed simp

declare freerange_loop.simps [simp del]

definition freerange :: "u32 \<Rightarrow> u32 \<Rightarrow> 'z kmem_scheme \<Rightarrow> 'z kmem_scheme res" where
  "freerange vstart vend s = freerange_loop (PGROUNDUP vstart) vend s"

definition kinit1 :: "u32 \<Rightarrow> u32 \<Rightarrow> 'z kmem_scheme \<Rightarrow> 'z kmem_scheme res" where
  "kinit1 vstart vend s = freerange vstart vend (s\<lparr>use_lock := False\<rparr>)"

definition kinit2 :: "u32 \<Rightarrow> u32 \<Rightarrow> 'z kmem_scheme \<Rightarrow> 'z kmem_scheme res" where
  "kinit2 vstart vend s =
     bnd (freerange vstart vend s) (\<lambda>s. Inr (s\<lparr>use_lock := True, kmem_i := 0\<rparr>))"

section \<open>Allocating\<close>

definition kalloc_charge :: "'z kmem_scheme \<Rightarrow> 'z kmem_scheme res" where
  "kalloc_charge s =
     bnd (my_proc s) (\<lambda>me.
     bnd (cont_deref (p_cont me) s) (\<lambda>c.
       let x = find_c (c_name c) s
       in if x \<ge> 0
          then bnd (my_upd (\<lambda>p. p\<lparr>p_usage := i32 (p_usage p + 1)\<rparr>) s) (\<lambda>s.
               bnd (get_curr_mem x s) (\<lambda>before.
               bnd (set_curr_mem 1 x s) (\<lambda>s.
               bnd (get_curr_mem x s) (\<lambda>after.
                 if before = after then cstop_container_helper (p_cont me) s else Inr s))))
          else Inr s))"

definition kalloc :: "'z kmem_scheme \<Rightarrow> (u32 \<times> 'z kmem_scheme) res" where
  "kalloc s =
     (let r = freelist s;
          s = (if r \<noteq> 0 then s\<lparr>freelist := get32 (pmem s) (unat r)\<rparr> else s);
          s = s\<lparr>kmem_i := i32 (kmem_i s + 1)\<rparr>
      in bnd (if r \<noteq> 0 \<and> ticks s > 0 then kalloc_charge s else Inr s) (\<lambda>s. Inr (r, s)))"

definition mem_usage :: "'z kmem_scheme \<Rightarrow> int" where
  "mem_usage s = kmem_i s"

definition mem_avail :: "'z kmem_scheme \<Rightarrow> int" where
  "mem_avail s =
     (let MB4 = 4 * 1024 * 1024
      in i32 (sint (P2V MB4 - kend s) + sint (P2V PHYSTOP - P2V MB4)) sdiv 4096)"

section \<open>The free list\<close>

fun is_chain :: "mem \<Rightarrow> u32 \<Rightarrow> u32 list \<Rightarrow> bool" where
  "is_chain m h [] \<longleftrightarrow> h = 0"
| "is_chain m h (p # ps) \<longleftrightarrow> h = p \<and> p \<noteq> 0 \<and> is_chain m (get32 m (unat p)) ps"

definition free_list :: "'z kmem_scheme \<Rightarrow> u32 list \<Rightarrow> bool" where
  "free_list s ps \<longleftrightarrow> is_chain (pmem s) (freelist s) ps \<and> distinct ps
     \<and> (\<forall>p \<in> set ps. \<not> kfree_bad (kend s) p)"

definition in_page :: "nat \<Rightarrow> u32 \<Rightarrow> bool" where
  "in_page a p \<longleftrightarrow> unat p \<le> a \<and> a < unat p + PGSIZE"

lemma not_bad_nonzero: "\<not> kfree_bad e v \<Longrightarrow> v \<noteq> 0"
  using kfree_ok_bound [of e v] by auto

lemma pages_disjoint:
  assumes "\<not> kfree_bad e p" and "\<not> kfree_bad e q" and "p \<noteq> q"
  shows "unat p + PGSIZE \<le> unat q \<or> unat q + PGSIZE \<le> unat p"
proof -
  obtain i j where ij: "unat p = 4096 * i" "unat q = 4096 * j"
    using kfree_ok_bound [OF assms(1)] kfree_ok_bound [OF assms(2)] by (auto elim!: dvdE)
  with assms(3) have "i \<noteq> j" by (auto simp: word_unat_eq_iff)
  then show ?thesis using ij by (auto simp: PGSIZE_def)
qed

lemma is_chain_cong:
  assumes "\<forall>p \<in> set ps. get32 m' (unat p) = get32 m (unat p)"
  shows "is_chain m' h ps = is_chain m h ps"
  using assms by (induction ps arbitrary: h) auto

text \<open>Writing to a page that is not free does not disturb the list.\<close>

lemma free_list_write:
  assumes "free_list s ps" and "\<not> kfree_bad (kend s) v" and "v \<notin> set ps"
    and "\<And>a. \<not> in_page a v \<Longrightarrow> m a = pmem s a"
  shows "free_list (s\<lparr>pmem := m\<rparr>) ps"
proof -
  have "get32 m (unat p) = get32 (pmem s) (unat p)" if "p \<in> set ps" for p
  proof (rule get32_cong)
    fix x assume "unat p \<le> x" "x < unat p + 4"
    moreover from that assms have "unat p + PGSIZE \<le> unat v \<or> unat v + PGSIZE \<le> unat p"
      by (intro pages_disjoint [of "kend s"]) (auto simp: free_list_def)
    ultimately have "\<not> in_page x v" by (auto simp: in_page_def PGSIZE_def)
    then show "m x = pmem s x" by (rule assms(4))
  qed
  then have "is_chain m (freelist s) ps = is_chain (pmem s) (freelist s) ps"
    by (intro is_chain_cong) blast
  with assms(1) show ?thesis by (simp add: free_list_def)
qed

section \<open>Frame facts\<close>

lemma kmem_more_cong:
  assumes "kproc.more s = kproc.more t"
  shows "pmem s = pmem t" "freelist s = freelist t" "use_lock s = use_lock t"
    "kmem_i s = kmem_i t" "kend s = kend t" "kmem.more s = kmem.more t"
  using assms by (cases s; cases t; simp)+

lemma kfree_uncharge_frame:
  assumes "kfree_uncharge s = Inr s'"
  shows "kproc.more s' = kproc.more s \<and> ticks s' = ticks s"
  using assms
  by (auto simp: kfree_uncharge_def bnd_Inr_iff Let_def reduce_curr_mem_def my_upd_def
      cont_upd_kproc split: if_splits option.splits)

lemma kalloc_charge_frame:
  assumes "kalloc_charge s = Inr s'"
  shows "kproc.more s' = kproc.more s \<and> ticks s' = ticks s"
proof -
  have "kproc.more s' = kproc.more t \<and> ticks s' = ticks t"
    if "bnd (get_curr_mem x t) (\<lambda>b. bnd (set_curr_mem 1 x t) (\<lambda>s. bnd (get_curr_mem x s) (\<lambda>a.
          if b = a then cstop_container_helper c s else Inr s))) = Inr s'" for t x c
    using that
    by (auto simp: bnd_Inr_iff set_curr_mem_def cont_upd_kproc dest!: cstop_container_frame
        split: if_splits)
  with assms show ?thesis
    by (fastforce simp: kalloc_charge_def bnd_Inr_iff [of "my_proc s"] bnd_Inr_iff [of "cont_deref x s" for x]
        Let_def my_upd_def split: if_splits option.splits)
qed

lemma kfree_eq:
  assumes "kfree v s = Inr s'"
  shows "\<not> kfree_bad (kend s) v" and "freelist s' = v" and "kend s' = kend s" "use_lock s' = use_lock s"
    and "pmem s' = put32 (memset (pmem s) (unat v) 1 PGSIZE) (unat v) (freelist s)"
    and "ticks s' = ticks s" "kmem.more s' = kmem.more s"
proof -
  let ?t = "s\<lparr>pmem := memset (pmem s) (unat v) 1 PGSIZE\<rparr>"
  from assms obtain t where ok: "\<not> kfree_bad (kend s) v"
    and t: "(if use_lock ?t then kfree_uncharge ?t else Inr ?t) = Inr t"
    and s': "s' = t\<lparr>pmem := put32 (pmem t) (unat v) (freelist t), freelist := v, kmem_i := i32 (kmem_i t - 1)\<rparr>"
    by (auto simp: kfree_def Let_def bnd_Inr_iff split: if_splits)
  have f: "kproc.more t = kproc.more ?t \<and> ticks t = ticks ?t"
    using t kfree_uncharge_frame by (auto split: if_splits)
  note f1 = kmem_more_cong [OF conjunct1 [OF f]]
  show "\<not> kfree_bad (kend s) v" by (rule ok)
  show "freelist s' = v" "kend s' = kend s" "use_lock s' = use_lock s" "ticks s' = ticks s"
    "pmem s' = put32 (memset (pmem s) (unat v) 1 PGSIZE) (unat v) (freelist s)"
    "kmem.more s' = kmem.more s"
    using f f1 by (simp_all add: s')
qed

lemma kalloc_eq:
  assumes "kalloc s = Inr (r, s')"
  shows "r = freelist s" and "pmem s' = pmem s" and "kend s' = kend s" and "use_lock s' = use_lock s"
    and "freelist s' = (if freelist s = 0 then 0 else get32 (pmem s) (unat (freelist s)))"
    and "ticks s' = ticks s" "kmem.more s' = kmem.more s"
proof -
  let ?t = "(if freelist s \<noteq> 0 then s\<lparr>freelist := get32 (pmem s) (unat (freelist s))\<rparr> else s)
      \<lparr>kmem_i := i32 (kmem_i s + 1)\<rparr>"
  from assms have r: "r = freelist s"
    and t: "(if r \<noteq> 0 \<and> ticks ?t > 0 then kalloc_charge ?t else Inr ?t) = Inr s'"
    by (auto simp: kalloc_def Let_def bnd_Inr_iff split: if_splits)
  have f: "kproc.more s' = kproc.more ?t \<and> ticks s' = ticks ?t"
    using t by (auto split: if_splits dest!: kalloc_charge_frame)
  note f1 = kmem_more_cong [OF conjunct1 [OF f]]
  show "r = freelist s" by (rule r)
  show "pmem s' = pmem s" "kend s' = kend s" "use_lock s' = use_lock s" "ticks s' = ticks s"
    "kmem.more s' = kmem.more s"
    "freelist s' = (if freelist s = 0 then 0 else get32 (pmem s) (unat (freelist s)))"
    using f f1 by simp_all
qed

lemma kalloc_free_list:
  assumes "kalloc s = Inr (r, s')" and "free_list s ps"
  shows "(case ps of [] \<Rightarrow> r = 0 \<and> free_list s' [] | p # qs \<Rightarrow> r = p \<and> free_list s' qs)"
  using kalloc_eq [OF assms(1)] assms(2) by (cases ps) (auto simp: free_list_def)

lemma kfree_free_list:
  assumes "kfree v s = Inr s'" and "free_list s ps" and "v \<notin> set ps"
  shows "free_list s' (v # ps)"
proof -
  note k = kfree_eq [OF assms(1)]
  have "free_list (s\<lparr>pmem := pmem s'\<rparr>) ps"
  proof (rule free_list_write [OF assms(2) k(1) assms(3)])
    fix a assume "\<not> in_page a v"
    then show "pmem s' a = pmem s a"
      unfolding k(5) by (subst put32_other) (auto simp: in_page_def PGSIZE_def memset_eq_fill fill_def)
  qed
  with k assms show ?thesis
    by (simp add: free_list_def not_bad_nonzero)
qed

section \<open>The contract of the allocator\<close>

text \<open>What the users of pages rely on: a page that is handed out was free and is not free any
  more, a page given back is free again, and writing to a page one holds changes nothing
  about which pages are free.\<close>

locale page_pool =
  fixes valid :: "'p \<Rightarrow> bool" and pool :: "'s \<Rightarrow> 'p set \<Rightarrow> bool" and null :: 'p
    and get :: "'s \<Rightarrow> ('p \<times> 's) res" and put :: "'p \<Rightarrow> 's \<Rightarrow> 's res"
    and writes :: "'p \<Rightarrow> 's \<Rightarrow> 's \<Rightarrow> bool"
  assumes pool_valid: "pool s F \<Longrightarrow> p \<in> F \<Longrightarrow> valid p"
    and null_invalid: "\<not> valid null"
    and get_page: "pool s F \<Longrightarrow> get s = Inr (p, s') \<Longrightarrow>
          p = null \<and> F = {} \<and> pool s' {} \<or> p \<in> F \<and> pool s' (F - {p})"
    and put_page: "pool s F \<Longrightarrow> p \<notin> F \<Longrightarrow> put p s = Inr s' \<Longrightarrow> pool s' (insert p F)"
    and write_page: "pool s F \<Longrightarrow> valid p \<Longrightarrow> p \<notin> F \<Longrightarrow> writes p s s' \<Longrightarrow> pool s' F"
begin

text \<open>The pages \<open>h\<close> are held by clients, out of the pages \<open>F\<close>.\<close>

definition held :: "'p set \<Rightarrow> 's \<Rightarrow> 'p list \<Rightarrow> bool" where
  "held F s h \<longleftrightarrow> distinct h \<and> set h \<subseteq> F \<and> (\<forall>p \<in> F. valid p) \<and> pool s (F - set h)"

lemma held_start: "pool s F \<Longrightarrow> held F s []"
  using pool_valid by (auto simp: held_def)

lemma held_get: "held F s h \<Longrightarrow> get s = Inr (p, s') \<Longrightarrow> p \<noteq> null \<Longrightarrow> held F s' (p # h)"
proof -
  assume *: "held F s h" "get s = Inr (p, s')" "p \<noteq> null"
  have "F - set (p # h) = F - set h - {p}" by auto
  with * get_page [of s "F - set h" p s'] show ?thesis by (auto simp: held_def)
qed

lemma held_none: "held F s h \<Longrightarrow> get s = Inr (null, s') \<Longrightarrow> held F s' h \<and> F = set h"
  using get_page [of s "F - set h" null s'] null_invalid by (auto simp: held_def)

lemma held_put: "held F s h \<Longrightarrow> p \<in> set h \<Longrightarrow> put p s = Inr s' \<Longrightarrow> held F s' (remove1 p h)"
proof -
  assume *: "held F s h" "p \<in> set h" "put p s = Inr s'"
  then have "F - set (remove1 p h) = insert p (F - set h)" by (auto simp: held_def)
  with * put_page [of s "F - set h" p s'] show ?thesis by (auto simp: held_def)
qed

lemma held_write: "held F s h \<Longrightarrow> p \<in> set h \<Longrightarrow> writes p s s' \<Longrightarrow> held F s' h"
  using write_page [of s "F - set h" p s'] by (auto simp: held_def)

end

text \<open>A client writes to the bytes of one page.\<close>

definition page_write :: "u32 \<Rightarrow> 'z kmem_scheme \<Rightarrow> 'z kmem_scheme \<Rightarrow> bool" where
  "page_write p s s' \<longleftrightarrow> (\<exists>m. s' = s\<lparr>pmem := m\<rparr> \<and> (\<forall>a. \<not> in_page a p \<longrightarrow> m a = pmem s a))"

definition free_set :: "u32 \<Rightarrow> 'z kmem_scheme \<Rightarrow> u32 set \<Rightarrow> bool" where
  "free_set e s F \<longleftrightarrow> kend s = e \<and> (\<exists>ps. free_list s ps \<and> set ps = F)"

interpretation kpages: page_pool "\<lambda>p. \<not> kfree_bad e p" "free_set e" 0 kalloc kfree page_write for e
proof
  fix s s' :: "'z kmem_scheme" and F and p :: u32
  assume pool: "free_set e s F"
  then obtain ps where ps: "free_list s ps" "set ps = F" and e: "kend s = e"
    by (auto simp: free_set_def)
  show "p \<in> F \<Longrightarrow> \<not> kfree_bad e p" using ps e by (auto simp: free_list_def)
  show "p = 0 \<and> F = {} \<and> free_set e s' {} \<or> p \<in> F \<and> free_set e s' (F - {p})"
    if a: "kalloc s = Inr (p, s')"
  proof (cases ps)
    case Nil
    then show ?thesis
      using kalloc_free_list [OF a ps(1)] kalloc_eq(3) [OF a] ps e by (auto simp: free_set_def)
  next
    case (Cons q qs)
    then have "q \<notin> set qs" using ps by (simp add: free_list_def)
    then show ?thesis
      using kalloc_free_list [OF a ps(1)] kalloc_eq(3) [OF a] ps e Cons
      by (auto simp: free_set_def intro!: exI [of _ qs])
  qed
  show "free_set e s' (insert p F)" if "p \<notin> F" "kfree p s = Inr s'"
    using kfree_free_list [OF that(2) ps(1)] kfree_eq(3) [OF that(2)] ps e that(1)
    by (auto simp: free_set_def intro!: exI [of _ "p # ps"])
  show "free_set e s' F" if "\<not> kfree_bad e p" "p \<notin> F" "page_write p s s'"
    using that ps e free_list_write [OF ps(1), of p]
    by (auto simp: free_set_def page_write_def intro!: exI [of _ ps])
next
  show "\<not> \<not> kfree_bad e 0" using not_bad_nonzero by blast
qed

section \<open>No page is handed out twice\<close>

text \<open>Runs of the kernel as seen by the allocator: from \<open>s0\<close>, pages are allocated, written to
  while held, and freed while held; the third argument lists the pages held.\<close>

inductive page_run :: "'z kmem_scheme \<Rightarrow> 'z kmem_scheme \<Rightarrow> u32 list \<Rightarrow> bool" for s0 where
  start: "page_run s0 s0 []"
| alloc: "page_run s0 s h \<Longrightarrow> kalloc s = Inr (p, s') \<Longrightarrow> p \<noteq> 0 \<Longrightarrow> page_run s0 s' (p # h)"
| full: "page_run s0 s h \<Longrightarrow> kalloc s = Inr (0, s') \<Longrightarrow> page_run s0 s' h"
| free: "page_run s0 s h \<Longrightarrow> p \<in> set h \<Longrightarrow> kfree p s = Inr s' \<Longrightarrow> page_run s0 s' (remove1 p h)"
| store: "page_run s0 s h \<Longrightarrow> p \<in> set h \<Longrightarrow> page_write p s s' \<Longrightarrow> page_run s0 s' h"

text \<open>C12: the allocator never hands out a page that is in use. In every run of allocations,
  frees and writes to held pages, the held pages are pairwise distinct, all come from the
  pages that were free at the start, lie in the memory the allocator may use, and the free
  list is exactly the rest; a failed allocation means that every page is held.\<close>

theorem kalloc_no_sharing:
  assumes "page_run s0 s h" and "free_list s0 ps"
  shows "distinct h \<and> set h \<subseteq> set ps \<and> (\<forall>p \<in> set h. \<not> kfree_bad (kend s0) p)
    \<and> (\<exists>qs. free_list s qs \<and> set qs = set ps - set h)
    \<and> (\<forall>s'. kalloc s = Inr (0, s') \<longrightarrow> set h = set ps)"
proof -
  have "kpages.held (kend s0) (set ps) s h"
    using assms(1)
  proof (induction rule: page_run.induct)
    case start
    show ?case using assms(2) by (intro kpages.held_start) (auto simp: free_set_def)
  next
    case alloc
    from alloc.IH alloc.hyps(2,3) show ?case by (rule kpages.held_get)
  next
    case full
    from kpages.held_none [OF full.IH full.hyps(2)] show ?case by (rule conjunct1)
  next
    case free
    from free.IH free.hyps(2,3) show ?case by (rule kpages.held_put)
  next
    case store
    from store.IH store.hyps(2,3) show ?case by (rule kpages.held_write)
  qed
  then show ?thesis
    using kpages.held_none [of "kend s0" "set ps" s h]
    unfolding kpages.held_def free_set_def by blast
qed

definition kmem_ex :: "nat option \<Rightarrow> kmem" where
  "kmem_ex c = kproc.extend (kproc_ex c) (kmem.fields (\<lambda>_. 0) 0x80400000 True 0 0x80110000 0x80108000 0 0 0)"

lemma kmem_ex_simps [simp]:
  "containers (kmem_ex c) = containers conts_ex" "ptable (kmem_ex c) = procs_ex"
  "cur (kmem_ex c) = c" "initproc (kmem_ex c) = Some 0" "null_cont (kmem_ex c) = slot0"
  "nextpid (kmem_ex c) = 5" "ticks (kmem_ex c) = 1" "pmem (kmem_ex c) = (\<lambda>_. 0)"
  "freelist (kmem_ex c) = 0x80400000" "use_lock (kmem_ex c)" "kmem_i (kmem_ex c) = 0"
  "kend (kmem_ex c) = 0x80110000" "kdata (kmem_ex c) = 0x80108000"
  by (simp_all add: kmem_ex_def kproc_ex_def conts.defs kproc.defs kmem.defs)

lemma free_list_ex: "free_list (kmem_ex c) [0x80400000]"
  by (simp add: free_list_def kfree_bad_def V2P_def KERNBASE_def PHYSTOP_def PGSIZE_def
      get32_def join32_def)

lemma wf_procs_kmem_ex: "(case c of None \<Rightarrow> True | Some i \<Rightarrow> i < NPROC) \<Longrightarrow> wf_procs (kmem_ex c)"
  using wf_conts_ex
  by (auto simp: wf_procs_def wf_conts_def procs_ex_def NPROC_def wf_cont_ptr_def proc0_def
      conts_ex_def in_range_def)

theorem kalloc_no_sharing_witness:
  "\<exists>s. page_run (kmem_ex (Some 0)) s [0x80400000] \<and> free_list s []
     \<and> (\<forall>s'. kalloc s = Inr (0, s') \<longrightarrow> {0x80400000} = {0x80400000 :: u32})"
proof -
  let ?s = "kmem_ex (Some 0)"
  have me: "my_proc ?s = Inr (procs_ex ! 0)"
    by (simp add: my_proc_def myproc_def fetch_def procs_ex_def in_range_def)
  let ?t = "?s\<lparr>freelist := 0, kmem_i := 1\<rparr>"
  have "my_proc ?t = Inr (procs_ex ! 0)"
    by (simp add: my_proc_def myproc_def fetch_def procs_ex_def in_range_def)
  moreover have "find_c '''' ?t = - 1" by (simp add: find_c_def find_from_first)
  ultimately have "kalloc_charge ?t = Inr ?t"
    by (simp add: kalloc_charge_def procs_ex_def proc0_def cont_deref_def slot0_def)
  then have "kalloc ?s = Inr (0x80400000, ?t)"
    by (simp add: kalloc_def Let_def get32_def join32_def i32_def)
  then have run: "page_run ?s ?t [0x80400000]"
    using page_run.alloc [OF page_run.start, of ?s "0x80400000" ?t] by simp
  from kalloc_no_sharing [OF run free_list_ex] run show ?thesis
    by (intro exI [of _ ?t]) (auto simp: free_list_def)
qed

section \<open>Filling the free list at start\<close>

definition page :: "nat \<Rightarrow> u32" where "page k = of_nat (4096 * k)"

lemma unat_page: "k < 2 ^ 20 \<Longrightarrow> unat (page k) = 4096 * k"
  unfolding page_def unat_of_nat by simp

lemma page_Suc: "page k + 4096 = page (Suc k)"
  by (simp add: page_def algebra_simps)

lemma page_ok:
  assumes "0x80000 \<le> k" and "k < 0x8E000" and "unat e \<le> 4096 * k"
  shows "\<not> kfree_bad e (page k)"
proof -
  have u: "unat (page k) = 4096 * k" using assms by (intro unat_page) simp
  have "unat (V2P (page k)) = 4096 * k - 0x80000000"
    using assms(1) u by (simp add: V2P_def KERNBASE_def unat_sub_if' word_le_nat_alt)
  moreover have "page k mod 4096 = (0::u32)"
    using u by (simp add: word_unat_eq_iff unat_mod)
  ultimately show ?thesis
    using assms u by (simp add: kfree_bad_def PGSIZE_def PHYSTOP_def word_le_nat_alt word_less_nat_alt)
qed

lemma kfree_total:
  assumes "\<not> use_lock s" and "\<not> kfree_bad (kend s) v"
  shows "\<exists>s'. kfree v s = Inr s'"
  using assms by (simp add: kfree_def Let_def)

lemma freerange_loop_pages:
  assumes "0x80000 \<le> k" and "unat vend \<le> 0x8E000000" and "\<not> use_lock s"
    and "unat (kend s) \<le> 4096 * k" and "free_list s ps" and "\<forall>p \<in> set ps. unat p < 4096 * k"
    and "k \<le> 0x8E000"
  shows "\<exists>s'. freerange_loop (page k) vend s = Inr s' \<and> \<not> use_lock s' \<and> kend s' = kend s
    \<and> free_list s' (rev (map page [k ..< unat vend div 4096]) @ ps)"
  using assms
proof (induction "unat vend div 4096 - k" arbitrary: k s ps)
  case 0
  then have "unat vend div 4096 \<le> k" by simp
  then have "\<not> 4096 * k + 4096 \<le> unat vend" by linarith
  moreover have "unat (page k + 4096) = 4096 * k + 4096"
    using 0 by (simp add: page_Suc unat_page)
  ultimately have "\<not> page k + of_nat PGSIZE \<le> vend" by (simp add: PGSIZE_def word_le_nat_alt)
  with 0 show ?case by (simp add: freerange_loop.simps)
next
  case (Suc n)
  then have k: "k < unat vend div 4096" by simp
  then have kb: "k < 0x8E000" using Suc.prems(2) by linarith
  have "unat (page k + 4096) = 4096 * k + 4096"
    using kb by (simp add: page_Suc unat_page)
  moreover have "4096 * k + 4096 \<le> unat vend" using k by linarith
  ultimately have le: "page k + of_nat PGSIZE \<le> vend" by (simp add: PGSIZE_def word_le_nat_alt)
  have ok: "\<not> kfree_bad (kend s) (page k)" using Suc.prems kb by (intro page_ok)
  obtain t where t: "kfree (page k) s = Inr t" using kfree_total Suc.prems(3) ok by blast
  note kt = kfree_eq [OF t]
  have nin: "page k \<notin> set ps" using Suc.prems(6) kb by (auto simp: unat_page)
  have fl: "free_list t (page k # ps)" by (rule kfree_free_list [OF t Suc.prems(5) nin])
  have "page k + of_nat PGSIZE = page (Suc k)" by (simp add: PGSIZE_def page_Suc)
  moreover have "\<exists>s'. freerange_loop (page (Suc k)) vend t = Inr s' \<and> \<not> use_lock s' \<and> kend s' = kend t
    \<and> free_list s' (rev (map page [Suc k ..< unat vend div 4096]) @ page k # ps)"
    using Suc.hyps(2) Suc.prems kt kb fl by (intro Suc.hyps(1)) (auto simp: unat_page)
  moreover have "[k ..< unat vend div 4096] = k # [Suc k ..< unat vend div 4096]"
    using k by (rule upt_conv_Cons)
  ultimately show ?case using le t kt(3) by (subst freerange_loop.simps) simp
qed

lemma and_not_pgmask: "unat (w AND NOT 4095 :: u32) = unat w div 4096 * 4096"
proof -
  have "w AND NOT 4095 = push_bit 12 (drop_bit 12 w)"
  proof (rule bit_word_eqI)
    fix n assume n: "n < LENGTH(32)"
    have "bit (4095 :: u32) n \<longleftrightarrow> n < 12"
      using bit_mask_iff [of 12 n, where ?'a = u32] n by (simp add: mask_eq_exp_minus_1)
    with n show "bit (w AND NOT 4095) n = bit (push_bit 12 (drop_bit 12 w)) n"
      by (auto simp: bit_simps)
  qed
  moreover have "unat (push_bit 12 (drop_bit 12 w)) = unat w div 4096 * 4096"
  proof -
    have "unat w < 2 ^ 32" using unsigned_less [of w] by simp
    then have "unat (w div 4096 * 4096) = unat (w div 4096) * unat (4096 :: u32)"
      by (intro unat_mult_lem [THEN iffD1]) (simp add: unat_div)
    then show ?thesis by (simp add: push_bit_eq_mult drop_bit_eq_div unat_div)
  qed
  ultimately show ?thesis by simp
qed

lemma PGROUNDUP_page:
  assumes "unat a \<le> 2 ^ 32 - 4096"
  shows "PGROUNDUP a = page ((unat a + 4095) div 4096)"
proof -
  have "unat (a + 4095) = unat a + 4095"
    using assms by (simp add: unat_add_lem [THEN iffD1])
  then have "unat (PGROUNDUP a) = (unat a + 4095) div 4096 * 4096"
    using and_not_pgmask [of "a + 4095"] by (simp add: PGROUNDUP_def PGSIZE_def algebra_simps)
  moreover have "unat (page ((unat a + 4095) div 4096)) = 4096 * ((unat a + 4095) div 4096)"
    using assms by (intro unat_page) simp
  ultimately show ?thesis by (simp add: word_unat_eq_iff)
qed

lemma mem_avail_eq:
  assumes "0x80000000 \<le> unat (kend s)" and "unat (kend s) \<le> 0x80400000"
  shows "mem_avail s = (0x8E000000 - int (unat (kend s))) div 4096"
proof -
  have u: "unat (0x80400000 - kend s) = 0x80400000 - unat (kend s)"
    using assms by (simp add: unat_sub_if' word_le_nat_alt)
  have "sint (0x80400000 - kend s) = 0x80400000 - int (unat (kend s))"
    using assms u sint_small [of "0x80400000 - kend s"] by (simp add: of_nat_diff)
  moreover have "sint (0xDC00000 :: u32) = 0xDC00000" using sint_small [of "0xDC00000"] by simp
  moreover have "is_i32 (0x8E000000 - int (unat (kend s)))"
  proof -
    have "is_i32 (0x8E000000 - int n)" if "0x80000000 \<le> n" "n \<le> 0x80400000" for n
      using that by (simp add: is_i32_def)
    from this [OF assms] show ?thesis .
  qed
  ultimately have "i32 (sint (0x80400000 - kend s) + sint (0xDC00000 :: u32))
      = 0x8E000000 - int (unat (kend s))"
    using i32_id [of "0x8E000000 - int (unat (kend s))"] by simp
  moreover have "0 \<le> 0x8E000000 - int n" if "n \<le> 0x80400000" for n using that by simp
  from this [OF assms(2)] have "0 \<le> 0x8E000000 - int (unat (kend s))" .
  ultimately show ?thesis
    by (simp add: mem_avail_def P2V_def KERNBASE_def PHYSTOP_def sdiv_nonneg)
qed

text \<open>C13: what \<^verbatim>\<open>main\<close> sets up with \<open>kinit1\<close> and \<open>kinit2\<close>. Wherever in the first four megabytes the
  kernel ends, the calls succeed and the free list then holds every page frame between the
  end of the kernel and the top of memory, each once, and their number is what \<open>mem_avail\<close>
  reports. The two calls are taken one after the other; the pages that \<^verbatim>\<open>main\<close> allocates between them are not
  part of the statement.\<close>

theorem kinit_frees_all:
  assumes "KERNBASE \<le> kend s" and "kend s \<le> P2V 0x400000" and "freelist s = 0"
  shows "\<exists>s1 s2 ps. kinit1 (kend s) (P2V 0x400000) s = Inr s1
    \<and> kinit2 (P2V 0x400000) (P2V PHYSTOP) s1 = Inr s2 \<and> free_list s2 ps
    \<and> set ps = {p. unat p mod PGSIZE = 0 \<and> kend s \<le> p \<and> p < P2V PHYSTOP}
    \<and> int (length ps) = mem_avail s2 \<and> use_lock s2"
proof -
  let ?e = "unat (kend s)" and ?s = "s\<lparr>use_lock := False\<rparr>"
  let ?k = "(?e + 4095) div 4096"
  have e: "0x80000000 \<le> ?e" "?e \<le> 0x80400000"
    using assms(1,2) by (simp_all add: KERNBASE_def P2V_def word_le_nat_alt)
  have k: "0x80000 \<le> ?k" "?k \<le> 0x80400" "?e \<le> 4096 * ?k" using e by linarith+
  have up: "PGROUNDUP (kend s) = page ?k" using e by (intro PGROUNDUP_page) simp
  define a b where "a = (0x80400 :: nat)" and "b = (0x8E000 :: nat)"
  have ab: "?k \<le> a" "a \<le> b" "0x80000 \<le> a" "?e \<le> 4096 * a" using k e by (simp_all add: a_def b_def)
  have va: "unat (P2V 0x400000) = 4096 * a" and vb: "unat (P2V PHYSTOP) = 4096 * b"
    by (simp_all add: P2V_def KERNBASE_def PHYSTOP_def a_def b_def)
  have up2: "PGROUNDUP (P2V 0x400000) = page a"
    by (subst PGROUNDUP_page) (simp_all add: va a_def)
  have fl: "free_list ?s []" using assms(3) by (simp add: free_list_def)
  obtain s1 where s1: "freerange_loop (page ?k) (P2V 0x400000) ?s = Inr s1"
    "\<not> use_lock s1" "kend s1 = kend s" "free_list s1 (rev (map page [?k ..< a]))"
  proof -
    have "unat (P2V 0x400000) \<le> 0x8E000000" "?k \<le> 0x8E000" using k by (simp_all add: va a_def)
    then show thesis
      using freerange_loop_pages [of ?k "P2V 0x400000" ?s "[]"] k fl that by (simp add: va) blast
  qed
  have low: "\<forall>p \<in> set (rev (map page [?k ..< a])). unat p < 4096 * a"
    using ab(1) by (auto simp: unat_page a_def)
  obtain s2 where s2: "freerange_loop (page a) (P2V PHYSTOP) s1 = Inr s2" "kend s2 = kend s"
    "free_list s2 (rev (map page [a ..< b]) @ rev (map page [?k ..< a]))"
  proof -
    have "4096 * b \<le> 0x8E000000" "a \<le> 0x8E000" by (simp_all add: a_def b_def)
    then show thesis
      using freerange_loop_pages [OF ab(3) _ s1(2) _ s1(4) low, of "P2V PHYSTOP"] ab s1(3) that
      by (simp add: vb) blast
  qed
  let ?ps = "rev (map page [?k ..< b])" and ?s2 = "s2\<lparr>use_lock := True, kmem_i := 0\<rparr>"
  have "[?k ..< b] = [?k ..< a] @ [a ..< b]"
    using ab upt_add_eq_append [of ?k a "b - a"] by simp
  then have ps: "free_list ?s2 ?ps" using s2(3) by (simp add: free_list_def)
  have "set ?ps = {p. unat p mod PGSIZE = 0 \<and> kend s \<le> p \<and> p < P2V PHYSTOP}"
  proof (intro equalityI subsetI)
    fix p assume "p \<in> set ?ps"
    then obtain i where "?k \<le> i" "i < b" "p = page i" by auto
    then show "p \<in> {p. unat p mod PGSIZE = 0 \<and> kend s \<le> p \<and> p < P2V PHYSTOP}"
      using k by (auto simp: unat_page PGSIZE_def word_le_nat_alt word_less_nat_alt vb b_def)
  next
    fix p assume "p \<in> {p. unat p mod PGSIZE = 0 \<and> kend s \<le> p \<and> p < P2V PHYSTOP}"
    then have p: "unat p mod 4096 = 0" "?e \<le> unat p" "unat p < 4096 * b"
      by (simp_all add: PGSIZE_def word_le_nat_alt word_less_nat_alt vb)
    then obtain i where i: "unat p = 4096 * i" by auto
    with p have "i < b" "?k \<le> i" by linarith+
    moreover from this i have "p = page i" by (simp add: word_unat_eq_iff unat_page b_def)
    ultimately show "p \<in> set ?ps" by auto
  qed
  moreover have "int (length ?ps) = mem_avail ?s2"
  proof -
    have "b - ?k = (0x8E000000 - ?e) div 4096" unfolding b_def using e by linarith
    then have "int (b - ?k) = (0x8E000000 - int ?e) div 4096"
      using e by (simp add: zdiv_int of_nat_diff)
    then show ?thesis using mem_avail_eq [of ?s2] e s2(2) by simp
  qed
  ultimately show ?thesis
    using s1 s2 ps up up2 by (intro exI [of _ s1] exI [of _ ?s2] exI [of _ ?ps])
      (simp add: kinit1_def kinit2_def freerange_def)
qed

theorem kinit_frees_all_witness:
  "\<exists>s1 s2 ps. kinit1 0x80110000 (P2V 0x400000) ((kmem_ex None)\<lparr>freelist := 0\<rparr>) = Inr s1
    \<and> kinit2 (P2V 0x400000) (P2V PHYSTOP) s1 = Inr s2 \<and> free_list s2 ps
    \<and> 0x80400000 \<in> set ps \<and> int (length ps) = mem_avail s2"
proof -
  let ?s = "(kmem_ex None)\<lparr>freelist := 0\<rparr>"
  have e: "kend ?s = 0x80110000" by simp
  have mem: "(0x80400000 :: u32) \<in> {p. unat p mod PGSIZE = 0 \<and> kend ?s \<le> p \<and> p < P2V PHYSTOP}"
    by (simp add: PGSIZE_def P2V_def KERNBASE_def PHYSTOP_def)
  have "KERNBASE \<le> kend ?s" "kend ?s \<le> P2V 0x400000" "freelist ?s = 0"
    by (simp_all add: KERNBASE_def P2V_def)
  from kinit_frees_all [OF this] obtain s1 s2 ps where
    "kinit1 (kend ?s) (P2V 0x400000) ?s = Inr s1" "kinit2 (P2V 0x400000) (P2V PHYSTOP) s1 = Inr s2"
    "free_list s2 ps" "set ps = {p. unat p mod PGSIZE = 0 \<and> kend ?s \<le> p \<and> p < P2V PHYSTOP}"
    "int (length ps) = mem_avail s2" by blast
  moreover from this(4) mem have "0x80400000 \<in> set ps" by (rule ssubst)
  ultimately show ?thesis unfolding e by blast
qed

section \<open>Charging containers\<close>

text \<open>C14: memory limits are enforced by \<open>kalloc\<close>. When a process of a container takes a page
  after the first clock tick and the container is below its limit, its memory count goes up
  by one and no other process or container changes. When the limit is reached, every live
  process of the container is marked killed and awake, no other live process changes, and
  the container's slot is reset. In both cases the page is returned to the caller.\<close>

theorem kalloc_limit:
  assumes "wf_procs s" and "cur s = Some m" and "p_cont (ptable s ! m) = Some vc"
    and "uniq_pids (ptable s)" and "uniq_names (containers s)"
    and "find_c (c_name (containers s ! nat vc)) s = int k"
    and "0 < ticks s" and "freelist s \<noteq> 0" and "is_i32 (c_curr_mem (containers s ! k) + 1)"
  shows "\<exists>s'. kalloc s = Inr (freelist s, s')
    \<and> (if c_curr_mem (containers s ! k) < c_max_mem (containers s ! k)
       then containers s' = (containers s)[k := (containers s ! k)\<lparr>c_curr_mem := c_curr_mem (containers s ! k) + 1\<rparr>]
          \<and> (\<forall>i < NPROC. i \<noteq> m \<longrightarrow> ptable s' ! i = ptable s ! i)
       else containers s' = (containers s)[k := reset_slot (containers s ! k)]
          \<and> (\<forall>i < NPROC. p_state (ptable s ! i) \<noteq> UNUSED \<longrightarrow>
               (if cont_name s (ptable s ! i) = cont_name s (ptable s ! m)
                then p_killed (ptable s' ! i) \<and> p_state (ptable s' ! i) \<noteq> SLEEPING
                else ptable s' ! i = ptable s ! i)))"
proof -
  let ?u = "\<lambda>p. p\<lparr>p_usage := i32 (p_usage p + 1)\<rparr>"
  let ?a = "s\<lparr>freelist := get32 (pmem s) (unat (freelist s)), kmem_i := i32 (kmem_i s + 1)\<rparr>"
  let ?b = "proc_upd m ?u ?a"
  have m: "m < length (ptable s)" using assms(1,2) by (simp add: wf_procs_def)
  have ptr: "wf_cont_ptr s (Some vc)" using assms(1,3) m by (metis nth_mem wf_procs_def)
  have f: "find_c (c_name (containers s ! nat vc)) t = int k" if "containers t = containers s" for t :: "'a kmem_scheme"
    using assms(6) that by (simp add: find_c_def)
  have rng: "in_range (int k) (containers s)"
    using find_c_range [OF wf_procs_conts [OF assms(1)], of "c_name (containers s ! nat vc)"] assms(6)
    by auto
  have me: "my_proc ?a = Inr (ptable s ! m)"
    using assms(2) m by (simp add: my_proc_def myproc_def fetch_def)
  have de: "cont_deref (Some vc) ?a = Inr (containers s ! nat vc)"
    using ptr by (simp add: cont_deref_def wf_cont_ptr_def cont_get_in)
  show ?thesis
  proof (cases "c_curr_mem (containers s ! k) < c_max_mem (containers s ! k)")
    case True
    let ?c = "?b\<lparr>containers := (containers s)[k := (containers s ! k)\<lparr>c_curr_mem := c_curr_mem (containers s ! k) + 1\<rparr>]\<rparr>"
    have "kalloc_charge ?a = Inr ?c"
      using True me de rng assms(2,3,9) f [of ?a]
      by (simp add: kalloc_charge_def my_upd_def myproc_def get_curr_mem_def cont_get_in set_curr_mem_def
          cont_upd_in in_range_def)
    then show ?thesis using True assms(7,8) by (simp add: kalloc_def Let_def)
  next
    case False
    have wfb: "wf_procs ?b"
      using assms(1) m by (auto simp: wf_procs_def wf_conts_def wf_cont_ptr_def all_set_conv_all_nth
          nth_list_update split: option.splits)
    have b: "?b\<lparr>containers := containers s\<rparr> = ?b" by (cases s) (simp add: proc_upd_def)
    have "kalloc_charge ?a = cstop_container_helper (Some vc) (?b\<lparr>containers := containers s\<rparr>)"
      using False me de rng assms(2,3,9) f [of ?a]
      by (simp add: kalloc_charge_def my_upd_def myproc_def get_curr_mem_def cont_get_in set_curr_mem_def
          cont_upd_in)
    then have ch: "kalloc_charge ?a = cstop_container_helper (Some vc) ?b" unfolding b .
    have same: "cont_name ?b (ptable ?b ! i) = cont_name s (ptable s ! i)"
      "p_state (ptable ?b ! i) = p_state (ptable s ! i)"
      "p_pid (ptable ?b ! i) = p_pid (ptable s ! i)" for i
      using m by (cases "i = m"; simp add: cont_name_def)+
    have pids: "uniq_pids (ptable ?b)"
      using assms(4) unfolding uniq_pids_def same by simp
    have cont: "p_cont (ptable ?b ! m) = Some vc" using assms(3) m by simp
    obtain s' where s': "cstop_container_helper (Some vc) ?b = Inr s'"
      and cs: "containers s' = (containers s)[k := reset_slot (containers s ! k)]"
      and ps: "\<forall>i < NPROC. p_state (ptable ?b ! i) \<noteq> UNUSED \<longrightarrow>
          ptable s' ! i = (if cont_name ?b (ptable ?b ! i) = cont_name ?b (ptable ?b ! m)
                           then set_killed (ptable ?b ! i) else ptable ?b ! i)"
      using cstop_container_stops [OF wfb _ cont pids] assms(2,5) f [of ?b] by auto

    have "if cont_name s (ptable s ! i) = cont_name s (ptable s ! m)
          then p_killed (ptable s' ! i) \<and> p_state (ptable s' ! i) \<noteq> SLEEPING
          else ptable s' ! i = ptable s ! i" if "i < NPROC" "p_state (ptable s ! i) \<noteq> UNUSED" for i
      using ps that unfolding same by (cases "i = m") auto
    then show ?thesis
      using False assms(7,8) ch s' cs by (simp add: kalloc_def Let_def)
  qed
qed

theorem kalloc_limit_witness:
  "\<exists>s'. kalloc ((kmem_ex (Some 1))\<lparr>containers := (containers conts_ex)[0 := slot0\<lparr>c_name := ''web'', c_max_mem := 0\<rparr>]\<rparr>)
      = Inr (0x80400000, s') \<and> p_killed (ptable s' ! 2) \<and> c_name (containers s' ! 0) = ''''"
proof -
  let ?cs = "(containers conts_ex)[0 := slot0\<lparr>c_name := ''web'', c_max_mem := 0\<rparr>]"
  let ?s = "(kmem_ex (Some 1))\<lparr>containers := ?cs\<rparr>"
  have wf: "wf_procs ?s"
    by (auto simp: wf_procs_def wf_conts_def procs_ex_def NPROC_def wf_cont_ptr_def proc0_def
      conts_ex_def in_range_def wf_slot_def slot0_def MAX_CONTAINERS_def)
  have pids: "uniq_pids (ptable ?s)"
    by (simp add: uniq_pids_def procs_ex_def proc0_def nth_Cons' nth_append)
  have u: "uniq_names (containers ?s)"
    by (auto simp: uniq_names_def conts_ex_def slot0_def nth_Cons' numeral_eq_Suc less_Suc_eq)
  have c: "p_cont (ptable ?s ! 1) = Some 0" by (simp add: procs_ex_def)
  have f: "find_c (c_name (containers ?s ! nat 0)) ?s = int 0"
    by (simp add: find_c_def conts_ex_def slot0_def)
  have "is_i32 (c_curr_mem (containers ?s ! 0) + 1)" "0 < ticks ?s" "freelist ?s \<noteq> 0" "cur ?s = Some 1"
    by (simp_all add: conts_ex_def slot0_def is_i32_def)
  from kalloc_limit [OF wf this(4) c pids u f this(2,3,1)] obtain s' where
    s': "kalloc ?s = Inr (0x80400000, s')" and
    "containers s' = ?cs[0 := reset_slot (?cs ! 0)]" and
    kill: "cont_name ?s (ptable ?s ! 2) = cont_name ?s (ptable ?s ! 1) \<Longrightarrow>
       p_state (ptable ?s ! 2) \<noteq> UNUSED \<Longrightarrow> p_killed (ptable s' ! 2)"
    by (auto simp: NPROC_def conts_ex_def slot0_def)
  then have "c_name (containers s' ! 0) = ''''" by (simp add: conts_ex_def reset_slot_def)
  moreover have "p_killed (ptable s' ! 2)"
    by (rule kill) (simp_all add: cont_name_def procs_ex_def)
  ultimately show ?thesis using s' by blast
qed

end
