(* ===== verification/SleepLock.thy ===== *)
theory SleepLock
  imports Proc
begin

text \<open>
  The sleep locks of \<^verbatim>\<open>sleeplock.c\<close>. A lock is its flag and the pid of its holder; the
  spin lock inside it makes each routine one atomic step, up to the point where
  \<^verbatim>\<open>acquiresleep\<close> has to sleep. \<open>acquiresleep\<close> is the call that succeeds at once and is
  \<open>Blocked\<close> otherwise; \<open>acquiresleep_try\<close> is one turn of its loop, which either takes the
  lock or puts the caller to sleep on the lock's address \<open>ch\<close>.

  The relation \<open>sl_step\<close> lets any number of processes use one lock, with scheduling, kills
  and other wake-ups in between.
\<close>

record sleeplock =
  sl_locked :: bool
  sl_pid :: int

definition initsleeplock :: sleeplock where
  "initsleeplock = \<lparr>sl_locked = False, sl_pid = 0\<rparr>"

definition acquiresleep :: "sleeplock \<Rightarrow> 'z kproc_scheme \<Rightarrow> sleeplock res" where
  "acquiresleep lk s =
     (if sl_locked lk then Inl (Blocked ''acquiresleep'')
      else bnd (my_proc s) (\<lambda>p. Inr (lk\<lparr>sl_locked := True, sl_pid := p_pid p\<rparr>)))"

definition releasesleep ::
  "chan \<Rightarrow> sleeplock \<Rightarrow> 'z kproc_scheme \<Rightarrow> sleeplock \<times> 'z kproc_scheme" where
  "releasesleep ch lk s = (lk\<lparr>sl_locked := False, sl_pid := 0\<rparr>, wakeup (Some ch) s)"

definition holdingsleep :: "sleeplock \<Rightarrow> bool" where
  "holdingsleep lk = sl_locked lk"

definition acquiresleep_try ::
  "chan \<Rightarrow> sleeplock \<Rightarrow> 'z kproc_scheme \<Rightarrow> (bool \<times> sleeplock \<times> 'z kproc_scheme) res" where
  "acquiresleep_try ch lk s =
     (if sl_locked lk then bnd (sleep_enter (Some ch) (Some lk) s) (\<lambda>s. Inr (False, lk, s))
      else bnd (acquiresleep lk s) (\<lambda>lk. Inr (True, lk, s)))"

lemma acquiresleep_free:
  "\<not> sl_locked lk \<Longrightarrow> my_proc s = Inr p \<Longrightarrow>
     acquiresleep lk s = Inr \<lparr>sl_locked = True, sl_pid = p_pid p, \<dots> = sleeplock.more lk\<rparr>"
  by (cases lk) (simp add: acquiresleep_def)

section \<open>Interleaving\<close>

datatype slpc = Away | Trying | Holding

record slsys =
  ss_lock :: sleeplock
  ss_pc :: "nat \<Rightarrow> slpc"
  ss_k :: kproc

inductive sl_step :: "chan \<Rightarrow> slsys \<Rightarrow> slsys \<Rightarrow> bool" for ch where
  call: "i < NPROC \<Longrightarrow> p_state (ptable (ss_k s) ! i) = RUNNING \<Longrightarrow> ss_pc s i = Away \<Longrightarrow>
     sl_step ch s (s\<lparr>ss_pc := (ss_pc s)(i := Trying)\<rparr>)"
| attempt: "i < NPROC \<Longrightarrow> p_state (ptable (ss_k s) ! i) = RUNNING \<Longrightarrow> ss_pc s i = Trying \<Longrightarrow>
     acquiresleep_try ch (ss_lock s) ((ss_k s)\<lparr>cur := Some i\<rparr>) = Inr (got, lk, k) \<Longrightarrow>
     sl_step ch s (s\<lparr>ss_lock := lk, ss_k := k, ss_pc := (ss_pc s)(i := if got then Holding else Trying)\<rparr>)"
| give: "i < NPROC \<Longrightarrow> p_state (ptable (ss_k s) ! i) = RUNNING \<Longrightarrow> ss_pc s i = Holding \<Longrightarrow>
     releasesleep ch (ss_lock s) ((ss_k s)\<lparr>cur := Some i\<rparr>) = (lk, k) \<Longrightarrow>
     sl_step ch s (s\<lparr>ss_lock := lk, ss_k := k, ss_pc := (ss_pc s)(i := Away)\<rparr>)"
| run: "i < NPROC \<Longrightarrow> p_state (ptable (ss_k s) ! i) = RUNNABLE \<Longrightarrow>
     sl_step ch s (s\<lparr>ss_k := proc_upd i (\<lambda>p. p\<lparr>p_state := RUNNING\<rparr>) (ss_k s)\<rparr>)"
| yield: "i < NPROC \<Longrightarrow> p_state (ptable (ss_k s) ! i) = RUNNING \<Longrightarrow>
     sl_step ch s (s\<lparr>ss_k := proc_upd i (\<lambda>p. p\<lparr>p_state := RUNNABLE\<rparr>) (ss_k s)\<rparr>)"
| other_sleep: "i < NPROC \<Longrightarrow> p_state (ptable (ss_k s) ! i) = RUNNING \<Longrightarrow> ss_pc s i \<noteq> Trying \<Longrightarrow> c \<noteq> ch \<Longrightarrow>
     sleep_enter (Some c) (Some ()) ((ss_k s)\<lparr>cur := Some i\<rparr>) = Inr k \<Longrightarrow>
     sl_step ch s (s\<lparr>ss_k := k\<rparr>)"
| other_wakeup: "sl_step ch s (s\<lparr>ss_k := wakeup c (ss_k s)\<rparr>)"
| killed: "kill pid (ss_k s) = Inr (r, k) \<Longrightarrow> sl_step ch s (s\<lparr>ss_k := k\<rparr>)"

inductive sl_reach :: "chan \<Rightarrow> kproc \<Rightarrow> slsys \<Rightarrow> bool" for ch k0 where
  start: "sl_reach ch k0 \<lparr>ss_lock = initsleeplock, ss_pc = (\<lambda>_. Away), ss_k = k0\<rparr>"
| step: "sl_reach ch k0 s \<Longrightarrow> sl_step ch s t \<Longrightarrow> sl_reach ch k0 t"

text \<open>A process that sleeps on \<open>ch\<close> waits for the lock, and the lock is then taken.\<close>

definition asleep_on :: "chan \<Rightarrow> kproc \<Rightarrow> nat \<Rightarrow> bool" where
  "asleep_on ch k i \<longleftrightarrow> p_state (ptable k ! i) = SLEEPING \<and> p_chan (ptable k ! i) = Some ch"

definition sl_inv :: "chan \<Rightarrow> slsys \<Rightarrow> bool" where
  "sl_inv ch s \<longleftrightarrow> length (ptable (ss_k s)) = NPROC
     \<and> (\<forall>i j. ss_pc s i = Holding \<longrightarrow> ss_pc s j = Holding \<longrightarrow> i = j)
     \<and> (sl_locked (ss_lock s) \<longleftrightarrow> (\<exists>i. ss_pc s i = Holding))
     \<and> (\<forall>i < NPROC. asleep_on ch (ss_k s) i \<longrightarrow> ss_pc s i = Trying \<and> sl_locked (ss_lock s))"

lemma sl_inv_table:
  assumes "sl_inv ch s" and "length (ptable k) = NPROC"
    and "\<And>i. i < NPROC \<Longrightarrow> asleep_on ch k i \<Longrightarrow> asleep_on ch (ss_k s) i"
  shows "sl_inv ch (s\<lparr>ss_k := k\<rparr>)"
  using assms by (auto simp: sl_inv_def)

lemma asleep_on_upd:
  assumes "i < length (ptable k)" and "p_state (f (ptable k ! i)) \<noteq> SLEEPING"
  shows "asleep_on ch (proc_upd i f k) j \<Longrightarrow> asleep_on ch k j"
  using assms by (cases "i = j") (auto simp: asleep_on_def)

lemma asleep_on_wakeup:
  assumes "j < length (ptable k)"
  shows "asleep_on ch (wakeup c k) j \<longleftrightarrow> asleep_on ch k j \<and> c \<noteq> Some ch"
  using assms by (auto simp: asleep_on_def wakeup_def wakeup1_def wakeup_one_def)

lemma asleep_on_kill:
  assumes "kill pid k = Inr (r, k')"
  shows "length (ptable k') = length (ptable k)" and "asleep_on ch k' j \<Longrightarrow> asleep_on ch k j"
proof -
  from kill_cases [OF assms] have "length (ptable k') = length (ptable k) \<and> (asleep_on ch k' j \<longrightarrow> asleep_on ch k j)"
    by (elim disjE exE conjE) (auto dest: asleep_on_upd [rotated 2])
  then show "length (ptable k') = length (ptable k)" "asleep_on ch k' j \<Longrightarrow> asleep_on ch k j"
    by blast+
qed

lemma sl_step_inv: "sl_step ch s t \<Longrightarrow> sl_inv ch s \<Longrightarrow> sl_inv ch t"
proof (induction rule: sl_step.induct)
  case (call i s)
  then have "(\<exists>j. (if j = i then Trying else ss_pc s j) = Holding) \<longleftrightarrow> (\<exists>j. ss_pc s j = Holding)"
    by (metis slpc.distinct(3,5))
  with call show ?case by (auto simp: sl_inv_def asleep_on_def)
next
  case (attempt i s got lk k)
  show ?case
  proof (cases "sl_locked (ss_lock s)")
    case True
    with attempt have *: "\<not> got" "lk = ss_lock s"
      "k = proc_upd i (\<lambda>p. p\<lparr>p_chan := Some ch, p_state := SLEEPING\<rparr>) ((ss_k s)\<lparr>cur := Some i\<rparr>)"
      by (auto simp: acquiresleep_try_def sleep_enter_def myproc_def)
    have "ss_pc s = (ss_pc s)(i := Trying)" using attempt by (simp add: fun_eq_iff)
    with * True attempt show ?thesis
      by (auto simp: sl_inv_def asleep_on_def nth_list_update)
  next
    case False
    with attempt have *: got "sl_locked lk" "k = (ss_k s)\<lparr>cur := Some i\<rparr>"
      by (auto simp: acquiresleep_try_def acquiresleep_def bnd_Inr_iff)
    with False attempt show ?thesis by (auto simp: sl_inv_def asleep_on_def)
  qed
next
  case (give i s lk k)
  then have "\<not> sl_locked lk" "k = wakeup (Some ch) ((ss_k s)\<lparr>cur := Some i\<rparr>)"
    by (auto simp: releasesleep_def)
  moreover from this give have "length (ptable k) = NPROC" "\<forall>j < NPROC. \<not> asleep_on ch k j"
    by (simp_all add: sl_inv_def asleep_on_wakeup)
  moreover have "\<forall>j. j \<noteq> i \<longrightarrow> ss_pc s j \<noteq> Holding"
    using give by (auto simp: sl_inv_def)
  ultimately show ?case by (simp add: sl_inv_def)
next
  case (run i s)
  then show ?case by (intro sl_inv_table) (auto simp: sl_inv_def dest: asleep_on_upd [rotated 2])
next
  case (yield i s)
  then show ?case by (intro sl_inv_table) (auto simp: sl_inv_def dest: asleep_on_upd [rotated 2])
next
  case (other_sleep i s c k)
  then have k: "k = proc_upd i (\<lambda>p. p\<lparr>p_chan := Some c, p_state := SLEEPING\<rparr>) ((ss_k s)\<lparr>cur := Some i\<rparr>)"
    by (auto simp: sleep_enter_def myproc_def)
  show ?case
    using other_sleep by (intro sl_inv_table) (auto simp: sl_inv_def k asleep_on_def nth_list_update split: if_splits)
next
  case (other_wakeup s c)
  then show ?case
    by (intro sl_inv_table) (auto simp: sl_inv_def asleep_on_wakeup)
next
  case (killed pid s r k)
  then show ?case
    using asleep_on_kill [OF killed(1)] by (intro sl_inv_table) (auto simp: sl_inv_def)
qed

lemma sl_reach_inv:
  assumes "sl_reach ch k0 s" and "length (ptable k0) = NPROC"
    and "\<forall>i < NPROC. \<not> asleep_on ch k0 i"
  shows "sl_inv ch s"
  using assms(1)
proof (induction rule: sl_reach.induct)
  case start
  show ?case using assms(2,3) by (simp add: sl_inv_def initsleeplock_def)
qed (rule sl_step_inv)

text \<open>C15: sleep locks exclude and lose no wake-up. However processes that use one lock interleave
  with scheduling, kills and other sleeps and wake-ups, at most one process holds the lock,
  the lock is marked taken exactly while some process holds it, and no process sleeps on
  the lock once it is free.\<close>

theorem sleeplock_correct:
  assumes "sl_reach ch k0 s" and "length (ptable k0) = NPROC"
    and "\<forall>i < NPROC. \<not> (p_state (ptable k0 ! i) = SLEEPING \<and> p_chan (ptable k0 ! i) = Some ch)"
  shows "(\<forall>i j. ss_pc s i = Holding \<longrightarrow> ss_pc s j = Holding \<longrightarrow> i = j)
    \<and> (sl_locked (ss_lock s) \<longleftrightarrow> (\<exists>i. ss_pc s i = Holding))
    \<and> (\<not> sl_locked (ss_lock s) \<longrightarrow>
        (\<forall>i < NPROC. \<not> (p_state (ptable (ss_k s) ! i) = SLEEPING \<and> p_chan (ptable (ss_k s) ! i) = Some ch)))"
  using sl_reach_inv [OF assms(1,2)] assms(3) by (auto simp: sl_inv_def asleep_on_def)

theorem sleeplock_correct_witness:
  "\<exists>s. sl_reach (ChBufLock 0) (kproc_ex None) s \<and> ss_pc s 1 = Holding \<and> sl_locked (ss_lock s)"
proof -
  let ?k = "kproc_ex None" and ?ch = "ChBufLock 0"
  let ?s0 = "\<lparr>ss_lock = initsleeplock, ss_pc = (\<lambda>_. Away), ss_k = ?k\<rparr>"
  let ?s1 = "?s0\<lparr>ss_pc := (ss_pc ?s0)(1 := Trying)\<rparr>"
  let ?s2 = "?s1\<lparr>ss_lock := \<lparr>sl_locked = True, sl_pid = 2\<rparr>, ss_k := ?k\<lparr>cur := Some 1\<rparr>,
      ss_pc := (ss_pc ?s1)(1 := Holding)\<rparr>"
  have run: "p_state (procs_ex ! 1) = RUNNING" by (simp add: procs_ex_def)
  have st1: "sl_step ?ch ?s0 ?s1" using run by (intro sl_step.call) (simp_all add: NPROC_def)
  have "my_proc (?k\<lparr>cur := Some 1\<rparr>) = Inr (procs_ex ! 1)"
    by (simp add: my_proc_def myproc_def fetch_def procs_ex_def in_range_def)
  then have "acquiresleep_try ?ch initsleeplock (?k\<lparr>cur := Some 1\<rparr>)
      = Inr (True, \<lparr>sl_locked = True, sl_pid = 2\<rparr>, ?k\<lparr>cur := Some 1\<rparr>)"
    by (simp add: acquiresleep_try_def acquiresleep_def initsleeplock_def procs_ex_def)
  then have st2: "sl_step ?ch ?s1 ?s2"
    using sl_step.attempt [of 1 ?s1 ?ch True "\<lparr>sl_locked = True, sl_pid = 2\<rparr>" "?k\<lparr>cur := Some 1\<rparr>"] run
    by (simp add: NPROC_def)
  note r = sl_reach.step [OF sl_reach.step [OF sl_reach.start st1] st2]
  have "length (ptable ?k) = NPROC" "\<forall>i < NPROC. \<not> (p_state (ptable ?k ! i) = SLEEPING \<and> p_chan (ptable ?k ! i) = Some ?ch)"
    by (simp_all add: procs_ex_def NPROC_def nth_Cons' nth_append proc0_def)
  from sleeplock_correct [OF r this] r show ?thesis by (intro exI [of _ ?s2]) auto
qed

end
