(* ===== verification/Bio.thy ===== *)
theory Bio
  imports Kalloc SleepLock
begin

text \<open>
  The buffer cache of \<^verbatim>\<open>bio.c\<close> on top of the synchronous disk driver \<^verbatim>\<open>memide.c\<close>. The buffers
  are an array; the doubly linked list of the cache is the list \<open>mru\<close> of buffer indices,
  most recently used first. The disk is the list of its blocks.

  \<open>disk_writes\<close> records the block writes in the order in which the driver performs them. The
  code does not read it; it serves to state what the disk holds when the machine stops
  between two writes.

  \<open>bview s b\<close> is the content of block \<open>b\<close> as the rest of the kernel sees it: the cached copy
  if there is one, the disk block otherwise. The lemmas \<open>bread_ok\<close>, \<open>bwrite_ok\<close> and
  \<open>brelse_ok\<close> describe the cache in terms of this view.
\<close>

section \<open>State and routines\<close>

definition BSIZE :: nat where "BSIZE = 512"
definition NBUF :: nat where "NBUF = 30"

record buf =
  b_valid :: bool
  b_dirty :: bool
  b_dev :: u32
  b_blockno :: u32
  b_lock :: sleeplock
  b_refcnt :: u32
  b_data :: "u8 list"

record kbio = kmem +
  bufs :: "buf list"
  mru :: "nat list"
  disk :: "u8 list list"
  disk_writes :: "(nat \<times> u8 list) list"

definition buf_upd :: "nat \<Rightarrow> (buf \<Rightarrow> buf) \<Rightarrow> 'z kbio_scheme \<Rightarrow> 'z kbio_scheme" where
  "buf_upd i f s = s\<lparr>bufs := (bufs s)[i := f (bufs s ! i)]\<rparr>"

definition binit :: "'z kbio_scheme \<Rightarrow> 'z kbio_scheme" where
  "binit s = s\<lparr>bufs := map (\<lambda>b. b\<lparr>b_lock := initsleeplock\<rparr>) (bufs s), mru := rev [0 ..< NBUF]\<rparr>"

definition buf_acquire :: "nat \<Rightarrow> 'z kbio_scheme \<Rightarrow> (nat \<times> 'z kbio_scheme) res" where
  "buf_acquire i s =
     bnd (acquiresleep (b_lock (bufs s ! i)) s) (\<lambda>lk. Inr (i, buf_upd i (\<lambda>b. b\<lparr>b_lock := lk\<rparr>) s))"

definition bget :: "u32 \<Rightarrow> u32 \<Rightarrow> 'z kbio_scheme \<Rightarrow> (nat \<times> 'z kbio_scheme) res" where
  "bget dev blockno s =
     (case find (\<lambda>i. b_dev (bufs s ! i) = dev \<and> b_blockno (bufs s ! i) = blockno) (mru s) of
        Some i \<Rightarrow> buf_acquire i (buf_upd i (\<lambda>b. b\<lparr>b_refcnt := b_refcnt b + 1\<rparr>) s)
      | None \<Rightarrow>
          (case find (\<lambda>i. b_refcnt (bufs s ! i) = 0 \<and> \<not> b_dirty (bufs s ! i)) (rev (mru s)) of
             Some i \<Rightarrow> buf_acquire i (buf_upd i (\<lambda>b. b\<lparr>b_dev := dev, b_blockno := blockno,
                         b_valid := False, b_dirty := False, b_refcnt := 1\<rparr>) s)
           | None \<Rightarrow> Inl (Panic ''bget: no buffers'')))"

text \<open>The memory disk raises no interrupt; its handler does nothing.\<close>

definition memide_intr :: "'z kbio_scheme \<Rightarrow> 'z kbio_scheme" where
  "memide_intr s = s"

definition iderw :: "nat \<Rightarrow> 'z kbio_scheme \<Rightarrow> 'z kbio_scheme res" where
  "iderw i s =
     (let b = bufs s ! i in
      if \<not> holdingsleep (b_lock b) then Inl (Panic ''iderw: buf not locked'')
      else if b_valid b \<and> \<not> b_dirty b then Inl (Panic ''iderw: nothing to do'')
      else if b_dev b \<noteq> 1 then Inl (Panic ''iderw: request not for disk 1'')
      else if unat (b_blockno b) \<ge> length (disk s) then Inl (Panic ''iderw: block out of range'')
      else if b_dirty b
      then Inr (buf_upd i (\<lambda>b. b\<lparr>b_dirty := False, b_valid := True\<rparr>)
                 (s\<lparr>disk := (disk s)[unat (b_blockno b) := b_data b],
                    disk_writes := disk_writes s @ [(unat (b_blockno b), b_data b)]\<rparr>))
      else Inr (buf_upd i (\<lambda>b. b\<lparr>b_data := disk s ! unat (b_blockno b), b_valid := True\<rparr>) s))"

definition bread :: "u32 \<Rightarrow> u32 \<Rightarrow> 'z kbio_scheme \<Rightarrow> (nat \<times> 'z kbio_scheme) res" where
  "bread dev blockno s =
     bnd (bget dev blockno s) (\<lambda>(i, s).
       if \<not> b_valid (bufs s ! i) then bnd (iderw i s) (\<lambda>s. Inr (i, s)) else Inr (i, s))"

definition bwrite :: "nat \<Rightarrow> 'z kbio_scheme \<Rightarrow> 'z kbio_scheme res" where
  "bwrite i s =
     (if \<not> holdingsleep (b_lock (bufs s ! i)) then Inl (Panic ''bwrite'')
      else iderw i (buf_upd i (\<lambda>b. b\<lparr>b_dirty := True\<rparr>) s))"

definition brelse :: "nat \<Rightarrow> 'z kbio_scheme \<Rightarrow> 'z kbio_scheme res" where
  "brelse i s =
     (if \<not> holdingsleep (b_lock (bufs s ! i)) then Inl (Panic ''brelse'')
      else
        let (lk, s) = releasesleep (ChBufLock i) (b_lock (bufs s ! i)) s;
            s = buf_upd i (\<lambda>b. b\<lparr>b_lock := lk, b_refcnt := b_refcnt b - 1\<rparr>) s
        in Inr (if b_refcnt (bufs s ! i) = 0 then s\<lparr>mru := i # remove1 i (mru s)\<rparr> else s))"

text \<open>\<^verbatim>\<open>memmove(b->data + off, ...)\<close>.\<close>

definition bdata_put :: "nat \<Rightarrow> nat \<Rightarrow> u8 list \<Rightarrow> 'z kbio_scheme \<Rightarrow> 'z kbio_scheme" where
  "bdata_put i off xs s = buf_upd i (\<lambda>b. b\<lparr>b_data := splice (b_data b) off xs\<rparr>) s"

section \<open>Invariant and view\<close>

text \<open>The invariant of a single kernel thread that has locked each buffer at most once.\<close>

definition buf_inv :: "u8 list list \<Rightarrow> buf \<Rightarrow> bool" where
  "buf_inv d b \<longleftrightarrow> length (b_data b) = BSIZE
     \<and> b_refcnt b = (if sl_locked (b_lock b) then 1 else 0)
     \<and> (b_dirty b \<longrightarrow> b_valid b)
     \<and> (b_valid b \<longrightarrow> b_dev b = 1 \<and> unat (b_blockno b) < length d)
     \<and> (b_valid b \<longrightarrow> \<not> b_dirty b \<longrightarrow> \<not> sl_locked (b_lock b) \<longrightarrow> b_data b = d ! unat (b_blockno b))"

definition cache_inv :: "buf list \<Rightarrow> nat list \<Rightarrow> u8 list list \<Rightarrow> bool" where
  "cache_inv bs order d \<longleftrightarrow> length bs = NBUF \<and> distinct order \<and> set order = {..< NBUF}
     \<and> (\<forall>i < NBUF. buf_inv d (bs ! i))
     \<and> (\<forall>i < NBUF. \<forall>j < NBUF. b_dev (bs ! i) = 1 \<longrightarrow> b_dev (bs ! j) = 1 \<longrightarrow>
          b_blockno (bs ! i) = b_blockno (bs ! j) \<longrightarrow> i = j)
     \<and> (\<forall>x \<in> set d. length x = BSIZE)"

definition bio_inv :: "'z kbio_scheme \<Rightarrow> bool" where
  "bio_inv s \<longleftrightarrow> cache_inv (bufs s) (mru s) (disk s)
     \<and> (\<exists>m. cur s = Some m \<and> m < length (ptable s))"

text \<open>Buffer \<open>i\<close> caches block \<open>b\<close> of the disk.\<close>

definition caches :: "buf list \<Rightarrow> nat \<Rightarrow> u32 \<Rightarrow> bool" where
  "caches bs i b \<longleftrightarrow> i < NBUF \<and> b_dev (bs ! i) = 1 \<and> b_blockno (bs ! i) = b"

definition bfind :: "'z kbio_scheme \<Rightarrow> u32 \<Rightarrow> nat option" where
  "bfind s b = find (\<lambda>i. b_dev (bufs s ! i) = 1 \<and> b_blockno (bufs s ! i) = b) (mru s)"

definition bview :: "'z kbio_scheme \<Rightarrow> u32 \<Rightarrow> u8 list" where
  "bview s b = (case bfind s b of
      Some i \<Rightarrow> if b_valid (bufs s ! i) then b_data (bufs s ! i) else disk s ! unat b
    | None \<Rightarrow> disk s ! unat b)"

text \<open>Block \<open>b\<close> is pinned in the cache by an uncommitted change.\<close>

definition pinned :: "'z kbio_scheme \<Rightarrow> u32 \<Rightarrow> bool" where
  "pinned s b = (case bfind s b of Some i \<Rightarrow> b_dirty (bufs s ! i) | None \<Rightarrow> False)"

definition blocked :: "'z kbio_scheme \<Rightarrow> u32 \<Rightarrow> bool" where
  "blocked s b = (case bfind s b of Some i \<Rightarrow> sl_locked (b_lock (bufs s ! i)) | None \<Rightarrow> False)"

lemma bfind_Some_iff:
  assumes "bio_inv s"
  shows "bfind s b = Some i \<longleftrightarrow> caches (bufs s) i b"
proof
  assume "bfind s b = Some i"
  then have "i \<in> set (mru s)" "b_dev (bufs s ! i) = 1" "b_blockno (bufs s ! i) = b"
    by (auto simp: bfind_def find_Some_iff)
  then show "caches (bufs s) i b" using assms by (auto simp: caches_def bio_inv_def cache_inv_def)
next
  assume c: "caches (bufs s) i b"
  then have "i \<in> set (mru s)" using assms by (auto simp: caches_def bio_inv_def cache_inv_def)
  with c obtain j where j: "bfind s b = Some j"
    by (cases "bfind s b") (auto simp: bfind_def find_None_iff caches_def)
  then have "j \<in> set (mru s)" "b_dev (bufs s ! j) = 1" "b_blockno (bufs s ! j) = b"
    by (auto simp: bfind_def find_Some_iff)
  with c assms have "j = i" unfolding bio_inv_def cache_inv_def caches_def by blast
  with j show "bfind s b = Some i" by simp
qed

lemma bfind_None_iff:
  assumes "bio_inv s"
  shows "bfind s b = None \<longleftrightarrow> (\<forall>i. \<not> caches (bufs s) i b)"
  using bfind_Some_iff [OF assms, of b] by (cases "bfind s b") auto

lemma bview_cached:
  "bio_inv s \<Longrightarrow> caches (bufs s) i b \<Longrightarrow>
     bview s b = (if b_valid (bufs s ! i) then b_data (bufs s ! i) else disk s ! unat b)"
  by (simp add: bview_def bfind_Some_iff [THEN iffD2])

lemma bview_not_cached: "bio_inv s \<Longrightarrow> (\<And>i. \<not> caches (bufs s) i b) \<Longrightarrow> bview s b = disk s ! unat b"
  by (simp add: bview_def bfind_None_iff [THEN iffD2])

lemma caches_unique:
  "bio_inv s \<Longrightarrow> caches (bufs s) i b \<Longrightarrow> caches (bufs s) j b \<Longrightarrow> i = j"
  unfolding bio_inv_def cache_inv_def caches_def by blast

lemma pinned_cached: "bio_inv s \<Longrightarrow> caches (bufs s) i b \<Longrightarrow> pinned s b = b_dirty (bufs s ! i)"
  by (simp add: pinned_def bfind_Some_iff [THEN iffD2])

lemma pinned_not_cached: "bio_inv s \<Longrightarrow> (\<And>i. \<not> caches (bufs s) i b) \<Longrightarrow> \<not> pinned s b"
  by (simp add: pinned_def bfind_None_iff [THEN iffD2])

lemma blocked_cached: "bio_inv s \<Longrightarrow> caches (bufs s) i b \<Longrightarrow> blocked s b = sl_locked (b_lock (bufs s ! i))"
  by (simp add: blocked_def bfind_Some_iff [THEN iffD2])

lemma blocked_not_cached: "bio_inv s \<Longrightarrow> (\<And>i. \<not> caches (bufs s) i b) \<Longrightarrow> \<not> blocked s b"
  by (simp add: blocked_def bfind_None_iff [THEN iffD2])

lemma bio_inv_buf: "bio_inv s \<Longrightarrow> i < NBUF \<Longrightarrow> buf_inv (disk s) (bufs s ! i)"
  by (simp add: bio_inv_def cache_inv_def)

lemma bio_inv_disk: "bio_inv s \<Longrightarrow> i < length (disk s) \<Longrightarrow> length (disk s ! i) = BSIZE"
  by (simp add: bio_inv_def cache_inv_def)

lemma length_bview:
  assumes "bio_inv s" and "unat b < length (disk s)"
  shows "length (bview s b) = BSIZE"
proof (cases "bfind s b")
  case None
  with assms show ?thesis by (simp add: bview_def bio_inv_disk)
next
  case (Some i)
  then have "i < NBUF" using assms by (simp add: bfind_Some_iff caches_def)
  with bio_inv_buf [OF assms(1)] have "length (b_data (bufs s ! i)) = BSIZE" by (simp add: buf_inv_def)
  with Some assms show ?thesis by (simp add: bview_def bio_inv_disk)
qed

lemma buf_upd_simps [simp]:
  "bufs (buf_upd i f s) = (bufs s)[i := f (bufs s ! i)]" "mru (buf_upd i f s) = mru s"
  "disk (buf_upd i f s) = disk s" "disk_writes (buf_upd i f s) = disk_writes s"
  "kbio.more (buf_upd i f s) = kbio.more s" "ptable (buf_upd i f s) = ptable s"
  "cur (buf_upd i f s) = cur s" "containers (buf_upd i f s) = containers s"
  "ticks (buf_upd i f s) = ticks s" "null_cont (buf_upd i f s) = null_cont s"
  by (simp_all add: buf_upd_def)

text \<open>Changing buffer \<open>i\<close>, and possibly the disk, in a way that keeps the invariant.\<close>

lemma cache_inv_upd:
  assumes "cache_inv bs order d" and "i < NBUF" and "buf_inv d' b"
    and "\<And>j. j < NBUF \<Longrightarrow> j \<noteq> i \<Longrightarrow> buf_inv d' (bs ! j)"
    and "b_dev b = 1 \<Longrightarrow> \<forall>j < NBUF. j \<noteq> i \<longrightarrow> b_dev (bs ! j) = 1 \<longrightarrow> b_blockno (bs ! j) \<noteq> b_blockno b"
    and "\<forall>x \<in> set d'. length x = BSIZE" and "distinct order'" and "set order' = set order"
  shows "cache_inv (bs[i := b]) order' d'"
proof -
  have len: "length bs = NBUF" using assms(1) by (simp add: cache_inv_def)
  have "b_dev (bs[i := b] ! j) = 1 \<longrightarrow> b_dev (bs[i := b] ! k) = 1 \<longrightarrow>
      b_blockno (bs[i := b] ! j) = b_blockno (bs[i := b] ! k) \<longrightarrow> j = k" if "j < NBUF" "k < NBUF" for j k
    using assms(1,5) that len unfolding cache_inv_def by (cases "j = i"; cases "k = i") auto
  moreover have "buf_inv d' (bs[i := b] ! j)" if "j < NBUF" for j
    using assms(3,4) that len by (cases "j = i") auto
  ultimately show ?thesis using assms(1,6-8) len by (simp add: cache_inv_def)
qed

lemma caches_upd:
  assumes "i < length bs"
  shows "caches (bs[i := b]) j x \<longleftrightarrow>
    (if j = i then i < NBUF \<and> b_dev b = 1 \<and> b_blockno b = x else caches bs j x)"
  using assms by (auto simp: caches_def)

section \<open>What the routines do\<close>

lemma my_proc_bio: "bio_inv s \<Longrightarrow> \<exists>p. my_proc s = Inr p"
  by (auto simp: bio_inv_def my_proc_def myproc_def fetch_def)

text \<open>The buffer that \<open>bread\<close> returns for block \<open>b\<close>.\<close>

definition held_buf :: "'z kbio_scheme \<Rightarrow> u32 \<Rightarrow> int \<Rightarrow> buf" where
  "held_buf s b pid = \<lparr>b_valid = True, b_dirty = pinned s b, b_dev = 1, b_blockno = b,
     b_lock = \<lparr>sl_locked = True, sl_pid = pid\<rparr>, b_refcnt = 1, b_data = bview s b\<rparr>"

lemma held_buf_simps [simp]:
  "b_valid (held_buf s b p)" "b_dirty (held_buf s b p) = pinned s b" "b_dev (held_buf s b p) = 1"
  "b_blockno (held_buf s b p) = b" "b_lock (held_buf s b p) = \<lparr>sl_locked = True, sl_pid = p\<rparr>"
  "b_refcnt (held_buf s b p) = 1" "b_data (held_buf s b p) = bview s b"
  by (simp_all add: held_buf_def)

lemma buf_inv_refcnt: "buf_inv d b \<Longrightarrow> b_refcnt b = 0 \<longleftrightarrow> \<not> sl_locked (b_lock b)"
  by (simp add: buf_inv_def)

lemma buf_acquire_free:
  assumes "my_proc s = Inr p" and "\<not> sl_locked (b_lock (bufs s ! i))"
  shows "buf_acquire i s = Inr (i, buf_upd i (\<lambda>b. b\<lparr>b_lock := \<lparr>sl_locked = True, sl_pid = p_pid p\<rparr>\<rparr>) s)"
  using assms by (cases "b_lock (bufs s ! i)") (simp add: buf_acquire_def acquiresleep_def)

lemma my_proc_bio_simps [simp]:
  "my_proc (s\<lparr>bufs := x\<rparr>) = my_proc s" "my_proc (s\<lparr>mru := y\<rparr>) = my_proc s"
  "my_proc (s\<lparr>disk := z\<rparr>) = my_proc s" "my_proc (s\<lparr>disk_writes := w\<rparr>) = my_proc s"
  by (simp_all add: my_proc_def myproc_def cong: option.case_cong)

lemma my_proc_buf_upd [simp]: "my_proc (buf_upd i f s) = my_proc s"
  by (simp add: buf_upd_def)

lemma find_SomeD: "find P xs = Some x \<Longrightarrow> x \<in> set xs \<and> P x"
  by (induction xs) (auto split: if_splits)

lemma buf_upd_twice: "i < length (bufs s) \<Longrightarrow> buf_upd i f (buf_upd i g s) = buf_upd i (\<lambda>b. f (g b)) s"
  by (simp add: buf_upd_def)

lemma buf_upd_const: "i < length (bufs s) \<Longrightarrow> f (bufs s ! i) = b \<Longrightarrow> buf_upd i f s = s\<lparr>bufs := (bufs s)[i := b]\<rparr>"
  by (simp add: buf_upd_def)

lemma len_bufs: "bio_inv s \<Longrightarrow> length (bufs s) = NBUF"
  by (simp add: bio_inv_def cache_inv_def)

text \<open>\<open>free_buf s i\<close>: buffer \<open>i\<close> can be recycled.\<close>

definition free_buf :: "'z kbio_scheme \<Rightarrow> nat \<Rightarrow> bool" where
  "free_buf s i \<longleftrightarrow> i < NBUF \<and> b_refcnt (bufs s ! i) = 0 \<and> \<not> b_dirty (bufs s ! i)"

lemma bread_hit:
  assumes inv: "bio_inv s" and b: "unat b < length (disk s)" and free: "\<not> blocked s b"
    and c: "caches (bufs s) i b" and p: "my_proc s = Inr p"
  shows "bread 1 b s = Inr (i, s\<lparr>bufs := (bufs s)[i := held_buf s b (p_pid p)]\<rparr>)"
proof -
  let ?b = "bufs s ! i"
  have i: "i < length (bufs s)" "i < NBUF" using c len_bufs [OF inv] by (auto simp: caches_def)
  have bi: "buf_inv (disk s) ?b" using inv i by (simp add: bio_inv_buf)
  have nl: "\<not> sl_locked (b_lock ?b)" using blocked_cached [OF inv c] free by simp
  have pin: "pinned s b = b_dirty ?b" using inv c by (rule pinned_cached)
  have f: "find (\<lambda>i. b_dev (bufs s ! i) = 1 \<and> b_blockno (bufs s ! i) = b) (mru s) = Some i"
    using bfind_Some_iff [OF inv] c by (simp add: bfind_def)
  let ?h = "?b\<lparr>b_refcnt := 1, b_lock := \<lparr>sl_locked = True, sl_pid = p_pid p\<rparr>\<rparr>"
  have "bget 1 b s = buf_acquire i (buf_upd i (\<lambda>b. b\<lparr>b_refcnt := b_refcnt b + 1\<rparr>) s)"
    by (simp add: bget_def f)
  also have "\<dots> = Inr (i, s\<lparr>bufs := (bufs s)[i := ?h]\<rparr>)"
    using p nl i bi by (subst buf_acquire_free) (simp_all add: buf_upd_def buf_inv_def)
  finally have g: "bget 1 b s = Inr (i, s\<lparr>bufs := (bufs s)[i := ?h]\<rparr>)" .
  have view: "bview s b = (if b_valid ?b then b_data ?b else disk s ! unat b)"
    using inv c by (rule bview_cached)
  show ?thesis
  proof (cases "b_valid ?b")
    case True
    with c pin view have "?h = held_buf s b (p_pid p)"
      by (intro buf.equality) (simp_all add: caches_def)
    with True g i show ?thesis by (simp add: bread_def)
  next
    case False
    with bi have nd: "\<not> b_dirty ?b" by (simp add: buf_inv_def)
    have "?h\<lparr>b_data := disk s ! unat b, b_valid := True\<rparr> = held_buf s b (p_pid p)"
      using c pin view False nd by (intro buf.equality) (simp_all add: caches_def)
    moreover have "bread 1 b s = Inr (i, s\<lparr>bufs := (bufs s)[i := ?h\<lparr>b_data := disk s ! unat b, b_valid := True\<rparr>]\<rparr>)"
      using False nd i c b by (simp add: bread_def g iderw_def Let_def holdingsleep_def caches_def buf_upd_def)
    ultimately show ?thesis by simp
  qed
qed

lemma bread_miss:
  assumes inv: "bio_inv s" and b: "unat b < length (disk s)"
    and nc: "\<And>i. \<not> caches (bufs s) i b" and room: "free_buf s j" and p: "my_proc s = Inr p"
  shows "\<exists>i. free_buf s i \<and> bread 1 b s = Inr (i, s\<lparr>bufs := (bufs s)[i := held_buf s b (p_pid p)]\<rparr>)"
proof -
  have f: "find (\<lambda>i. b_dev (bufs s ! i) = 1 \<and> b_blockno (bufs s ! i) = b) (mru s) = None"
    using bfind_None_iff [OF inv] nc by (simp add: bfind_def)
  let ?P = "\<lambda>i. b_refcnt (bufs s ! i) = 0 \<and> \<not> b_dirty (bufs s ! i)"
  have mru: "set (mru s) = {..< NBUF}" using inv by (simp add: bio_inv_def cache_inv_def)
  obtain i where i: "find ?P (rev (mru s)) = Some i"
    using room mru by (cases "find ?P (rev (mru s))") (auto simp: find_None_iff free_buf_def)
  from find_SomeD [OF i] mru have fi: "free_buf s i" by (simp add: free_buf_def)
  let ?b = "bufs s ! i"
  have il: "i < length (bufs s)" using fi len_bufs [OF inv] by (simp add: free_buf_def)
  have "buf_inv (disk s) ?b" using inv fi by (intro bio_inv_buf) (simp_all add: free_buf_def)
  from buf_inv_refcnt [OF this] fi have nl: "\<not> sl_locked (b_lock ?b)" by (simp add: free_buf_def)
  let ?h = "?b\<lparr>b_dev := 1, b_blockno := b, b_valid := False, b_dirty := False, b_refcnt := 1,
     b_lock := \<lparr>sl_locked = True, sl_pid = p_pid p\<rparr>\<rparr>"
  have "bget 1 b s = Inr (i, s\<lparr>bufs := (bufs s)[i := ?h]\<rparr>)"
  proof -
    have "bget 1 b s = buf_acquire i (buf_upd i (\<lambda>c. c\<lparr>b_dev := 1, b_blockno := b,
        b_valid := False, b_dirty := False, b_refcnt := 1\<rparr>) s)" by (simp add: bget_def f i)
    then show ?thesis using p nl il by (simp add: buf_acquire_free buf_upd_def)
  qed
  moreover have "bview s b = disk s ! unat b" "\<not> pinned s b"
    using inv nc by (auto intro: bview_not_cached dest: pinned_not_cached)
  then have "?h\<lparr>b_data := disk s ! unat b, b_valid := True\<rparr> = held_buf s b (p_pid p)"
    by (intro buf.equality) simp_all
  ultimately have "bread 1 b s = Inr (i, s\<lparr>bufs := (bufs s)[i := held_buf s b (p_pid p)]\<rparr>)"
    using il b by (simp add: bread_def iderw_def Let_def holdingsleep_def buf_upd_def)
  with fi show ?thesis by blast
qed

text \<open>The state after buffer \<open>i\<close> has been locked for block \<open>b\<close>.\<close>

definition hold :: "nat \<Rightarrow> u32 \<Rightarrow> int \<Rightarrow> 'z kbio_scheme \<Rightarrow> 'z kbio_scheme" where
  "hold i b pid s = s\<lparr>bufs := (bufs s)[i := held_buf s b pid]\<rparr>"

text \<open>Buffer \<open>i\<close> is the one to use for block \<open>b\<close>: it caches the block, or it can be recycled
  and no buffer caches the block.\<close>

definition slot_for :: "'z kbio_scheme \<Rightarrow> u32 \<Rightarrow> nat \<Rightarrow> bool" where
  "slot_for s b i \<longleftrightarrow> i < NBUF \<and> \<not> sl_locked (b_lock (bufs s ! i))
     \<and> (caches (bufs s) i b \<or> free_buf s i \<and> (\<forall>k. \<not> caches (bufs s) k b))"

text \<open>Block \<open>b\<close> can be read: it is on the disk, not locked, and there is a buffer for it.\<close>

definition can_read :: "'z kbio_scheme \<Rightarrow> u32 \<Rightarrow> bool" where
  "can_read s b \<longleftrightarrow> bio_inv s \<and> unat b < length (disk s) \<and> \<not> blocked s b
     \<and> ((\<exists>i. caches (bufs s) i b) \<or> (\<exists>j. free_buf s j))"

lemma bread_ok:
  assumes "can_read s b"
  obtains i pid where "slot_for s b i" and "bread 1 b s = Inr (i, hold i b pid s)"
proof -
  from assms have inv: "bio_inv s" and b: "unat b < length (disk s)" and nb: "\<not> blocked s b"
    by (simp_all add: can_read_def)
  obtain p where p: "my_proc s = Inr p" using my_proc_bio [OF inv] by blast
  show thesis
  proof (cases "\<exists>i. caches (bufs s) i b")
    case True
    then obtain i where c: "caches (bufs s) i b" by blast
    have "slot_for s b i"
      using c nb blocked_cached [OF inv c] by (simp add: slot_for_def caches_def)
    with bread_hit [OF inv b nb c p] show thesis by (intro that) (simp_all add: hold_def)
  next
    case False
    then obtain j where j: "free_buf s j" using assms by (auto simp: can_read_def)
    from False obtain i where i: "free_buf s i"
      and r: "bread 1 b s = Inr (i, hold i b (p_pid p) s)"
      using bread_miss [OF inv b _ j p] by (auto simp: hold_def)
    have "buf_inv (disk s) (bufs s ! i)"
      using inv i by (intro bio_inv_buf) (simp_all add: free_buf_def)
    from buf_inv_refcnt [OF this] i False have "slot_for s b i"
      by (simp add: slot_for_def free_buf_def)
    with r show thesis by (intro that)
  qed
qed

lemma hold_simps [simp]:
  "disk (hold i b pid s) = disk s" "disk_writes (hold i b pid s) = disk_writes s"
  "mru (hold i b pid s) = mru s" "cur (hold i b pid s) = cur s" "ptable (hold i b pid s) = ptable s"
  "containers (hold i b pid s) = containers s" "kbio.more (hold i b pid s) = kbio.more s"
  "ticks (hold i b pid s) = ticks s" "null_cont (hold i b pid s) = null_cont s"
  "length (bufs (hold i b pid s)) = length (bufs s)"
  by (simp_all add: hold_def)

lemma hold_nth:
  assumes "bio_inv s" and "slot_for s b i"
  shows "bufs (hold i b pid s) ! j = (if j = i then held_buf s b pid else bufs s ! j)"
  using assms len_bufs [OF assms(1)] by (simp add: hold_def slot_for_def)

lemma hold_caches:
  assumes "bio_inv s" and "slot_for s b i"
  shows "caches (bufs (hold i b pid s)) j x \<longleftrightarrow> (if j = i then x = b else caches (bufs s) j x)"
  using assms by (auto simp: caches_def hold_nth slot_for_def)

lemma slot_for_other:
  assumes "bio_inv s" and "slot_for s b i" and "j \<noteq> i" and "caches (bufs s) j x"
  shows "x \<noteq> b"
  using assms caches_unique [OF assms(1)] by (auto simp: slot_for_def)

lemma hold_inv:
  assumes inv: "bio_inv s" and b: "unat b < length (disk s)" and sl: "slot_for s b i"
  shows "bio_inv (hold i b pid s)"
proof -
  have ci: "cache_inv (bufs s) (mru s) (disk s)" using inv by (simp add: bio_inv_def)
  have other: "b_blockno (bufs s ! j) \<noteq> b" if "j < NBUF" "j \<noteq> i" "b_dev (bufs s ! j) = 1" for j
    using slot_for_other [OF inv sl, of j "b_blockno (bufs s ! j)"] that by (simp add: caches_def)
  have "cache_inv ((bufs s)[i := held_buf s b pid]) (mru s) (disk s)"
  proof (rule cache_inv_upd [OF ci])
    show "i < NBUF" using sl by (simp add: slot_for_def)
    show "buf_inv (disk s) (held_buf s b pid)"
      using length_bview [OF inv b] b by (simp add: buf_inv_def)
  qed (use ci other in \<open>auto simp: cache_inv_def\<close>)
  with inv show ?thesis by (simp add: bio_inv_def hold_def)
qed

text \<open>A buffer that can be recycled shows what is on the disk.\<close>

lemma free_buf_view:
  assumes inv: "bio_inv s" and "free_buf s i" and c: "caches (bufs s) i x"
  shows "bview s x = disk s ! unat x" "\<not> pinned s x" "\<not> blocked s x"
proof -
  have bi: "buf_inv (disk s) (bufs s ! i)" using assms by (intro bio_inv_buf) (simp_all add: free_buf_def)
  with assms(2) have "\<not> sl_locked (b_lock (bufs s ! i))" "\<not> b_dirty (bufs s ! i)"
    using buf_inv_refcnt [OF bi] by (simp_all add: free_buf_def)
  with bi c show "bview s x = disk s ! unat x" "\<not> pinned s x" "\<not> blocked s x"
    by (auto simp: bview_cached [OF inv c] pinned_cached [OF inv c] blocked_cached [OF inv c]
        buf_inv_def caches_def)
qed

lemma hold_obs:
  assumes inv: "bio_inv s" and b: "unat b < length (disk s)" and sl: "slot_for s b i"
  shows "bview (hold i b pid s) x = bview s x \<and> pinned (hold i b pid s) x = pinned s x
    \<and> blocked (hold i b pid s) x = (x = b \<or> blocked s x)"
proof -
  let ?s = "hold i b pid s"
  have inv': "bio_inv ?s" using assms by (rule hold_inv)
  note cc = hold_caches [OF inv sl, of pid]
  show ?thesis
  proof (cases "x = b")
    case True
    then have "caches (bufs ?s) i x" by (simp add: cc)
    with True inv' show ?thesis
      by (simp add: bview_cached pinned_cached blocked_cached hold_nth [OF inv sl])
  next
    case ne: False
    show ?thesis
    proof (cases "\<exists>j. j \<noteq> i \<and> caches (bufs s) j x")
      case True
      then obtain j where j: "j \<noteq> i" "caches (bufs s) j x" by blast
      then have "caches (bufs ?s) j x" by (simp add: cc)
      with j ne inv inv' show ?thesis
        by (simp add: bview_cached pinned_cached blocked_cached hold_nth [OF inv sl])
    next
      case False
      then have nc: "\<not> caches (bufs ?s) j x" for j using ne by (auto simp: cc)
      then have new: "bview ?s x = disk s ! unat x" "\<not> pinned ?s x" "\<not> blocked ?s x"
        using inv' by (auto simp: bview_not_cached dest: pinned_not_cached blocked_not_cached)
      show ?thesis
      proof (cases "caches (bufs s) i x")
        case True
        with sl ne have "free_buf s i" by (auto simp: slot_for_def caches_def)
        with free_buf_view [OF inv _ True] new ne show ?thesis by simp
      next
        case ni: False
        with False have "\<not> caches (bufs s) j x" for j by metis
        with inv have "bview s x = disk s ! unat x" "\<not> pinned s x" "\<not> blocked s x"
          by (auto simp: bview_not_cached dest: pinned_not_cached blocked_not_cached)
        with new ne show ?thesis by simp
      qed
    qed
  qed
qed
text \<open>Changing a buffer that is locked for block \<open>b\<close>, without changing which block it holds.\<close>

definition locked_for :: "'z kbio_scheme \<Rightarrow> nat \<Rightarrow> u32 \<Rightarrow> bool" where
  "locked_for s i b \<longleftrightarrow> caches (bufs s) i b \<and> sl_locked (b_lock (bufs s ! i)) \<and> b_valid (bufs s ! i)"

lemma buf_upd_obs:
  assumes inv: "bio_inv s" and c: "caches (bufs s) i b" and inv': "bio_inv s'"
    and s': "bufs s' = (bufs s)[i := y]" "\<And>x. x \<noteq> b \<Longrightarrow> disk s' ! unat x = disk s ! unat x"
    and y: "b_dev y = 1" "b_blockno y = b" "b_valid y"
  shows "bview s' x = (if x = b then b_data y else bview s x)"
    and "pinned s' x = (if x = b then b_dirty y else pinned s x)"
    and "blocked s' x = (if x = b then sl_locked (b_lock y) else blocked s x)"
proof -
  have i: "i < length (bufs s)" "i < NBUF" using c len_bufs [OF inv] by (auto simp: caches_def)
  have cc: "caches (bufs s') j x \<longleftrightarrow> caches (bufs s) j x" for j
    using i y c unfolding s'(1) caches_upd [OF i(1)] by (auto simp: caches_def)
  have "bview s' x = (if x = b then b_data y else bview s x) \<and>
    pinned s' x = (if x = b then b_dirty y else pinned s x) \<and>
    blocked s' x = (if x = b then sl_locked (b_lock y) else blocked s x)"
  proof (cases "\<exists>j. caches (bufs s) j x")
    case True
    then obtain j where j: "caches (bufs s) j x" by blast
    then have j': "caches (bufs s') j x" by (simp add: cc)
    show ?thesis
    proof (cases "x = b")
      case True
      then have "j = i" using caches_unique [OF inv c] j by simp
      with True i y show ?thesis
        unfolding bview_cached [OF inv' j'] pinned_cached [OF inv' j'] blocked_cached [OF inv' j'] s'(1)
        by simp
    next
      case False
      then have "j \<noteq> i" using c j by (auto simp: caches_def)
      with False s'(2) show ?thesis
        by (simp add: bview_cached [OF inv' j'] pinned_cached [OF inv' j'] blocked_cached [OF inv' j']
            bview_cached [OF inv j] pinned_cached [OF inv j] blocked_cached [OF inv j] s'(1))
    qed
  next
    case False
    then have nc: "\<not> caches (bufs s) j x" "\<not> caches (bufs s') j x" for j by (auto simp: cc)
    then have "x \<noteq> b" using c by blast
    moreover have "bview s' x = disk s' ! unat x \<and> \<not> pinned s' x \<and> \<not> blocked s' x"
      using nc(2) inv' by (simp add: bview_not_cached pinned_not_cached blocked_not_cached)
    moreover have "bview s x = disk s ! unat x \<and> \<not> pinned s x \<and> \<not> blocked s x"
      using nc(1) inv by (simp add: bview_not_cached pinned_not_cached blocked_not_cached)
    ultimately show ?thesis using s'(2) by simp
  qed
  then show "bview s' x = (if x = b then b_data y else bview s x)"
    "pinned s' x = (if x = b then b_dirty y else pinned s x)"
    "blocked s' x = (if x = b then sl_locked (b_lock y) else blocked s x)" by blast+
qed

text \<open>Keeping the invariant when buffer \<open>i\<close> stays locked.\<close>

lemma bio_inv_locked:
  assumes inv: "bio_inv s" and l: "locked_for s i b"
    and s': "bufs s' = (bufs s)[i := y]" "disk s' = disk s" "mru s' = mru s" "cur s' = cur s" "ptable s' = ptable s"
    and y: "b_dev y = 1" "b_blockno y = b" "b_valid y" "length (b_data y) = BSIZE" "b_refcnt y = 1"
      "sl_locked (b_lock y)"
  shows "bio_inv s'"
proof -
  have c: "caches (bufs s) i b" using l by (simp add: locked_for_def)
  have ci: "cache_inv (bufs s) (mru s) (disk s)" using inv by (simp add: bio_inv_def)
  have bi: "buf_inv (disk s) (bufs s ! i)" using inv c by (intro bio_inv_buf) (simp_all add: caches_def)
  then have range: "unat b < length (disk s)" using l by (auto simp: buf_inv_def locked_for_def caches_def)
  have "cache_inv ((bufs s)[i := y]) (mru s) (disk s)"
  proof (rule cache_inv_upd [OF ci])
    show "i < NBUF" using c by (simp add: caches_def)
    show "buf_inv (disk s) y" using y range by (simp add: buf_inv_def)
    show "\<forall>j < NBUF. j \<noteq> i \<longrightarrow> b_dev (bufs s ! j) = 1 \<longrightarrow> b_blockno (bufs s ! j) \<noteq> b_blockno y"
    proof (intro allI impI)
      fix j assume "j < NBUF" "j \<noteq> i" "b_dev (bufs s ! j) = 1"
      then show "b_blockno (bufs s ! j) \<noteq> b_blockno y"
        using caches_unique [OF inv c, of j] y by (auto simp: caches_def)
    qed
  qed (use ci in \<open>auto simp: cache_inv_def\<close>)
  with inv show ?thesis by (simp add: bio_inv_def s')
qed

lemma locked_buf:
  assumes "bio_inv s" and "locked_for s i b"
  shows "i < NBUF" "b_dev (bufs s ! i) = 1" "b_blockno (bufs s ! i) = b" "b_valid (bufs s ! i)"
    "sl_locked (b_lock (bufs s ! i))" "b_refcnt (bufs s ! i) = 1" "length (b_data (bufs s ! i)) = BSIZE"
    "unat b < length (disk s)" "i < length (bufs s)"
proof -
  from assms(2) have c: "caches (bufs s) i b" "sl_locked (b_lock (bufs s ! i))" "b_valid (bufs s ! i)"
    by (simp_all add: locked_for_def)
  then have "buf_inv (disk s) (bufs s ! i)" using assms by (intro bio_inv_buf) (simp_all add: caches_def)
  with c show "i < NBUF" "b_dev (bufs s ! i) = 1" "b_blockno (bufs s ! i) = b" "b_valid (bufs s ! i)"
    "sl_locked (b_lock (bufs s ! i))" "b_refcnt (bufs s ! i) = 1" "length (b_data (bufs s ! i)) = BSIZE"
    "unat b < length (disk s)" "i < length (bufs s)"
    using len_bufs [OF assms(1)] by (auto simp: buf_inv_def caches_def)
qed

lemma hold_locked_for: "bio_inv s \<Longrightarrow> slot_for s b i \<Longrightarrow> locked_for (hold i b pid s) i b"
  by (simp add: locked_for_def hold_caches hold_nth)

text \<open>New contents for the locked block.\<close>

lemma bdata_ok:
  assumes inv: "bio_inv s" and l: "locked_for s i b" and d: "\<And>x. length x = BSIZE \<Longrightarrow> length (f x) = BSIZE"
  defines "s' \<equiv> buf_upd i (\<lambda>b. b\<lparr>b_data := f (b_data b)\<rparr>) s"
  shows "bio_inv s'" "locked_for s' i b" "bview s' x = (if x = b then f (bview s b) else bview s x)"
    "pinned s' = pinned s" "blocked s' = blocked s"
proof -
  note lb = locked_buf [OF inv l]
  have c: "caches (bufs s) i b" using l by (simp add: locked_for_def)
  let ?y = "(bufs s ! i)\<lparr>b_data := f (b_data (bufs s ! i))\<rparr>"
  have b': "bufs s' = (bufs s)[i := ?y]" by (simp add: s'_def)
  show inv': "bio_inv s'"
    using inv l b' by (rule bio_inv_locked) (use lb d in \<open>simp_all add: s'_def\<close>)
  show "locked_for s' i b" using lb by (simp add: locked_for_def caches_def b')
  note obs = buf_upd_obs [OF inv c inv' b']
  have "bview s b = b_data (bufs s ! i)" using lb bview_cached [OF inv c] by simp
  then show "bview s' x = (if x = b then f (bview s b) else bview s x)"
    using lb by (subst obs(1)) (simp_all add: s'_def)
  show "pinned s' = pinned s"
    using lb pinned_cached [OF inv c] by (intro ext, subst obs(2)) (simp_all add: s'_def)
  show "blocked s' = blocked s"
    using lb blocked_cached [OF inv c] by (intro ext, subst obs(3)) (simp_all add: s'_def)
qed

lemma bdirty_ok:
  assumes inv: "bio_inv s" and l: "locked_for s i b"
  defines "s' \<equiv> buf_upd i (\<lambda>b. b\<lparr>b_dirty := True\<rparr>) s"
  shows "bio_inv s'" "locked_for s' i b" "bview s' = bview s"
    "pinned s' x = (x = b \<or> pinned s x)" "blocked s' = blocked s"
proof -
  note lb = locked_buf [OF inv l]
  have c: "caches (bufs s) i b" using l by (simp add: locked_for_def)
  let ?y = "(bufs s ! i)\<lparr>b_dirty := True\<rparr>"
  have b': "bufs s' = (bufs s)[i := ?y]" by (simp add: s'_def)
  show inv': "bio_inv s'"
    using inv l b' by (rule bio_inv_locked) (use lb in \<open>simp_all add: s'_def\<close>)
  show "locked_for s' i b" using lb by (simp add: locked_for_def caches_def b')
  note obs = buf_upd_obs [OF inv c inv' b']
  show "bview s' = bview s"
    using lb bview_cached [OF inv c] by (intro ext, subst obs(1)) (simp_all add: s'_def)
  show "pinned s' x = (x = b \<or> pinned s x)"
    using lb by (subst obs(2)) (simp_all add: s'_def)
  show "blocked s' = blocked s"
    using lb blocked_cached [OF inv c] by (intro ext, subst obs(3)) (simp_all add: s'_def)
qed
lemma locked_other:
  assumes "bio_inv s" and "locked_for s i b" and "j < NBUF" and "j \<noteq> i" and "b_dev (bufs s ! j) = 1"
  shows "b_blockno (bufs s ! j) \<noteq> b"
  using assms caches_unique [OF assms(1), of i b j] by (auto simp: locked_for_def caches_def)

lemma bwrite_ok:
  assumes inv: "bio_inv s" and l: "locked_for s i b"
  obtains s' where "bwrite i s = Inr s'" and "bio_inv s'" and "locked_for s' i b"
    and "bview s' = bview s" and "\<And>x. pinned s' x = (x \<noteq> b \<and> pinned s x)" and "blocked s' = blocked s"
    and "disk s' = (disk s)[unat b := bview s b]"
    and "disk_writes s' = disk_writes s @ [(unat b, bview s b)]"
    and "bufs s' = (bufs s)[i := (bufs s ! i)\<lparr>b_dirty := False\<rparr>]" and "ptable s' = ptable s"
    and "cur s' = cur s" and "containers s' = containers s" and "kbio.more s' = kbio.more s"
proof -
  note lb = locked_buf [OF inv l]
  have c: "caches (bufs s) i b" using l by (simp add: locked_for_def)
  have view: "bview s b = b_data (bufs s ! i)" using lb bview_cached [OF inv c] by simp
  let ?y = "(bufs s ! i)\<lparr>b_dirty := False\<rparr>" and ?d = "(disk s)[unat b := bview s b]"
  let ?s' = "s\<lparr>bufs := (bufs s)[i := ?y], disk := ?d, disk_writes := disk_writes s @ [(unat b, bview s b)]\<rparr>"
  let ?z = "(bufs s ! i)\<lparr>b_dirty := False, b_valid := True\<rparr>"
  have z: "?z = ?y" using lb by (intro buf.equality) simp_all
  have "bwrite i s = Inr (s\<lparr>bufs := (bufs s)[i := ?z], disk := ?d,
      disk_writes := disk_writes s @ [(unat b, bview s b)]\<rparr>)"
    unfolding view using lb by (simp add: bwrite_def holdingsleep_def iderw_def Let_def buf_upd_def)
  then have w: "bwrite i s = Inr ?s'" unfolding z .
  have ci: "cache_inv (bufs s) (mru s) (disk s)" using inv by (simp add: bio_inv_def)
  have "cache_inv ((bufs s)[i := ?y]) (mru s) ?d"
  proof (rule cache_inv_upd [OF ci])
    show "i < NBUF" by (rule lb)
    show "buf_inv ?d ?y" using lb by (simp add: buf_inv_def)
    show "buf_inv ?d (bufs s ! j)" if "j < NBUF" "j \<noteq> i" for j
    proof -
      have bj: "buf_inv (disk s) (bufs s ! j)" using inv that(1) by (rule bio_inv_buf)
      from locked_other [OF inv l that] have "b_dev (bufs s ! j) = 1 \<Longrightarrow> unat (b_blockno (bufs s ! j)) \<noteq> unat b"
        by (simp add: word_unat_eq_iff)
      with bj show ?thesis by (auto simp: buf_inv_def)
    qed
    show "\<forall>j < NBUF. j \<noteq> i \<longrightarrow> b_dev (bufs s ! j) = 1 \<longrightarrow> b_blockno (bufs s ! j) \<noteq> b_blockno ?y"
      using locked_other [OF inv l] lb by simp
    show "\<forall>x \<in> set ?d. length x = BSIZE"
      using ci lb view set_update_subset_insert [of "disk s" "unat b" "bview s b"]
      by (auto simp: cache_inv_def)
  qed (use ci in \<open>auto simp: cache_inv_def\<close>)
  then have inv': "bio_inv ?s'" using inv by (simp add: bio_inv_def)
  have b': "bufs ?s' = (bufs s)[i := ?y]" by simp
  have d': "disk ?s' ! unat x = disk s ! unat x" if "x \<noteq> b" for x
    using that by (simp add: word_unat_eq_iff)
  note obs = buf_upd_obs [OF inv c inv' b' d']
  show thesis
  proof (rule that [OF w inv'])
    show "locked_for ?s' i b" using lb by (simp add: locked_for_def caches_def)
    show "bview ?s' = bview s" using lb view by (intro ext, subst obs(1)) simp_all
    show "\<And>x. pinned ?s' x = (x \<noteq> b \<and> pinned s x)" using lb by (subst obs(2)) simp_all
    show "blocked ?s' = blocked s"
      using lb blocked_cached [OF inv c] by (intro ext, subst obs(3)) simp_all
  qed simp_all
qed

lemma brelse_ok:
  assumes inv: "bio_inv s" and l: "locked_for s i b" and clean: "pinned s b \<or> bview s b = disk s ! unat b"
  obtains s' where "brelse i s = Inr s'" and "bio_inv s'" and "bview s' = bview s"
    and "pinned s' = pinned s" and "\<And>x. blocked s' x = (x \<noteq> b \<and> blocked s x)"
    and "disk s' = disk s" and "disk_writes s' = disk_writes s"
    and "bufs s' = (bufs s)[i := (bufs s ! i)\<lparr>b_lock := initsleeplock, b_refcnt := 0\<rparr>]"
    and "ptable s' = ptable (wakeup (Some (ChBufLock i)) s)"
    and "cur s' = cur s" and "containers s' = containers s" and "kbio.more s' = kbio.more s"
proof -
  note lb = locked_buf [OF inv l]
  have c: "caches (bufs s) i b" using l by (simp add: locked_for_def)
  have view: "bview s b = b_data (bufs s ! i)" "pinned s b = b_dirty (bufs s ! i)"
    using lb bview_cached [OF inv c] pinned_cached [OF inv c] by simp_all
  let ?w = "wakeup (Some (ChBufLock i)) s"
  let ?y = "(bufs s ! i)\<lparr>b_lock := initsleeplock, b_refcnt := 0\<rparr>"
  let ?s' = "?w\<lparr>bufs := (bufs s)[i := ?y], mru := i # remove1 i (mru s)\<rparr>"
  have wf: "bufs ?w = bufs s" "mru ?w = mru s" "disk ?w = disk s" "disk_writes ?w = disk_writes s"
    "kbio.more ?w = kbio.more s"
    by (simp_all add: wakeup_def wakeup1_def)
  have lk: "(b_lock (bufs s ! i))\<lparr>sl_locked := False, sl_pid := 0\<rparr> = initsleeplock"
    by (simp add: initsleeplock_def)
  have w: "brelse i s = Inr ?s'"
    using lb wf by (simp add: brelse_def holdingsleep_def releasesleep_def Let_def buf_upd_def lk)
  have ci: "cache_inv (bufs s) (mru s) (disk s)" using inv by (simp add: bio_inv_def)
  have "cache_inv ((bufs s)[i := ?y]) (i # remove1 i (mru s)) (disk s)"
  proof (rule cache_inv_upd [OF ci])
    show "i < NBUF" by (rule lb)
    show "buf_inv (disk s) ?y"
      using lb view clean by (auto simp: buf_inv_def initsleeplock_def)
    show "\<forall>j < NBUF. j \<noteq> i \<longrightarrow> b_dev (bufs s ! j) = 1 \<longrightarrow> b_blockno (bufs s ! j) \<noteq> b_blockno ?y"
      using locked_other [OF inv l] lb by simp
    show "distinct (i # remove1 i (mru s))" using ci by (simp add: cache_inv_def)
    show "set (i # remove1 i (mru s)) = set (mru s)" using ci lb by (auto simp: cache_inv_def)
  qed (use ci in \<open>auto simp: cache_inv_def\<close>)
  then have inv': "bio_inv ?s'" using inv wf by (simp add: bio_inv_def)
  have b': "bufs ?s' = (bufs s)[i := ?y]" by simp
  have d': "disk ?s' ! unat x = disk s ! unat x" for x using wf by simp
  note obs = buf_upd_obs [OF inv c inv' b' d']
  show thesis
  proof (rule that [OF w inv'])
    show "bview ?s' = bview s" using lb view by (intro ext, subst obs(1)) simp_all
    show "pinned ?s' = pinned s" using lb view by (intro ext, subst obs(2)) simp_all
    show "\<And>x. blocked ?s' x = (x \<noteq> b \<and> blocked s x)"
      using lb by (subst obs(3)) (simp_all add: initsleeplock_def)
  qed (use wf in simp_all)
qed
section \<open>Sequences of cache operations\<close>

text \<open>What a sequence of cache operations may change besides the cache itself: it may wake
  processes.\<close>

definition woken :: "proc \<Rightarrow> proc \<Rightarrow> bool" where
  "woken p q \<longleftrightarrow> q = p \<or> p_state p = SLEEPING \<and> q = p\<lparr>p_state := RUNNABLE\<rparr>"

definition bio_frame :: "'z kbio_scheme \<Rightarrow> 'z kbio_scheme \<Rightarrow> bool" where
  "bio_frame s t \<longleftrightarrow> list_all2 woken (ptable s) (ptable t)
     \<and> t = s\<lparr>ptable := ptable t, bufs := bufs t, mru := mru t, disk := disk t, disk_writes := disk_writes t\<rparr>"

lemma woken_refl [simp]: "woken p p"
  by (simp add: woken_def)

lemma woken_trans: "woken p q \<Longrightarrow> woken q r \<Longrightarrow> woken p r"
  by (auto simp: woken_def)

lemma bio_frame_refl [simp]: "bio_frame s s"
  by (simp add: bio_frame_def list_all2_refl)

lemma bio_frame_trans:
  assumes "bio_frame s t" and "bio_frame t u"
  shows "bio_frame s u"
proof -
  from assms have t: "t = s\<lparr>ptable := ptable t, bufs := bufs t, mru := mru t, disk := disk t, disk_writes := disk_writes t\<rparr>"
    and u: "u = t\<lparr>ptable := ptable u, bufs := bufs u, mru := mru u, disk := disk u, disk_writes := disk_writes u\<rparr>"
    by (simp_all add: bio_frame_def)
  have "u = s\<lparr>ptable := ptable u, bufs := bufs u, mru := mru u, disk := disk u, disk_writes := disk_writes u\<rparr>"
    by (subst u, subst t) simp
  moreover have "list_all2 woken (ptable s) (ptable u)"
    using assms list_all2_trans [OF woken_trans] by (auto simp: bio_frame_def)
  ultimately show ?thesis by (simp add: bio_frame_def)
qed

lemma bio_frame_fields:
  assumes "bio_frame s t"
  shows "kbio.more t = kbio.more s" "containers t = containers s" "cur t = cur s"
    "length (ptable t) = length (ptable s)" "ticks t = ticks s" "null_cont t = null_cont s"
    "initproc t = initproc s" "pmem t = pmem s" "freelist t = freelist s" "kend t = kend s"
    "use_lock t = use_lock s" "disk_used t = disk_used s" "next_rand t = next_rand s" "nextpid t = nextpid s"
proof -
  from assms have t: "t = s\<lparr>ptable := ptable t, bufs := bufs t, mru := mru t, disk := disk t, disk_writes := disk_writes t\<rparr>"
    and l: "length (ptable t) = length (ptable s)"
    by (auto simp: bio_frame_def dest: list_all2_lengthD)
  show "kbio.more t = kbio.more s" "containers t = containers s" "cur t = cur s"
    "ticks t = ticks s" "null_cont t = null_cont s"
    "initproc t = initproc s" "pmem t = pmem s" "freelist t = freelist s" "kend t = kend s"
    "use_lock t = use_lock s" "disk_used t = disk_used s" "next_rand t = next_rand s" "nextpid t = nextpid s"
    by (subst t, simp)+
  show "length (ptable t) = length (ptable s)" by (rule l)
qed

lemma bio_frame_bufs [simp]: "bio_frame s (s\<lparr>bufs := bs\<rparr>)" "bio_frame s (buf_upd i f s)" "bio_frame s (hold i b p s)"
  by (simp_all add: bio_frame_def list_all2_refl buf_upd_def hold_def)

lemma bio_frame_bwrite: "bwrite i s = Inr t \<Longrightarrow> bio_frame s t"
  by (auto simp: bwrite_def iderw_def Let_def bio_frame_def list_all2_refl buf_upd_def split: if_splits)

lemma bio_frame_brelse: "brelse i s = Inr t \<Longrightarrow> bio_frame s t"
proof -
  have "list_all2 woken ps (map (wakeup_one ch) ps)" for ch ps
    by (rule list_all2_all_nthI) (auto simp: woken_def wakeup_one_def)
  then show "brelse i s = Inr t \<Longrightarrow> bio_frame s t"
    by (auto simp: brelse_def releasesleep_def Let_def bio_frame_def buf_upd_def wakeup_def wakeup1_def
        split: if_splits)
qed

definition nfree :: "'z kbio_scheme \<Rightarrow> nat" where
  "nfree s = card {i. free_buf s i}"

lemma finite_free_buf [simp]: "finite {i. free_buf s i}"
  by (rule finite_subset [of _ "{..< NBUF}"]) (auto simp: free_buf_def)

lemma nfree_mono: "(\<And>i. free_buf s i \<Longrightarrow> free_buf t i) \<Longrightarrow> nfree s \<le> nfree t"
  unfolding nfree_def by (rule card_mono) auto

lemma nfree_pos: "0 < nfree s \<longleftrightarrow> (\<exists>i. free_buf s i)"
  by (auto simp: nfree_def card_gt_0_iff)

text \<open>The cache shows the same blocks and has the same blocks pinned and locked.\<close>

definition same_bio :: "'z kbio_scheme \<Rightarrow> 'z kbio_scheme \<Rightarrow> bool" where
  "same_bio s t \<longleftrightarrow> bio_inv t \<and> bview t = bview s \<and> pinned t = pinned s \<and> blocked t = blocked s
     \<and> disk t = disk s \<and> disk_writes t = disk_writes s \<and> nfree s \<le> nfree t \<and> bio_frame s t"

lemma view_clean: "bio_inv s \<Longrightarrow> \<not> blocked s b \<Longrightarrow> pinned s b \<or> bview s b = disk s ! unat b"
proof (cases "\<exists>i. caches (bufs s) i b")
  case True
  then obtain i where c: "caches (bufs s) i b" by blast
  assume inv: "bio_inv s" and nb: "\<not> blocked s b"
  have "buf_inv (disk s) (bufs s ! i)" using inv c by (intro bio_inv_buf) (simp_all add: caches_def)
  with c nb show ?thesis
    by (auto simp: bview_cached [OF inv c] pinned_cached [OF inv c] blocked_cached [OF inv c] buf_inv_def caches_def)
next
  case False
  assume "bio_inv s" "\<not> blocked s b"
  with False show ?thesis by (simp add: bview_not_cached)
qed

lemma slot_free_not_pinned: "bio_inv s \<Longrightarrow> slot_for s b i \<Longrightarrow> free_buf s i \<Longrightarrow> \<not> pinned s b"
  by (auto simp: slot_for_def free_buf_def pinned_cached pinned_not_cached)

text \<open>Reading a block and releasing it again changes nothing that can be observed.\<close>

lemma read_block:
  assumes "can_read s b"
  obtains i s1 s2 where "bread 1 b s = Inr (i, s1)" and "b_data (bufs s1 ! i) = bview s b"
    and "locked_for s1 i b" and "bio_inv s1" and "brelse i s1 = Inr s2" and "same_bio s s2"
proof -
  have inv: "bio_inv s" and b: "unat b < length (disk s)" and nb: "\<not> blocked s b"
    using assms by (simp_all add: can_read_def)
  obtain i pid where sl: "slot_for s b i" and r: "bread 1 b s = Inr (i, hold i b pid s)"
    using bread_ok [OF assms] by blast
  let ?s = "hold i b pid s"
  have inv': "bio_inv ?s" and l: "locked_for ?s i b"
    using inv b sl by (auto intro: hold_inv hold_locked_for)
  have obs: "bview ?s = bview s" "pinned ?s = pinned s" "\<And>x. blocked ?s x = (x = b \<or> blocked s x)"
    using hold_obs [OF inv b sl, of pid] by auto
  have clean: "pinned ?s b \<or> bview ?s b = disk ?s ! unat b"
    using view_clean [OF inv nb] obs by simp
  obtain s2 where s2: "brelse i ?s = Inr s2" "bio_inv s2" "bview s2 = bview ?s" "pinned s2 = pinned ?s"
    "\<And>x. blocked s2 x = (x \<noteq> b \<and> blocked ?s x)" "disk s2 = disk ?s" "disk_writes s2 = disk_writes ?s"
    "bufs s2 = (bufs ?s)[i := (bufs ?s ! i)\<lparr>b_lock := initsleeplock, b_refcnt := 0\<rparr>]"
    using brelse_ok [OF inv' l clean] by metis
  have il: "i < length (bufs s)" using sl len_bufs [OF inv] by (simp add: slot_for_def)
  have "free_buf s2 k" if "free_buf s k" for k
  proof (cases "k = i")
    case True
    with that slot_free_not_pinned [OF inv sl] show ?thesis
      using il by (simp add: free_buf_def s2(8) hold_nth [OF inv sl])
  next
    case False
    with that il show ?thesis by (simp add: free_buf_def s2(8) hold_nth [OF inv sl])
  qed
  then have "nfree s \<le> nfree s2" by (rule nfree_mono)
  moreover have "blocked s2 = blocked s" using s2(5) obs(3) nb by (auto simp: fun_eq_iff)
  ultimately have "same_bio s s2"
    using s2 obs bio_frame_trans [OF bio_frame_bufs(3) bio_frame_brelse [OF s2(1)]]
    by (simp add: same_bio_def)
  moreover have "b_data (bufs ?s ! i) = bview s b" by (simp add: hold_nth [OF inv sl])
  ultimately show thesis using r l inv' s2(1) that by blast
qed
text \<open>Locking two different blocks.\<close>

definition can_read2 :: "'z kbio_scheme \<Rightarrow> u32 \<Rightarrow> u32 \<Rightarrow> bool" where
  "can_read2 s a b \<longleftrightarrow> bio_inv s \<and> a \<noteq> b \<and> unat a < length (disk s) \<and> unat b < length (disk s)
     \<and> \<not> blocked s a \<and> \<not> blocked s b
     \<and> (2 \<le> nfree s \<or> 1 \<le> nfree s \<and> (pinned s a \<or> pinned s b))"

lemma bread2_ok:
  assumes "can_read2 s a b"
  obtains i p j q where "slot_for s a i" and "bread 1 a s = Inr (i, hold i a p s)"
    and "slot_for (hold i a p s) b j" and "i \<noteq> j"
    and "bread 1 b (hold i a p s) = Inr (j, hold j b q (hold i a p s))"
proof -
  from assms have inv: "bio_inv s" and ab: "a \<noteq> b" and a: "unat a < length (disk s)" and b: "unat b < length (disk s)"
    and na: "\<not> blocked s a" and nb: "\<not> blocked s b"
    and room: "2 \<le> nfree s \<or> 1 \<le> nfree s \<and> (pinned s a \<or> pinned s b)"
    by (simp_all add: can_read2_def)
  have "\<exists>k. free_buf s k" using room nfree_pos [of s] by auto
  then have "can_read s a" using inv a na by (simp add: can_read_def)
  then obtain i p where sl: "slot_for s a i" and r: "bread 1 a s = Inr (i, hold i a p s)"
    using bread_ok by metis
  let ?s = "hold i a p s"
  have inv': "bio_inv ?s" using inv a sl by (rule hold_inv)
  have il: "i < NBUF" using sl by (simp add: slot_for_def)
  have "(\<exists>k. caches (bufs ?s) k b) \<or> (\<exists>k. free_buf ?s k)"
  proof (cases "pinned s b")
    case True
    then obtain k where k: "caches (bufs s) k b" "b_dirty (bufs s ! k)"
      using inv by (auto simp: pinned_def bfind_Some_iff split: option.splits)
    have "k \<noteq> i" using sl k ab by (auto simp: slot_for_def free_buf_def caches_def)
    with k(1) show ?thesis by (auto simp: hold_caches [OF inv sl])
  next
    case False
    have "\<exists>k. k \<noteq> i \<and> free_buf s k"
    proof (cases "free_buf s i")
      case True
      then have "2 \<le> nfree s" using room False slot_free_not_pinned [OF inv sl] by blast
      then have "\<not> {k. free_buf s k} \<subseteq> {i}"
        using card_mono [of "{i}" "{k. free_buf s k}"] by (auto simp: nfree_def)
      then show ?thesis by blast
    next
      case False
      then show ?thesis using \<open>\<exists>k. free_buf s k\<close> by metis
    qed
    then obtain k where "k \<noteq> i" "free_buf s k" by blast
    then have "free_buf ?s k" by (simp add: free_buf_def hold_nth [OF inv sl])
    then show ?thesis by blast
  qed
  moreover have "\<not> blocked ?s b" using hold_obs [OF inv a sl, of p b] nb ab by simp
  ultimately have "can_read ?s b" using inv' b by (simp add: can_read_def)
  then obtain j q where sl': "slot_for ?s b j" and r': "bread 1 b ?s = Inr (j, hold j b q ?s)"
    using bread_ok by metis
  moreover have "i \<noteq> j" using sl' hold_nth [OF inv sl, of p i] by (auto simp: slot_for_def)
  ultimately show thesis using sl r that by blast
qed

text \<open>The state in which the source block \<open>b\<close> has been copied to the buffer of \<open>a\<close> and written;
  both buffers are still locked.\<close>

definition copied :: "'z kbio_scheme \<Rightarrow> u32 \<Rightarrow> u32 \<Rightarrow> nat \<Rightarrow> nat \<Rightarrow> 'z kbio_scheme \<Rightarrow> bool" where
  "copied s a b i j t \<longleftrightarrow> bio_inv t \<and> i \<noteq> j \<and> a \<noteq> b \<and> locked_for t i a \<and> locked_for t j b
     \<and> bview t = (bview s)(a := bview s b) \<and> (\<forall>x. pinned t x = (x \<noteq> a \<and> pinned s x))
     \<and> (\<forall>x. blocked t x = (x = a \<or> x = b \<or> blocked s x)) \<and> \<not> blocked s a \<and> \<not> blocked s b
     \<and> disk t = (disk s)[unat a := bview s b] \<and> disk_writes t = disk_writes s @ [(unat a, bview s b)]
     \<and> (\<forall>k. k \<noteq> i \<longrightarrow> k \<noteq> j \<longrightarrow> bufs t ! k = bufs s ! k)
     \<and> (free_buf s j \<longrightarrow> \<not> pinned s b) \<and> (pinned s b \<or> bview s b = disk s ! unat b) \<and> bio_frame s t"

definition copy_done :: "'z kbio_scheme \<Rightarrow> u32 \<Rightarrow> u32 \<Rightarrow> 'z kbio_scheme \<Rightarrow> bool" where
  "copy_done s a b t \<longleftrightarrow> bio_inv t \<and> bview t = (bview s)(a := bview s b)
     \<and> (\<forall>x. pinned t x = (x \<noteq> a \<and> pinned s x)) \<and> blocked t = blocked s
     \<and> disk t = (disk s)[unat a := bview s b] \<and> disk_writes t = disk_writes s @ [(unat a, bview s b)]
     \<and> nfree s \<le> nfree t \<and> bio_frame s t"

lemma copied_release:
  assumes c: "copied s a b i j t" and order: "(k, l) = (i, j) \<or> (k, l) = (j, i)"
  obtains t1 t2 where "brelse k t = Inr t1" and "brelse l t1 = Inr t2" and "copy_done s a b t2"
proof -
  define bk bl where "bk = (if k = i then a else b)" and "bl = (if k = i then b else a)"
  from c have inv: "bio_inv t" and ij: "i \<noteq> j" "a \<noteq> b" and li: "locked_for t i a" "locked_for t j b"
    and obs: "bview t = (bview s)(a := bview s b)" "\<And>x. pinned t x = (x \<noteq> a \<and> pinned s x)"
      "\<And>x. blocked t x = (x = a \<or> x = b \<or> blocked s x)" "\<not> blocked s a" "\<not> blocked s b"
      "disk t = (disk s)[unat a := bview s b]"
    and clean: "pinned s b \<or> bview s b = disk s ! unat b"
    by (simp_all add: copied_def)
  have lk: "locked_for t k bk" and ll: "locked_for t l bl" and ne: "k \<noteq> l" "bk \<noteq> bl"
    using li order ij by (auto simp: bk_def bl_def)
  have cl: "pinned t x \<or> bview t x = disk t ! unat x" if "x = a \<or> x = b" for x
  proof -
    have "unat a \<noteq> unat b" using ij by (simp add: word_unat_eq_iff)
    then show ?thesis using that clean obs ij locked_buf(8) [OF inv li(1)] by auto
  qed
  have ck: "pinned t bk \<or> bview t bk = disk t ! unat bk" by (rule cl) (simp add: bk_def)
  obtain t1 where t1: "brelse k t = Inr t1" "bio_inv t1" "bview t1 = bview t" "pinned t1 = pinned t"
    "\<And>x. blocked t1 x = (x \<noteq> bk \<and> blocked t x)" "disk t1 = disk t" "disk_writes t1 = disk_writes t"
    "bufs t1 = (bufs t)[k := (bufs t ! k)\<lparr>b_lock := initsleeplock, b_refcnt := 0\<rparr>]"
    using brelse_ok [OF inv lk ck] by metis
  have ll1: "locked_for t1 l bl" using ll ne by (simp add: locked_for_def caches_def t1(8))
  have "pinned t1 bl \<or> bview t1 bl = disk t1 ! unat bl"
    using cl [of bl] t1 by (auto simp: bl_def)
  then obtain t2 where t2: "brelse l t1 = Inr t2" "bio_inv t2" "bview t2 = bview t1" "pinned t2 = pinned t1"
    "\<And>x. blocked t2 x = (x \<noteq> bl \<and> blocked t1 x)" "disk t2 = disk t1" "disk_writes t2 = disk_writes t1"
    "bufs t2 = (bufs t1)[l := (bufs t1 ! l)\<lparr>b_lock := initsleeplock, b_refcnt := 0\<rparr>]"
    using brelse_ok [OF t1(2) ll1] by metis
  note lb = locked_buf [OF inv li(1)] locked_buf [OF inv li(2)]
  have dirty: "b_dirty (bufs t ! i) = False" "b_dirty (bufs t ! j) = pinned s b"
    using pinned_cached [OF inv, of i a] pinned_cached [OF inv, of j b] li obs(2) [of a] obs(2) [of b] ij
    by (auto simp: locked_for_def)
  have bufs2: "bufs t2 ! x = (if x = i \<or> x = j then (bufs t ! x)\<lparr>b_lock := initsleeplock, b_refcnt := 0\<rparr>
      else bufs t ! x)" for x
    using order ne lb by (auto simp: t2(8) t1(8) nth_list_update)
  have "free_buf t2 x" if "free_buf s x" for x
    using that c dirty by (auto simp: free_buf_def bufs2 copied_def)
  then have "nfree s \<le> nfree t2" by (rule nfree_mono)
  moreover have "blocked t2 = blocked s"
    using obs ij t1(5) t2(5) by (auto simp: fun_eq_iff bk_def bl_def)
  moreover have "bio_frame s t2"
    using c bio_frame_brelse [OF t1(1)] bio_frame_brelse [OF t2(1)]
    by (auto simp: copied_def intro: bio_frame_trans)
  ultimately have "copy_done s a b t2"
    using c t1 t2 by (simp add: copy_done_def copied_def)
  with t1(1) t2(1) show thesis by (rule that)
qed

text \<open>Both blocks are locked and nothing has been changed yet.\<close>

definition both_held :: "'z kbio_scheme \<Rightarrow> u32 \<Rightarrow> nat \<Rightarrow> u32 \<Rightarrow> nat \<Rightarrow> 'z kbio_scheme \<Rightarrow> bool" where
  "both_held s a i b j u \<longleftrightarrow> bio_inv u \<and> i \<noteq> j \<and> a \<noteq> b \<and> locked_for u i a \<and> locked_for u j b
     \<and> bview u = bview s \<and> pinned u = pinned s \<and> (\<forall>x. blocked u x = (x = a \<or> x = b \<or> blocked s x))
     \<and> \<not> blocked s a \<and> \<not> blocked s b \<and> disk u = disk s \<and> disk_writes u = disk_writes s
     \<and> (\<forall>k. k \<noteq> i \<longrightarrow> k \<noteq> j \<longrightarrow> bufs u ! k = bufs s ! k)
     \<and> (free_buf s i \<longrightarrow> \<not> pinned s a) \<and> (free_buf s j \<longrightarrow> \<not> pinned s b)
     \<and> (pinned s a \<or> bview s a = disk s ! unat a) \<and> (pinned s b \<or> bview s b = disk s ! unat b)
     \<and> bio_frame s u"

lemma both_held_sym: "both_held s a i b j u \<Longrightarrow> both_held s b j a i u"
  by (auto simp: both_held_def)

lemma bread2:
  assumes "can_read2 s a b"
  obtains i s1 j u where "bread 1 a s = Inr (i, s1)" and "bread 1 b s1 = Inr (j, u)"
    and "both_held s a i b j u"
proof -
  obtain i p j q where sl: "slot_for s a i" and r: "bread 1 a s = Inr (i, hold i a p s)"
    and sl2: "slot_for (hold i a p s) b j" and ij: "i \<noteq> j"
    and r2: "bread 1 b (hold i a p s) = Inr (j, hold j b q (hold i a p s))"
    using bread2_ok [OF assms] by metis
  let ?s = "hold i a p s" and ?u = "hold j b q (hold i a p s)"
  from assms have inv: "bio_inv s" and ab: "a \<noteq> b" and a: "unat a < length (disk s)" and b: "unat b < length (disk s)"
    and nb: "\<not> blocked s a" "\<not> blocked s b" by (simp_all add: can_read2_def)
  have inv1: "bio_inv ?s" using inv a sl by (rule hold_inv)
  have b1: "unat b < length (disk ?s)" using b by simp
  have inv2: "bio_inv ?u" using inv1 b1 sl2 by (rule hold_inv)
  note o1 = hold_obs [OF inv a sl, of p]
  note o2 = hold_obs [OF inv1 b1 sl2, of q]
  have n: "bufs ?u ! k = (if k = j then held_buf ?s b q else if k = i then held_buf s a p else bufs s ! k)" for k
    by (simp add: hold_nth [OF inv1 sl2] hold_nth [OF inv sl])
  have "locked_for ?u j b" using inv1 sl2 by (rule hold_locked_for)
  moreover have "locked_for ?u i a"
    using sl ij by (simp add: locked_for_def caches_def n slot_for_def)
  moreover have "free_buf s j \<longrightarrow> \<not> pinned s b"
  proof
    assume "free_buf s j"
    then have "free_buf ?s j" using ij by (simp add: free_buf_def hold_nth [OF inv sl])
    from slot_free_not_pinned [OF inv1 sl2 this] o1 show "\<not> pinned s b" by simp
  qed
  moreover have "free_buf s i \<longrightarrow> \<not> pinned s a" using slot_free_not_pinned [OF inv sl] by blast
  moreover have "bview ?u = bview s" "pinned ?u = pinned s" using o1 o2 by (auto simp: fun_eq_iff)
  moreover have "\<forall>x. blocked ?u x = (x = a \<or> x = b \<or> blocked s x)" using o1 o2 by auto
  moreover have "bio_frame s ?u" by (rule bio_frame_trans [OF bio_frame_bufs(3) bio_frame_bufs(3)])
  ultimately have "both_held s a i b j ?u"
    using inv2 ij ab nb view_clean [OF inv nb(1)] view_clean [OF inv nb(2)]
    by (simp add: both_held_def n)
  with r r2 show thesis by (rule that)
qed

lemma copy_write:
  assumes h: "both_held s a i b j u"
  obtains t where "bwrite i (buf_upd i (\<lambda>x. x\<lparr>b_data := b_data (bufs u ! j)\<rparr>) u) = Inr t"
    and "copied s a b i j t"
proof -
  let ?v = "buf_upd i (\<lambda>x. x\<lparr>b_data := b_data (bufs u ! j)\<rparr>) u"
  from h have inv: "bio_inv u" and li: "locked_for u i a" and lj: "locked_for u j b" and ij: "i \<noteq> j" "a \<noteq> b"
    by (simp_all add: both_held_def)
  note lbj = locked_buf [OF inv lj] and lbi = locked_buf [OF inv li]
  have data: "b_data (bufs u ! j) = bview s b"
    using h bview_cached [OF inv, of j b] lbj by (simp add: both_held_def locked_for_def)
  have "length (b_data (bufs u ! j)) = BSIZE" by (rule lbj)
  note put = bdata_ok [OF inv li, of "\<lambda>_. b_data (bufs u ! j)", OF this]
  obtain t where t: "bwrite i ?v = Inr t" "bio_inv t" "locked_for t i a" "bview t = bview ?v"
    "\<And>x. pinned t x = (x \<noteq> a \<and> pinned ?v x)" "blocked t = blocked ?v"
    "disk t = (disk ?v)[unat a := bview ?v a]" "disk_writes t = disk_writes ?v @ [(unat a, bview ?v a)]"
    "bufs t = (bufs ?v)[i := (bufs ?v ! i)\<lparr>b_dirty := False\<rparr>]"
    using bwrite_ok [OF put(1,2)] by metis
  have view: "bview ?v x = (if x = a then bview s b else bview s x)" for x
    using put(3) [of x] h by (simp add: data both_held_def)
  have n: "bufs t ! k = bufs u ! k" if "k \<noteq> i" for k using that by (simp add: t(9))
  have "locked_for t j b" using lj ij by (simp add: locked_for_def caches_def n)
  moreover have "bio_frame s t"
  proof -
    have "bio_frame s u" using h by (simp add: both_held_def)
    from bio_frame_trans [OF this bio_frame_bufs(2)] bio_frame_bwrite [OF t(1)] show ?thesis
      by (rule bio_frame_trans)
  qed
  moreover have "bview t = (bview s)(a := bview s b)" using t(4) view by (auto simp: fun_eq_iff)
  ultimately have "copied s a b i j t"
    using h t view n put(4,5) by (simp add: copied_def both_held_def)
  with t(1) show thesis by (rule that)
qed

section \<open>The cache as seen by its users\<close>

text \<open>C16: \<open>bread\<close> delivers the current contents of a block in a locked buffer, and \<open>brelse\<close> gives the
  buffer back. Neither changes the contents of any block, the disk, or which blocks are
  pinned or locked; the cache keeps at most one buffer per block and its clean buffers
  agree with the disk.\<close>

theorem bread_brelse_transparent:
  assumes "bio_inv s" and "unat b < length (disk s)" and "\<not> blocked s b" and "\<exists>j. free_buf s j"
  shows "\<exists>i s1 s2. bread 1 b s = Inr (i, s1) \<and> b_data (bufs s1 ! i) = bview s b
    \<and> b_blockno (bufs s1 ! i) = b \<and> sl_locked (b_lock (bufs s1 ! i)) \<and> brelse i s1 = Inr s2
    \<and> bio_inv s2 \<and> bview s2 = bview s \<and> pinned s2 = pinned s \<and> blocked s2 = blocked s
    \<and> disk s2 = disk s \<and> disk_writes s2 = disk_writes s"
proof -
  have "can_read s b" using assms by (simp add: can_read_def)
  then obtain i s1 s2 where r: "bread 1 b s = Inr (i, s1)" "b_data (bufs s1 ! i) = bview s b"
    "locked_for s1 i b" "bio_inv s1" "brelse i s1 = Inr s2" "same_bio s s2"
    using read_block by metis
  from locked_buf [OF r(4,3)] r show ?thesis
    by (intro exI [of _ i] exI [of _ s1] exI [of _ s2]) (simp add: same_bio_def)
qed

definition buf0 :: buf where
  "buf0 = \<lparr>b_valid = False, b_dirty = False, b_dev = 0, b_blockno = 0, b_lock = initsleeplock,
     b_refcnt = 0, b_data = replicate BSIZE 0\<rparr>"

text \<open>A machine with an empty cache.\<close>

definition kbio_ex :: "u8 list list \<Rightarrow> kbio" where
  "kbio_ex d = kmem.extend (kmem_ex (Some 0)) (kbio.fields (replicate NBUF buf0) (rev [0 ..< NBUF]) d [])"

lemma kbio_ex_simps [simp]:
  "bufs (kbio_ex d) = replicate NBUF buf0" "mru (kbio_ex d) = rev [0 ..< NBUF]" "disk (kbio_ex d) = d"
  "disk_writes (kbio_ex d) = []" "cur (kbio_ex d) = Some 0" "ptable (kbio_ex d) = procs_ex"
  by (simp_all add: kbio_ex_def kmem_ex_def kproc_ex_def conts.defs kproc.defs kmem.defs kbio.defs)

lemma bio_inv_ex: "\<forall>x \<in> set d. length x = BSIZE \<Longrightarrow> bio_inv (kbio_ex d)"
  by (auto simp: bio_inv_def cache_inv_def buf_inv_def buf0_def initsleeplock_def procs_ex_def)

lemma empty_cache:
  assumes "\<forall>x \<in> set d. length x = BSIZE"
  shows "bview (kbio_ex d) b = d ! unat b" "\<not> pinned (kbio_ex d) b" "\<not> blocked (kbio_ex d) b"
    "free_buf (kbio_ex d) i \<longleftrightarrow> i < NBUF" "nfree (kbio_ex d) = NBUF"
proof -
  have nc: "\<not> caches (bufs (kbio_ex d)) j b" for j by (auto simp: caches_def buf0_def)
  note inv = bio_inv_ex [OF assms]
  show "bview (kbio_ex d) b = d ! unat b" "\<not> pinned (kbio_ex d) b" "\<not> blocked (kbio_ex d) b"
    using nc inv by (simp_all add: bview_not_cached pinned_not_cached blocked_not_cached)
  show fr: "free_buf (kbio_ex d) i \<longleftrightarrow> i < NBUF" for i by (auto simp: free_buf_def buf0_def)
  show "nfree (kbio_ex d) = NBUF" by (simp add: nfree_def fr)
qed

theorem bread_brelse_transparent_witness:
  "\<exists>i s1 s2. bread 1 2 (kbio_ex (replicate 40 (replicate BSIZE 7))) = Inr (i, s1)
     \<and> b_data (bufs s1 ! i) = replicate BSIZE 7 \<and> brelse i s1 = Inr s2 \<and> bio_inv s2"
proof -
  let ?d = "replicate 40 (replicate BSIZE 7) :: u8 list list"
  have d: "\<forall>x \<in> set ?d. length x = BSIZE" by simp
  note e = empty_cache [OF d]
  have "\<exists>j. free_buf (kbio_ex ?d) j" using e(4) by (metis NBUF_def zero_less_numeral)
  moreover have "bview (kbio_ex ?d) 2 = replicate BSIZE 7" using e(1) [of 2] by simp
  ultimately show ?thesis
    using bread_brelse_transparent [OF bio_inv_ex [OF d], of 2] e(3) [of 2] by simp blast
qed

end
