(* ===== verification/Log.thy ===== *)
theory Log
  imports Bio
begin

text \<open>
  The write-ahead log of \<^verbatim>\<open>log.c\<close> (and \<^verbatim>\<open>readsb\<close> of \<^verbatim>\<open>fs.c\<close>, which it calls). The fields of
  \<^verbatim>\<open>struct log\<close> extend the state. The header block of the log on disk is read and written as
  bytes: the count in the first word, then the block numbers.

  The central result is that a commit is atomic: the routines perform the block writes in an
  order such that, wherever the machine stops, \<open>recover_from_log\<close> at the next boot brings the
  file system blocks to their contents either before or after the transaction.
\<close>

section \<open>State\<close>

definition LOGSIZE :: nat where "LOGSIZE = 30"
definition MAXOPBLOCKS :: int where "MAXOPBLOCKS = 10"

record superblock =
  sb_size :: u32
  sb_nblocks :: u32
  sb_ninodes :: u32
  sb_nlog :: u32
  sb_logstart :: u32
  sb_inodestart :: u32
  sb_bmapstart :: u32
  sb_size_bytes :: u32
  sb_size_avail :: u32
  sb_size_used :: u32

record klog = kbio +
  lg_start :: int
  lg_size :: int
  lg_outstanding :: int
  lg_committing :: bool
  lg_dev :: u32
  lg_n :: int
  lg_block :: "int list"

definition sb_of_bytes :: "u8 list \<Rightarrow> superblock" where
  "sb_of_bytes d = \<lparr>sb_size = word_at d 0, sb_nblocks = word_at d 4, sb_ninodes = word_at d 8,
     sb_nlog = word_at d 12, sb_logstart = word_at d 16, sb_inodestart = word_at d 20,
     sb_bmapstart = word_at d 24, sb_size_bytes = word_at d 28, sb_size_avail = word_at d 32,
     sb_size_used = word_at d 36\<rparr>"

definition readsb :: "u32 \<Rightarrow> 'z kbio_scheme \<Rightarrow> (superblock \<times> 'z kbio_scheme) res" where
  "readsb dev s =
     bnd (bread dev 1 s) (\<lambda>(bp, s).
       let sb = sb_of_bytes (b_data (bufs s ! bp))
       in bnd (brelse bp s) (\<lambda>s. Inr (sb, s)))"

section \<open>Installing and recovering\<close>

definition log_blockno :: "nat \<Rightarrow> 'z klog_scheme \<Rightarrow> u32" where
  "log_blockno tail s = word_of_int (lg_start s + int tail + 1)"

text \<open>One turn of the loop of \<^verbatim>\<open>install_trans\<close>: \<^verbatim>\<open>memmove(dbuf->data, lbuf->data, BSIZE)\<close> copies
  the whole block.\<close>

definition install_one :: "nat \<Rightarrow> 'z klog_scheme \<Rightarrow> 'z klog_scheme res" where
  "install_one tail s =
     bnd (bread (lg_dev s) (log_blockno tail s) s) (\<lambda>(lbuf, s).
     bnd (fetch ''log.lh.block'' (lg_block s) (int tail)) (\<lambda>blk.
     bnd (bread (lg_dev s) (word_of_int blk) s) (\<lambda>(dbuf, s).
     bnd (bwrite dbuf (buf_upd dbuf (\<lambda>b. b\<lparr>b_data := b_data (bufs s ! lbuf)\<rparr>) s)) (\<lambda>s.
     bnd (brelse lbuf s) (\<lambda>s.
     brelse dbuf s)))))"

definition install_trans :: "'z klog_scheme \<Rightarrow> 'z klog_scheme res" where
  "install_trans s = foldR install_one [0 ..< nat (lg_n s)] s"

definition head_n :: "u8 list \<Rightarrow> int" where
  "head_n d = sint (word_at d 0)"

definition head_block :: "u8 list \<Rightarrow> nat \<Rightarrow> int" where
  "head_block d i = sint (word_at d (4 + 4 * i))"

definition read_head :: "'z klog_scheme \<Rightarrow> 'z klog_scheme res" where
  "read_head s =
     bnd (bread (lg_dev s) (word_of_int (lg_start s)) s) (\<lambda>(buf, s).
       let d = b_data (bufs s ! buf); n = head_n d
       in if n > int LOGSIZE then Inl (Fault ''log.lh.block'')
          else brelse buf (s\<lparr>lg_n := n,
                 lg_block := map (head_block d) [0 ..< nat n] @ drop (nat n) (lg_block s)\<rparr>))"

definition head_bytes :: "u8 list \<Rightarrow> int \<Rightarrow> int list \<Rightarrow> u8 list" where
  "head_bytes d n bs =
     splice (splice d 0 (bytes32 (word_of_int n))) 4
       (concat (map (\<lambda>b. bytes32 (word_of_int b)) (take (nat n) bs)))"

definition write_head :: "'z klog_scheme \<Rightarrow> 'z klog_scheme res" where
  "write_head s =
     bnd (bread (lg_dev s) (word_of_int (lg_start s)) s) (\<lambda>(buf, s).
       if lg_n s > int (length (lg_block s)) then Inl (Fault ''log.lh.block'')
       else bnd (bwrite buf (buf_upd buf (\<lambda>b. b\<lparr>b_data := head_bytes (b_data b) (lg_n s) (lg_block s)\<rparr>) s))
              (\<lambda>s. brelse buf s))"

definition recover_from_log :: "'z klog_scheme \<Rightarrow> 'z klog_scheme res" where
  "recover_from_log s =
     bnd (read_head s) (\<lambda>s.
     bnd (install_trans s) (\<lambda>s.
     write_head (s\<lparr>lg_n := 0\<rparr>)))"

definition initlog :: "u32 \<Rightarrow> 'z klog_scheme \<Rightarrow> 'z klog_scheme res" where
  "initlog dev s =
     (if 4 + 4 * LOGSIZE \<ge> BSIZE then Inl (Panic ''initlog: too big logheader'')
      else bnd (readsb dev s) (\<lambda>(sb, s).
        recover_from_log (s\<lparr>lg_start := sint (sb_logstart sb), lg_size := sint (sb_nlog sb), lg_dev := dev\<rparr>)))"

section \<open>Transactions\<close>

definition write_log_one :: "nat \<Rightarrow> 'z klog_scheme \<Rightarrow> 'z klog_scheme res" where
  "write_log_one tail s =
     bnd (bread (lg_dev s) (log_blockno tail s) s) (\<lambda>(to, s).
     bnd (fetch ''log.lh.block'' (lg_block s) (int tail)) (\<lambda>blk.
     bnd (bread (lg_dev s) (word_of_int blk) s) (\<lambda>(from, s).
     bnd (bwrite to (buf_upd to (\<lambda>b. b\<lparr>b_data := b_data (bufs s ! from)\<rparr>) s)) (\<lambda>s.
     bnd (brelse from s) (\<lambda>s.
     brelse to s)))))"

definition write_log :: "'z klog_scheme \<Rightarrow> 'z klog_scheme res" where
  "write_log s = foldR write_log_one [0 ..< nat (lg_n s)] s"

definition commit :: "'z klog_scheme \<Rightarrow> 'z klog_scheme res" where
  "commit s =
     (if lg_n s > 0
      then bnd (write_log s) (\<lambda>s.
           bnd (write_head s) (\<lambda>s.
           bnd (install_trans s) (\<lambda>s.
           write_head (s\<lparr>lg_n := 0\<rparr>))))
      else Inr s)"

text \<open>\<open>begin_op\<close> where it does not have to wait; it sleeps on \<^verbatim>\<open>&log\<close> in the two other cases.\<close>

definition begin_op :: "'z klog_scheme \<Rightarrow> 'z klog_scheme res" where
  "begin_op s =
     (if lg_committing s then Inl (Blocked ''log'')
      else if lg_n s + (lg_outstanding s + 1) * MAXOPBLOCKS > int LOGSIZE then Inl (Blocked ''log'')
      else Inr (s\<lparr>lg_outstanding := lg_outstanding s + 1\<rparr>))"

definition end_op :: "'z klog_scheme \<Rightarrow> 'z klog_scheme res" where
  "end_op s =
     (let s = s\<lparr>lg_outstanding := lg_outstanding s - 1\<rparr>
      in if lg_committing s then Inl (Panic ''log.committing'')
         else if lg_outstanding s = 0
         then bnd (commit (s\<lparr>lg_committing := True\<rparr>)) (\<lambda>s.
                Inr (wakeup (Some ChLog) (s\<lparr>lg_committing := False\<rparr>)))
         else Inr (wakeup (Some ChLog) s))"

definition log_write :: "nat \<Rightarrow> 'z klog_scheme \<Rightarrow> 'z klog_scheme res" where
  "log_write b s =
     (if lg_n s \<ge> int LOGSIZE \<or> lg_n s \<ge> lg_size s - 1 then Inl (Panic ''too big a transaction'')
      else if lg_outstanding s < 1 then Inl (Panic ''log_write outside of trans'')
      else
        let blockno = b_blockno (bufs s ! b);
            i = (case first_idx (\<lambda>x. word_of_int x = blockno) (take (nat (lg_n s)) (lg_block s)) of
                   Some i \<Rightarrow> i | None \<Rightarrow> nat (lg_n s))
        in Inr (buf_upd b (\<lambda>b. b\<lparr>b_dirty := True\<rparr>)
                 (s\<lparr>lg_block := (lg_block s)[i := sint blockno],
                    lg_n := (if int i = lg_n s then lg_n s + 1 else lg_n s)\<rparr>)))"


lemma bread_frame: "bread d b s = Inr (i, t) \<Longrightarrow> bio_frame s t"
  by (auto simp: bread_def bget_def buf_acquire_def iderw_def Let_def bio_frame_def list_all2_refl buf_upd_def
      split: if_splits option.splits elim!: bnd_InrE)

section \<open>Single block writes\<close>

text \<open>Reading a block, changing it and writing it at once.\<close>

definition write_done :: "'z kbio_scheme \<Rightarrow> u32 \<Rightarrow> u8 list \<Rightarrow> 'z kbio_scheme \<Rightarrow> bool" where
  "write_done s b v t \<longleftrightarrow> bio_inv t \<and> bview t = (bview s)(b := v)
     \<and> (\<forall>x. pinned t x = (x \<noteq> b \<and> pinned s x)) \<and> blocked t = blocked s
     \<and> disk t = (disk s)[unat b := v] \<and> disk_writes t = disk_writes s @ [(unat b, v)]
     \<and> nfree s \<le> nfree t \<and> bio_frame s t"

lemma write_block:
  assumes can: "can_read s b" and f: "\<And>x. length x = BSIZE \<Longrightarrow> length (f x) = BSIZE"
  obtains i s1 s2 t where "bread 1 b s = Inr (i, s1)" and "bio_frame s s1"
    and "bwrite i (buf_upd i (\<lambda>x. x\<lparr>b_data := f (b_data x)\<rparr>) s1) = Inr s2"
    and "brelse i s2 = Inr t" and "write_done s b (f (bview s b)) t"
proof -
  have inv: "bio_inv s" and b: "unat b < length (disk s)" and nb: "\<not> blocked s b"
    using can by (simp_all add: can_read_def)
  obtain i pid where sl: "slot_for s b i" and r: "bread 1 b s = Inr (i, hold i b pid s)"
    using bread_ok [OF can] by blast
  let ?s = "hold i b pid s" and ?v = "f (bview s b)"
  have inv': "bio_inv ?s" and l: "locked_for ?s i b"
    using inv b sl by (auto intro: hold_inv hold_locked_for)
  have obs: "bview ?s = bview s" "pinned ?s = pinned s" "\<And>x. blocked ?s x = (x = b \<or> blocked s x)"
    using hold_obs [OF inv b sl, of pid] by auto
  let ?u = "buf_upd i (\<lambda>x. x\<lparr>b_data := f (b_data x)\<rparr>) ?s"
  have put: "bio_inv ?u" "locked_for ?u i b" "\<And>x. bview ?u x = (if x = b then f (bview ?s b) else bview ?s x)"
    "pinned ?u = pinned ?s" "blocked ?u = blocked ?s"
    by (rule bdata_ok [OF inv' l], erule f)+
  obtain s2 where s2: "bwrite i ?u = Inr s2" "bio_inv s2" "locked_for s2 i b" "bview s2 = bview ?u"
    "\<And>x. pinned s2 x = (x \<noteq> b \<and> pinned ?u x)" "blocked s2 = blocked ?u"
    "disk s2 = (disk ?u)[unat b := bview ?u b]" "disk_writes s2 = disk_writes ?u @ [(unat b, bview ?u b)]"
    "bufs s2 = (bufs ?u)[i := (bufs ?u ! i)\<lparr>b_dirty := False\<rparr>]"
    by (rule bwrite_ok [OF put(1,2)]) (rule that, assumption+)
  have view: "bview ?u = (bview s)(b := ?v)" using put(3) obs by (auto simp: fun_eq_iff)
  have cl: "pinned s2 b \<or> bview s2 b = disk s2 ! unat b" using b view by (simp add: s2(4,7))
  obtain t where t: "brelse i s2 = Inr t" "bio_inv t" "bview t = bview s2" "pinned t = pinned s2"
    "\<And>x. blocked t x = (x \<noteq> b \<and> blocked s2 x)" "disk t = disk s2" "disk_writes t = disk_writes s2"
    "bufs t = (bufs s2)[i := (bufs s2 ! i)\<lparr>b_lock := initsleeplock, b_refcnt := 0\<rparr>]"
    by (rule brelse_ok [OF s2(2,3) cl]) (rule that, assumption+)
  have il: "i < length (bufs s)" using sl len_bufs [OF inv] by (simp add: slot_for_def)
  have "free_buf t k" if "free_buf s k" for k
    using that il by (cases "k = i") (simp_all add: free_buf_def t(8) s2(9) hold_nth [OF inv sl])
  then have "nfree s \<le> nfree t" by (rule nfree_mono)
  moreover have "blocked t = blocked s" using t(5) s2(6) put(5) obs(3) nb by (auto simp: fun_eq_iff)
  moreover have "bio_frame s t"
    by (rule bio_frame_trans [OF bio_frame_trans [OF bio_frame_trans [OF bio_frame_bufs(3) bio_frame_bufs(2)]
          bio_frame_bwrite [OF s2(1)]] bio_frame_brelse [OF t(1)]])
  ultimately have "write_done s b ?v t"
    using t s2 put(4) obs view by (simp add: write_done_def)
  with r bio_frame_bufs(3) s2(1) t(1) show thesis by (rule that)
qed

section \<open>Copy loops\<close>

definition apply_writes :: "(nat \<times> 'a) list \<Rightarrow> 'a list \<Rightarrow> 'a list" where
  "apply_writes ws d = fold (\<lambda>(i, v) d. d[i := v]) ws d"

lemma apply_writes_simps [simp]:
  "apply_writes [] d = d" "apply_writes (w # ws) d = apply_writes ws (d[fst w := snd w])"
  "apply_writes (us @ ws) d = apply_writes ws (apply_writes us d)"
  by (simp_all add: apply_writes_def split_beta)

lemma length_apply_writes [simp]: "length (apply_writes ws d) = length d"
  by (induction ws arbitrary: d) auto

lemma apply_writes_other: "i \<notin> fst ` set ws \<Longrightarrow> apply_writes ws d ! i = d ! i"
  by (induction ws arbitrary: d) auto

lemma apply_writes_at:
  assumes "distinct (map fst ws)" and "(i, v) \<in> set ws" and "i < length d"
  shows "apply_writes ws d ! i = v"
  using assms by (induction ws arbitrary: d) (auto simp: apply_writes_other rev_image_eqI)

text \<open>The blocks \<open>src k\<close> have been copied to \<open>dst k\<close> and written, for \<open>k < n\<close> in order.\<close>

definition copy_writes :: "(u32 \<Rightarrow> u8 list) \<Rightarrow> (nat \<Rightarrow> u32) \<Rightarrow> (nat \<Rightarrow> u32) \<Rightarrow> nat \<Rightarrow> (nat \<times> u8 list) list" where
  "copy_writes v src dst n = map (\<lambda>k. (unat (dst k), v (src k))) [0 ..< n]"

definition copies :: "'z kbio_scheme \<Rightarrow> (nat \<Rightarrow> u32) \<Rightarrow> (nat \<Rightarrow> u32) \<Rightarrow> nat \<Rightarrow> 'z kbio_scheme \<Rightarrow> bool" where
  "copies s src dst n t \<longleftrightarrow> bio_inv t \<and> (\<forall>k < n. bview t (dst k) = bview s (src k))
     \<and> (\<forall>x. x \<notin> dst ` {..< n} \<longrightarrow> bview t x = bview s x)
     \<and> (\<forall>x. pinned t x = (x \<notin> dst ` {..< n} \<and> pinned s x)) \<and> blocked t = blocked s
     \<and> disk t = apply_writes (copy_writes (bview s) src dst n) (disk s)
     \<and> disk_writes t = disk_writes s @ copy_writes (bview s) src dst n
     \<and> nfree s \<le> nfree t \<and> bio_frame s t"

definition copyable :: "'z kbio_scheme \<Rightarrow> (nat \<Rightarrow> u32) \<Rightarrow> (nat \<Rightarrow> u32) \<Rightarrow> nat \<Rightarrow> bool" where
  "copyable s src dst n \<longleftrightarrow> bio_inv s \<and> inj_on dst {..< n} \<and> dst ` {..< n} \<inter> src ` {..< n} = {}
     \<and> (\<forall>k < n. unat (src k) < length (disk s) \<and> unat (dst k) < length (disk s)
          \<and> \<not> blocked s (src k) \<and> \<not> blocked s (dst k))
     \<and> (2 \<le> nfree s \<or> 1 \<le> nfree s \<and> (\<forall>k < n. pinned s (src k) \<or> pinned s (dst k)))"

lemma can_read2_sym: "can_read2 s a b \<Longrightarrow> can_read2 s b a"
  by (auto simp: can_read2_def)

lemma copy_loop:
  assumes step: "\<And>k t. k < n \<Longrightarrow> bio_frame s t \<Longrightarrow> can_read2 t (src k) (dst k) \<Longrightarrow>
      \<exists>u. f k t = Inr u \<and> copy_done t (dst k) (src k) u"
    and cp: "copyable s src dst n"
  shows "\<exists>t. foldR f [0 ..< n] s = Inr t \<and> copies s src dst n t"
proof -
  have "m \<le> n \<Longrightarrow> \<exists>t. foldR f [0 ..< m] s = Inr t \<and> copies s src dst m t" for m
  proof (induction m)
    case 0
    with cp show ?case by (simp add: copies_def copy_writes_def copyable_def)
  next
    case (Suc m)
    then obtain t where t: "foldR f [0 ..< m] s = Inr t" and c: "copies s src dst m t" by auto
    have m: "m < n" using Suc.prems by simp
    from cp have inj: "inj_on dst {..< n}" and dis: "dst ` {..< n} \<inter> src ` {..< n} = {}"
      by (simp_all add: copyable_def)
    have nd: "dst m \<notin> dst ` {..< m}" using inj m unfolding inj_on_def
      by (metis image_iff lessThan_iff less_trans nat_neq_iff)
    have ns: "src m \<notin> dst ` {..< m}" "dst m \<noteq> src m"
      using dis m by (auto simp: disjoint_iff) (metis image_eqI lessThan_iff less_trans)
    have "can_read2 t (src m) (dst m)"
      using cp c m nd ns by (auto simp: can_read2_def copyable_def copies_def)
    with step [OF m, of t] c obtain u where u: "f m t = Inr u" and cd: "copy_done t (dst m) (src m) u"
      by (auto simp: copies_def)
    have v: "bview t (src m) = bview s (src m)" using c ns by (simp add: copies_def)
    have "copies s src dst (Suc m) u" unfolding copies_def
    proof (intro conjI)
      show "\<forall>k < Suc m. bview u (dst k) = bview s (src k)"
      proof (intro allI impI)
        fix k assume "k < Suc m"
        moreover have "k < m \<Longrightarrow> dst k \<noteq> dst m" using nd by (metis imageI lessThan_iff)
        ultimately show "bview u (dst k) = bview s (src k)"
          using c cd v by (cases "k = m") (simp_all add: copies_def copy_done_def)
      qed
      show "\<forall>x. x \<notin> dst ` {..< Suc m} \<longrightarrow> bview u x = bview s x"
        using c cd by (auto simp: copies_def copy_done_def lessThan_Suc)
      show "\<forall>x. pinned u x = (x \<notin> dst ` {..< Suc m} \<and> pinned s x)"
        using c cd by (auto simp: copies_def copy_done_def lessThan_Suc)
      show "bio_frame s u" using c cd bio_frame_trans by (auto simp: copies_def copy_done_def)
    qed (use c cd v in \<open>auto simp: copies_def copy_done_def copy_writes_def\<close>)
    with t u show ?case by (simp add: foldR_append)
  qed
  then show ?thesis by simp
qed

lemma klog_frame:
  fixes s t :: "'z klog_scheme"
  assumes "bio_frame s t"
  shows "lg_start t = lg_start s" "lg_size t = lg_size s" "lg_outstanding t = lg_outstanding s"
    "lg_committing t = lg_committing s" "lg_dev t = lg_dev s" "lg_n t = lg_n s" "lg_block t = lg_block s"
    "klog.more t = klog.more s"
proof -
  from bio_frame_fields(1) [OF assms] have "kbio.more t = kbio.more s" .
  then show "lg_start t = lg_start s" "lg_size t = lg_size s" "lg_outstanding t = lg_outstanding s"
    "lg_committing t = lg_committing s" "lg_dev t = lg_dev s" "lg_n t = lg_n s" "lg_block t = lg_block s"
    "klog.more t = klog.more s"
    by (cases s; cases t; simp)+
qed

section \<open>The loops over the log\<close>

definition home :: "'z klog_scheme \<Rightarrow> nat \<Rightarrow> u32" where
  "home s k = word_of_int (lg_block s ! k)"

lemma install_one_ok:
  assumes "lg_dev s = 1" and "k < length (lg_block s)" and c: "can_read2 s (log_blockno k s) (home s k)"
  shows "\<exists>t. install_one k s = Inr t \<and> copy_done s (home s k) (log_blockno k s) t"
proof -
  obtain i s1 j u where r: "bread 1 (log_blockno k s) s = Inr (i, s1)" "bread 1 (home s k) s1 = Inr (j, u)"
    and h: "both_held s (log_blockno k s) i (home s k) j u"
    using c by (rule bread2)
  have f1: "bio_frame s s1" by (rule bread_frame [OF r(1)])
  obtain t where t: "bwrite j (buf_upd j (\<lambda>x. x\<lparr>b_data := b_data (bufs u ! i)\<rparr>) u) = Inr t"
    and cp: "copied s (home s k) (log_blockno k s) j i t"
    using both_held_sym [OF h] by (rule copy_write)
  have "(i, j) = (j, i) \<or> (i, j) = (i, j)" by simp
  from copied_release [OF cp this] obtain t1 t2 where
    "brelse i t = Inr t1" "brelse j t1 = Inr t2" "copy_done s (home s k) (log_blockno k s) t2" .
  with assms(1,2) r t klog_frame [OF f1] show ?thesis by (simp add: install_one_def fetch_def home_def)
qed

lemma write_log_one_ok:
  assumes "lg_dev s = 1" and "k < length (lg_block s)" and c: "can_read2 s (home s k) (log_blockno k s)"
  shows "\<exists>t. write_log_one k s = Inr t \<and> copy_done s (log_blockno k s) (home s k) t"
proof -
  obtain i s1 j u where r: "bread 1 (log_blockno k s) s = Inr (i, s1)" "bread 1 (home s k) s1 = Inr (j, u)"
    and h: "both_held s (log_blockno k s) i (home s k) j u"
    using can_read2_sym [OF c] by (rule bread2)
  have f1: "bio_frame s s1" by (rule bread_frame [OF r(1)])
  obtain t where t: "bwrite i (buf_upd i (\<lambda>x. x\<lparr>b_data := b_data (bufs u ! j)\<rparr>) u) = Inr t"
    and cp: "copied s (log_blockno k s) (home s k) i j t"
    using h by (rule copy_write)
  have "(j, i) = (i, j) \<or> (j, i) = (j, i)" by simp
  from copied_release [OF cp this] obtain t1 t2 where
    "brelse j t = Inr t1" "brelse i t1 = Inr t2" "copy_done s (log_blockno k s) (home s k) t2" .
  with assms(1,2) r t klog_frame [OF f1] show ?thesis by (simp add: write_log_one_def fetch_def home_def)
qed

lemma home_frame: "bio_frame s t \<Longrightarrow> home t = home s" "bio_frame s t \<Longrightarrow> log_blockno k t = log_blockno k s"
  by (simp_all add: home_def log_blockno_def klog_frame fun_eq_iff)

lemma install_trans_ok:
  assumes "lg_dev s = 1" and "nat (lg_n s) \<le> length (lg_block s)"
    and "copyable s (\<lambda>k. log_blockno k s) (home s) (nat (lg_n s))"
  shows "\<exists>t. install_trans s = Inr t \<and> copies s (\<lambda>k. log_blockno k s) (home s) (nat (lg_n s)) t"
  unfolding install_trans_def
proof (rule copy_loop [OF _ assms(3)])
  fix k t assume "k < nat (lg_n s)" and f: "bio_frame s t" and "can_read2 t (log_blockno k s) (home s k)"
  then show "\<exists>u. install_one k t = Inr u \<and> copy_done t (home s k) (log_blockno k s) u"
    using install_one_ok [of t k] assms(1,2) by (simp add: klog_frame [OF f] home_frame [OF f])
qed

lemma write_log_ok:
  assumes "lg_dev s = 1" and "nat (lg_n s) \<le> length (lg_block s)"
    and "copyable s (home s) (\<lambda>k. log_blockno k s) (nat (lg_n s))"
  shows "\<exists>t. write_log s = Inr t \<and> copies s (home s) (\<lambda>k. log_blockno k s) (nat (lg_n s)) t"
  unfolding write_log_def
proof (rule copy_loop [OF _ assms(3)])
  fix k t assume "k < nat (lg_n s)" and f: "bio_frame s t" and "can_read2 t (home s k) (log_blockno k s)"
  then show "\<exists>u. write_log_one k t = Inr u \<and> copy_done t (log_blockno k s) (home s k) u"
    using write_log_one_ok [of t k] assms(1,2) by (simp add: klog_frame [OF f] home_frame [OF f])
qed


section \<open>The header block\<close>

lemma length_concat_bytes32 [simp]: "length (concat (map (\<lambda>x. bytes32 (f x)) xs)) = 4 * length xs"
  by (induction xs) simp_all

lemma concat_bytes32_nth:
  assumes "k < length xs" and "j < 4"
  shows "concat (map (\<lambda>x. bytes32 (f x)) xs) ! (4 * k + j) = bytes32 (f (xs ! k)) ! j"
  using assms by (induction xs arbitrary: k) (auto simp: nth_append less_Suc_eq_0_disj)

lemma word_at_words:
  assumes "off + 4 * length xs \<le> length d" and "k < length xs"
  shows "word_at (splice d off (concat (map (\<lambda>x. bytes32 (f x)) xs))) (off + 4 * k) = f (xs ! k)"
proof -
  let ?c = "concat (map (\<lambda>x. bytes32 (f x)) xs)"
  have "byte_at (splice d off ?c) (off + 4 * k + j) = bytes32 (f (xs ! k)) ! j" if "j < 4" for j
    using assms that concat_bytes32_nth [of k xs j f] by (simp add: byte_at_splice)
  from this [of 0] this [of 1] this [of 2] this [of 3] show ?thesis
    by (simp add: word_at_def bytes32_def join32_bytes)
qed

lemma sint_word_of_int_id: "- (2 ^ 31) \<le> x \<Longrightarrow> x < 2 ^ 31 \<Longrightarrow> sint (word_of_int x :: u32) = x"
  by (simp add: sint_sbintrunc' signed_take_bit_int_eq_self)

lemma head_bytes_ok:
  assumes d: "length d = BSIZE" and n: "0 \<le> n" "nat n \<le> length bs" "length bs = LOGSIZE"
  shows "length (head_bytes d n bs) = BSIZE" "head_n (head_bytes d n bs) = n"
    and "k < nat n \<Longrightarrow> 0 \<le> bs ! k \<Longrightarrow> bs ! k < 2 ^ 31 \<Longrightarrow> head_block (head_bytes d n bs) k = bs ! k"
proof -
  let ?xs = "take (nat n) bs"
  have l: "length ?xs = nat n" and fit: "4 + 4 * nat n \<le> BSIZE"
    using n by (simp_all add: LOGSIZE_def BSIZE_def)
  show "length (head_bytes d n bs) = BSIZE" using d l fit by (simp add: head_bytes_def)
  have "word_at (head_bytes d n bs) 0 = word_of_int n"
    using d l fit by (simp add: head_bytes_def word_at_splice_other word_at_splice)
  moreover have "n \<le> 30" using n by (simp add: LOGSIZE_def)
  ultimately show "head_n (head_bytes d n bs) = n"
    using n by (simp add: head_n_def sint_word_of_int_id)
  assume k: "k < nat n" "0 \<le> bs ! k" "bs ! k < 2 ^ 31"
  have "word_at (head_bytes d n bs) (4 + 4 * k) = word_of_int (?xs ! k)"
    unfolding head_bytes_def using d l fit k(1) by (intro word_at_words) simp_all
  then show "head_block (head_bytes d n bs) k = bs ! k"
    using k n by (simp add: head_block_def sint_word_of_int_id)
qed

text \<open>Where the log lies on the disk, and what a state must satisfy for its routines to run.\<close>

definition log_at :: "'z klog_scheme \<Rightarrow> bool" where
  "log_at s \<longleftrightarrow> bio_inv s \<and> lg_dev s = 1 \<and> length (lg_block s) = LOGSIZE \<and> 0 \<le> lg_start s
     \<and> 0 \<le> lg_n s \<and> lg_n s \<le> int LOGSIZE - 1 \<and> length (disk s) < 2 ^ 31
     \<and> nat (lg_start s) + LOGSIZE \<le> length (disk s) \<and> (\<forall>b. \<not> blocked s b) \<and> 1 \<le> nfree s"

definition head_at :: "'z klog_scheme \<Rightarrow> u32" where
  "head_at s = word_of_int (lg_start s)"

definition in_log :: "'z klog_scheme \<Rightarrow> u32 \<Rightarrow> bool" where
  "in_log s b \<longleftrightarrow> nat (lg_start s) \<le> unat b \<and> unat b < nat (lg_start s) + LOGSIZE"

lemma log_at_blocks:
  assumes "log_at s" and "k < LOGSIZE - 1"
  shows "unat (head_at s) = nat (lg_start s)" "unat (log_blockno k s) = nat (lg_start s) + k + 1"
    "in_log s (head_at s)" "in_log s (log_blockno k s)" "log_blockno k s \<noteq> head_at s"
proof -
  have "lg_start s + int k + 1 < 2 ^ 32" "lg_start s < 2 ^ 32" "0 \<le> lg_start s"
    using assms by (auto simp: log_at_def LOGSIZE_def)
  then show h: "unat (head_at s) = nat (lg_start s)" and l: "unat (log_blockno k s) = nat (lg_start s) + k + 1"
    unfolding head_at_def log_blockno_def
    by (subst unat_word_of_int32; simp)+
  then show "log_blockno k s \<noteq> head_at s" by auto
  show "in_log s (head_at s)" "in_log s (log_blockno k s)" using h l assms(2) by (simp_all add: in_log_def LOGSIZE_def)
qed

lemma log_blockno_inj:
  assumes "log_at s" and "j < LOGSIZE - 1" and "k < LOGSIZE - 1" and "log_blockno j s = log_blockno k s"
  shows "j = k"
proof -
  have "nat (lg_start s) + j + 1 = nat (lg_start s) + k + 1"
    unfolding log_at_blocks(2) [OF assms(1,2), symmetric] log_at_blocks(2) [OF assms(1,3), symmetric]
    by (simp only: assms(4))
  then show ?thesis by linarith
qed

lemma head_can_read:
  assumes "log_at s"
  shows "can_read s (head_at s)"
proof -
  have "\<exists>i. free_buf s i" using assms nfree_pos [of s] by (simp add: log_at_def)
  then show ?thesis using assms log_at_blocks(1) [OF assms, of 0]
    by (simp add: can_read_def log_at_def LOGSIZE_def)
qed

lemma write_head_ok:
  assumes "log_at s"
  shows "\<exists>t. write_head s = Inr t
    \<and> write_done s (head_at s) (head_bytes (bview s (head_at s)) (lg_n s) (lg_block s)) t"
proof -
  let ?f = "\<lambda>d. head_bytes d (lg_n s) (lg_block s)"
  have len: "length (?f d) = BSIZE" if "length d = BSIZE" for d
    using that assms by (intro head_bytes_ok(1)) (auto simp: log_at_def)
  obtain i s1 s2 t where r: "bread 1 (head_at s) s = Inr (i, s1)" and f: "bio_frame s s1"
    and w: "bwrite i (buf_upd i (\<lambda>x. x\<lparr>b_data := ?f (b_data x)\<rparr>) s1) = Inr s2" "brelse i s2 = Inr t"
      "write_done s (head_at s) (?f (bview s (head_at s))) t"
    by (rule write_block [OF head_can_read [OF assms], of ?f]) (erule len, rule that, assumption+)
  have "\<not> lg_n s > int (length (lg_block s))" using assms by (simp add: log_at_def LOGSIZE_def)
  then have "write_head s = Inr t"
    using assms r w(1,2) by (simp add: write_head_def head_at_def log_at_def klog_frame [OF f])
  with w(3) show ?thesis by blast
qed


section \<open>Committing\<close>

definition logged :: "'z klog_scheme \<Rightarrow> int list" where
  "logged s = take (nat (lg_n s)) (lg_block s)"

text \<open>The transaction in memory: the logged blocks are distinct, lie on the disk and outside the log.\<close>

definition txn_ok :: "'z klog_scheme \<Rightarrow> bool" where
  "txn_ok s \<longleftrightarrow> log_at s \<and> distinct (logged s)
     \<and> (\<forall>x \<in> set (logged s). 0 \<le> x \<and> nat x < length (disk s) \<and> \<not> in_log s (word_of_int x))"

definition pinned_logged :: "'z klog_scheme \<Rightarrow> bool" where
  "pinned_logged s \<longleftrightarrow> (\<forall>b. pinned s b \<longleftrightarrow> uint b \<in> set (logged s))"

lemma log_at_n: "log_at s \<Longrightarrow> nat (lg_n s) \<le> LOGSIZE - 1 \<and> nat (lg_n s) \<le> length (lg_block s)"
  by (auto simp: log_at_def LOGSIZE_def)

lemma home_ok:
  assumes "txn_ok s" and "k < nat (lg_n s)"
  shows "unat (home s k) = nat (lg_block s ! k)" "unat (home s k) < length (disk s)" "\<not> in_log s (home s k)"
    "uint (home s k) \<in> set (logged s)" "uint (home s k) = lg_block s ! k"
proof -
  have l: "log_at s" using assms by (simp add: txn_ok_def)
  have "lg_block s ! k = logged s ! k" using assms(2) by (simp add: logged_def)
  moreover have "k < length (logged s)" using assms(2) log_at_n [OF l] by (simp add: logged_def)
  ultimately have x: "lg_block s ! k \<in> set (logged s)" by simp
  then have b: "0 \<le> lg_block s ! k" "nat (lg_block s ! k) < length (disk s)" "\<not> in_log s (home s k)"
    using assms(1) by (auto simp: txn_ok_def home_def)
  moreover have "length (disk s) < 2 ^ 31" using l by (simp add: log_at_def)
  ultimately show u: "unat (home s k) = nat (lg_block s ! k)" unfolding home_def
    by (intro unat_word_of_int32) simp_all
  show "unat (home s k) < length (disk s)" unfolding u by (rule b)
  show "\<not> in_log s (home s k)" by (rule b)
  have "uint (home s k) = int (nat (lg_block s ! k))" unfolding u [symmetric] by simp
  with b(1) show "uint (home s k) = lg_block s ! k" by simp
  with x show "uint (home s k) \<in> set (logged s)" by simp
qed

lemma home_inj: "txn_ok s \<Longrightarrow> inj_on (home s) {..< nat (lg_n s)}"
proof (rule inj_onI)
  fix j k assume t: "txn_ok s" and j: "j \<in> {..< nat (lg_n s)}" and k: "k \<in> {..< nat (lg_n s)}"
    and e: "home s j = home s k"
  have l: "log_at s" and d: "distinct (logged s)" using t by (simp_all add: txn_ok_def)
  have "lg_block s ! j = lg_block s ! k"
    unfolding home_ok(5) [OF t, symmetric, of j, OF j [unfolded lessThan_iff]]
      home_ok(5) [OF t, symmetric, of k, OF k [unfolded lessThan_iff]] e ..
  then have "logged s ! j = logged s ! k" using j k by (simp add: logged_def)
  moreover have "j < length (logged s)" "k < length (logged s)"
    using j k log_at_n [OF l] by (auto simp: logged_def)
  ultimately show "j = k" using d by (simp add: nth_eq_iff_index_eq)
qed

lemma home_image:
  assumes "txn_ok s"
  shows "b \<in> home s ` {..< nat (lg_n s)} \<longleftrightarrow> uint b \<in> set (logged s)"
proof
  assume "b \<in> home s ` {..< nat (lg_n s)}"
  then show "uint b \<in> set (logged s)" using home_ok(4) [OF assms] by auto
next
  assume "uint b \<in> set (logged s)"
  then obtain k where k: "k < length (logged s)" "logged s ! k = uint b" by (auto simp: in_set_conv_nth)
  then have "k < nat (lg_n s)" "lg_block s ! k = uint b" by (simp_all add: logged_def)
  then have "home s k = b" by (simp add: home_def)
  with \<open>k < nat (lg_n s)\<close> show "b \<in> home s ` {..< nat (lg_n s)}" by auto
qed

lemma txn_copyable:
  assumes t: "txn_ok s" and p: "pinned_logged s \<or> 2 \<le> nfree s"
  shows "copyable s (home s) (\<lambda>k. log_blockno k s) (nat (lg_n s))"
    and "copyable s (\<lambda>k. log_blockno k s) (home s) (nat (lg_n s))"
proof -
  let ?n = "nat (lg_n s)" and ?L = "\<lambda>k. log_blockno k s"
  have l: "log_at s" using t by (simp add: txn_ok_def)
  have n: "k < LOGSIZE - 1" if "k < ?n" for k using log_at_n [OF l] that by simp
  have inj: "inj_on ?L {..< ?n}" using log_blockno_inj [OF l] n by (auto intro: inj_onI)
  have dis: "?L j \<noteq> home s k" if "j < ?n" "k < ?n" for j k
    using log_at_blocks(4) [OF l n [OF that(1)]] home_ok(3) [OF t that(2)] by auto
  have rng: "unat (?L k) < length (disk s)" if "k < ?n" for k
  proof -
    have "nat (lg_start s) + LOGSIZE \<le> length (disk s)" using l by (simp add: log_at_def)
    then show ?thesis using log_at_blocks(2) [OF l n [OF that]] n [OF that] by linarith
  qed
  have room: "2 \<le> nfree s \<or> 1 \<le> nfree s \<and> (\<forall>k < ?n. pinned s (home s k))"
    using p l home_ok(4) [OF t] by (auto simp: pinned_logged_def log_at_def)
  have D: "?L ` {..< ?n} \<inter> home s ` {..< ?n} = {}" using dis by fastforce
  then have D': "home s ` {..< ?n} \<inter> ?L ` {..< ?n} = {}" by blast
  have nb: "bio_inv s" "\<And>b. \<not> blocked s b" using l by (simp_all add: log_at_def)
  show "copyable s (home s) ?L ?n"
    unfolding copyable_def using nb inj D rng room home_ok(2) [OF t] by blast
  show "copyable s ?L (home s) ?n"
    unfolding copyable_def using nb home_inj [OF t] D' rng room home_ok(2) [OF t] by blast
qed

lemma log_at_after:
  assumes "log_at s" and "bio_inv t" and "bio_frame s t" and "blocked t = blocked s"
    and "nfree s \<le> nfree t" and "length (disk t) = length (disk s)"
  shows "log_at t"
  using assms by (auto simp: log_at_def klog_frame [OF assms(3)])

lemma log_frame:
  assumes "bio_frame s t"
  shows "head_at t = head_at s" "in_log t = in_log s" "logged t = logged s" "home t = home s"
    "log_blockno k t = log_blockno k s"
  using klog_frame [OF assms]
  by (simp_all add: head_at_def in_log_def logged_def home_def log_blockno_def fun_eq_iff)

lemma txn_after:
  assumes t: "txn_ok s" and "bio_inv u" and f: "bio_frame s u" and "blocked u = blocked s"
    and "nfree s \<le> nfree u" and d: "length (disk u) = length (disk s)"
  shows "txn_ok u"
proof -
  have "log_at u" using assms by (intro log_at_after [of s u]) (simp_all add: txn_ok_def)
  with t d show ?thesis by (simp add: txn_ok_def log_frame [OF f])
qed

lemma copies_txn: "txn_ok s \<Longrightarrow> copies s src dst n u \<Longrightarrow> txn_ok u"
  by (rule txn_after [of s]) (simp_all add: copies_def)

lemma write_done_txn: "txn_ok s \<Longrightarrow> write_done s b v u \<Longrightarrow> txn_ok u"
  by (rule txn_after [of s]) (simp_all add: write_done_def)

text \<open>What the cache shows depends on the buffers, their order and the disk only.\<close>

lemma bio_cong:
  fixes s :: "'a kbio_scheme" and t :: "'b kbio_scheme"
  assumes "bufs t = bufs s" and "mru t = mru s" and "disk t = disk s"
  shows "bview t = bview s" "pinned t = pinned s" "blocked t = blocked s" "nfree t = nfree s"
    "free_buf t = free_buf s"
    and "cur t = cur s \<Longrightarrow> length (ptable t) = length (ptable s) \<Longrightarrow> bio_inv t = bio_inv s"
  unfolding fun_eq_iff bview_def pinned_def blocked_def nfree_def free_buf_def bfind_def bio_inv_def assms
  by simp_all

lemma lg_upd_bio [simp]:
  fixes s :: "'z klog_scheme"
  shows "bio_inv (s\<lparr>lg_n := n\<rparr>) = bio_inv s" "bview (s\<lparr>lg_n := n\<rparr>) = bview s"
    "pinned (s\<lparr>lg_n := n\<rparr>) = pinned s" "blocked (s\<lparr>lg_n := n\<rparr>) = blocked s" "nfree (s\<lparr>lg_n := n\<rparr>) = nfree s"
    "bio_inv (s\<lparr>lg_block := bs\<rparr>) = bio_inv s" "bview (s\<lparr>lg_block := bs\<rparr>) = bview s"
    "pinned (s\<lparr>lg_block := bs\<rparr>) = pinned s" "blocked (s\<lparr>lg_block := bs\<rparr>) = blocked s"
    "nfree (s\<lparr>lg_block := bs\<rparr>) = nfree s"
  by (rule bio_cong; simp)+

lemma bio_frame_lg:
  fixes s t :: "'z klog_scheme"
  shows "bio_frame s t \<Longrightarrow> bio_frame (s\<lparr>lg_n := n\<rparr>) (t\<lparr>lg_n := n\<rparr>)"
    "bio_frame s t \<Longrightarrow> bio_frame (s\<lparr>lg_block := bs\<rparr>) (t\<lparr>lg_block := bs\<rparr>)"
  by (cases s; cases t; simp add: bio_frame_def)+

text \<open>The block writes of a commit, in order: the copies to the log, the header, the copies to the home
  locations, the empty header.\<close>

definition commit_writes :: "'z klog_scheme \<Rightarrow> (nat \<times> u8 list) list" where
  "commit_writes s =
     (let n = nat (lg_n s); h = unat (head_at s);
          H = head_bytes (bview s (head_at s)) (lg_n s) (lg_block s)
      in copy_writes (bview s) (home s) (\<lambda>k. log_blockno k s) n @ [(h, H)]
         @ copy_writes (bview s) (home s) (home s) n @ [(h, head_bytes H 0 [])])"

definition commit_done :: "'z klog_scheme \<Rightarrow> 'z klog_scheme \<Rightarrow> bool" where
  "commit_done s u \<longleftrightarrow> log_at u \<and> (\<forall>b. \<not> in_log s b \<longrightarrow> bview u b = bview s b) \<and> (\<forall>b. \<not> pinned u b)
     \<and> disk u = apply_writes (commit_writes s) (disk s) \<and> disk_writes u = disk_writes s @ commit_writes s
     \<and> bio_frame (s\<lparr>lg_n := 0\<rparr>) u"

lemma copy_writes_cong:
  "(\<And>k. k < n \<Longrightarrow> v (src k) = v' (src' k)) \<Longrightarrow> copy_writes v src dst n = copy_writes v' src' dst n"
  by (simp add: copy_writes_def)

lemma commit_ok:
  assumes t: "txn_ok s" and p: "pinned_logged s" and n: "0 < lg_n s"
  shows "\<exists>u. commit s = Inr u \<and> commit_done s u"
proof -
  let ?n = "nat (lg_n s)" and ?L = "\<lambda>k. log_blockno k s" and ?h = "head_at s"
  let ?H = "head_bytes (bview s ?h) (lg_n s) (lg_block s)"
  have l: "log_at s" using t by (simp add: txn_ok_def)
  have nl: "k < LOGSIZE - 1" if "k < ?n" for k using log_at_n [OF l] that by simp
  have dev: "lg_dev s = 1" using l by (simp add: log_at_def)
  have pl: "pinned s b \<longleftrightarrow> b \<in> home s ` {..< ?n}" for b
    using p home_image [OF t] by (simp add: pinned_logged_def)
  have in_L: "in_log s (?L k)" if "k < ?n" for k using log_at_blocks(4) [OF l nl [OF that]] .
  have nh: "home s k \<noteq> ?L j" "home s k \<noteq> ?h" if "k < ?n" "j < ?n" for j k
    using home_ok(3) [OF t that(1)] in_L [OF that(2)] log_at_blocks(3) [OF l nl [OF that(1)]] by auto
  have hh: "?h \<notin> home s ` {..< ?n}" using nh by force
  have hL: "?h \<notin> ?L ` {..< ?n}" using log_at_blocks(5) [OF l nl] by force
  obtain s1 where s1: "write_log s = Inr s1" and c1: "copies s (home s) ?L ?n s1"
    using write_log_ok [OF dev log_at_n [OF l, THEN conjunct2] txn_copyable(1) [OF t]] p by blast
  have f1: "bio_frame s s1" using c1 by (simp add: copies_def)
  have t1: "txn_ok s1" by (rule copies_txn [OF t c1])
  have v1: "bview s1 ?h = bview s ?h" using c1 hL by (simp add: copies_def)
  obtain s2 where s2: "write_head s1 = Inr s2" and c2: "write_done s1 ?h ?H s2"
    using write_head_ok [of s1] t1 v1 by (auto simp: txn_ok_def log_frame [OF f1] klog_frame [OF f1])
  have f2: "bio_frame s s2" using c2 bio_frame_trans [OF f1] by (simp add: write_done_def)
  have t2: "txn_ok s2" by (rule write_done_txn [OF t1 c2])
  have p2: "pinned s2 b = pinned s b" for b
    using c1 c2 pl nh n by (auto simp: copies_def write_done_def)
  then have p2': "pinned_logged s2" using p by (simp add: pinned_logged_def log_frame [OF f2])
  obtain s3 where s3: "install_trans s2 = Inr s3" and c3: "copies s2 ?L (home s) ?n s3"
    using install_trans_ok [of s2] txn_copyable(2) [OF t2] p2' log_at_n [of s2] t2 dev
    by (auto simp: log_frame [OF f2] klog_frame [OF f2] txn_ok_def)
  have f3: "bio_frame s s3" using c3 bio_frame_trans [OF f2] by (simp add: copies_def)
  have t3: "txn_ok s3" by (rule copies_txn [OF t2 c3])
  have v2: "bview s2 (?L k) = bview s (home s k)" if "k < ?n" for k
    using c1 c2 log_at_blocks(5) [OF l nl [OF that]] that by (simp add: copies_def write_done_def)
  have v3: "bview s3 ?h = ?H" using c2 c3 hh by (simp add: copies_def write_done_def)
  have H0: "head_bytes d 0 bs = head_bytes d 0 []" for d bs by (simp add: head_bytes_def)
  have "log_at (s3\<lparr>lg_n := 0\<rparr>)" using t3 by (simp add: txn_ok_def log_at_def LOGSIZE_def)
  from write_head_ok [OF this] obtain u where u: "write_head (s3\<lparr>lg_n := 0\<rparr>) = Inr u"
    and c4: "write_done (s3\<lparr>lg_n := 0\<rparr>) ?h (head_bytes ?H 0 []) u"
    using v3 H0 [of _ "lg_block s"] by (auto simp: head_at_def klog_frame [OF f3])
  have "commit_done s u" unfolding commit_done_def
  proof (intro conjI)
    show f4: "bio_frame (s\<lparr>lg_n := 0\<rparr>) u"
      using bio_frame_trans [OF bio_frame_lg(1) [OF f3]] c4 by (simp add: write_done_def)
    show "log_at u" using \<open>log_at (s3\<lparr>lg_n := 0\<rparr>)\<close> c4
      by (intro log_at_after [of "s3\<lparr>lg_n := 0\<rparr>" u]) (simp_all add: write_done_def)
    show "\<forall>b. \<not> pinned u b" using c3 c4 p2 pl by (auto simp: copies_def write_done_def)
    show "\<forall>b. \<not> in_log s b \<longrightarrow> bview u b = bview s b"
    proof (intro allI impI)
      fix b assume b: "\<not> in_log s b"
      then have bh: "b \<noteq> ?h" "b \<notin> ?L ` {..< ?n}" using in_L log_at_blocks(3) [OF l, of 0] by (auto simp: LOGSIZE_def)
      then have "bview u b = bview s3 b" using c4 by (simp add: write_done_def)
      also have "\<dots> = bview s b"
      proof (cases "b \<in> home s ` {..< ?n}")
        case True
        then obtain k where "k < ?n" "b = home s k" by auto
        then show ?thesis using c3 v2 by (simp add: copies_def)
      next
        case False
        then show ?thesis using c1 c2 c3 bh by (simp add: copies_def write_done_def)
      qed
      finally show "bview u b = bview s b" .
    qed
    have w3: "copy_writes (bview s2) ?L (home s) ?n = copy_writes (bview s) (home s) (home s) ?n"
      using v2 by (rule copy_writes_cong)
    show "disk u = apply_writes (commit_writes s) (disk s)"
      "disk_writes u = disk_writes s @ commit_writes s"
      using c1 c2 c3 c4 w3 by (simp_all add: copies_def write_done_def commit_writes_def Let_def)
  qed
  moreover have "commit s = Inr u" using n s1 s2 s3 u by (simp add: commit_def)
  ultimately show ?thesis by blast
qed

section \<open>Recovery\<close>

text \<open>A machine after boot: nothing is in the cache that is not on the disk.\<close>

definition booted :: "'z klog_scheme \<Rightarrow> bool" where
  "booted s \<longleftrightarrow> log_at (s\<lparr>lg_n := 0\<rparr>) \<and> (\<forall>b. \<not> pinned s b) \<and> 2 \<le> nfree s"

lemma booted_view: "booted s \<Longrightarrow> bview s b = disk s ! unat b"
  using view_clean [of s b] by (simp add: booted_def log_at_def)

lemma head_at_lg [simp]: "head_at (s\<lparr>lg_n := n\<rparr>) = head_at s" "head_at (s\<lparr>lg_block := bs\<rparr>) = head_at s"
  by (simp_all add: head_at_def)

lemma booted_head: "booted s \<Longrightarrow> unat (head_at s) = nat (lg_start s)"
  using log_at_blocks(1) [of "s\<lparr>lg_n := 0\<rparr>" 0] by (simp add: booted_def LOGSIZE_def)

lemma brelse_lg:
  fixes s :: "'z klog_scheme"
  assumes "brelse i s = Inr t"
  shows "brelse i (s\<lparr>lg_n := n, lg_block := bs\<rparr>) = Inr (t\<lparr>lg_n := n, lg_block := bs\<rparr>)"
  using assms
  by (cases s) (auto simp: brelse_def releasesleep_def wakeup_def wakeup1_def buf_upd_def Let_def split: if_splits)

text \<open>The header as it is read back.\<close>

definition with_head :: "u8 list \<Rightarrow> 'z klog_scheme \<Rightarrow> 'z klog_scheme" where
  "with_head d s = s\<lparr>lg_n := head_n d,
     lg_block := map (head_block d) [0 ..< nat (head_n d)] @ drop (nat (head_n d)) (lg_block s)\<rparr>"

lemma with_head_simps [simp]:
  "bview (with_head d s) = bview s" "pinned (with_head d s) = pinned s" "blocked (with_head d s) = blocked s"
  "nfree (with_head d s) = nfree s" "bio_inv (with_head d s) = bio_inv s" "disk (with_head d s) = disk s"
  "disk_writes (with_head d s) = disk_writes s" "lg_n (with_head d s) = head_n d" "lg_dev (with_head d s) = lg_dev s"
  "lg_start (with_head d s) = lg_start s" "head_at (with_head d s) = head_at s"
  "log_blockno k (with_head d s) = log_blockno k s" "in_log (with_head d s) = in_log s"
  by (simp_all add: with_head_def log_blockno_def in_log_def fun_eq_iff)

lemma home_with_head: "k < nat (head_n d) \<Longrightarrow> home (with_head d s) k = word_of_int (head_block d k)"
  by (simp add: home_def with_head_def nth_append)

lemma read_head_ok:
  assumes b: "booted s" and d: "d = disk s ! nat (lg_start s)" and n: "head_n d \<le> int LOGSIZE"
  obtains u where "read_head s = Inr (with_head d u)" and "same_bio s u"
proof -
  have l: "log_at (s\<lparr>lg_n := 0\<rparr>)" using b by (simp add: booted_def)
  have "can_read (s\<lparr>lg_n := 0\<rparr>) (head_at s)" using head_can_read [OF l] by simp
  then have can: "can_read s (head_at s)" by (simp add: can_read_def bio_cong(5) [of "s\<lparr>lg_n := 0\<rparr>" s])
  obtain i s1 u where r: "bread 1 (head_at s) s = Inr (i, s1)" "b_data (bufs s1 ! i) = bview s (head_at s)"
    "brelse i s1 = Inr u" "same_bio s u"
    by (rule read_block [OF can]) (rule that, assumption+)
  have f: "bio_frame s s1" by (rule bread_frame [OF r(1)])
  have v: "bview s (head_at s) = d" using booted_view [OF b] booted_head [OF b] d by simp
  have dev: "lg_dev s = 1" using l by (simp add: log_at_def)
  have f': "bio_frame s u" using r(4) by (simp add: same_bio_def)
  have "read_head s = brelse i (s1\<lparr>lg_n := head_n d,
      lg_block := map (head_block d) [0 ..< nat (head_n d)] @ drop (nat (head_n d)) (lg_block s)\<rparr>)"
    using r(1,2) n v dev by (simp add: read_head_def head_at_def klog_frame [OF f] Let_def)
  also have "\<dots> = Inr (with_head d u)"
    using brelse_lg [OF r(3)] by (simp add: with_head_def klog_frame [OF f'])
  finally show thesis using r(4) by (rule that)
qed

text \<open>The header names a transaction that can be installed.\<close>

definition head_ok :: "u8 list \<Rightarrow> 'z klog_scheme \<Rightarrow> bool" where
  "head_ok d s \<longleftrightarrow> 0 \<le> head_n d \<and> head_n d \<le> int LOGSIZE - 1
     \<and> distinct (map (head_block d) [0 ..< nat (head_n d)])
     \<and> (\<forall>k < nat (head_n d). 0 \<le> head_block d k \<and> nat (head_block d k) < length (disk s)
          \<and> \<not> in_log s (word_of_int (head_block d k)))"

lemma with_head_txn:
  assumes b: "booted s" and h: "head_ok d s"
  shows "txn_ok (with_head d s)"
proof -
  have "length (lg_block s) = LOGSIZE" using b by (simp add: booted_def log_at_def)
  then have "length (lg_block (with_head d s)) = LOGSIZE"
    using h by (auto simp: with_head_def head_ok_def LOGSIZE_def)
  then have "log_at (with_head d s)" using b h by (simp add: booted_def log_at_def head_ok_def)
  moreover have "logged (with_head d s) = map (head_block d) [0 ..< nat (head_n d)]"
    by (simp add: logged_def) (simp add: with_head_def)
  ultimately show ?thesis using h by (auto simp: txn_ok_def head_ok_def)
qed

definition recover_writes :: "u8 list \<Rightarrow> 'z klog_scheme \<Rightarrow> (nat \<times> u8 list) list" where
  "recover_writes d s =
     copy_writes (\<lambda>b. disk s ! unat b) (\<lambda>k. log_blockno k s) (\<lambda>k. word_of_int (head_block d k)) (nat (head_n d))
     @ [(nat (lg_start s), head_bytes d 0 [])]"

lemma recover_ok:
  assumes b: "booted s" and d: "d = disk s ! nat (lg_start s)" and h: "head_ok d s"
  shows "\<exists>u. recover_from_log s = Inr u \<and> booted u \<and> lg_n u = 0
    \<and> disk u = apply_writes (recover_writes d s) (disk s) \<and> disk_writes u = disk_writes s @ recover_writes d s
    \<and> lg_start u = lg_start s \<and> lg_size u = lg_size s"
proof -
  have "head_n d \<le> int LOGSIZE" using h by (simp add: head_ok_def)
  with b d obtain v where v: "read_head s = Inr (with_head d v)" and sb: "same_bio s v" by (rule read_head_ok)
  let ?v = "with_head d v" and ?n = "nat (head_n d)" and ?h = "head_at s"
  have f: "bio_frame s v" using sb by (simp add: same_bio_def)
  note kf = klog_frame [OF f] log_frame [OF f]
  have bv: "booted v"
    using b sb log_at_after [of "s\<lparr>lg_n := 0\<rparr>" "v\<lparr>lg_n := 0\<rparr>"] bio_frame_lg(1) [OF f, of 0]
    by (auto simp: booted_def same_bio_def)
  have t: "txn_ok ?v" using bv h sb by (intro with_head_txn) (simp_all add: head_ok_def kf same_bio_def)
  have l: "log_at ?v" and nv: "lg_n ?v = head_n d" using t by (simp_all add: txn_ok_def)
  have "2 \<le> nfree ?v" using bv by (simp add: booted_def)
  with install_trans_ok [of ?v] txn_copyable(2) [OF t] l log_at_n [OF l]
  obtain w where w: "install_trans ?v = Inr w" and c: "copies ?v (\<lambda>k. log_blockno k s) (home ?v) ?n w"
    by (auto simp: log_at_def kf)
  have fw: "bio_frame ?v w" using c by (simp add: copies_def)
  note kw = klog_frame [OF fw] log_frame [OF fw]
  have l0: "log_at (w\<lparr>lg_n := 0\<rparr>)"
    using copies_txn [OF t c] by (simp add: txn_ok_def log_at_def LOGSIZE_def)
  have "?h \<notin> home ?v ` {..< ?n}"
    using home_ok(3) [OF t] log_at_blocks(3) [OF l, of 0] by (auto simp: LOGSIZE_def kf)
  then have vh: "bview w ?h = d"
    using c sb booted_view [OF b] booted_head [OF b] d by (simp add: copies_def same_bio_def)
  have H: "head_bytes d 0 bs = head_bytes d 0 []" for bs by (simp add: head_bytes_def)
  from write_head_ok [OF l0] obtain u where u: "write_head (w\<lparr>lg_n := 0\<rparr>) = Inr u"
    and c4: "write_done (w\<lparr>lg_n := 0\<rparr>) ?h (head_bytes d 0 []) u"
    using vh H [of "lg_block w"] by (auto simp: kw kf)
  have fu: "bio_frame (w\<lparr>lg_n := 0\<rparr>) u" using c4 by (simp add: write_done_def)
  note ku = klog_frame [OF fu]
  have lu: "log_at u" using l0 c4 by (intro log_at_after [of "w\<lparr>lg_n := 0\<rparr>" u]) (simp_all add: write_done_def)
  have n0: "lg_n u = 0" by (simp add: ku)
  then have "u\<lparr>lg_n := 0\<rparr> = u" by (cases u) simp
  moreover have "\<forall>b. \<not> pinned u b" "2 \<le> nfree u"
    using c c4 bv by (auto simp: booted_def copies_def write_done_def)
  ultimately have bu: "booted u" using lu by (simp add: booted_def)
  have w2: "copy_writes (bview ?v) (\<lambda>k. log_blockno k s) (home ?v) ?n
      = copy_writes (\<lambda>b. disk s ! unat b) (\<lambda>k. log_blockno k s) (\<lambda>k. word_of_int (head_block d k)) ?n"
    using sb booted_view [OF b] by (simp add: copy_writes_def home_with_head same_bio_def)
  have "disk u = apply_writes (recover_writes d s) (disk s)" "disk_writes u = disk_writes s @ recover_writes d s"
    using c c4 w2 sb booted_head [OF b] by (simp_all add: copies_def write_done_def recover_writes_def same_bio_def)
  moreover have "recover_from_log s = Inr u" using v w u by (simp add: recover_from_log_def)
  ultimately show ?thesis using bu n0 by (auto simp: ku kw kf with_head_def)
qed

section \<open>Crashes\<close>

lemma length_copy_writes [simp]: "length (copy_writes v src dst n) = n"
  by (simp add: copy_writes_def)

lemma copy_writes_other:
  assumes "\<And>j. j < n \<Longrightarrow> i \<noteq> unat (dst j)"
  shows "apply_writes (take k (copy_writes v src dst n)) D ! i = D ! i"
proof -
  have "fst ` set (take k (copy_writes v src dst n)) \<subseteq> (\<lambda>j. unat (dst j)) ` {..< n}"
    by (auto simp: copy_writes_def dest!: in_set_takeD)
  then show ?thesis using assms by (intro apply_writes_other) auto
qed

lemma copy_writes_at:
  assumes "inj_on dst {..< n}" and "j < n" and "unat (dst j) < length D"
  shows "apply_writes (copy_writes v src dst n) D ! unat (dst j) = v (src j)"
proof (rule apply_writes_at [OF _ _ assms(3)])
  show "(unat (dst j), v (src j)) \<in> set (copy_writes v src dst n)"
    using assms(2) by (auto simp: copy_writes_def)
  have "inj_on (\<lambda>j. unat (dst j)) (set [0 ..< n])"
    using assms(1) by (auto simp: inj_on_def word_unat_eq_iff)
  then show "distinct (map fst (copy_writes v src dst n))"
    by (simp add: copy_writes_def comp_def distinct_map)
qed

text \<open>What recovery makes of the blocks outside the log.\<close>

lemma recover_blocks:
  assumes b: "booted s" and d: "d = disk s ! nat (lg_start s)" and h: "head_ok d s"
  obtains u where "recover_from_log s = Inr u" and "booted u" and "lg_n u = 0"
    and "\<And>j. j < nat (head_n d) \<Longrightarrow>
      disk u ! unat (word_of_int (head_block d j) :: u32) = disk s ! unat (log_blockno j s)"
    and "\<And>x. \<not> in_log s x \<Longrightarrow> (\<And>j. j < nat (head_n d) \<Longrightarrow> x \<noteq> word_of_int (head_block d j)) \<Longrightarrow>
      disk u ! unat x = disk s ! unat x"
proof -
  let ?dst = "\<lambda>j. word_of_int (head_block d j) :: u32" and ?n = "nat (head_n d)"
  obtain u where u: "recover_from_log s = Inr u" "booted u" "lg_n u = 0"
    and du: "disk u = apply_writes (recover_writes d s) (disk s)"
    using recover_ok [OF assms] by blast
  have t: "txn_ok (with_head d s)" by (rule with_head_txn [OF b h])
  then have l: "log_at (with_head d s)" by (simp add: txn_ok_def)
  have hm: "home (with_head d s) j = ?dst j" if "j < ?n" for j using that by (rule home_with_head)
  have inj: "inj_on ?dst {..< ?n}"
    using home_inj [OF t] hm by (simp add: inj_on_def)
  have inl: "in_log s (head_at s)" using log_at_blocks(3) [OF l, of 0] by (simp add: LOGSIZE_def)
  have ne: "unat x \<noteq> nat (lg_start s)" if "\<not> in_log s x" for x
    using that inl by (auto simp: in_log_def LOGSIZE_def)
  have nl: "\<not> in_log s (?dst j)" "unat (?dst j) < length (disk s)" if "j < ?n" for j
    using home_ok(2,3) [OF t, of j] that hm by simp_all
  have out: "disk u ! unat x = apply_writes (copy_writes (\<lambda>b. disk s ! unat b) (\<lambda>k. log_blockno k s) ?dst ?n) (disk s) ! unat x"
    if "\<not> in_log s x" for x
    using ne [OF that] by (simp add: du recover_writes_def)
  show thesis
  proof (rule that [OF u])
    show "disk u ! unat (?dst j) = disk s ! unat (log_blockno j s)" if "j < ?n" for j
      unfolding out [OF nl(1) [OF that]] using inj that nl(2) [OF that] by (rule copy_writes_at)
    show "disk u ! unat x = disk s ! unat x" if "\<not> in_log s x" "\<And>j. j < ?n \<Longrightarrow> x \<noteq> ?dst j" for x
      unfolding out [OF that(1)] using that(2) copy_writes_other [of ?n "unat x" ?dst ?n]
      by (simp add: word_unat_eq_iff)
  qed
qed

lemma head_empty_ok: "head_n d = 0 \<Longrightarrow> head_ok d s"
  by (simp add: head_ok_def LOGSIZE_def)

lemma recover_empty:
  assumes b: "booted r" and "head_n (disk r ! nat (lg_start r)) = 0"
  obtains u where "recover_from_log r = Inr u" and "booted u" and "lg_n u = 0"
    and "\<And>x. \<not> in_log r x \<Longrightarrow> disk u ! unat x = disk r ! unat x"
  using recover_blocks [OF b refl head_empty_ok [OF assms(2)]] assms(2) by (metis less_nat_zero_code nat_0)

text \<open>The disk after the commit point: the log holds the new contents and the header names their
  home blocks, whatever part of them has been installed since.\<close>

definition committed_disk :: "'z klog_scheme \<Rightarrow> u8 list list \<Rightarrow> bool" where
  "committed_disk s D \<longleftrightarrow> length D = length (disk s)
     \<and> D ! unat (head_at s) = head_bytes (bview s (head_at s)) (lg_n s) (lg_block s)
     \<and> (\<forall>k < nat (lg_n s). D ! unat (log_blockno k s) = bview s (home s k))
     \<and> (\<forall>x. \<not> in_log s x \<longrightarrow> x \<notin> home s ` {..< nat (lg_n s)} \<longrightarrow> D ! unat x = bview s x)"

lemma header_of_txn:
  assumes t: "txn_ok s" and len: "length (bview s (head_at s)) = BSIZE"
  defines "H \<equiv> head_bytes (bview s (head_at s)) (lg_n s) (lg_block s)"
  shows "head_n H = lg_n s" and "\<And>k. k < nat (lg_n s) \<Longrightarrow> head_block H k = lg_block s ! k"
    and "length H = BSIZE" and "head_n (head_bytes H 0 []) = 0"
proof -
  have l: "log_at s" using t by (simp add: txn_ok_def)
  have n: "0 \<le> lg_n s" "nat (lg_n s) \<le> length (lg_block s)" "length (lg_block s) = LOGSIZE"
    using l log_at_n [OF l] by (simp_all add: log_at_def)
  show "head_n H = lg_n s" "length H = BSIZE" unfolding H_def using head_bytes_ok [OF len n] by simp_all
  show "head_block H k = lg_block s ! k" if k: "k < nat (lg_n s)" for k
  proof -
    have "lg_block s ! k \<in> set (logged s)" using home_ok(4,5) [OF t k] by simp
    then have "0 \<le> lg_block s ! k" "lg_block s ! k < 2 ^ 31"
      using t by (auto simp: txn_ok_def log_at_def)
    then show ?thesis unfolding H_def using head_bytes_ok(3) [OF len n k] by simp
  qed
  have "length (replicate LOGSIZE (0 :: int)) = LOGSIZE" by simp
  from head_bytes_ok(2) [OF \<open>length H = BSIZE\<close>, of 0 "replicate LOGSIZE 0"]
  have "head_n (head_bytes H 0 (replicate LOGSIZE 0)) = 0" by simp
  then show "head_n (head_bytes H 0 []) = 0" by (simp add: head_bytes_def)
qed

lemma recover_committed:
  assumes t: "txn_ok s" and b: "booted r" and st: "lg_start r = lg_start s"
    and D: "committed_disk s (disk r)" and len: "length (bview s (head_at s)) = BSIZE"
  obtains u where "recover_from_log r = Inr u" and "booted u" and "lg_n u = 0"
    and "\<And>x. \<not> in_log s x \<Longrightarrow> unat x < length (disk s) \<Longrightarrow> disk u ! unat x = bview s x"
proof -
  let ?H = "head_bytes (bview s (head_at s)) (lg_n s) (lg_block s)" and ?n = "nat (lg_n s)"
  have l: "log_at s" using t by (simp add: txn_ok_def)
  note H = header_of_txn [OF t len]
  have hd: "disk r ! nat (lg_start r) = ?H"
    using D log_at_blocks(1) [OF l, of 0] st by (simp add: committed_disk_def LOGSIZE_def)
  have il: "in_log r = in_log s" "\<And>k. log_blockno k r = log_blockno k s"
    using st by (simp_all add: in_log_def log_blockno_def fun_eq_iff)
  have hb: "head_block ?H k = lg_block s ! k" "word_of_int (head_block ?H k) = home s k" if "k < ?n" for k
    using H(2) [OF that] by (simp_all add: home_def)
  have logged: "map (head_block ?H) [0 ..< ?n] = logged s"
    using H(2) log_at_n [OF l] by (auto simp: logged_def intro!: nth_equalityI)
  have "head_ok ?H r" unfolding head_ok_def
  proof (intro conjI allI impI)
    show "distinct (map (head_block ?H) [0 ..< nat (head_n ?H)])" using t logged H(1) by (simp add: txn_ok_def)
    fix k assume "k < nat (head_n ?H)"
    then have k: "k < ?n" using H(1) by simp
    have "lg_block s ! k \<in> set (logged s)" using home_ok(4,5) [OF t k] by simp
    then show "0 \<le> head_block ?H k" "nat (head_block ?H k) < length (disk r)"
      "\<not> in_log r (word_of_int (head_block ?H k))"
      using t D hb(1) [OF k] il by (auto simp: txn_ok_def committed_disk_def)
  qed (use l H(1) in \<open>simp_all add: log_at_def\<close>)
  from recover_blocks [OF b hd [symmetric] this] obtain u where u: "recover_from_log r = Inr u" "booted u" "lg_n u = 0"
    and c1: "\<And>j. j < nat (head_n ?H) \<Longrightarrow> disk u ! unat (word_of_int (head_block ?H j) :: u32) = disk r ! unat (log_blockno j r)"
    and c2: "\<And>x. \<not> in_log r x \<Longrightarrow> (\<And>j. j < nat (head_n ?H) \<Longrightarrow> x \<noteq> word_of_int (head_block ?H j)) \<Longrightarrow>
      disk u ! unat x = disk r ! unat x"
    by metis
  show thesis
  proof (rule that [OF u])
    fix x assume x: "\<not> in_log s x"
    show "disk u ! unat x = bview s x"
    proof (cases "x \<in> home s ` {..< ?n}")
      case True
      then obtain k where k: "k < ?n" "x = home s k" by auto
      with c1 [of k] H(1) hb(2) [OF k(1)] il D show ?thesis by (simp add: committed_disk_def)
    next
      case False
      then have "disk u ! unat x = disk r ! unat x"
        using x il hb(2) H(1) by (intro c2) auto
      with D x False show ?thesis by (simp add: committed_disk_def)
    qed
  qed
qed

text \<open>The three parts of a commit's writes.\<close>

lemma commit_writes_take:
  assumes "k \<le> length (commit_writes s)"
  defines "n \<equiv> nat (lg_n s)" and "h \<equiv> unat (head_at s)"
    and "H \<equiv> head_bytes (bview s (head_at s)) (lg_n s) (lg_block s)"
    and "W1 \<equiv> copy_writes (bview s) (home s) (\<lambda>k. log_blockno k s) (nat (lg_n s))"
    and "W2 \<equiv> copy_writes (bview s) (home s) (home s) (nat (lg_n s))"
  shows "take k (commit_writes s) =
    (if k \<le> n then take k W1
     else if k \<le> 2 * n + 1 then W1 @ (h, H) # take (k - n - 1) W2
     else W1 @ (h, H) # W2 @ [(h, head_bytes H 0 [])])"
proof -
  have c: "commit_writes s = W1 @ (h, H) # W2 @ [(h, head_bytes H 0 [])]" and l: "length W1 = n" "length W2 = n"
    by (simp_all add: commit_writes_def Let_def n_def h_def H_def W1_def W2_def)
  consider "k \<le> n" | "n < k" "k \<le> 2 * n + 1" | "k = 2 * n + 2"
    using assms(1) c l by force
  then show ?thesis
  proof cases
    case 2
    then obtain m where m: "k - n = Suc m" "m \<le> n" by (cases "k - n") auto
    with 2 show ?thesis by (simp add: c l)
  qed (simp_all add: c l)
qed

lemma clean_view:
  assumes "txn_ok s" and "pinned_logged s" and "x \<notin> home s ` {..< nat (lg_n s)}"
  shows "bview s x = disk s ! unat x"
  using assms view_clean [of s x] home_image [OF assms(1), of x]
  by (auto simp: pinned_logged_def txn_ok_def log_at_def)

lemma txn_disjoint:
  assumes t: "txn_ok s" and k: "k < nat (lg_n s)"
  shows "\<And>x. \<not> in_log s x \<Longrightarrow> unat x \<noteq> unat (log_blockno k s) \<and> unat x \<noteq> unat (head_at s)"
    and "\<And>x. in_log s x \<Longrightarrow> unat x \<noteq> unat (home s k)"
    and "unat (log_blockno k s) < length (disk s)" and "unat (head_at s) \<noteq> unat (log_blockno k s)"
    and "unat (head_at s) < length (disk s)"
proof -
  have l: "log_at s" using t by (simp add: txn_ok_def)
  have k': "k < LOGSIZE - 1" using log_at_n [OF l] k by simp
  note lb = log_at_blocks [OF l k']
  show "\<And>x. \<not> in_log s x \<Longrightarrow> unat x \<noteq> unat (log_blockno k s) \<and> unat x \<noteq> unat (head_at s)"
    using lb(3,4) by (metis word_unat_eq_iff)
  show "\<And>x. in_log s x \<Longrightarrow> unat x \<noteq> unat (home s k)" using home_ok(3) [OF t k] by (metis word_unat_eq_iff)
  have "nat (lg_start s) + LOGSIZE \<le> length (disk s)" using l by (simp add: log_at_def)
  then show "unat (log_blockno k s) < length (disk s)" "unat (head_at s) < length (disk s)"
    using lb(1,2) k' by linarith+
  show "unat (head_at s) \<noteq> unat (log_blockno k s)" using lb(5) by (metis word_unat_eq_iff)
qed

lemma crash_committed:
  assumes t: "txn_ok s" and p: "pinned_logged s" and n: "0 < lg_n s"
  defines "W1 \<equiv> copy_writes (bview s) (home s) (\<lambda>k. log_blockno k s) (nat (lg_n s))"
    and "W2 \<equiv> copy_writes (bview s) (home s) (home s) (nat (lg_n s))"
    and "H \<equiv> head_bytes (bview s (head_at s)) (lg_n s) (lg_block s)"
  shows "committed_disk s (apply_writes (W1 @ (unat (head_at s), H) # take m W2) (disk s))"
proof -
  let ?n = "nat (lg_n s)" and ?h = "unat (head_at s)" and ?D = "apply_writes W1 (disk s)"
  let ?E = "apply_writes (W1 @ (?h, H) # take m W2) (disk s)"
  have E: "?E = apply_writes (take m W2) (?D[?h := H])" by simp
  have l: "log_at s" using t by (simp add: txn_ok_def)
  note dj = txn_disjoint [OF t]
  have n0: "0 < ?n" using n by simp
  have inl: "in_log s (head_at s)" "\<And>k. k < ?n \<Longrightarrow> in_log s (log_blockno k s)"
    using log_at_blocks(3) [OF l, of 0] log_at_blocks(4) [OF l] log_at_n [OF l] by (auto simp: LOGSIZE_def)
  have other: "?E ! i = ?D[?h := H] ! i" if "\<And>j. j < ?n \<Longrightarrow> i \<noteq> unat (home s j)" for i
    using copy_writes_other [OF that, where k = m and D = "?D[?h := H]"] by (simp add: E W2_def)
  have "?E ! ?h = H" using other [of ?h] dj(2) [OF _ inl(1)] dj(5) [OF n0] by simp
  moreover have "?E ! unat (log_blockno k s) = bview s (home s k)" if k: "k < ?n" for k
  proof -
    have inj: "inj_on (\<lambda>k. log_blockno k s) {..< ?n}"
      using log_blockno_inj [OF l] log_at_n [OF l] by (auto intro: inj_onI)
    have "?E ! unat (log_blockno k s) = ?D[?h := H] ! unat (log_blockno k s)"
      using dj(2) [OF _ inl(2) [OF k]] by (rule other)
    also have "\<dots> = ?D ! unat (log_blockno k s)" using dj(4) [OF k] by simp
    also have "\<dots> = bview s (home s k)" unfolding W1_def
      using inj k dj(3) [OF k] by (rule copy_writes_at)
    finally show ?thesis .
  qed
  moreover have "?E ! unat x = bview s x" if x: "\<not> in_log s x" "x \<notin> home s ` {..< ?n}" for x
  proof -
    have "?E ! unat x = ?D[?h := H] ! unat x" using x(2) by (intro other) (auto simp: word_unat_eq_iff)
    also have "\<dots> = ?D ! unat x" using dj(1) [OF n0 x(1)] by simp
    also have "\<dots> = disk s ! unat x"
      using copy_writes_other [of ?n "unat x" "\<lambda>k. log_blockno k s" ?n] dj(1) [OF _ x(1)] by (simp add: W1_def)
    finally show ?thesis using clean_view [OF t p x(2)] by simp
  qed
  ultimately show ?thesis by (simp add: committed_disk_def H_def)
qed

lemma crash_early:
  assumes t: "txn_ok s" and m: "m \<le> nat (lg_n s)"
  defines "W1 \<equiv> copy_writes (bview s) (home s) (\<lambda>k. log_blockno k s) (nat (lg_n s))"
  shows "apply_writes (take m W1) (disk s) ! unat (head_at s) = disk s ! unat (head_at s)"
    and "\<not> in_log s x \<Longrightarrow> apply_writes (take m W1) (disk s) ! unat x = disk s ! unat x"
  unfolding W1_def using txn_disjoint(1,4) [OF t] by (auto intro!: copy_writes_other)

text \<open>A crash at any point of a commit.\<close>

definition crashed :: "'z klog_scheme \<Rightarrow> (nat \<times> u8 list) list \<Rightarrow> nat \<Rightarrow> 'z klog_scheme \<Rightarrow> bool" where
  "crashed s ws k r \<longleftrightarrow> booted r \<and> lg_start r = lg_start s \<and> disk r = apply_writes (take k ws) (disk s)"

lemma crash_recovers:
  assumes t: "txn_ok s" and p: "pinned_logged s" and n: "0 < lg_n s"
    and e: "head_n (disk s ! nat (lg_start s)) = 0" and k: "k \<le> length (commit_writes s)"
    and c: "crashed s (commit_writes s) k r"
  shows "\<exists>u. recover_from_log r = Inr u \<and> booted u \<and> (\<forall>x. \<not> in_log s x \<longrightarrow> unat x < length (disk s) \<longrightarrow>
    disk u ! unat x = (if k \<le> nat (lg_n s) then disk s ! unat x else bview s x))"
proof -
  let ?n = "nat (lg_n s)" and ?h = "unat (head_at s)"
  let ?H = "head_bytes (bview s (head_at s)) (lg_n s) (lg_block s)"
  let ?W1 = "copy_writes (bview s) (home s) (\<lambda>k. log_blockno k s) ?n" and ?W2 = "copy_writes (bview s) (home s) (home s) ?n"
  have b: "booted r" and st: "lg_start r = lg_start s" and dr: "disk r = apply_writes (take k (commit_writes s)) (disk s)"
    using c by (simp_all add: crashed_def)
  have l: "log_at s" using t by (simp add: txn_ok_def)
  have il: "in_log r = in_log s" using st by (simp add: in_log_def fun_eq_iff)
  have h: "?h = nat (lg_start r)" using log_at_blocks(1) [OF l, of 0] st by (simp add: LOGSIZE_def)
  have n0: "0 < ?n" using n by simp
  have len: "length (bview s (head_at s)) = BSIZE"
    using l txn_disjoint(5) [OF t n0] by (intro length_bview) (simp_all add: log_at_def)
  note tk = commit_writes_take [OF k]
  consider "k \<le> ?n" | "?n < k" "k \<le> 2 * ?n + 1" | "2 * ?n + 1 < k" by linarith
  then show ?thesis
  proof cases
    case 1
    then have "disk r = apply_writes (take k ?W1) (disk s)" using dr tk by simp
    note d = crash_early [OF t 1, folded this]
    have "head_n (disk r ! nat (lg_start r)) = 0" using d(1) e h st by simp
    with b obtain u where "recover_from_log r = Inr u" "booted u" "lg_n u = 0" "\<And>x. \<not> in_log r x \<Longrightarrow> disk u ! unat x = disk r ! unat x"
      by (rule recover_empty) (rule that, assumption+)
    with d(2) il 1 show ?thesis by auto
  next
    case 2
    then have "committed_disk s (disk r)"
      using crash_committed [OF t p n, of "k - ?n - 1"] unfolding dr tk by simp
    from recover_committed [OF t b st this len] 2 show ?thesis by (metis not_less)
  next
    case 3
    let ?E = "apply_writes (?W1 @ (?h, ?H) # take ?n ?W2) (disk s)"
    have E: "disk r = ?E[?h := head_bytes ?H 0 []]" using 3 unfolding dr tk by simp
    have cd: "committed_disk s ?E" by (rule crash_committed [OF t p n])
    have "disk r ! nat (lg_start r) = head_bytes ?H 0 []"
      using E h txn_disjoint(5) [OF t n0] by simp
    then have "head_n (disk r ! nat (lg_start r)) = 0" using header_of_txn(4) [OF t len] by simp
    with b obtain u where u: "recover_from_log r = Inr u" "booted u" "lg_n u = 0" "\<And>x. \<not> in_log r x \<Longrightarrow> disk u ! unat x = disk r ! unat x"
      by (rule recover_empty) (rule that, assumption+)
    have "disk u ! unat x = bview s x" if x: "\<not> in_log s x" for x
    proof -
      have "disk u ! unat x = ?E ! unat x" using u(4) [of x] x il txn_disjoint(1) [OF t n0 x] by (simp add: E)
      also have "\<dots> = bview s x"
      proof (cases "x \<in> home s ` {..< ?n}")
        case True
        then obtain j where j: "j < ?n" "x = home s j" by auto
        then show ?thesis using copy_writes_at [OF home_inj [OF t] j(1)] home_ok(2) [OF t j(1)] by simp
      qed (use cd x in \<open>simp add: committed_disk_def\<close>)
      finally show ?thesis .
    qed
    with u 3 show ?thesis by auto
  qed
qed


section \<open>Writing inside a transaction\<close>

text \<open>The typical use that the comment of \<^verbatim>\<open>log_write\<close> gives: read a block, modify it, log it, release it.\<close>

definition log_update :: "u32 \<Rightarrow> (u8 list \<Rightarrow> u8 list) \<Rightarrow> 'z klog_scheme \<Rightarrow> 'z klog_scheme res" where
  "log_update b f s =
     bnd (bread 1 b s) (\<lambda>(bp, s).
     bnd (log_write bp (buf_upd bp (\<lambda>x. x\<lparr>b_data := f (b_data x)\<rparr>) s)) (\<lambda>s.
     brelse bp s))"

definition log_inv :: "'z klog_scheme \<Rightarrow> bool" where
  "log_inv s \<longleftrightarrow> txn_ok s \<and> pinned_logged s \<and> NBUF \<le> nfree s + nat (lg_n s) \<and> lg_size s = int LOGSIZE
     \<and> head_n (disk s ! nat (lg_start s)) = 0"

text \<open>The logged block numbers after one more write.\<close>

definition log_add :: "u32 \<Rightarrow> 'z klog_scheme \<Rightarrow> 'z klog_scheme" where
  "log_add b s = (if uint b \<in> set (logged s) then s
     else s\<lparr>lg_block := (lg_block s)[nat (lg_n s) := uint b], lg_n := lg_n s + 1\<rparr>)"

lemma sint_uint_small: "unat (b :: u32) < 2 ^ 31 \<Longrightarrow> sint b = uint b"
proof -
  assume lt: "unat b < 2 ^ 31"
  define n where "n = unat b"
  have "uint b = int n" by (simp add: n_def)
  moreover have "n < 2 ^ 31" using lt by (simp only: n_def)
  ultimately have "uint b < 2 ^ 31" "- (2 ^ 31) \<le> uint b" by simp_all
  then show ?thesis using sint_word_of_int_id [of "uint b"] by simp
qed

lemma log_write_eq:
  assumes l: "0 \<le> lg_n s" and n: "lg_n s < int LOGSIZE - 1" and sz: "lg_size s = int LOGSIZE"
    and o1: "1 \<le> lg_outstanding s" and b: "b_blockno (bufs s ! i) = b" "unat b < 2 ^ 31"
    and pos: "\<forall>x \<in> set (logged s). 0 \<le> x \<and> x < 2 ^ 31"
  shows "log_write i s = Inr (buf_upd i (\<lambda>b. b\<lparr>b_dirty := True\<rparr>) (log_add b s))"
proof -
  have s: "sint b = uint b" by (rule sint_uint_small [OF b(2)])
  have g: "\<not> (lg_n s \<ge> int LOGSIZE \<or> lg_n s \<ge> lg_size s - 1)" "\<not> lg_outstanding s < 1" using n sz o1 by simp_all
  have eq: "(word_of_int x = b) = (x = uint b)" if "x \<in> set (logged s)" for x
    using pos that by (auto simp: uint_word_of_int)
  show ?thesis
  proof (cases "first_idx (\<lambda>x. word_of_int x = b) (logged s)")
    case None
    then have "uint b \<notin> set (logged s)" using eq by (auto simp: first_idx_None_iff)
    with None g b(1) s l show ?thesis
      by (simp add: log_write_def Let_def logged_def log_add_def)
  next
    case (Some k)
    then have k: "k < length (logged s)" "word_of_int (logged s ! k) = b" using first_idx_SomeD [of _ "logged s"] by auto
    then have x: "logged s ! k = uint b" using eq by simp
    have kn: "k < nat (lg_n s)" using k(1) by (simp add: logged_def)
    have "(lg_block s)[k := uint b] = lg_block s"
      using x kn by (metis list_update_id logged_def nth_take)
    moreover have "uint b \<in> set (logged s)" using x k(1) by (metis nth_mem)
    ultimately show ?thesis using Some g b(1) s kn
      by (simp add: log_write_def Let_def log_add_def) (simp add: logged_def)
  qed
qed

lemma log_add_simps [simp]:
  "bio_inv (log_add b s) = bio_inv s" "bview (log_add b s) = bview s" "pinned (log_add b s) = pinned s"
  "blocked (log_add b s) = blocked s" "nfree (log_add b s) = nfree s" "bufs (log_add b s) = bufs s"
  "disk (log_add b s) = disk s" "disk_writes (log_add b s) = disk_writes s" "lg_start (log_add b s) = lg_start s"
  "lg_size (log_add b s) = lg_size s" "lg_dev (log_add b s) = lg_dev s" "mru (log_add b s) = mru s"
  "in_log (log_add b s) = in_log s" "lg_outstanding (log_add b s) = lg_outstanding s"
  "lg_committing (log_add b s) = lg_committing s" "klog.more (log_add b s) = klog.more s"
  by (cases "uint b \<in> set (logged s)"; simp add: log_add_def in_log_def fun_eq_iff)+

lemma log_add_logged:
  assumes "log_at s" and "lg_n s < int LOGSIZE - 1"
  shows "set (logged (log_add b s)) = insert (uint b) (set (logged s))"
    and "distinct (logged s) \<Longrightarrow> distinct (logged (log_add b s))"
    and "length (lg_block (log_add b s)) = LOGSIZE"
proof -
  let ?n = "nat (lg_n s)"
  have n: "?n < length (lg_block s)" "nat (lg_n s + 1) = Suc ?n" "length (lg_block s) = LOGSIZE"
    using assms by (auto simp: log_at_def)
  have "uint b \<notin> set (logged s) \<Longrightarrow> logged (log_add b s) = logged s @ [uint b]"
    using n by (simp add: logged_def log_add_def take_Suc_conv_app_nth)
  then show "set (logged (log_add b s)) = insert (uint b) (set (logged s))"
    "distinct (logged s) \<Longrightarrow> distinct (logged (log_add b s))"
    by (cases "uint b \<in> set (logged s)"; auto simp: log_add_def)+
  show "length (lg_block (log_add b s)) = LOGSIZE" using n by (simp add: log_add_def)
qed

definition update_done :: "'z klog_scheme \<Rightarrow> u32 \<Rightarrow> u8 list \<Rightarrow> 'z klog_scheme \<Rightarrow> bool" where
  "update_done s b v t \<longleftrightarrow> bview t = (bview s)(b := v) \<and> disk t = disk s \<and> disk_writes t = disk_writes s
     \<and> bio_frame (log_add b s) t \<and> blocked t = blocked s \<and> bio_inv t
     \<and> (\<forall>x. pinned t x = (x = b \<or> pinned s x)) \<and> nfree s \<le> nfree t + (if pinned s b then 0 else 1)"

lemma bio_frame_log_add: "bio_frame s t \<Longrightarrow> bio_frame (log_add b s) (log_add b t)"
  by (simp add: log_add_def log_frame(3) klog_frame(6,7) bio_frame_lg(1) [OF bio_frame_lg(2)])

lemma log_update_done:
  assumes can: "can_read s b" and l: "log_at s" and n: "lg_n s < int LOGSIZE - 1"
    and sz: "lg_size s = int LOGSIZE" and o1: "1 \<le> lg_outstanding s"
    and pos: "\<forall>x \<in> set (logged s). 0 \<le> x \<and> x < 2 ^ 31"
    and f: "\<And>x. length x = BSIZE \<Longrightarrow> length (f x) = BSIZE"
  shows "\<exists>t. log_update b f s = Inr t \<and> update_done s b (f (bview s b)) t"
proof -
  have inv: "bio_inv s" and b: "unat b < length (disk s)" and nb: "\<not> blocked s b"
    using can by (simp_all add: can_read_def)
  obtain i pid where sl: "slot_for s b i" and r: "bread 1 b s = Inr (i, hold i b pid s)"
    using bread_ok [OF can] by blast
  let ?s = "hold i b pid s"
  have inv': "bio_inv ?s" and lk: "locked_for ?s i b"
    using inv b sl by (auto intro: hold_inv hold_locked_for)
  have obs: "bview ?s = bview s" "pinned ?s = pinned s" "\<And>x. blocked ?s x = (x = b \<or> blocked s x)"
    using hold_obs [OF inv b sl, of pid] by auto
  let ?u = "buf_upd i (\<lambda>x. x\<lparr>b_data := f (b_data x)\<rparr>) ?s"
  have put: "bio_inv ?u" "locked_for ?u i b" "\<And>x. bview ?u x = (if x = b then f (bview ?s b) else bview ?s x)"
    "pinned ?u = pinned ?s" "blocked ?u = blocked ?s"
    by (rule bdata_ok [OF inv' lk], erule f)+
  have fu: "bio_frame s ?u" by (rule bio_frame_trans [OF bio_frame_bufs(3) bio_frame_bufs(2)])
  let ?a = "log_add b ?u"
  let ?v = "buf_upd i (\<lambda>x. x\<lparr>b_dirty := True\<rparr>) ?a"
  have la: "locked_for ?a i b" using put(2) by (simp add: locked_for_def)
  have inva: "bio_inv ?a" using put(1) by simp
  note dirty = bdirty_ok [OF inva la]
  have "pinned ?v b \<or> bview ?v b = disk ?v ! unat b" using dirty(4) by simp
  then obtain t where t: "brelse i ?v = Inr t" "bio_inv t" "bview t = bview ?v" "pinned t = pinned ?v"
    "\<And>x. blocked t x = (x \<noteq> b \<and> blocked ?v x)" "disk t = disk ?v" "disk_writes t = disk_writes ?v"
    "bufs t = (bufs ?v)[i := (bufs ?v ! i)\<lparr>b_lock := initsleeplock, b_refcnt := 0\<rparr>]"
    by (rule brelse_ok [OF dirty(1,2)]) (rule that, assumption+)
  have ft: "bio_frame (log_add b s) t"
    by (rule bio_frame_trans [OF bio_frame_trans [OF bio_frame_log_add [OF fu] bio_frame_bufs(2)] bio_frame_brelse [OF t(1)]])
  have "log_write i ?u = Inr ?v"
  proof (rule log_write_eq)
    show "b_blockno (bufs ?u ! i) = b" using put(2) by (simp add: locked_for_def caches_def)
    show "unat b < 2 ^ 31" using b l by (simp add: log_at_def)
  qed (use l n sz o1 pos in \<open>simp_all add: klog_frame [OF fu] log_frame [OF fu] log_at_def\<close>)
  then have "log_update b f s = Inr t" using r t(1) by (simp add: log_update_def)
  moreover have "nfree s \<le> nfree t + (if pinned s b then 0 else 1)"
  proof -
    have il: "i < length (bufs s)" using sl len_bufs [OF inv] by (simp add: slot_for_def)
    have sub: "{k. free_buf s k} - {i} \<subseteq> {k. free_buf t k}"
      by (auto simp: free_buf_def t(8) hold_nth [OF inv sl])
    then have "card ({k. free_buf s k} - {i}) \<le> nfree t" unfolding nfree_def by (intro card_mono) simp_all
    moreover have "pinned s b \<Longrightarrow> \<not> free_buf s i" using slot_free_not_pinned [OF inv sl] by blast
    ultimately show ?thesis by (auto simp: nfree_def card_Diff_singleton_if split: if_splits)
  qed
  moreover have "blocked t = blocked s"
    using t(5) dirty(5) put(5) obs(3) nb by (auto simp: fun_eq_iff)
  ultimately show ?thesis
    using t(2,3,4,6,7) dirty(3,4) put(3,4) obs(1,2) ft by (auto simp: update_done_def fun_eq_iff)
qed

lemma log_update_ok:
  assumes inv: "log_inv s" and n: "lg_n s < int LOGSIZE - 1" and o1: "1 \<le> lg_outstanding s"
    and b: "unat b < length (disk s)" "\<not> in_log s b"
    and f: "\<And>x. length x = BSIZE \<Longrightarrow> length (f x) = BSIZE"
  shows "\<exists>t. log_update b f s = Inr t \<and> update_done s b (f (bview s b)) t \<and> log_inv t"
proof -
  have t: "txn_ok s" and p: "pinned_logged s" and room: "NBUF \<le> nfree s + nat (lg_n s)"
    and sz: "lg_size s = int LOGSIZE" and l: "log_at s"
    using inv by (simp_all add: log_inv_def txn_ok_def)
  have pos: "\<forall>x \<in> set (logged s). 0 \<le> x \<and> x < 2 ^ 31" using t by (auto simp: txn_ok_def log_at_def)
  have "\<exists>j. free_buf s j" using l nfree_pos [of s] by (simp add: log_at_def)
  then have "can_read s b" using l b by (simp add: can_read_def log_at_def)
  from log_update_done [OF this l n sz o1 pos, of f] f obtain u where
    u: "log_update b f s = Inr u" and d: "update_done s b (f (bview s b)) u" by blast
  have fr: "bio_frame (log_add b s) u" using d by (simp add: update_done_def)
  note k = klog_frame [OF fr] log_frame [OF fr] log_add_logged [OF l n]
  have nn: "lg_n u = (if pinned s b then lg_n s else lg_n s + 1)"
    using p by (simp add: k log_add_def pinned_logged_def)
  have nf: "nat (lg_n u) + nfree u \<ge> NBUF"
    using room nn d l by (auto simp: update_done_def log_at_def split: if_splits)
  have "log_at u"
    using l d nf nn n by (auto simp: log_at_def k update_done_def LOGSIZE_def NBUF_def split: if_splits)
  moreover have "0 \<le> uint b" "nat (uint b) < length (disk s)" using b by (simp_all add: unat_eq_nat_uint [symmetric])
  ultimately have "txn_ok u" using t d b by (auto simp: txn_ok_def k update_done_def)
  moreover have "pinned_logged u"
    using p d by (auto simp: pinned_logged_def k update_done_def intro: word_uint_eq_iff [THEN iffD2])
  ultimately have "log_inv u"
    using inv nf d by (auto simp: log_inv_def k update_done_def add.commute)
  with u d show ?thesis by blast
qed

section \<open>Whole transactions\<close>

fun log_updates :: "(u32 \<times> (u8 list \<Rightarrow> u8 list)) list \<Rightarrow> 'z klog_scheme \<Rightarrow> 'z klog_scheme res" where
  "log_updates [] s = Inr s"
| "log_updates ((b, f) # us) s = bnd (log_update b f s) (log_updates us)"

definition upd_view :: "(u32 \<times> (u8 list \<Rightarrow> u8 list)) list \<Rightarrow> (u32 \<Rightarrow> u8 list) \<Rightarrow> u32 \<Rightarrow> u8 list" where
  "upd_view us v = fold (\<lambda>(b, f) v. v(b := f (v b))) us v"

definition upd_ok :: "'z klog_scheme \<Rightarrow> u32 \<times> (u8 list \<Rightarrow> u8 list) \<Rightarrow> bool" where
  "upd_ok s u \<longleftrightarrow> unat (fst u) < length (disk s) \<and> \<not> in_log s (fst u)
     \<and> (\<forall>x. length x = BSIZE \<longrightarrow> length (snd u x) = BSIZE)"

lemma log_updates_ok:
  assumes "log_inv s" and "lg_n s + int (length us) < int LOGSIZE" and "1 \<le> lg_outstanding s"
    and "\<forall>u \<in> set us. upd_ok s u"
  shows "\<exists>t. log_updates us s = Inr t \<and> log_inv t \<and> bview t = upd_view us (bview s) \<and> disk t = disk s
    \<and> disk_writes t = disk_writes s \<and> lg_outstanding t = lg_outstanding s \<and> lg_committing t = lg_committing s
    \<and> lg_start t = lg_start s"
  using assms
proof (induction us arbitrary: s)
  case Nil
  then show ?case by (simp add: upd_view_def)
next
  case (Cons u us)
  obtain b f where u: "u = (b, f)" by force
  have ok: "upd_ok s (b, f)" using Cons.prems(4) u by simp
  then obtain t where t: "log_update b f s = Inr t" "update_done s b (f (bview s b)) t" "log_inv t"
    using log_update_ok [of s b f] Cons.prems by (auto simp: upd_ok_def)
  have fr: "bio_frame (log_add b s) t" using t(2) by (simp add: update_done_def)
  note k = klog_frame [OF fr] log_frame [OF fr]
  have "lg_n t \<le> lg_n s + 1" by (simp add: k log_add_def)
  moreover have "\<forall>u \<in> set us. upd_ok t u"
    using Cons.prems(4) t(2) by (simp add: upd_ok_def update_done_def k)
  ultimately obtain w where "log_updates us t = Inr w" "log_inv w" "bview w = upd_view us (bview t)"
      "disk w = disk t" "disk_writes w = disk_writes t" "lg_outstanding w = lg_outstanding t"
      "lg_committing w = lg_committing t" "lg_start w = lg_start t"
    using Cons.IH [of t] Cons.prems t(3) by (auto simp: k)
  then show ?case using t u by (auto simp: update_done_def k upd_view_def)
qed

lemma lg_flags:
  fixes s :: "'z klog_scheme"
  assumes "t = s\<lparr>lg_outstanding := m, lg_committing := c\<rparr>"
  shows "txn_ok t = txn_ok s" "pinned_logged t = pinned_logged s" "commit_writes t = commit_writes s"
    "in_log t = in_log s" "bview t = bview s"
proof -
  have e: "bview t = bview s" "pinned t = pinned s" "blocked t = blocked s" "nfree t = nfree s" "bio_inv t = bio_inv s"
    unfolding assms by (rule bio_cong; simp)+
  then show "bview t = bview s" by simp
  have h: "home t = home s" "log_blockno k t = log_blockno k s" "head_at t = head_at s" "logged t = logged s"
    "in_log t = in_log s" for k
    by (simp_all add: assms home_def log_blockno_def head_at_def logged_def in_log_def fun_eq_iff)
  then show "in_log t = in_log s" by simp
  show "txn_ok t = txn_ok s" "pinned_logged t = pinned_logged s" "commit_writes t = commit_writes s"
    using e h by (simp_all add: txn_ok_def log_at_def pinned_logged_def commit_writes_def assms)
qed

text \<open>The blocks outside the log have the contents \<open>v\<close>.\<close>

definition fs_disk :: "'z klog_scheme \<Rightarrow> u8 list list \<Rightarrow> (u32 \<Rightarrow> u8 list) \<Rightarrow> bool" where
  "fs_disk s D v \<longleftrightarrow> (\<forall>x. \<not> in_log s x \<longrightarrow> unat x < length (disk s) \<longrightarrow> D ! unat x = v x)"

definition disk_view :: "'z klog_scheme \<Rightarrow> u32 \<Rightarrow> u8 list" where
  "disk_view s x = disk s ! unat x"

lemma end_op_commit:
  assumes inv: "log_inv s" and o1: "lg_outstanding s = 1" and c: "\<not> lg_committing s"
  shows "\<exists>t ws. end_op s = Inr t \<and> disk_writes t = disk_writes s @ ws \<and> fs_disk s (disk t) (bview s)
    \<and> (\<forall>k r. k \<le> length ws \<longrightarrow> crashed s ws k r \<longrightarrow> (\<exists>u. recover_from_log r = Inr u
        \<and> (fs_disk s (disk u) (disk_view s) \<or> fs_disk s (disk u) (bview s))))"
proof -
  let ?s = "s\<lparr>lg_outstanding := 0, lg_committing := True\<rparr>"
  have fl: "txn_ok ?s = txn_ok s" "pinned_logged ?s = pinned_logged s" "commit_writes ?s = commit_writes s"
    "in_log ?s = in_log s" "bview ?s = bview s"
    by (rule lg_flags, rule refl)+
  have t: "txn_ok s" and p: "pinned_logged s" and e: "head_n (disk s ! nat (lg_start s)) = 0"
    using inv by (simp_all add: log_inv_def)
  have n: "0 \<le> lg_n s" using t by (simp add: txn_ok_def log_at_def)
  have eo: "end_op s = bnd (commit ?s) (\<lambda>s. Inr (wakeup (Some ChLog) (s\<lparr>lg_committing := False\<rparr>)))"
    using o1 c by (simp add: end_op_def)
  show ?thesis
  proof (cases "lg_n s = 0")
    case True
    then have "bview s x = disk_view s x" for x
      using clean_view [OF t p, of x] by (simp add: disk_view_def)
    then have same: "bview s = disk_view s" by (simp add: fun_eq_iff)
    have rec: "\<exists>u. recover_from_log r = Inr u \<and> fs_disk s (disk u) (disk_view s)" if "crashed s [] 0 r" for r
    proof -
      have r: "booted r" "lg_start r = lg_start s" "disk r = disk s" using that by (simp_all add: crashed_def)
      then have "in_log r = in_log s" by (simp add: in_log_def fun_eq_iff)
      with recover_empty [OF r(1)] e r show ?thesis by (metis fs_disk_def disk_view_def)
    qed
    have "end_op s = Inr (wakeup (Some ChLog) (?s\<lparr>lg_committing := False\<rparr>))"
      using eo True by (simp add: commit_def)
    with rec same show ?thesis
      by (intro exI [of _ "wakeup (Some ChLog) (?s\<lparr>lg_committing := False\<rparr>)"] exI [of _ "[]"])
        (simp add: fs_disk_def disk_view_def wakeup_def wakeup1_def)
  next
    case False
    then have n0: "0 < lg_n s" using n by simp
    then obtain u where u: "commit ?s = Inr u" and d: "commit_done ?s u"
      using commit_ok [of ?s] t p fl by auto
    let ?t = "wakeup (Some ChLog) (u\<lparr>lg_committing := False\<rparr>)"
    have "bio_inv u" "\<And>b. \<not> blocked u b" "\<And>b. \<not> pinned u b" using d by (simp_all add: commit_done_def log_at_def)
    then have "disk u ! unat x = bview u x" for x using view_clean by metis
    then have "fs_disk s (disk u) (bview s)" using d fl by (simp add: commit_done_def fs_disk_def)
    moreover have "\<exists>u. recover_from_log r = Inr u \<and> (fs_disk s (disk u) (disk_view s) \<or> fs_disk s (disk u) (bview s))"
      if k: "k \<le> length (commit_writes s)" and r: "crashed s (commit_writes s) k r" for k r
      using crash_recovers [OF t p n0 e k r] by (cases "k \<le> nat (lg_n s)") (auto simp: fs_disk_def disk_view_def)
    moreover have "disk_writes u = disk_writes s @ commit_writes s" using d fl by (simp add: commit_done_def)
    ultimately show ?thesis using eo u
      by (intro exI [of _ ?t] exI [of _ "commit_writes s"]) (simp add: wakeup_def wakeup1_def)
  qed
qed

text \<open>C21: a file system call is atomic with respect to crashes. When the call brackets any sequence of
  at most \<open>MAXOPBLOCKS\<close> block updates between \<open>begin_op\<close> and \<open>end_op\<close>, all of it succeeds and the
  disk ends with every update applied; and if the machine stops after any number of the
  block writes that are issued on the way, \<open>recover_from_log\<close> at the next boot succeeds and
  leaves the blocks outside the log either all as before the call or all updated.\<close>

theorem transaction_crash_atomic:
  assumes "log_inv s" and "lg_n s = 0" and "lg_outstanding s = 0" and "\<not> lg_committing s"
    and "int (length us) \<le> MAXOPBLOCKS" and "\<forall>u \<in> set us. upd_ok s u"
  shows "\<exists>s1 s2 t ws. begin_op s = Inr s1 \<and> log_updates us s1 = Inr s2 \<and> end_op s2 = Inr t
    \<and> disk_writes t = disk_writes s @ ws \<and> fs_disk s (disk t) (upd_view us (disk_view s))
    \<and> (\<forall>k r. k \<le> length ws \<longrightarrow> crashed s ws k r \<longrightarrow> (\<exists>u. recover_from_log r = Inr u
        \<and> (fs_disk s (disk u) (disk_view s) \<or> fs_disk s (disk u) (upd_view us (disk_view s)))))"
proof -
  let ?s = "s\<lparr>lg_outstanding := 1\<rparr>"
  have b: "begin_op s = Inr ?s" using assms by (simp add: begin_op_def MAXOPBLOCKS_def LOGSIZE_def)
  have fl: "log_inv ?s" "bview ?s = bview s" "in_log ?s = in_log s"
  proof -
    have e: "?s = s\<lparr>lg_outstanding := 1, lg_committing := lg_committing s\<rparr>" by simp
    note lg_flags [OF e]
    moreover have "nfree ?s = nfree s" by (rule bio_cong; simp)
    ultimately show "log_inv ?s" "bview ?s = bview s" "in_log ?s = in_log s"
      using assms(1) by (simp_all add: log_inv_def)
  qed
  have "\<forall>u \<in> set us. upd_ok ?s u" using assms(6) fl by (simp add: upd_ok_def)
  then obtain s2 where s2: "log_updates us ?s = Inr s2" "log_inv s2" "bview s2 = upd_view us (bview s)"
    "disk s2 = disk s" "disk_writes s2 = disk_writes s" "lg_outstanding s2 = 1" "\<not> lg_committing s2"
    "lg_start s2 = lg_start s"
    using log_updates_ok [OF fl(1), of us] assms(2,4,5) fl by (auto simp: MAXOPBLOCKS_def LOGSIZE_def)
  have v: "bview s = disk_view s"
    using assms(1,2) clean_view [of s] by (auto simp: log_inv_def disk_view_def fun_eq_iff)
  have eq: "in_log s2 = in_log s" "fs_disk s2 = fs_disk s" "disk_view s2 = disk_view s" "crashed s2 = crashed s"
    using s2 by (simp_all add: in_log_def fs_disk_def disk_view_def crashed_def fun_eq_iff)
  from end_op_commit [OF s2(2,6,7)] b s2(1,3,5) v show ?thesis unfolding eq by fastforce
qed

definition klog_ex :: "u8 list list \<Rightarrow> klog" where
  "klog_ex d = kbio.extend (kbio_ex d) (klog.fields 2 30 0 False 1 0 (replicate LOGSIZE 0))"

lemma klog_ex_simps [simp]:
  "bufs (klog_ex d) = bufs (kbio_ex d)" "mru (klog_ex d) = mru (kbio_ex d)" "disk (klog_ex d) = d"
  "disk_writes (klog_ex d) = []" "cur (klog_ex d) = Some 0" "ptable (klog_ex d) = procs_ex"
  "lg_start (klog_ex d) = 2" "lg_size (klog_ex d) = 30" "lg_outstanding (klog_ex d) = 0"
  "\<not> lg_committing (klog_ex d)" "lg_dev (klog_ex d) = 1" "lg_n (klog_ex d) = 0"
  "lg_block (klog_ex d) = replicate LOGSIZE 0"
  by (simp_all add: klog_ex_def kbio_ex_def kmem_ex_def kproc_ex_def conts.defs kproc.defs kmem.defs kbio.defs klog.defs)

lemma log_inv_ex:
  assumes d: "\<forall>x \<in> set d. length x = BSIZE" and l: "32 \<le> length d" "length d < 2 ^ 31" and h: "head_n (d ! 2) = 0"
  shows "log_inv (klog_ex d)"
proof -
  note c = bio_cong [of "klog_ex d" "kbio_ex d"]
  have e: "bio_inv (klog_ex d)" "\<And>b. \<not> pinned (klog_ex d) b" "\<And>b. \<not> blocked (klog_ex d) b" "nfree (klog_ex d) = NBUF"
    using c bio_inv_ex [OF d] empty_cache [OF d] by simp_all
  then have "log_at (klog_ex d)" using l by (simp add: log_at_def LOGSIZE_def NBUF_def)
  then show ?thesis using e h
    by (simp add: log_inv_def txn_ok_def pinned_logged_def logged_def LOGSIZE_def)
qed

theorem transaction_crash_atomic_witness:
  "\<exists>s1 s2 t. begin_op (klog_ex (replicate 40 (replicate BSIZE 0))) = Inr s1
     \<and> log_updates [(35, \<lambda>x. x[0 := 7])] s1 = Inr s2 \<and> end_op s2 = Inr t
     \<and> disk t ! 35 = (replicate BSIZE 0)[0 := 7] \<and> disk t ! 36 = replicate BSIZE 0"
proof -
  let ?s = "klog_ex (replicate 40 (replicate BSIZE 0))"
  have inv: "log_inv ?s"
    by (rule log_inv_ex) (simp_all add: head_n_def word_at_def byte_at_def BSIZE_def join32_def)
  have "\<forall>u \<in> set [(35, \<lambda>x. x[0 := 7])]. upd_ok ?s u"
    by (simp add: upd_ok_def in_log_def LOGSIZE_def)
  then obtain s1 s2 t where r: "begin_op ?s = Inr s1" "log_updates [(35, \<lambda>x. x[0 := 7])] s1 = Inr s2" "end_op s2 = Inr t"
    and f: "fs_disk ?s (disk t) (upd_view [(35, \<lambda>x. x[0 := 7])] (disk_view ?s))"
    using transaction_crash_atomic [OF inv, of "[(35, \<lambda>x. x[0 := 7])]"] by (auto simp: MAXOPBLOCKS_def)
  note f' = f [unfolded fs_disk_def, rule_format]
  have "disk t ! 35 = (replicate BSIZE 0)[0 := 7]" "disk t ! 36 = replicate BSIZE 0"
    using f' [of 35] f' [of 36] by (simp_all add: in_log_def LOGSIZE_def upd_view_def disk_view_def)
  with r show ?thesis by blast
qed

definition recovered :: "u8 list \<Rightarrow> 'z klog_scheme \<Rightarrow> 'z klog_scheme \<Rightarrow> bool" where
  "recovered d s u \<longleftrightarrow>
     (\<forall>j < nat (head_n d). disk u ! unat (word_of_int (head_block d j) :: u32) = disk s ! unat (log_blockno j s))
     \<and> (\<forall>x. \<not> in_log s x \<longrightarrow> (\<forall>j < nat (head_n d). x \<noteq> word_of_int (head_block d j)) \<longrightarrow>
          disk u ! unat x = disk s ! unat x)"

lemma recover_recovered:
  assumes "booted s" and "d = disk s ! nat (lg_start s)" and "head_ok d s"
  shows "\<exists>u. recover_from_log s = Inr u \<and> recovered d s u"
  by (rule recover_blocks [OF assms]) (auto simp: recovered_def)

lemma recovered_same:
  assumes "recovered d r u" and "recovered d r' u'" and st: "lg_start r' = lg_start r"
    and same: "\<And>x :: u32. (\<And>j. j < nat (head_n d) \<Longrightarrow> x \<noteq> word_of_int (head_block d j)) \<Longrightarrow> disk r' ! unat x = disk r ! unat x"
    and out: "\<And>j. j < nat (head_n d) \<Longrightarrow> \<not> in_log r (word_of_int (head_block d j))"
    and log: "\<And>j. j < nat (head_n d) \<Longrightarrow> in_log r (log_blockno j r)"
  shows "fs_disk r (disk u') (disk_view u)"
  unfolding fs_disk_def disk_view_def
proof (intro allI impI)
  fix x assume x: "\<not> in_log r x"
  have il: "in_log r' = in_log r" "\<And>j. log_blockno j r' = log_blockno j r"
    using st by (simp_all add: in_log_def log_blockno_def fun_eq_iff)
  show "disk u' ! unat x = disk u ! unat x"
  proof (cases "\<exists>j < nat (head_n d). x = word_of_int (head_block d j)")
    case True
    then obtain j where j: "j < nat (head_n d)" "x = word_of_int (head_block d j)" by blast
    have "disk r' ! unat (log_blockno j r) = disk r ! unat (log_blockno j r)"
      by (rule same) (use log [OF j(1)] out in auto)
    with assms(1,2) j il show ?thesis by (simp add: recovered_def)
  next
    case False
    with assms(1,2) x il same [of x] show ?thesis by (simp add: recovered_def)
  qed
qed

text \<open>C22: recovery itself may be interrupted. If the machine stops after any number of the block
  writes of \<open>recover_from_log\<close>, running it again at the next boot gives the same blocks outside
  the log as an uninterrupted recovery. The header on the disk is one that \<open>write_head\<close> may have left: it names at most 29
  blocks, each once, on the disk and outside the log.\<close>

theorem recovery_restartable:
  assumes b: "booted r" and h: "head_ok (disk r ! nat (lg_start r)) r"
  shows "\<exists>u ws. recover_from_log r = Inr u \<and> disk_writes u = disk_writes r @ ws
    \<and> (\<forall>k r'. k \<le> length ws \<longrightarrow> crashed r ws k r' \<longrightarrow>
        (\<exists>u'. recover_from_log r' = Inr u' \<and> fs_disk r (disk u') (disk_view u)))"
proof -
  define d where "d = disk r ! nat (lg_start r)"
  let ?n = "nat (head_n d)" and ?dst = "\<lambda>j. word_of_int (head_block d j) :: u32"
  have hd: "head_ok d r" using h by (simp add: d_def)
  obtain u where u: "recover_from_log r = Inr u" "disk_writes u = disk_writes r @ recover_writes d r"
    "disk u = apply_writes (recover_writes d r) (disk r)" and rc: "recovered d r u"
    using recover_ok [OF b d_def hd] recover_recovered [OF b d_def hd] by auto
  have t: "txn_ok (with_head d r)" by (rule with_head_txn [OF b hd])
  then have l: "log_at (with_head d r)" by (simp add: txn_ok_def)
  have out: "\<not> in_log r (?dst j)" if "j < ?n" for j
    using home_ok(3) [OF t, of j] home_with_head [OF that, of r] that by simp
  have hl: "in_log r (head_at r)" "unat (head_at r) = nat (lg_start r)"
    using log_at_blocks(1,3) [OF l, of 0] by (simp_all add: LOGSIZE_def)
  have ll: "in_log r (log_blockno j r)" if "j < ?n" for j
    using log_at_blocks(4) [OF l, of j] log_at_n [OF l] that by simp
  have "\<exists>u'. recover_from_log r' = Inr u' \<and> fs_disk r (disk u') (disk_view u)"
    if k: "k \<le> length (recover_writes d r)" and c: "crashed r (recover_writes d r) k r'" for k r'
  proof -
    have b': "booted r'" and st: "lg_start r' = lg_start r" and D: "disk r' = apply_writes (take k (recover_writes d r)) (disk r)"
      using c by (simp_all add: crashed_def)
    show ?thesis
    proof (cases "k \<le> ?n")
      case True
      have same: "disk r' ! unat x = disk r ! unat x" if "\<And>j. j < ?n \<Longrightarrow> x \<noteq> ?dst j" for x
        using True that copy_writes_other [of ?n "unat x" ?dst k] unfolding D
        by (simp add: recover_writes_def word_unat_eq_iff)
      have "disk r' ! unat (head_at r) = disk r ! unat (head_at r)" by (rule same) (use hl(1) out in auto)
      then have hd': "d = disk r' ! nat (lg_start r')" using hl(2) st by (simp add: d_def)
      have "head_ok d r'" using hd st D by (simp add: head_ok_def in_log_def)
      from recover_recovered [OF b' hd' this] obtain u' where "recover_from_log r' = Inr u'" "recovered d r' u'" by blast
      with recovered_same [OF rc _ st same out ll] show ?thesis by blast
    next
      case False
      then have "take k (recover_writes d r) = recover_writes d r" using k by (simp add: recover_writes_def)
      then have E: "disk r' = disk u" using D u(3) by simp
      have "length d = BSIZE" using l b by (auto simp: d_def log_at_def booted_def LOGSIZE_def intro!: bio_inv_disk)
      then have "head_n (head_bytes d 0 (replicate LOGSIZE 0)) = 0" by (intro head_bytes_ok(2)) simp_all
      then have "head_n (head_bytes d 0 []) = 0" by (simp add: head_bytes_def)
      moreover have "nat (lg_start r) < length (disk r)" using l by (simp add: log_at_def LOGSIZE_def)
      ultimately have "head_n (disk r' ! nat (lg_start r')) = 0" using E st by (simp add: u(3) recover_writes_def)
      with b' obtain u' where "recover_from_log r' = Inr u'" "booted u'" "lg_n u' = 0"
        "\<And>x. \<not> in_log r' x \<Longrightarrow> disk u' ! unat x = disk r' ! unat x"
        by (rule recover_empty) (rule that, assumption+)
      with E st show ?thesis by (auto simp: fs_disk_def disk_view_def in_log_def)
    qed
  qed
  with u show ?thesis by blast
qed

theorem recovery_restartable_witness:
  "\<exists>u. recover_from_log (klog_ex (replicate 40 (replicate BSIZE 0))) = Inr u"
proof -
  let ?s = "klog_ex (replicate 40 (replicate BSIZE 0))"
  have h0: "head_n (replicate BSIZE 0) = 0" by (simp add: head_n_def word_at_def byte_at_def BSIZE_def join32_def)
  have inv: "log_inv ?s" by (rule log_inv_ex) (simp_all add: h0)
  have e: "?s\<lparr>lg_n := 0\<rparr> = ?s" by (simp add: klog_ex_def kbio_ex_def kmem_ex_def kproc_ex_def conts.defs kproc.defs kmem.defs kbio.defs klog.defs)
  have "booted ?s" using inv unfolding booted_def e by (simp add: log_inv_def txn_ok_def pinned_logged_def logged_def NBUF_def)
  moreover have "head_ok (disk ?s ! nat (lg_start ?s)) ?s" using h0 by (intro head_empty_ok) simp
  ultimately show ?thesis using recovery_restartable [of ?s] by blast
qed

end
