(* ===== verification/Inode.thy ===== *)
theory Inode
  imports Log
begin

text \<open>
  The lower half of \<^verbatim>\<open>fs.c\<close>: the block allocator and the inode cache. Inodes on disk are read
  and written as bytes of their block, the fields of \<^verbatim>\<open>struct dinode\<close> at their offsets; the bitmap is
  read bit by bit. \<open>icache\<close> and the copy \<open>gsb\<close> of the super block extend the state.
\<close>

section \<open>State\<close>

definition NINODE :: nat where "NINODE = 50"
definition NDIRECT :: nat where "NDIRECT = 12"
definition NINDIRECT :: nat where "NINDIRECT = BSIZE div 4"
definition MAXFILE :: nat where "MAXFILE = NDIRECT + NINDIRECT"
definition IPB :: nat where "IPB = BSIZE div 64"
definition BPB :: nat where "BPB = BSIZE * 8"

definition T_DIR :: u16 where "T_DIR = 1"
definition T_FILE :: u16 where "T_FILE = 2"
definition T_DEV :: u16 where "T_DEV = 3"

record inode =
  i_dev :: u32
  i_inum :: u32
  i_ref :: int
  i_lock :: sleeplock
  i_valid :: bool
  i_type :: u16
  i_major :: u16
  i_minor :: u16
  i_nlink :: u16
  i_size :: u32
  i_addrs :: "u32 list"

record kfs = klog +
  gsb :: superblock
  icache :: "inode list"

definition inode_upd :: "nat \<Rightarrow> (inode \<Rightarrow> inode) \<Rightarrow> 'z kfs_scheme \<Rightarrow> 'z kfs_scheme" where
  "inode_upd i f s = s\<lparr>icache := (icache s)[i := f (icache s ! i)]\<rparr>"

definition IBLOCK :: "u32 \<Rightarrow> superblock \<Rightarrow> u32" where
  "IBLOCK i sb = i div of_nat IPB + sb_inodestart sb"

definition BBLOCK :: "u32 \<Rightarrow> superblock \<Rightarrow> u32" where
  "BBLOCK b sb = b div of_nat BPB + sb_bmapstart sb"

text \<open>The offset of inode \<open>inum\<close> in its block, and the fields of a \<^verbatim>\<open>struct dinode\<close> as bytes.\<close>

definition dip_off :: "u32 \<Rightarrow> nat" where
  "dip_off inum = 64 * (unat inum mod IPB)"

definition dinode_bytes :: "inode \<Rightarrow> u8 list" where
  "dinode_bytes ip = bytes16 (i_type ip) @ bytes16 (i_major ip) @ bytes16 (i_minor ip) @ bytes16 (i_nlink ip)
     @ bytes32 (i_size ip) @ concat (map bytes32 (i_addrs ip))"

definition dinode_load :: "u8 list \<Rightarrow> nat \<Rightarrow> inode \<Rightarrow> inode" where
  "dinode_load d off ip = ip\<lparr>i_type := half_at d off, i_major := half_at d (off + 2),
     i_minor := half_at d (off + 4), i_nlink := half_at d (off + 6), i_size := word_at d (off + 8),
     i_addrs := map (\<lambda>k. word_at d (off + 12 + 4 * k)) [0 ..< NDIRECT + 1]\<rparr>"

section \<open>Blocks\<close>

definition bzero :: "u32 \<Rightarrow> u32 \<Rightarrow> 'z klog_scheme \<Rightarrow> 'z klog_scheme res" where
  "bzero dev bno s =
     bnd (bread dev bno s) (\<lambda>(bp, s).
     bnd (log_write bp (buf_upd bp (\<lambda>b. b\<lparr>b_data := replicate BSIZE 0\<rparr>) s)) (\<lambda>s.
     brelse bp s))"

definition bit_clear :: "u8 list \<Rightarrow> nat \<Rightarrow> bool" where
  "bit_clear d bi \<longleftrightarrow> byte_at d (bi div 8) AND push_bit (bi mod 8) 1 = 0"

definition bit_set :: "nat \<Rightarrow> buf \<Rightarrow> buf" where
  "bit_set bi b = b\<lparr>b_data := (b_data b)[bi div 8 := byte_at (b_data b) (bi div 8) OR push_bit (bi mod 8) 1]\<rparr>"

definition bit_reset :: "nat \<Rightarrow> buf \<Rightarrow> buf" where
  "bit_reset bi b =
     b\<lparr>b_data := (b_data b)[bi div 8 := byte_at (b_data b) (bi div 8) AND NOT (push_bit (bi mod 8) 1)]\<rparr>"

text \<open>The loops of \<^verbatim>\<open>balloc\<close>: the outer one over the blocks of the bitmap, the inner one, over the
  bits of a block, as the search for the first clear bit. \<open>n\<close> is \<^verbatim>\<open>sb.size\<close>, which no call in the
  loop changes.\<close>

function balloc_loop :: "u32 \<Rightarrow> nat \<Rightarrow> nat \<Rightarrow> 'z kfs_scheme \<Rightarrow> (u32 \<times> 'z kfs_scheme) res" where
  "balloc_loop dev n b s =
     (if b < n
      then bnd (bread dev (BBLOCK (of_nat b) (gsb s)) s) (\<lambda>(bp, s).
             case first_idx (bit_clear (b_data (bufs s ! bp))) [0 ..< min BPB (n - b)] of
               Some bi \<Rightarrow>
                 bnd (log_write bp (buf_upd bp (bit_set bi) s)) (\<lambda>s.
                 bnd (brelse bp s) (\<lambda>s.
                 bnd (bzero dev (of_nat (b + bi)) s) (\<lambda>s.
                 Inr (of_nat (b + bi), s))))
             | None \<Rightarrow> bnd (brelse bp s) (\<lambda>s. balloc_loop dev n (b + BPB) s))
      else Inl (Panic ''balloc: out of blocks''))"
  by pat_completeness auto
termination
  by (relation "measure (\<lambda>(_, n, b, _). n - b)") (simp_all add: BPB_def BSIZE_def)

declare balloc_loop.simps [simp del]

definition balloc :: "u32 \<Rightarrow> 'z kfs_scheme \<Rightarrow> (u32 \<times> 'z kfs_scheme) res" where
  "balloc dev s = balloc_loop dev (unat (sb_size (gsb s))) 0 s"

definition bfree :: "u32 \<Rightarrow> u32 \<Rightarrow> 'z kfs_scheme \<Rightarrow> 'z kfs_scheme res" where
  "bfree dev b s =
     bnd (readsb dev s) (\<lambda>(sb', s).
     bnd (bread dev (BBLOCK b sb') (s\<lparr>gsb := sb'\<rparr>)) (\<lambda>(bp, s).
       let bi = unat b mod BPB
       in if bit_clear (b_data (bufs s ! bp)) bi then Inl (Panic ''freeing free block'')
          else bnd (log_write bp (buf_upd bp (bit_reset bi) s)) (\<lambda>s. brelse bp s)))"

section \<open>Inodes\<close>

definition iinit :: "u32 \<Rightarrow> 'z kfs_scheme \<Rightarrow> 'z kfs_scheme res" where
  "iinit dev s =
     bnd (readsb dev (s\<lparr>icache := map (\<lambda>ip. ip\<lparr>i_lock := initsleeplock\<rparr>) (icache s)\<rparr>)) (\<lambda>(sb', s).
       Inr (s\<lparr>gsb := sb'\<lparr>sb_size_avail := sb_nblocks sb' div 2 * 1024,
                       sb_size_used := (sb_size sb' - sb_nblocks sb') div 2 * 1024\<rparr>\<rparr>))"

text \<open>One pass over the cache finds either the entry or the first empty slot before the end.\<close>

definition iget :: "u32 \<Rightarrow> u32 \<Rightarrow> 'z kfs_scheme \<Rightarrow> (nat \<times> 'z kfs_scheme) res" where
  "iget dev inum s =
     (case first_idx (\<lambda>ip. i_ref ip > 0 \<and> i_dev ip = dev \<and> i_inum ip = inum) (icache s) of
        Some i \<Rightarrow> Inr (i, inode_upd i (\<lambda>ip. ip\<lparr>i_ref := i_ref ip + 1\<rparr>) s)
      | None \<Rightarrow>
          (case first_idx (\<lambda>ip. i_ref ip = 0) (icache s) of
             None \<Rightarrow> Inl (Panic ''iget: no inodes'')
           | Some i \<Rightarrow> Inr (i, inode_upd i
               (\<lambda>ip. ip\<lparr>i_dev := dev, i_inum := inum, i_ref := 1, i_valid := False\<rparr>) s)))"

definition idup :: "nat \<Rightarrow> 'z kfs_scheme \<Rightarrow> 'z kfs_scheme" where
  "idup i s = inode_upd i (\<lambda>ip. ip\<lparr>i_ref := i_ref ip + 1\<rparr>) s"

text \<open>The loop of \<^verbatim>\<open>ialloc\<close> over the inode numbers.\<close>

fun ialloc_loop :: "u32 \<Rightarrow> u16 \<Rightarrow> nat list \<Rightarrow> 'z kfs_scheme \<Rightarrow> (nat \<times> 'z kfs_scheme) res" where
  "ialloc_loop dev type [] s = Inl (Panic ''ialloc: no inodes'')"
| "ialloc_loop dev type (inum # inums) s =
     bnd (bread dev (IBLOCK (of_nat inum) (gsb s)) s) (\<lambda>(bp, s).
       let off = dip_off (of_nat inum)
       in if half_at (b_data (bufs s ! bp)) off = 0
          then bnd (log_write bp (bdata_put bp off (bytes16 type) (bdata_put bp off (replicate 64 0) s))) (\<lambda>s.
               bnd (brelse bp s) (\<lambda>s.
               iget dev (of_nat inum) s))
          else bnd (brelse bp s) (\<lambda>s. ialloc_loop dev type inums s))"

definition ialloc :: "u32 \<Rightarrow> u16 \<Rightarrow> 'z kfs_scheme \<Rightarrow> (nat \<times> 'z kfs_scheme) res" where
  "ialloc dev type s = ialloc_loop dev type [1 ..< unat (sb_ninodes (gsb s))] s"

definition iupdate :: "nat \<Rightarrow> 'z kfs_scheme \<Rightarrow> 'z kfs_scheme res" where
  "iupdate i s =
     (let ip = icache s ! i
      in bnd (bread (i_dev ip) (IBLOCK (i_inum ip) (gsb s)) s) (\<lambda>(bp, s).
         bnd (log_write bp (bdata_put bp (dip_off (i_inum ip)) (dinode_bytes ip) s)) (\<lambda>s.
         brelse bp s)))"

definition ilock :: "nat \<Rightarrow> 'z kfs_scheme \<Rightarrow> 'z kfs_scheme res" where
  "ilock i s =
     (let ip = icache s ! i
      in if i_ref ip < 1 then Inl (Panic ''ilock'')
         else bnd (acquiresleep (i_lock ip) s) (\<lambda>lk.
           let s = inode_upd i (\<lambda>ip. ip\<lparr>i_lock := lk\<rparr>) s
           in if i_valid ip then Inr s
              else
                bnd (bread (i_dev ip) (IBLOCK (i_inum ip) (gsb s)) s) (\<lambda>(bp, s).
                  let s = inode_upd i (dinode_load (b_data (bufs s ! bp)) (dip_off (i_inum ip))) s
                  in bnd (brelse bp s) (\<lambda>s.
                       let s = inode_upd i (\<lambda>ip. ip\<lparr>i_valid := True\<rparr>) s
                       in if i_type (icache s ! i) = 0 then Inl (Panic ''ilock: no type'') else Inr s))))"

text \<open>\<^verbatim>\<open>releasesleep(&ip->lock)\<close>.\<close>

definition inode_release :: "nat \<Rightarrow> 'z kfs_scheme \<Rightarrow> 'z kfs_scheme" where
  "inode_release i s =
     (let (lk, s) = releasesleep (ChInodeLock i) (i_lock (icache s ! i)) s
      in inode_upd i (\<lambda>ip. ip\<lparr>i_lock := lk\<rparr>) s)"

definition iunlock :: "nat \<Rightarrow> 'z kfs_scheme \<Rightarrow> 'z kfs_scheme res" where
  "iunlock i s =
     (let ip = icache s ! i
      in if \<not> holdingsleep (i_lock ip) \<or> i_ref ip < 1 then Inl (Panic ''iunlock'')
         else Inr (inode_release i s))"

section \<open>Content\<close>

definition bmap :: "nat \<Rightarrow> nat \<Rightarrow> 'z kfs_scheme \<Rightarrow> (u32 \<times> 'z kfs_scheme) res" where
  "bmap i bn s =
     (let ip = icache s ! i
      in if bn < NDIRECT
         then if i_addrs ip ! bn \<noteq> 0 then Inr (i_addrs ip ! bn, s)
              else bnd (balloc (i_dev ip) s) (\<lambda>(addr, s).
                Inr (addr, inode_upd i (\<lambda>ip. ip\<lparr>i_addrs := (i_addrs ip)[bn := addr]\<rparr>) s))
         else
           let bn = bn - NDIRECT
           in if bn < NINDIRECT
              then
                bnd (if i_addrs ip ! NDIRECT \<noteq> 0 then Inr (i_addrs ip ! NDIRECT, s)
                     else bnd (balloc (i_dev ip) s) (\<lambda>(addr, s).
                       Inr (addr, inode_upd i (\<lambda>ip. ip\<lparr>i_addrs := (i_addrs ip)[NDIRECT := addr]\<rparr>) s))) (\<lambda>(addr, s).
                bnd (bread (i_dev ip) addr s) (\<lambda>(bp, s).
                  let addr = word_at (b_data (bufs s ! bp)) (4 * bn)
                  in bnd (if addr \<noteq> 0 then Inr (addr, s)
                          else bnd (balloc (i_dev ip) s) (\<lambda>(addr, s).
                               bnd (log_write bp (bdata_put bp (4 * bn) (bytes32 addr) s)) (\<lambda>s.
                               Inr (addr, s)))) (\<lambda>(addr, s).
                     bnd (brelse bp s) (\<lambda>s. Inr (addr, s)))))
              else Inl (Panic ''bmap: out of range''))"

definition itrunc_direct :: "nat \<Rightarrow> nat \<Rightarrow> 'z kfs_scheme \<Rightarrow> 'z kfs_scheme res" where
  "itrunc_direct i k s =
     (let ip = icache s ! i
      in if i_addrs ip ! k \<noteq> 0
         then bnd (bfree (i_dev ip) (i_addrs ip ! k) s) (\<lambda>s.
                Inr (inode_upd i (\<lambda>ip. ip\<lparr>i_addrs := (i_addrs ip)[k := 0]\<rparr>) s))
         else Inr s)"

definition itrunc_indirect :: "nat \<Rightarrow> nat \<Rightarrow> nat \<Rightarrow> 'z kfs_scheme \<Rightarrow> 'z kfs_scheme res" where
  "itrunc_indirect i bp j s =
     (let a = word_at (b_data (bufs s ! bp)) (4 * j)
      in if a \<noteq> 0 then bfree (i_dev (icache s ! i)) a s else Inr s)"

definition itrunc :: "nat \<Rightarrow> 'z kfs_scheme \<Rightarrow> 'z kfs_scheme res" where
  "itrunc i s =
     bnd (foldR (itrunc_direct i) [0 ..< NDIRECT] s) (\<lambda>s.
     bnd (let ip = icache s ! i; addr = i_addrs ip ! NDIRECT
          in if addr \<noteq> 0
             then bnd (bread (i_dev ip) addr s) (\<lambda>(bp, s).
                  bnd (foldR (itrunc_indirect i bp) [0 ..< NINDIRECT] s) (\<lambda>s.
                  bnd (brelse bp s) (\<lambda>s.
                  bnd (bfree (i_dev ip) addr s) (\<lambda>s.
                    Inr (inode_upd i (\<lambda>ip. ip\<lparr>i_addrs := (i_addrs ip)[NDIRECT := 0]\<rparr>) s)))))
             else Inr s) (\<lambda>s.
     iupdate i (inode_upd i (\<lambda>ip. ip\<lparr>i_size := 0\<rparr>) s)))"

section \<open>Dropping references\<close>

definition iput :: "nat \<Rightarrow> 'z kfs_scheme \<Rightarrow> 'z kfs_scheme res" where
  "iput i s =
     bnd (acquiresleep (i_lock (icache s ! i)) s) (\<lambda>lk.
       let s = inode_upd i (\<lambda>ip. ip\<lparr>i_lock := lk\<rparr>) s; ip = icache s ! i
       in bnd (if i_valid ip \<and> i_nlink ip = 0 \<and> i_ref ip = 1
               then bnd (itrunc i s) (\<lambda>s.
                    bnd (iupdate i (inode_upd i (\<lambda>ip. ip\<lparr>i_type := 0\<rparr>) s)) (\<lambda>s.
                    Inr (inode_upd i (\<lambda>ip. ip\<lparr>i_valid := False\<rparr>) s)))
               else Inr s) (\<lambda>s.
            Inr (inode_upd i (\<lambda>ip. ip\<lparr>i_ref := i_ref ip - 1\<rparr>) (inode_release i s))))"

definition iunlockput :: "nat \<Rightarrow> 'z kfs_scheme \<Rightarrow> 'z kfs_scheme res" where
  "iunlockput i s = bnd (iunlock i s) (iput i)"

record stat =
  st_type :: u16
  st_dev :: u32
  st_ino :: u32
  st_nlink :: u16
  st_size :: u32

definition stati :: "nat \<Rightarrow> 'z kfs_scheme \<Rightarrow> stat" where
  "stati i s =
     (let ip = icache s ! i
      in \<lparr>st_type = i_type ip, st_dev = i_dev ip, st_ino = i_inum ip, st_nlink = i_nlink ip,
          st_size = i_size ip\<rparr>)"


section \<open>A concrete state\<close>

definition sb_ex :: superblock where
  "sb_ex = \<lparr>sb_size = 40, sb_nblocks = 4, sb_ninodes = 8, sb_nlog = 30, sb_logstart = 2, sb_inodestart = 32,
     sb_bmapstart = 33, sb_size_bytes = 0, sb_size_avail = 0, sb_size_used = 0\<rparr>"

definition inode0 :: inode where
  "inode0 = \<lparr>i_dev = 0, i_inum = 0, i_ref = 0, i_lock = initsleeplock, i_valid = False, i_type = 0, i_major = 0,
     i_minor = 0, i_nlink = 0, i_size = 0, i_addrs = replicate (NDIRECT + 1) 0\<rparr>"

definition kfs_ex :: "inode list \<Rightarrow> u8 list list \<Rightarrow> kfs" where
  "kfs_ex ic d = klog.extend (klog_ex d) (kfs.fields sb_ex ic)"

lemma kfs_ex_simps [simp]:
  "gsb (kfs_ex ic d) = sb_ex" "icache (kfs_ex ic d) = ic" "klog.truncate (kfs_ex ic d) = klog_ex d"
  "cur (kfs_ex ic d) = Some 0" "ptable (kfs_ex ic d) = procs_ex" "disk (kfs_ex ic d) = d"
  "lg_start (kfs_ex ic d) = 2" "lg_size (kfs_ex ic d) = 30" "lg_n (kfs_ex ic d) = 0"
  by (simp_all add: kfs_ex_def klog_ex_def kbio_ex_def kmem_ex_def kproc_ex_def conts.defs kproc.defs kmem.defs kbio.defs
      klog.defs kfs.defs)


section \<open>Blocks in a transaction\<close>

text \<open>
  What a step of the file system inside a transaction leaves: the log's invariant, the disk, and
  every part of the state but the buffers, the log's block numbers (at most \<open>k\<close> more) and processes
  that were woken.
\<close>

definition fs_step :: "nat \<Rightarrow> 'z klog_scheme \<Rightarrow> 'z klog_scheme \<Rightarrow> bool" where
  "fs_step k s t \<longleftrightarrow> log_inv t \<and> disk t = disk s \<and> list_all2 woken (ptable s) (ptable t)
     \<and> lg_n t \<le> lg_n s + int k
     \<and> t = s\<lparr>ptable := ptable t, bufs := bufs t, mru := mru t, lg_n := lg_n t, lg_block := lg_block t\<rparr>"

definition in_txn :: "nat \<Rightarrow> 'z klog_scheme \<Rightarrow> bool" where
  "in_txn k s \<longleftrightarrow> log_inv s \<and> lg_n s + int k < int LOGSIZE \<and> 1 \<le> lg_outstanding s"

lemma list_all2_woken_trans:
  "list_all2 woken xs ys \<Longrightarrow> list_all2 woken ys zs \<Longrightarrow> list_all2 woken xs zs"
  by (rule list_all2_trans [OF woken_trans])

lemma fs_stepD:
  assumes "fs_step k s t"
  shows "log_inv t" "disk t = disk s" "lg_start t = lg_start s" "lg_outstanding t = lg_outstanding s"
    "klog.more t = klog.more s" "in_log t = in_log s" "length (ptable t) = length (ptable s)" "cur t = cur s"
    "lg_n t \<le> lg_n s + int k"
proof -
  have e: "t = s\<lparr>ptable := ptable t, bufs := bufs t, mru := mru t, lg_n := lg_n t, lg_block := lg_block t\<rparr>"
    and "log_inv t" "disk t = disk s" "list_all2 woken (ptable s) (ptable t)" "lg_n t \<le> lg_n s + int k"
    using assms by (simp_all add: fs_step_def)
  then show "log_inv t" "disk t = disk s" "length (ptable t) = length (ptable s)" "lg_n t \<le> lg_n s + int k"
    by (simp_all add: list_all2_lengthD)
  show s: "lg_start t = lg_start s" "lg_outstanding t = lg_outstanding s" "klog.more t = klog.more s" "cur t = cur s"
    by (subst e, simp)+
  show "in_log t = in_log s" by (simp add: in_log_def fun_eq_iff s)
qed

lemma fs_step_kfs:
  fixes s t :: "'z kfs_scheme"
  assumes "fs_step k s t"
  shows "gsb t = gsb s" "icache t = icache s" "kfs.more t = kfs.more s"
proof -
  from assms have e: "t = s\<lparr>ptable := ptable t, bufs := bufs t, mru := mru t, lg_n := lg_n t, lg_block := lg_block t\<rparr>"
    by (simp add: fs_step_def)
  show "gsb t = gsb s" "icache t = icache s" "kfs.more t = kfs.more s" by (subst e, simp)+
qed

lemma fs_step_refl: "log_inv s \<Longrightarrow> fs_step 0 s s"
  by (simp add: fs_step_def list_all2_refl)

lemma fs_step_mono: "fs_step j s t \<Longrightarrow> j \<le> k \<Longrightarrow> fs_step k s t"
  by (auto simp: fs_step_def)

lemma fs_step_trans:
  assumes "fs_step j s t" and "fs_step k t u" and "j + k \<le> m"
  shows "fs_step m s u"
proof -
  have "t = s\<lparr>ptable := ptable t, bufs := bufs t, mru := mru t, lg_n := lg_n t, lg_block := lg_block t\<rparr>"
    "u = t\<lparr>ptable := ptable u, bufs := bufs u, mru := mru u, lg_n := lg_n u, lg_block := lg_block u\<rparr>"
    using assms by (simp_all add: fs_step_def)
  then have "u = s\<lparr>ptable := ptable t, bufs := bufs t, mru := mru t, lg_n := lg_n t, lg_block := lg_block t\<rparr>
      \<lparr>ptable := ptable u, bufs := bufs u, mru := mru u, lg_n := lg_n u, lg_block := lg_block u\<rparr>" by metis
  moreover have "list_all2 woken (ptable s) (ptable u)"
    using assms by (auto simp: fs_step_def intro: list_all2_woken_trans)
  ultimately show ?thesis using assms by (simp add: fs_step_def)
qed

lemma in_txn_step: "in_txn m s \<Longrightarrow> fs_step j s t \<Longrightarrow> j + k \<le> m \<Longrightarrow> in_txn k t"
  using fs_stepD(1,4,9) [of j s t] by (auto simp: in_txn_def)

lemma in_txn_mono: "in_txn k s \<Longrightarrow> j \<le> k \<Longrightarrow> in_txn j s"
  by (auto simp: in_txn_def)

lemma fs_step_same:
  assumes "log_inv s" and "same_bio s t"
  shows "fs_step 0 s t"
proof -
  have fr: "bio_frame s t" using assms(2) by (simp add: same_bio_def)
  note k = klog_frame [OF fr] log_frame [OF fr]
  have "txn_ok t" using assms fr by (intro txn_after [of s t]) (simp_all add: log_inv_def same_bio_def)
  then have "log_inv t" using assms by (simp add: log_inv_def same_bio_def pinned_logged_def k)
  moreover from fr assms(2) have "t = s\<lparr>ptable := ptable t, bufs := bufs t, mru := mru t\<rparr>"
    by (cases s, cases t) (simp add: bio_frame_def same_bio_def)
  ultimately show ?thesis using assms(2) k(6,7) fr
    by (cases s, cases t) (simp add: fs_step_def same_bio_def bio_frame_def)
qed

lemma fs_step_update:
  assumes "update_done s b v t" and "log_inv t"
  shows "fs_step 1 s t"
proof -
  have fr: "bio_frame (log_add b s) t" and d: "disk t = disk s" "disk_writes t = disk_writes s"
    using assms by (simp_all add: update_done_def)
  have "lg_n t \<le> lg_n s + 1" using klog_frame(6) [OF fr] by (simp add: log_add_def)
  moreover have "list_all2 woken (ptable s) (ptable t)" using fr by (simp add: bio_frame_def log_add_def split: if_splits)
  moreover have "t = s\<lparr>ptable := ptable t, bufs := bufs t, mru := mru t, lg_n := lg_n t, lg_block := lg_block t\<rparr>"
    using fr d by (cases s, cases t) (simp add: bio_frame_def log_add_def split: if_splits)
  ultimately show ?thesis using assms(2) d by (simp add: fs_step_def)
qed

text \<open>Every access of the file system to a block has this shape: \<open>bread\<close>, then either \<open>brelse\<close>, or a
  change of the data, \<open>log_write\<close> and \<open>brelse\<close>.\<close>

lemma fs_block:
  assumes inv: "log_inv s" and b: "unat b < length (disk s)"
  obtains i s1 t where "bread 1 b s = Inr (i, s1)" and "b_data (bufs s1 ! i) = bview s b"
    and "bio_frame s s1" and "brelse i s1 = Inr t" and "fs_step 0 s t" and "bview t = bview s"
    and "\<And>f. in_txn 1 s \<Longrightarrow> \<not> in_log s b \<Longrightarrow> (\<And>x. length x = BSIZE \<Longrightarrow> length (f x) = BSIZE) \<Longrightarrow>
      \<exists>s2 u. log_write i (buf_upd i (\<lambda>x. x\<lparr>b_data := f (b_data x)\<rparr>) s1) = Inr s2 \<and> brelse i s2 = Inr u
        \<and> fs_step 1 s u \<and> bview u = (bview s)(b := f (bview s b))"
proof -
  have l: "log_at s" using inv by (simp add: log_inv_def txn_ok_def)
  then have "\<exists>j. free_buf s j" using nfree_pos [of s] by (simp add: log_at_def)
  then have "can_read s b" using l b by (simp add: can_read_def log_at_def)
  then obtain i s1 t where r: "bread 1 b s = Inr (i, s1)" "b_data (bufs s1 ! i) = bview s b"
    "brelse i s1 = Inr t" "same_bio s t"
    by (rule read_block) (rule that, assumption+)
  show ?thesis
  proof (rule that [OF r(1,2) bread_frame [OF r(1)] r(3) fs_step_same [OF inv r(4)]])
    show "bview t = bview s" using r(4) by (simp add: same_bio_def)
    fix f :: "u8 list \<Rightarrow> u8 list"
    assume tx: "in_txn 1 s" and nl: "\<not> in_log s b" and f: "\<And>x. length x = BSIZE \<Longrightarrow> length (f x) = BSIZE"
    from tx have "lg_n s < int LOGSIZE - 1" "1 \<le> lg_outstanding s" by (simp_all add: in_txn_def)
    from log_update_ok [OF inv this b nl, of f] f obtain u where
      u: "log_update b f s = Inr u" "update_done s b (f (bview s b)) u" "log_inv u" by blast
    then have "fs_step 1 s u" "bview u = (bview s)(b := f (bview s b))"
      using fs_step_update [OF u(2,3)] by (simp_all add: update_done_def)
    with u(1) r(1) show "\<exists>s2 u. log_write i (buf_upd i (\<lambda>x. x\<lparr>b_data := f (b_data x)\<rparr>) s1) = Inr s2
        \<and> brelse i s2 = Inr u \<and> fs_step 1 s u \<and> bview u = (bview s)(b := f (bview s b))"
      by (auto simp: log_update_def bnd_Inr_iff)
  qed
qed

section \<open>The block allocator\<close>

lemma bit_clear_iff: "bit_clear d bi \<longleftrightarrow> \<not> bit (byte_at d (bi div 8)) (bi mod 8)"
  by (simp add: bit_clear_def push_bit_of_1 and_exp_eq_0_iff_not_bit)

definition bits_set :: "nat \<Rightarrow> u8 list \<Rightarrow> u8 list" where
  "bits_set bi d = d[bi div 8 := byte_at d (bi div 8) OR push_bit (bi mod 8) 1]"

definition bits_reset :: "nat \<Rightarrow> u8 list \<Rightarrow> u8 list" where
  "bits_reset bi d = d[bi div 8 := byte_at d (bi div 8) AND NOT (push_bit (bi mod 8) 1)]"

lemma bit_set_bits: "bit_set bi = (\<lambda>b. b\<lparr>b_data := bits_set bi (b_data b)\<rparr>)"
  "bit_reset bi = (\<lambda>b. b\<lparr>b_data := bits_reset bi (b_data b)\<rparr>)"
  by (simp_all add: fun_eq_iff bit_set_def bit_reset_def bits_set_def bits_reset_def)

lemma length_bits [simp]: "length (bits_set bi d) = length d" "length (bits_reset bi d) = length d"
  by (simp_all add: bits_set_def bits_reset_def)

lemma div_mod_8_eq: "(a :: nat) div 8 = b div 8 \<Longrightarrow> a mod 8 = b mod 8 \<Longrightarrow> a = b"
  by (metis div_mult_mod_eq)

lemma bit_clear_bits:
  assumes "bi < 8 * length d"
  shows "bit_clear (bits_set bi d) bj \<longleftrightarrow> bj \<noteq> bi \<and> bit_clear d bj"
    and "bit_clear (bits_reset bi d) bj \<longleftrightarrow> bj = bi \<or> bit_clear d bj"
proof -
  have l: "bi div 8 < length d" using assms by simp
  have m: "bi mod 8 < 8" "bj mod 8 < 8" by simp_all
  have "bit (push_bit (bi mod 8) 1 :: u8) (bj mod 8) \<longleftrightarrow> bi mod 8 = bj mod 8"
    using m by (auto simp: bit_simps)
  with l m show "bit_clear (bits_set bi d) bj \<longleftrightarrow> bj \<noteq> bi \<and> bit_clear d bj"
    "bit_clear (bits_reset bi d) bj \<longleftrightarrow> bj = bi \<or> bit_clear d bj"
    using div_mod_8_eq [of bj bi]
    by (auto simp: bit_clear_iff bits_set_def bits_reset_def byte_at_def nth_list_update bit_or_iff bit_and_iff bit_not_iff)
qed

text \<open>Block \<open>b\<close> is free according to the bitmap.\<close>

definition block_free :: "'z kfs_scheme \<Rightarrow> nat \<Rightarrow> bool" where
  "block_free s b \<longleftrightarrow> bit_clear (bview s (BBLOCK (of_nat b) (gsb s))) (b mod BPB)"

text \<open>The layout that \<^verbatim>\<open>mkfs\<close> leaves: the bitmap blocks are on the disk and outside the log, and the
  blocks of the log and of the bitmap are marked as used.\<close>

definition fs_layout :: "'z kfs_scheme \<Rightarrow> bool" where
  "fs_layout s \<longleftrightarrow> unat (sb_size (gsb s)) \<le> length (disk s)
     \<and> (\<forall>b < unat (sb_size (gsb s)). unat (BBLOCK (of_nat b) (gsb s)) < length (disk s)
          \<and> \<not> in_log s (BBLOCK (of_nat b) (gsb s)))
     \<and> (\<forall>b < unat (sb_size (gsb s)). block_free s b \<longrightarrow> \<not> in_log s (of_nat b)
          \<and> (\<forall>c < unat (sb_size (gsb s)). BBLOCK (of_nat c) (gsb s) \<noteq> of_nat b))"

lemma BPB_eq: "BPB = 4096" by (simp add: BPB_def BSIZE_def)

lemma BBLOCK_inj:
  assumes "b < 2 ^ 31" and "c < 2 ^ 31" and "BBLOCK (of_nat b) sb = BBLOCK (of_nat c) sb"
  shows "b div BPB = c div BPB"
proof -
  have "(of_nat b :: u32) div 4096 = of_nat c div 4096" using assms(3) by (simp add: BBLOCK_def BPB_eq)
  then have "unat ((of_nat b :: u32) div 4096) = unat ((of_nat c :: u32) div 4096)" by (rule arg_cong)
  then show ?thesis using assms(1,2) by (simp add: unat_div unat_of_nat BPB_eq)
qed

lemma BBLOCK_same:
  assumes "c < 2 ^ 31" and "b = c div BPB * BPB"
  shows "BBLOCK (of_nat b) sb = BBLOCK (of_nat c) sb"
proof -
  have d: "b div 4096 = c div 4096" "b \<le> c" using assms(2) by (simp_all add: BPB_eq)
  with assms(1) have "unat (of_nat b :: u32) = b" "unat (of_nat c :: u32) = c" by (simp_all add: unat_of_nat)
  with d(1) have "unat ((of_nat b :: u32) div 4096) = unat ((of_nat c :: u32) div 4096)" by (simp add: unat_div)
  then have "(of_nat b :: u32) div 4096 = of_nat c div 4096" by (simp only: word_unat_eq_iff)
  then show ?thesis by (simp add: BBLOCK_def BPB_eq)
qed

definition alloc_done :: "'z kfs_scheme \<Rightarrow> nat \<Rightarrow> 'z kfs_scheme \<Rightarrow> bool" where
  "alloc_done s c t \<longleftrightarrow> fs_step 2 s t
     \<and> bview t = (bview s)(BBLOCK (of_nat c) (gsb s) := bits_set (c mod BPB) (bview s (BBLOCK (of_nat c) (gsb s))),
                           of_nat c := replicate BSIZE 0)"

definition balloc_spec :: "nat \<Rightarrow> 'z kfs_scheme \<Rightarrow> (u32 \<times> 'z kfs_scheme) res \<Rightarrow> bool" where
  "balloc_spec n s r \<longleftrightarrow>
     (case r of
        Inl e \<Rightarrow> e = Panic ''balloc: out of blocks'' \<and> (\<forall>c < n. \<not> block_free s c)
      | Inr (a, t) \<Rightarrow> \<exists>c < n. a = of_nat c \<and> block_free s c \<and> (\<forall>k < c. \<not> block_free s k) \<and> alloc_done s c t)"

lemma block_free_cong:
  "bview t = bview s \<Longrightarrow> gsb t = gsb s \<Longrightarrow> block_free t = block_free s"
  by (simp add: block_free_def fun_eq_iff)

lemma fs_layout_cong:
  "bview t = bview s \<Longrightarrow> gsb t = gsb s \<Longrightarrow> disk t = disk s \<Longrightarrow> in_log t = in_log s \<Longrightarrow> fs_layout t = fs_layout s"
  using block_free_cong [of t s] by (simp add: fs_layout_def)

lemma balloc_spec_step:
  assumes f: "fs_step 0 s t" and v: "bview t = bview s" and r: "balloc_spec n t r"
  shows "balloc_spec n s r"
proof -
  have g: "gsb t = gsb s" by (rule fs_step_kfs(1) [OF f])
  have "alloc_done s c u" if "alloc_done t c u" for c u
    using that fs_step_trans [OF f, of 2 u 2] by (simp add: alloc_done_def v g)
  with r block_free_cong [OF v g] show ?thesis by (auto simp: balloc_spec_def split: sum.splits)
qed

lemma bzero_ok:
  assumes tx: "in_txn 1 s" and b: "unat b < length (disk s)" "\<not> in_log s b"
  shows "\<exists>t. bzero 1 b s = Inr t \<and> fs_step 1 s t \<and> bview t = (bview s)(b := replicate BSIZE 0)"
proof -
  have "log_inv s" using tx by (simp add: in_txn_def)
  then obtain i s1 where r: "bread 1 b s = Inr (i, s1)"
    and w: "\<And>f. in_txn 1 s \<Longrightarrow> \<not> in_log s b \<Longrightarrow> (\<And>x. length x = BSIZE \<Longrightarrow> length (f x) = BSIZE) \<Longrightarrow>
      \<exists>s2 u. log_write i (buf_upd i (\<lambda>x. x\<lparr>b_data := f (b_data x)\<rparr>) s1) = Inr s2 \<and> brelse i s2 = Inr u
        \<and> fs_step 1 s u \<and> bview u = (bview s)(b := f (bview s b))"
    using b(1) by (rule fs_block) blast
  from w [OF tx b(2), of "\<lambda>_. replicate BSIZE 0"] r show ?thesis by (auto simp: bzero_def)
qed

lemma balloc_hit:
  assumes tx: "in_txn 2 s" and lay: "fs_layout s" and n: "n = unat (sb_size (gsb s))" "n < 2 ^ 31"
    and c: "c < n" "block_free s c" and B: "B = BBLOCK (of_nat c) (gsb s)"
    and u: "fs_step 1 s u" "bview u = (bview s)(B := bits_set (c mod BPB) (bview s B))"
  shows "\<exists>t. bzero 1 (of_nat c) u = Inr t \<and> alloc_done s c t"
proof -
  have "unat (of_nat c :: u32) = c" using c(1) n(2) by (simp add: unat_of_nat)
  then have "unat (of_nat c :: u32) < length (disk u)" "\<not> in_log u (of_nat c)"
    using lay c n(1) fs_stepD(2,6) [OF u(1)] by (auto simp: fs_layout_def)
  moreover have "in_txn 1 u" by (rule in_txn_step [OF tx u(1)]) simp
  ultimately obtain t where t: "bzero 1 (of_nat c) u = Inr t" "fs_step 1 u t"
    "bview t = (bview u)(of_nat c := replicate BSIZE 0)"
    using bzero_ok by blast
  with fs_step_trans [OF u(1) t(2), of 2] u(2) B show ?thesis by (simp add: alloc_done_def)
qed

lemma bitmap_bit:
  assumes "b mod BPB = 0" and "k < BPB" and "b + k < 2 ^ 31"
  shows "(b + k) mod BPB = k \<and> BBLOCK (of_nat (b + k)) (gsb s) = BBLOCK (of_nat b) (gsb s)
    \<and> block_free s (b + k) = bit_clear (bview s (BBLOCK (of_nat b) (gsb s))) k"
proof -
  have m: "(b + k) mod BPB = k" using assms(1,2) by (simp add: mod_add_eq [symmetric])
  then have "b = (b + k) div BPB * BPB"
    by (metis add_diff_cancel_right' minus_mod_eq_div_mult)
  then have "BBLOCK (of_nat b) (gsb s) = BBLOCK (of_nat (b + k)) (gsb s)"
    using assms(3) by (intro BBLOCK_same)
  with m show ?thesis by (simp add: block_free_def)
qed

lemma balloc_loop_ok:
  assumes "in_txn 2 s" and "fs_layout s" and "n = unat (sb_size (gsb s))" and "n < 2 ^ 31"
    and "b mod BPB = 0" and "\<forall>c < min b n. \<not> block_free s c"
  shows "balloc_spec n s (balloc_loop 1 n b s)"
  using assms
proof (induction "n - b" arbitrary: b s rule: less_induct)
  case less
  show ?case
  proof (cases "b < n")
    case False
    with less.prems show ?thesis by (subst balloc_loop.simps) (simp add: balloc_spec_def)
  next
    case True
    let ?B = "BBLOCK (of_nat b) (gsb s)"
    have B: "unat ?B < length (disk s)" "\<not> in_log s ?B" and inv: "log_inv s"
      using less.prems(1-3) True by (simp_all add: fs_layout_def in_txn_def)
    obtain i s1 t where r: "bread 1 ?B s = Inr (i, s1)" "b_data (bufs s1 ! i) = bview s ?B" "brelse i s1 = Inr t"
        "fs_step 0 s t" "bview t = bview s"
      and w: "\<And>f. in_txn 1 s \<Longrightarrow> \<not> in_log s ?B \<Longrightarrow> (\<And>x. length x = BSIZE \<Longrightarrow> length (f x) = BSIZE) \<Longrightarrow>
        \<exists>s2 u. log_write i (buf_upd i (\<lambda>x. x\<lparr>b_data := f (b_data x)\<rparr>) s1) = Inr s2 \<and> brelse i s2 = Inr u
          \<and> fs_step 1 s u \<and> bview u = (bview s)(?B := f (bview s ?B))"
      using inv B(1) by (rule fs_block) blast
    have same: "block_free s (b + k) = bit_clear (bview s ?B) k" "BBLOCK (of_nat (b + k)) (gsb s) = ?B"
        "(b + k) mod BPB = k" if "k < min BPB (n - b)" for k
      using that bitmap_bit [OF less.prems(5), of k s] less.prems(4) by auto
    show ?thesis
    proof (cases "first_idx (bit_clear (bview s ?B)) [0 ..< min BPB (n - b)]")
      case None
      then have no: "\<not> block_free s (b + k)" if "k < min BPB (n - b)" for k
        using that same(1) by (auto simp: first_idx_None_iff)
      have "\<forall>c < min (b + BPB) n. \<not> block_free s c"
      proof (intro allI impI)
        fix c assume "c < min (b + BPB) n"
        then have "c < min b n \<or> c = b + (c - b) \<and> c - b < min BPB (n - b)" by auto
        then show "\<not> block_free s c" using no [of "c - b"] less.prems(6) by auto
      qed
      moreover note g = fs_step_kfs(1) [OF r(4)] fs_stepD(2,6) [OF r(4)]
      ultimately have "balloc_spec n t (balloc_loop 1 n (b + BPB) t)"
        using less.prems r(4,5) True in_txn_step [of 2 s 0 t 2] block_free_cong [OF r(5) g(1)] fs_layout_cong [OF r(5) g(1,2)]
        by (intro less.hyps) (simp_all add: BPB_eq g)
      from balloc_spec_step [OF r(4,5) this] show ?thesis
        by (subst balloc_loop.simps) (simp add: True r(1,2,3) None)
    next
      case (Some bi)
      then have bi: "bi < min BPB (n - b)" "bit_clear (bview s ?B) bi" "\<forall>j < bi. \<not> bit_clear (bview s ?B) j"
        by (auto simp: first_idx_Some_iff)
      obtain s2 u where u: "log_write i (buf_upd i (bit_set bi) s1) = Inr s2" "brelse i s2 = Inr u" "fs_step 1 s u"
          "bview u = (bview s)(?B := bits_set bi (bview s ?B))"
        using w [of "bits_set bi"] B(2) less.prems(1) in_txn_mono [of 2 s 1] by (auto simp: bit_set_bits)
      have c: "b + bi < n" "block_free s (b + bi)" using bi same(1) by auto
      obtain v where v: "bzero 1 (of_nat (b + bi)) u = Inr v" "alloc_done s (b + bi) v"
        using balloc_hit [OF less.prems(1-4) c same(2) [OF bi(1), symmetric] u(3)] u(4) same(3) [OF bi(1)] by auto
      have "\<not> block_free s k" if "k < b + bi" for k
      proof -
        have "k < b \<or> k - b < bi \<and> b + (k - b) = k" using that by auto
        then show ?thesis using less.prems(6) bi same(1) [of "k - b"] True by auto
      qed
      with c v show ?thesis
        by (subst balloc_loop.simps) (auto simp: True r(1,2) Some u(1,2) balloc_spec_def)
    qed
  qed
qed

lemma length_bview_fs: "log_inv s \<Longrightarrow> unat b < length (disk s) \<Longrightarrow> length (bview s b) = BSIZE"
  by (rule length_bview) (simp_all add: log_inv_def txn_ok_def log_at_def)

text \<open>The bitmap after a change of the bit of block \<open>b\<close>.\<close>

lemma block_free_upd:
  assumes "bview t (BBLOCK (of_nat c) (gsb s)) = ((bview s)(BBLOCK (of_nat b) (gsb s) := d)) (BBLOCK (of_nat c) (gsb s))" and "gsb t = gsb s" and "b < 2 ^ 31" and "c < 2 ^ 31"
    and "\<And>k. bit_clear d k \<longleftrightarrow> (if k = b mod BPB then P else bit_clear (bview s (BBLOCK (of_nat b) (gsb s))) k)"
  shows "block_free t c \<longleftrightarrow> (if c = b then P else block_free s c)"
proof (cases "BBLOCK (of_nat c) (gsb s) = BBLOCK (of_nat b) (gsb s)")
  case True
  then have "c div BPB = b div BPB" using assms(3,4) by (intro BBLOCK_inj)
  then have "c mod BPB = b mod BPB \<longleftrightarrow> c = b" by (metis div_mult_mod_eq)
  with True assms show ?thesis by (simp add: block_free_def)
next
  case False
  with assms show ?thesis by (auto simp: block_free_def)
qed

text \<open>C25: \<open>balloc\<close> in a transaction with room for two more blocks never hands out a block that is in
  use. It returns the first block that the bitmap shows free and zeroes it; afterwards the
  bitmap shows that block used and every other block as before, and no block but it and its
  bitmap block has changed. It panics exactly when no block is free.\<close>

theorem balloc_correct:
  assumes tx: "in_txn 2 s" and lay: "fs_layout s" and n: "unat (sb_size (gsb s)) < 2 ^ 31"
  shows "case balloc 1 s of
      Inl e \<Rightarrow> e = Panic ''balloc: out of blocks'' \<and> (\<forall>c < unat (sb_size (gsb s)). \<not> block_free s c)
    | Inr (b, t) \<Rightarrow> unat b < unat (sb_size (gsb s)) \<and> block_free s (unat b) \<and> (\<forall>c < unat b. \<not> block_free s c)
        \<and> bview t b = replicate BSIZE 0
        \<and> (\<forall>c < unat (sb_size (gsb s)). block_free t c \<longleftrightarrow> c \<noteq> unat b \<and> block_free s c)
        \<and> (\<forall>x. x \<noteq> b \<longrightarrow> x \<noteq> BBLOCK b (gsb s) \<longrightarrow> bview t x = bview s x) \<and> fs_step 2 s t"
proof -
  have sp: "balloc_spec (unat (sb_size (gsb s))) s (balloc 1 s)"
    unfolding balloc_def by (rule balloc_loop_ok [OF tx lay refl n]) simp_all
  show ?thesis
  proof (cases "balloc 1 s")
    case (Inl e)
    with sp show ?thesis by (simp add: balloc_spec_def)
  next
    case (Inr r)
    obtain a t where r: "r = (a, t)" by fastforce
    obtain b where b: "b < unat (sb_size (gsb s))" "a = of_nat b" "block_free s b" "\<forall>c < b. \<not> block_free s c"
      and d: "alloc_done s b t" using sp Inr r by (auto simp: balloc_spec_def)
    have ub: "unat a = b" using b n by (simp add: unat_of_nat)
    let ?B = "BBLOCK (of_nat b) (gsb s)"
    have nB: "BBLOCK (of_nat c) (gsb s) \<noteq> of_nat b" if "c < unat (sb_size (gsb s))" for c
      using lay b(1,3) that by (auto simp: fs_layout_def)
    have g: "gsb t = gsb s" using d by (auto simp: alloc_done_def dest: fs_step_kfs)
    have inv: "log_inv s" and vB: "unat ?B < length (disk s)"
      using tx lay b(1) by (simp_all add: in_txn_def fs_layout_def)
    have bits: "bit_clear (bits_set (b mod BPB) (bview s ?B)) k
        \<longleftrightarrow> (if k = b mod BPB then False else bit_clear (bview s ?B) k)" for k
      by (subst bit_clear_bits) (simp_all add: length_bview_fs [OF inv vB] BPB_def BSIZE_def)
    have "block_free t c \<longleftrightarrow> c \<noteq> b \<and> block_free s c" if c: "c < unat (sb_size (gsb s))" for c
      using block_free_upd [OF _ g _ _ bits, of c] nB [OF c] d c b(1) n by (auto simp: alloc_done_def)
    with Inr r b d ub nB [OF b(1)] show ?thesis by (auto simp: alloc_done_def)
  qed
qed

text \<open>A disk of 40 blocks whose blocks from 36 on are free; block 32 has the inodes \<open>ino\<close>.\<close>

definition disk_ex :: "u8 list \<Rightarrow> u8 list list" where
  "disk_ex ino = (replicate 40 (replicate BSIZE 0))
     [32 := ino, 33 := map (\<lambda>k. if k < 4 then 255 else if k = 4 then 15 else 0) [0 ..< BSIZE]]"

lemma disk_ex_simps [simp]:
  "length (disk_ex ino) = 40" "disk_ex ino ! 2 = replicate BSIZE 0" "disk_ex ino ! 32 = ino"
  "disk_ex ino ! 33 = map (\<lambda>k. if k < 4 then 255 else if k = 4 then 15 else 0) [0 ..< BSIZE]"
  by (simp_all add: disk_ex_def)

lemma disk_ex_blocks: "length ino = BSIZE \<Longrightarrow> \<forall>x \<in> set (disk_ex ino). length x = BSIZE"
  by (auto simp: disk_ex_def dest!: set_update_subset_insert [THEN subsetD] split: if_splits)

definition txn_ex :: "inode list \<Rightarrow> u8 list \<Rightarrow> kfs" where
  "txn_ex ic ino = (kfs_ex ic (disk_ex ino))\<lparr>lg_outstanding := 1\<rparr>"

lemma txn_ex_simps [simp]:
  "gsb (txn_ex ic ino) = sb_ex" "icache (txn_ex ic ino) = ic" "disk (txn_ex ic ino) = disk_ex ino"
  "lg_start (txn_ex ic ino) = 2" "lg_n (txn_ex ic ino) = 0" "lg_outstanding (txn_ex ic ino) = 1"
  "cur (txn_ex ic ino) = Some 0" "ptable (txn_ex ic ino) = procs_ex"
  by (simp_all add: txn_ex_def)

lemma txn_ex_ok:
  assumes "length ino = BSIZE"
  shows "log_inv (txn_ex ic ino)" "k < LOGSIZE \<Longrightarrow> in_txn k (txn_ex ic ino)" "bview (txn_ex ic ino) b = disk_ex ino ! unat b"
proof -
  let ?s = "txn_ex ic ino" and ?l = "klog_ex (disk_ex ino)"
  have f: "bufs ?s = bufs ?l" "mru ?s = mru ?l" "disk ?s = disk ?l" "cur ?s = cur ?l" "ptable ?s = ptable ?l"
    "lg_start ?s = lg_start ?l" "lg_size ?s = lg_size ?l" "lg_n ?s = lg_n ?l" "lg_block ?s = lg_block ?l" "lg_dev ?s = lg_dev ?l"
    by (simp_all add: txn_ex_def kfs_ex_def klog_ex_def kbio_ex_def kmem_ex_def kproc_ex_def conts.defs kproc.defs kmem.defs
        kbio.defs klog.defs kfs.defs)
  note c = bio_cong [of ?s ?l, OF f(1-3)]
  have "log_inv ?l" using disk_ex_blocks [OF assms]
    by (intro log_inv_ex) (simp_all add: head_n_def word_at_def byte_at_def BSIZE_def join32_def)
  then show inv: "log_inv ?s"
    using c f by (simp add: log_inv_def txn_ok_def log_at_def pinned_logged_def logged_def in_log_def)
  then show "k < LOGSIZE \<Longrightarrow> in_txn k ?s" by (simp add: in_txn_def)
  have "bview ?l b = bview (kbio_ex (disk_ex ino)) b" by (simp add: bio_cong(1) [of ?l "kbio_ex (disk_ex ino)"])
  then show "bview ?s b = disk_ex ino ! unat b" using c(1) empty_cache(1) [OF disk_ex_blocks [OF assms]] by simp
qed

lemma block_free_ex:
  assumes "length ino = BSIZE" and "b < 40"
  shows "block_free (txn_ex ic ino) b \<longleftrightarrow> 36 \<le> b"
proof -
  have "BBLOCK (of_nat b) sb_ex = 33"
    using assms(2) by (simp add: BBLOCK_def BPB_eq sb_ex_def word_unat_eq_iff unat_div unat_of_nat unat_word_ariths)
  then have f: "block_free (txn_ex ic ino) b \<longleftrightarrow> bit_clear (disk_ex ino ! 33) b"
    using assms by (simp add: block_free_def txn_ex_ok BPB_eq)
  consider "b < 32" | "32 \<le> b" by linarith
  then show ?thesis
  proof cases
    case 1
    then have "b div 8 < 4" by simp
    moreover have "(255 :: u8) = - 1" by simp
    then have "bit (255 :: u8) (b mod 8)" by (simp only: bit_minus_1_iff) simp
    ultimately show ?thesis using f 1 by (simp add: bit_clear_iff byte_at_def BSIZE_def)
  next
    case 2
    then have q: "b div 8 = 4" "b mod 8 = b - 32" using assms(2) by presburger+
    have "(15 :: int) = mask 4" by (simp add: mask_eq_exp_minus_1)
    then have "bit (15 :: int) k \<longleftrightarrow> k < 4" for k by (simp only: bit_mask_iff) simp
    then have "block_free (txn_ex ic ino) b \<longleftrightarrow> \<not> (b - 32 < 8 \<and> b - 32 < 4)"
      unfolding f bit_clear_iff q by (simp add: byte_at_def BSIZE_def)
    with 2 show ?thesis by arith
  qed
qed

lemma fs_layout_ex:
  assumes "length ino = BSIZE"
  shows "fs_layout (txn_ex ic ino)"
proof -
  have B: "BBLOCK (of_nat b) sb_ex = 33" if "b < 40" for b
    using that by (simp add: BBLOCK_def BPB_eq sb_ex_def word_unat_eq_iff unat_div unat_of_nat unat_word_ariths)
  have "(33 :: u32) \<noteq> of_nat b" if "36 \<le> b" "b < 40" for b
    using that by (simp add: word_unat_eq_iff unat_of_nat)
  with B block_free_ex [OF assms] show ?thesis
    by (auto simp: fs_layout_def in_log_def LOGSIZE_def unat_of_nat sb_ex_def)
qed

theorem balloc_correct_witness: "\<exists>t. balloc 1 (txn_ex [] (replicate BSIZE 0)) = Inr (36, t)"
proof -
  let ?s = "txn_ex [] (replicate BSIZE 0)"
  have l: "length (replicate BSIZE 0 :: u8 list) = BSIZE" by simp
  have n: "unat (sb_size (gsb ?s)) = 40" by (simp add: sb_ex_def)
  note c = balloc_correct [OF txn_ex_ok(2) [OF l] fs_layout_ex [OF l], of "[]", simplified n]
  show ?thesis
  proof (cases "balloc 1 ?s")
    case (Inl e)
    with c block_free_ex [OF l, of 36 "[]"] show ?thesis by (auto simp: LOGSIZE_def)
  next
    case (Inr r)
    obtain b t where r: "r = (b, t)" by fastforce
    from c Inr r have b: "unat b < 40" "block_free ?s (unat b)" "\<forall>c < unat b. \<not> block_free ?s c"
      by (simp_all add: LOGSIZE_def)
    have "36 \<le> unat b" using b(1,2) block_free_ex [OF l, of "unat b" "[]"] by simp
    moreover have "\<not> 36 < unat b" using b(3) block_free_ex [OF l, of 36 "[]"] by fastforce
    ultimately have "unat b = 36" by simp
    then have "b = 36" by (simp add: word_unat_eq_iff)
    with Inr r show ?thesis by simp
  qed
qed

section \<open>Inodes on disk\<close>

lemma byte_at_part:
  "off + length xs \<le> length d \<Longrightarrow> j < length xs \<Longrightarrow> byte_at (splice d off xs) (off + j) = byte_at xs j"
  by (simp add: byte_at_splice) (simp add: byte_at_def)

lemma half_at_part:
  assumes "off + length xs \<le> length d" and "k + 2 \<le> length xs"
  shows "half_at (splice d off xs) (off + k) = half_at xs k"
  unfolding half_at_def add.assoc using assms by (simp only: byte_at_part)

lemma word_at_part:
  assumes "off + length xs \<le> length d" and "k + 4 \<le> length xs"
  shows "word_at (splice d off xs) (off + k) = word_at xs k"
  unfolding word_at_def add.assoc using assms by (simp only: byte_at_part)

lemma word_at_append: "word_at (xs @ ys) (length xs + k) = word_at ys k"
  by (simp add: word_at_def byte_at_def nth_append)

lemma word_at_concat:
  assumes "k < length ws"
  shows "word_at (concat (map bytes32 ws)) (4 * k) = ws ! k"
proof -
  let ?d = "replicate (4 * length ws) 0"
  have "splice ?d 0 (concat (map bytes32 ws)) = concat (map bytes32 ws)"
    using length_concat_bytes32 [of "\<lambda>x. x" ws] by (simp add: splice_def)
  with word_at_words [of 0 ws ?d k "\<lambda>x. x"] assms show ?thesis by simp
qed

lemma length_dinode_bytes: "length (i_addrs ip) = NDIRECT + 1 \<Longrightarrow> length (dinode_bytes ip) = 64"
  using length_concat_bytes32 [of "\<lambda>x. x" "i_addrs ip"] by (simp add: dinode_bytes_def NDIRECT_def)

lemma dinode_load_bytes:
  assumes l: "length (i_addrs ip) = NDIRECT + 1" and off: "off + 64 \<le> length d"
  shows "dinode_load (splice d off (dinode_bytes ip)) off e
    = e\<lparr>i_type := i_type ip, i_major := i_major ip, i_minor := i_minor ip, i_nlink := i_nlink ip,
        i_size := i_size ip, i_addrs := i_addrs ip\<rparr>"
proof -
  note n = length_dinode_bytes [OF l]
  let ?h = "bytes16 (i_type ip) @ bytes16 (i_major ip) @ bytes16 (i_minor ip) @ bytes16 (i_nlink ip) @ bytes32 (i_size ip)"
  have e: "dinode_bytes ip = ?h @ concat (map bytes32 (i_addrs ip))" by (simp add: dinode_bytes_def)
  have p: "half_at (splice d off (dinode_bytes ip)) (off + k) = half_at (dinode_bytes ip) k" if "k + 2 \<le> 64" for k
    using off n that by (intro half_at_part) simp_all
  have w: "word_at (splice d off (dinode_bytes ip)) (off + k) = word_at (dinode_bytes ip) k" if "k + 4 \<le> 64" for k
    using off n that by (intro word_at_part) simp_all
  have a: "word_at (splice d off (dinode_bytes ip)) (off + 12 + 4 * k) = i_addrs ip ! k" if "k < NDIRECT + 1" for k
  proof -
    have "word_at (splice d off (dinode_bytes ip)) (off + 12 + 4 * k) = word_at (dinode_bytes ip) (12 + 4 * k)"
      using w [of "12 + 4 * k"] that by (simp add: NDIRECT_def add.assoc)
    also have "\<dots> = word_at (concat (map bytes32 (i_addrs ip))) (4 * k)"
      unfolding e using word_at_append [of ?h "concat (map bytes32 (i_addrs ip))" "4 * k"] by simp
    also have "\<dots> = i_addrs ip ! k" using that l by (intro word_at_concat) simp
    finally show ?thesis .
  qed
  have "map (\<lambda>k. word_at (splice d off (dinode_bytes ip)) (off + 12 + 4 * k)) [0 ..< NDIRECT + 1] = i_addrs ip"
    using a l by (intro nth_equalityI) (simp_all del: upt_Suc)
  moreover have "half_at (dinode_bytes ip) 0 = i_type ip" "half_at (dinode_bytes ip) 2 = i_major ip"
    "half_at (dinode_bytes ip) 4 = i_minor ip" "half_at (dinode_bytes ip) 6 = i_nlink ip" "word_at (dinode_bytes ip) 8 = i_size ip"
    unfolding dinode_bytes_def by (simp_all add: half_at_def word_at_def byte_at_def bytes16_def bytes32_def join16_bytes join32_bytes)
  ultimately show ?thesis using p [of 0] p [of 2] p [of 4] p [of 6] w [of 8] by (simp add: dinode_load_def)
qed

text \<open>The block of inode \<open>i\<close> of the cache is on the disk and outside the log.\<close>

definition inode_at :: "'z kfs_scheme \<Rightarrow> nat \<Rightarrow> bool" where
  "inode_at s i \<longleftrightarrow> i < length (icache s) \<and> i_dev (icache s ! i) = 1
     \<and> unat (IBLOCK (i_inum (icache s ! i)) (gsb s)) < length (disk s) \<and> \<not> in_log s (IBLOCK (i_inum (icache s ! i)) (gsb s))"

lemma dip_off_bound: "dip_off n + 64 \<le> BSIZE"
proof -
  have "unat n mod IPB < IPB" by (simp add: IPB_def BSIZE_def)
  then show ?thesis by (simp add: dip_off_def IPB_def BSIZE_def)
qed

lemma iupdate_ok:
  assumes tx: "in_txn 1 s" and i: "inode_at s i" and l: "length (i_addrs (icache s ! i)) = NDIRECT + 1"
    and B: "B = IBLOCK (i_inum (icache s ! i)) (gsb s)"
  shows "\<exists>t. iupdate i s = Inr t \<and> fs_step 1 s t
    \<and> bview t = (bview s)(B := splice (bview s B) (dip_off (i_inum (icache s ! i))) (dinode_bytes (icache s ! i)))"
proof -
  have inv: "log_inv s" and b: "unat B < length (disk s)" "\<not> in_log s B" and d: "i_dev (icache s ! i) = 1"
    using tx i B by (simp_all add: in_txn_def inode_at_def)
  obtain bp s1 where r: "bread 1 B s = Inr (bp, s1)"
    and w: "\<And>f. in_txn 1 s \<Longrightarrow> \<not> in_log s B \<Longrightarrow> (\<And>x. length x = BSIZE \<Longrightarrow> length (f x) = BSIZE) \<Longrightarrow>
      \<exists>s2 u. log_write bp (buf_upd bp (\<lambda>x. x\<lparr>b_data := f (b_data x)\<rparr>) s1) = Inr s2 \<and> brelse bp s2 = Inr u
        \<and> fs_step 1 s u \<and> bview u = (bview s)(B := f (bview s B))"
    using inv b(1) by (rule fs_block) blast
  let ?f = "\<lambda>x. splice x (dip_off (i_inum (icache s ! i))) (dinode_bytes (icache s ! i))"
  have "length (?f x) = BSIZE" if "length x = BSIZE" for x
    using that dip_off_bound [of "i_inum (icache s ! i)"] length_dinode_bytes [OF l] by simp
  from w [OF tx b(2), of ?f, OF this] r show ?thesis
    by (auto simp: iupdate_def d B bdata_put_def Let_def)
qed

lemma brelse_icache:
  fixes s :: "'z kfs_scheme"
  assumes "brelse b s = Inr t"
  shows "brelse b (s\<lparr>icache := ic\<rparr>) = Inr (t\<lparr>icache := ic\<rparr>)"
  using assms
  by (cases s) (auto simp: brelse_def releasesleep_def wakeup_def wakeup1_def buf_upd_def Let_def split: if_splits)

lemma log_inv_cong:
  fixes s :: "'a klog_scheme" and t :: "'b klog_scheme"
  assumes "bufs t = bufs s" and "mru t = mru s" and "disk t = disk s" and "cur t = cur s"
    and "length (ptable t) = length (ptable s)" and "lg_start t = lg_start s" and "lg_size t = lg_size s"
    and "lg_n t = lg_n s" and "lg_block t = lg_block s" and "lg_dev t = lg_dev s"
  shows "log_inv t = log_inv s" "in_log t = in_log s" "bview t = bview s"
proof -
  note c = bio_cong [OF assms(1-3)]
  show "in_log t = in_log s" "bview t = bview s" using assms c by (simp_all add: in_log_def fun_eq_iff)
  then show "log_inv t = log_inv s"
    using c assms by (simp add: log_inv_def txn_ok_def log_at_def pinned_logged_def logged_def)
qed

lemma icache_upd [simp]:
  fixes s :: "'z kfs_scheme"
  shows "log_inv (s\<lparr>icache := ic\<rparr>) = log_inv s" "in_log (s\<lparr>icache := ic\<rparr>) = in_log s"
    "bview (s\<lparr>icache := ic\<rparr>) = bview s" "in_txn k (s\<lparr>icache := ic\<rparr>) = in_txn k s"
    "my_proc (s\<lparr>icache := ic\<rparr>) = my_proc s"
proof -
  show "log_inv (s\<lparr>icache := ic\<rparr>) = log_inv s" "in_log (s\<lparr>icache := ic\<rparr>) = in_log s" "bview (s\<lparr>icache := ic\<rparr>) = bview s"
    by (rule log_inv_cong; simp)+
  then show "in_txn k (s\<lparr>icache := ic\<rparr>) = in_txn k s" by (simp add: in_txn_def)
  show "my_proc (s\<lparr>icache := ic\<rparr>) = my_proc s" by (simp add: my_proc_def myproc_def cong: option.case_cong)
qed

lemma dip_off_apart: "dip_off m \<noteq> dip_off n \<Longrightarrow> dip_off m + 64 \<le> dip_off n \<or> dip_off n + 64 \<le> dip_off m"
  by (cases "unat m mod IPB < unat n mod IPB") (auto simp: dip_off_def)

lemma dinode_load_other:
  assumes "off + length xs \<le> length d" and "off' + 64 \<le> off \<or> off + length xs \<le> off'"
  shows "dinode_load (splice d off xs) off' ip = dinode_load d off' ip"
proof -
  have "half_at (splice d off xs) (off' + k) = half_at d (off' + k)" if "k + 2 \<le> 64" for k
    using assms that by (intro half_at_splice_other) auto
  from this [of 0] this [of 2] this [of 4] this [of 6]
  have h: "half_at (splice d off xs) off' = half_at d off'" "half_at (splice d off xs) (off' + 2) = half_at d (off' + 2)"
    "half_at (splice d off xs) (off' + 4) = half_at d (off' + 4)" "half_at (splice d off xs) (off' + 6) = half_at d (off' + 6)"
    by simp_all
  have w: "word_at (splice d off xs) (off' + k) = word_at d (off' + k)" if "k + 4 \<le> 64" for k
    using assms that by (intro word_at_splice_other) auto
  have "map (\<lambda>k. word_at (splice d off xs) (off' + 12 + 4 * k)) [0 ..< NDIRECT + 1]
      = map (\<lambda>k. word_at d (off' + 12 + 4 * k)) [0 ..< NDIRECT + 1]"
    using w by (intro map_cong refl) (simp add: NDIRECT_def add.assoc)
  with h w [of 8] show ?thesis unfolding dinode_load_def by simp
qed

text \<open>A cache entry for inode \<open>inum\<close> of the disk that nobody has locked and that was not read yet.\<close>

definition fresh_inode :: "u32 \<Rightarrow> inode \<Rightarrow> bool" where
  "fresh_inode inum e \<longleftrightarrow> i_dev e = 1 \<and> i_inum e = inum \<and> 1 \<le> i_ref e \<and> \<not> sl_locked (i_lock e) \<and> \<not> i_valid e"

lemma ilock_fresh:
  assumes inv: "log_inv s" and i: "i < length (icache s)" and e: "fresh_inode inum (icache s ! i)"
    and b: "unat (IBLOCK inum (gsb s)) < length (disk s)"
    and d: "dinode_load (bview s (IBLOCK inum (gsb s))) (dip_off inum) (icache s ! i) = ip" and ty: "i_type ip \<noteq> 0"
  shows "\<exists>u lk. ilock i s = Inr u \<and> sl_locked lk \<and> icache u = (icache s)[i := ip\<lparr>i_lock := lk, i_valid := True\<rparr>]
    \<and> log_inv u \<and> bview u = bview s \<and> gsb u = gsb s \<and> disk u = disk s"
proof -
  have "bio_inv s" using inv by (simp add: log_inv_def txn_ok_def log_at_def)
  then obtain p where p: "my_proc s = Inr p" using my_proc_bio by blast
  let ?lk = "(i_lock (icache s ! i))\<lparr>sl_locked := True, sl_pid := p_pid p\<rparr>"
  let ?s = "inode_upd i (\<lambda>ip. ip\<lparr>i_lock := ?lk\<rparr>) s"
  have "log_inv ?s" "unat (IBLOCK inum (gsb s)) < length (disk ?s)" using inv b by (simp_all add: inode_upd_def)
  then obtain bp s1 t where r: "bread 1 (IBLOCK inum (gsb s)) ?s = Inr (bp, s1)"
      "b_data (bufs s1 ! bp) = bview ?s (IBLOCK inum (gsb s))" "bio_frame ?s s1" "brelse bp s1 = Inr t"
      "fs_step 0 ?s t" "bview t = bview ?s"
    by (rule fs_block) (rule that, assumption+)
  have ic: "icache s1 = icache ?s"
    using klog_frame(8) [OF r(3)] by (cases s1, cases ?s) simp
  have ld: "dinode_load D k ((icache s ! i)\<lparr>i_lock := x\<rparr>) = (dinode_load D k (icache s ! i))\<lparr>i_lock := x\<rparr>" for D k x
    by (simp add: dinode_load_def)
  have ip: "icache s1 ! i = (icache s ! i)\<lparr>i_lock := ?lk\<rparr>" using i ic by (simp add: inode_upd_def)
  have b2: "brelse bp (s1\<lparr>icache := x\<rparr>) = Inr (t\<lparr>icache := x\<rparr>)" for x by (rule brelse_icache [OF r(4)])
  define u where "u = t\<lparr>icache := (icache s)[i := ip\<lparr>i_lock := ?lk, i_valid := True\<rparr>]\<rparr>"
  have "ilock i s = Inr u"
    using e p i r(1,2) ip ic d ty
    by (simp add: ilock_def fresh_inode_def acquiresleep_def inode_upd_def b2 ld u_def)
  moreover have "log_inv u" "bview u = bview s" "gsb u = gsb s" "disk u = disk s"
    using fs_stepD(1,2) [OF r(5)] fs_step_kfs(1) [OF r(5)] r(6) by (simp_all add: u_def inode_upd_def)
  ultimately show ?thesis
    by (intro exI [of _ u] exI [of _ ?lk]) (simp add: u_def)
qed

text \<open>C26: an inode survives eviction from the cache. After \<open>iupdate\<close>, a fresh cache entry for the
  same inode that is locked with \<open>ilock\<close> gets back the type, the device numbers, the link
  count, the size and the thirteen block addresses; the other inodes of the same block keep
  their bytes.\<close>

theorem iupdate_ilock:
  assumes tx: "in_txn 1 s" and i: "inode_at s i" and l: "length (i_addrs (icache s ! i)) = NDIRECT + 1"
    and ty: "i_type (icache s ! i) \<noteq> 0" and e: "fresh_inode (i_inum (icache s ! i)) e"
  shows "\<exists>t u lk. iupdate i s = Inr t \<and> ilock i (t\<lparr>icache := (icache t)[i := e]\<rparr>) = Inr u
    \<and> icache u ! i = (icache s ! i)\<lparr>i_ref := i_ref e, i_lock := lk, i_valid := True\<rparr>
    \<and> (\<forall>n. IBLOCK n (gsb s) = IBLOCK (i_inum (icache s ! i)) (gsb s) \<longrightarrow> dip_off n \<noteq> dip_off (i_inum (icache s ! i)) \<longrightarrow>
         dinode_load (bview t (IBLOCK n (gsb s))) (dip_off n) ip = dinode_load (bview s (IBLOCK n (gsb s))) (dip_off n) ip)"
proof -
  let ?ip = "icache s ! i"
  let ?B = "IBLOCK (i_inum ?ip) (gsb s)" and ?off = "dip_off (i_inum ?ip)"
  obtain t where t: "iupdate i s = Inr t" "fs_step 1 s t"
    "bview t = (bview s)(?B := splice (bview s ?B) ?off (dinode_bytes ?ip))"
    using iupdate_ok [OF tx i l refl] by blast
  have b: "unat ?B < length (disk s)" "i < length (icache s)" "i_dev ?ip = 1" using i by (simp_all add: inode_at_def)
  have lb: "length (bview s ?B) = BSIZE" using tx b(1) by (intro length_bview_fs) (simp_all add: in_txn_def)
  then have off: "?off + 64 \<le> length (bview s ?B)" using dip_off_bound by simp
  note f = fs_stepD(1,2) [OF t(2)] fs_step_kfs(1,2) [OF t(2)]
  define x where "x = ?ip\<lparr>i_ref := i_ref e, i_lock := i_lock e, i_valid := False\<rparr>"
  have "dinode_load (bview t ?B) ?off e = x"
    using e b(3) dinode_load_bytes [OF l off] by (simp add: t(3) x_def fresh_inode_def)
  then obtain u lk where "ilock i (t\<lparr>icache := (icache t)[i := e]\<rparr>) = Inr u"
      "icache u = ((icache t)[i := e])[i := x\<lparr>i_lock := lk, i_valid := True\<rparr>]"
    using ilock_fresh [of "t\<lparr>icache := (icache t)[i := e]\<rparr>" i "i_inum ?ip" x] e b f ty by (auto simp: x_def)
  moreover have "dinode_load (bview t ?B) (dip_off n) ip = dinode_load (bview s ?B) (dip_off n) ip" if "dip_off n \<noteq> ?off" for n
    using dip_off_apart [OF that] off length_dinode_bytes [OF l] by (auto simp: t(3) intro!: dinode_load_other)
  ultimately show ?thesis using t(1) f(4) b(2)
    by (intro exI [of _ t] exI [of _ u] exI [of _ lk]) (simp add: x_def)
qed

theorem iupdate_ilock_witness:
  "\<exists>t u. iupdate 0 (txn_ex [inode0\<lparr>i_dev := 1, i_inum := 3, i_ref := 1, i_type := T_FILE, i_size := 700\<rparr>] (replicate BSIZE 0)) = Inr t
     \<and> ilock 0 (t\<lparr>icache := (icache t)[0 := inode0\<lparr>i_dev := 1, i_inum := 3, i_ref := 2\<rparr>]\<rparr>) = Inr u
     \<and> i_size (icache u ! 0) = 700 \<and> i_ref (icache u ! 0) = 2"
proof -
  let ?s = "txn_ex [inode0\<lparr>i_dev := 1, i_inum := 3, i_ref := 1, i_type := T_FILE, i_size := 700\<rparr>] (replicate BSIZE 0)"
  have "in_txn 1 ?s" by (rule txn_ex_ok(2)) (simp_all add: LOGSIZE_def)
  moreover have "inode_at ?s 0"
    by (simp add: inode_at_def inode0_def IBLOCK_def IPB_def BSIZE_def sb_ex_def in_log_def LOGSIZE_def)
  moreover have "length (i_addrs (icache ?s ! 0)) = NDIRECT + 1" "i_type (icache ?s ! 0) \<noteq> 0"
    "fresh_inode (i_inum (icache ?s ! 0)) (inode0\<lparr>i_dev := 1, i_inum := 3, i_ref := 2\<rparr>)"
    by (simp_all add: inode0_def T_FILE_def fresh_inode_def initsleeplock_def)
  ultimately obtain t u lk where "iupdate 0 ?s = Inr t" "ilock 0 (t\<lparr>icache := (icache t)[0 := inode0\<lparr>i_dev := 1, i_inum := 3, i_ref := 2\<rparr>]\<rparr>) = Inr u"
    "icache u ! 0 = (icache ?s ! 0)\<lparr>i_ref := i_ref (inode0\<lparr>i_dev := 1, i_inum := 3, i_ref := 2\<rparr>), i_lock := lk, i_valid := True\<rparr>"
    using iupdate_ilock [of ?s 0 "inode0\<lparr>i_dev := 1, i_inum := 3, i_ref := 2\<rparr>" inode0] by blast
  then show ?thesis by simp
qed

section \<open>The blocks of a file\<close>

text \<open>Block \<open>bn\<close> of the file of inode \<open>ip\<close>, when all blocks up to it are allocated.\<close>

definition file_block :: "(u32 \<Rightarrow> u8 list) \<Rightarrow> inode \<Rightarrow> nat \<Rightarrow> u32" where
  "file_block v ip bn =
     (if bn < NDIRECT then i_addrs ip ! bn else word_at (v (i_addrs ip ! NDIRECT)) (4 * (bn - NDIRECT)))"

definition file_byte :: "(u32 \<Rightarrow> u8 list) \<Rightarrow> inode \<Rightarrow> nat \<Rightarrow> u8" where
  "file_byte v ip off = v (file_block v ip (off div BSIZE)) ! (off mod BSIZE)"

text \<open>The first \<open>n\<close> blocks of the file are allocated: each address is that of a block of its own on
  the disk, outside the log, and none is the indirect block.\<close>

definition file_mapped :: "'z kfs_scheme \<Rightarrow> inode \<Rightarrow> nat \<Rightarrow> bool" where
  "file_mapped s ip n \<longleftrightarrow> i_dev ip = 1 \<and> n \<le> MAXFILE
     \<and> (NDIRECT < n \<longrightarrow> i_addrs ip ! NDIRECT \<noteq> 0 \<and> unat (i_addrs ip ! NDIRECT) < length (disk s))
     \<and> (\<forall>k < n. file_block (bview s) ip k \<noteq> 0 \<and> unat (file_block (bview s) ip k) < length (disk s)
          \<and> \<not> in_log s (file_block (bview s) ip k) \<and> (NDIRECT < n \<longrightarrow> file_block (bview s) ip k \<noteq> i_addrs ip ! NDIRECT))
     \<and> inj_on (file_block (bview s) ip) {..< n}"

lemma bmap_mapped:
  assumes inv: "log_inv s" and m: "file_mapped s (icache s ! i) n" and k: "k < n"
  shows "\<exists>t. bmap i k s = Inr (file_block (bview s) (icache s ! i) k, t) \<and> fs_step 0 s t \<and> bview t = bview s"
proof (cases "k < NDIRECT")
  case True
  then have "i_addrs (icache s ! i) ! k \<noteq> 0" using m k by (auto simp: file_mapped_def file_block_def)
  with True inv show ?thesis by (simp add: bmap_def file_block_def fs_step_refl Let_def)
next
  case False
  let ?a = "i_addrs (icache s ! i) ! NDIRECT"
  have a: "?a \<noteq> 0" "unat ?a < length (disk s)" and d: "i_dev (icache s ! i) = 1" and N: "k - NDIRECT < NINDIRECT"
    and nz: "word_at (bview s ?a) (4 * (k - NDIRECT)) \<noteq> 0"
    using m k False by (auto simp: file_mapped_def file_block_def MAXFILE_def)
  obtain bp s1 t where r: "bread 1 ?a s = Inr (bp, s1)" "b_data (bufs s1 ! bp) = bview s ?a" "brelse bp s1 = Inr t"
      "fs_step 0 s t" "bview t = bview s"
    using inv a(2) by (rule fs_block) (rule that, assumption+)
  with False a d N nz show ?thesis by (simp add: bmap_def file_block_def Let_def)
qed

lemma file_mapped_step: "fs_step k s t \<Longrightarrow> bview t = bview s \<Longrightarrow> file_mapped t ip n = file_mapped s ip n"
  using fs_stepD(2,6) [of k s t] by (simp add: file_mapped_def)

text \<open>A change of data block \<open>k\<close> changes the bytes of that block and leaves the mapping.\<close>

lemma file_block_upd:
  assumes m: "file_mapped s ip n" and "k < n" and "j < n"
  shows "file_block ((bview s)(file_block (bview s) ip k := d)) ip j = file_block (bview s) ip j"
  using assms by (auto simp: file_block_def file_mapped_def)

lemma file_mapped_upd:
  assumes m: "file_mapped s ip n" and k: "k < n" and f: "fs_step j s t"
    and v: "bview t = (bview s)(file_block (bview s) ip k := d)"
  shows "file_mapped t ip n"
  using m file_block_upd [OF m k] fs_stepD(2,6) [OF f]
  by (auto simp: file_mapped_def v inj_on_def)

lemma file_byte_upd:
  assumes m: "file_mapped s ip n" and k: "k < n" and x: "x div BSIZE < n"
  shows "file_byte ((bview s)(file_block (bview s) ip k := d)) ip x
    = (if x div BSIZE = k then d ! (x mod BSIZE) else file_byte (bview s) ip x)"
proof -
  have "inj_on (file_block (bview s) ip) {..< n}" using m by (simp add: file_mapped_def)
  then have "file_block (bview s) ip (x div BSIZE) = file_block (bview s) ip k \<longleftrightarrow> x div BSIZE = k"
    using k x by (simp add: inj_on_eq_iff)
  then show ?thesis using file_block_upd [OF m k x, of d] by (auto simp: file_byte_def)
qed

end
