(* ===== verification/Console.thy ===== *)
theory Console
  imports Inode
begin

text \<open>
  The console of \<^verbatim>\<open>console.c\<close>: formatted output, the screen, the edited input line with its three
  indices into a ring of 128 bytes, and the switch between the virtual consoles.

  Characters that go to the screen are collected in \<open>con_out\<close> (with \<open>BACKSPACE\<close> as 256); what
  \<open>cgaputc\<close> does to the text memory is a function on a screen of its own. A reader that finds
  no input would sleep; this is the result \<open>Blocked\<close>.
\<close>

section \<open>Formatted output\<close>

definition digits :: string where "digits = ''0123456789abcdef''"

text \<open>The digits of \<open>x\<close>, least significant first, as the loop puts them in \<^verbatim>\<open>buf\<close>.\<close>

function printint_digits :: "nat \<Rightarrow> nat \<Rightarrow> string" where
  "printint_digits x base =
     (if 2 \<le> base \<and> x div base \<noteq> 0 then digits ! (x mod base) # printint_digits (x div base) base
      else [digits ! (x mod base)])"
  by pat_completeness auto
termination
  by (relation "measure fst") (auto simp: div_greater_zero_iff intro!: div_less_dividend)

declare printint_digits.simps [simp del]

definition printint :: "u32 \<Rightarrow> nat \<Rightarrow> bool \<Rightarrow> string" where
  "printint xx base sign =
     (let neg = sign \<and> sint xx < 0; x = (if neg then - xx else xx)
      in rev (printint_digits (unat x) base @ (if neg then ''-'' else [])))"

text \<open>An argument of \<^verbatim>\<open>cprintf\<close>: a word, or a string pointer that may be NULL.\<close>

datatype parg = PInt u32 | PStr "string option"

definition parg_int :: "parg \<Rightarrow> u32 res" where
  "parg_int a = (case a of PInt w \<Rightarrow> Inr w | PStr _ \<Rightarrow> Inl (Fault ''cprintf''))"

definition parg_str :: "parg \<Rightarrow> string res" where
  "parg_str a = (case a of PInt w \<Rightarrow> (if w = 0 then Inr ''(null)'' else Inl (Fault ''cprintf''))
                 | PStr None \<Rightarrow> Inr ''(null)'' | PStr (Some s) \<Rightarrow> Inr (cstr s))"

function cprintf :: "string \<Rightarrow> parg list \<Rightarrow> string res" where
  "cprintf fmt args =
     (let c = deref fmt
      in if c = NUL then Inr []
         else if c \<noteq> CHR ''%'' then bnd (cprintf (tl fmt) args) (\<lambda>r. Inr (c # r))
         else
           let c = deref (tl fmt); rest = tl (tl fmt)
           in if c = NUL then Inr []
              else if c = CHR ''d'' then
                (case args of [] \<Rightarrow> Inl (Fault ''cprintf'')
                 | a # args \<Rightarrow> bnd (parg_int a) (\<lambda>w. bnd (cprintf rest args) (\<lambda>r. Inr (printint w 10 True @ r))))
              else if c = CHR ''x'' \<or> c = CHR ''p'' then
                (case args of [] \<Rightarrow> Inl (Fault ''cprintf'')
                 | a # args \<Rightarrow> bnd (parg_int a) (\<lambda>w. bnd (cprintf rest args) (\<lambda>r. Inr (printint w 16 False @ r))))
              else if c = CHR ''s'' then
                (case args of [] \<Rightarrow> Inl (Fault ''cprintf'')
                 | a # args \<Rightarrow> bnd (parg_str a) (\<lambda>t. bnd (cprintf rest args) (\<lambda>r. Inr (t @ r))))
              else if c = CHR ''%'' then bnd (cprintf rest args) (\<lambda>r. Inr (CHR ''%'' # r))
              else bnd (cprintf rest args) (\<lambda>r. Inr (CHR ''%'' # c # r)))"
  by pat_completeness auto
termination
proof (relation "measure (\<lambda>(fmt, _). length fmt)", goal_cases)
  case 1
  then show ?case by simp
qed (auto simp: deref_def split: if_splits list.splits)

declare cprintf.simps [simp del]

section \<open>The screen\<close>

definition BACKSPACE :: int where "BACKSPACE = 0x100"

record screen =
  crt :: "u16 list"
  crt_pos :: int

definition crt_put :: "int \<Rightarrow> u16 \<Rightarrow> screen \<Rightarrow> screen res" where
  "crt_put pos v sc = bnd (modify ''crt'' (crt sc) pos (\<lambda>_. v)) (\<lambda>m. Inr (sc\<lparr>crt := m\<rparr>))"

definition cgaputc :: "int \<Rightarrow> screen \<Rightarrow> screen res" where
  "cgaputc c sc =
     (let pos = crt_pos sc
      in bnd (if c = 10 then Inr (pos + (80 - pos mod 80), sc)
              else if c = BACKSPACE then Inr (if pos > 0 then pos - 1 else pos, sc)
              else bnd (crt_put pos (word_of_int (c mod 256) OR 0x0700) sc) (\<lambda>sc. Inr (pos + 1, sc))) (\<lambda>(pos, sc).
           if pos < 0 \<or> pos > 25 * 80 then Inl (Panic ''pos under/overflow'')
           else
             let (pos, sc) =
               (if pos div 80 \<ge> 24
                then (pos - 80,
                      sc\<lparr>crt := take (nat (pos - 80)) (take (23 * 80) (drop 80 (crt sc)) @ drop (23 * 80) (crt sc))
                            @ replicate (24 * 80 - nat (pos - 80)) 0 @ drop (24 * 80) (crt sc)\<rparr>)
                else (pos, sc))
             in crt_put pos (0x20 OR 0x0700) (sc\<lparr>crt_pos := pos\<rparr>)))"

section \<open>Input\<close>

definition MAX_VC :: int where "MAX_VC = 4"
definition INPUT_BUF :: u32 where "INPUT_BUF = 128"

record input =
  in_buf :: "u8 list"
  in_r :: u32
  in_w :: u32
  in_e :: u32

record kcons = kfs +
  input :: input
  active :: int
  buf1 :: input
  buf2 :: input
  buf3 :: input
  buf4 :: input
  con_out :: "int list"

definition consputc :: "int \<Rightarrow> 'z kcons_scheme \<Rightarrow> 'z kcons_scheme" where
  "consputc c s = s\<lparr>con_out := con_out s @ [c]\<rparr>"

definition in_at :: "input \<Rightarrow> u32 \<Rightarrow> u8" where
  "in_at b i = in_buf b ! unat (i mod INPUT_BUF)"

text \<open>\<^verbatim>\<open>C('U')\<close>: back to the start of the line. The number of characters left to erase decreases.\<close>

function kill_line :: "'z kcons_scheme \<Rightarrow> 'z kcons_scheme" where
  "kill_line s =
     (if in_e (input s) \<noteq> in_w (input s) \<and> in_at (input s) (in_e (input s) - 1) \<noteq> 10
      then kill_line (consputc BACKSPACE (s\<lparr>input := (input s)\<lparr>in_e := in_e (input s) - 1\<rparr>\<rparr>))
      else s)"
  by pat_completeness auto
termination
proof (relation "measure (\<lambda>s. unat (in_e (input s) - in_w (input s)))", goal_cases)
  case (2 s)
  then have "in_e (input s) - in_w (input s) \<noteq> 0" by simp
  then have "unat (in_e (input s) - in_w (input s) - 1) < unat (in_e (input s) - in_w (input s))"
    by (simp add: unat_minus_one unat_gt_0)
  then show ?case by (simp add: consputc_def algebra_simps)
qed simp

declare kill_line.simps [simp del]

definition switch_console :: "'z kcons_scheme \<Rightarrow> 'z kcons_scheme" where
  "switch_console s =
     (if active s + 1 > MAX_VC then s\<lparr>active := 1, input := buf1 s\<rparr>
      else
        let s = s\<lparr>active := active s + 1\<rparr>;
            s = (if active s = 2 then s\<lparr>buf2 := input s\<rparr> else s);
            s = (if active s = 3 then s\<lparr>buf3 := input s\<rparr> else s)
        in if active s = 4 then s\<lparr>buf4 := input s\<rparr> else s)"

definition backspace :: "'z kcons_scheme \<Rightarrow> 'z kcons_scheme" where
  "backspace s =
     (if in_e (input s) \<noteq> in_w (input s)
      then consputc BACKSPACE (s\<lparr>input := (input s)\<lparr>in_e := in_e (input s) - 1\<rparr>\<rparr>)
      else s)"

definition put_input :: "int \<Rightarrow> 'z kcons_scheme \<Rightarrow> 'z kcons_scheme" where
  "put_input c s =
     (if c \<noteq> 0 \<and> in_e (input s) - in_r (input s) < INPUT_BUF
      then
        let c = (if c = 13 then 10 else c);
            b = input s;
            b = b\<lparr>in_buf := (in_buf b)[unat (in_e b mod INPUT_BUF) := word_of_int c], in_e := in_e b + 1\<rparr>;
            s = consputc c (s\<lparr>input := b\<rparr>)
        in if c = 10 \<or> c = 4 \<or> in_e b = in_r b + INPUT_BUF
           then wakeup (Some ChCons) (s\<lparr>input := b\<lparr>in_w := in_e b\<rparr>\<rparr>)
           else s
      else s)"

text \<open>One character of \<^verbatim>\<open>consoleintr\<close>; \<^verbatim>\<open>C('P')\<close> only asks for the process list.\<close>

definition consoleintr_char :: "int \<Rightarrow> 'z kcons_scheme \<Rightarrow> 'z kcons_scheme" where
  "consoleintr_char c s =
     (if c = 16 then s
      else if c = 20 then switch_console s
      else if c = 21 then kill_line s
      else if c = 8 \<or> c = 127 then backspace s
      else put_input c s)"

text \<open>\<open>cprintf\<close> on the console.\<close>

definition con_print :: "string \<Rightarrow> parg list \<Rightarrow> 'z kcons_scheme \<Rightarrow> 'z kcons_scheme res" where
  "con_print fmt args s = bnd (cprintf fmt args) (\<lambda>t. Inr (fold (\<lambda>c. consputc (of_char c)) t s))"

text \<open>The lines of \<open>procdump\<close>, without the return addresses that follow a sleeping process: they come
  from its kernel stack.\<close>

definition con_procdump :: "'z kcons_scheme \<Rightarrow> 'z kcons_scheme res" where
  "con_procdump s =
     bnd (procdump s) (\<lambda>ls.
       foldR (\<lambda>(pid, cn, st, nm, tk) s.
         bnd (con_print ''%d %s %s %s TICKS: %d''
                [PInt (word_of_int pid), PStr (Some cn), PStr (Some st), PStr (Some nm), PInt tk] s) (con_print [CHR 0x0A] [])) ls s)"

text \<open>\<open>cs\<close> is what \<^verbatim>\<open>getc\<close> returns, up to the first negative value. The process list and the number of the
  console are printed after the loop, once.\<close>

definition consoleintr :: "int list \<Rightarrow> 'z kcons_scheme \<Rightarrow> 'z kcons_scheme res" where
  "consoleintr cs s =
     (let cs = takeWhile (\<lambda>c. c \<ge> 0) cs; s = fold consoleintr_char cs s
      in bnd (if 16 \<in> set cs
              then bnd (con_print (''aout to call procdump.'' @ [CHR 0x0A]) [] s) (\<lambda>s.
                   bnd (con_procdump s) (con_print (''after the call procdump.'' @ [CHR 0x0A]) []))
              else Inr s) (\<lambda>s.
           if 20 \<in> set cs
           then con_print (CHR 0x0A # ''Active console now: %d'' @ [CHR 0x0A]) [PInt (word_of_int (active s))] s
           else Inr s))"

section \<open>Reading and writing\<close>

text \<open>The loop of \<^verbatim>\<open>consoleread\<close>: \<open>n\<close> more bytes are wanted, \<open>got\<close> were read. None is the
  result -1 of a killed reader. \<^verbatim>\<open>C('D')\<close> ends the read; when bytes were read before it, it is left
  for the next read.\<close>

fun consoleread_loop ::
  "nat \<Rightarrow> nat \<Rightarrow> u8 list \<Rightarrow> 'z kcons_scheme \<Rightarrow> (u8 list option \<times> 'z kcons_scheme) res" where
  "consoleread_loop i 0 got s = Inr (Some got, s)"
| "consoleread_loop i (Suc n) got s =
     (if in_r (input s) = in_w (input s) \<or> active s \<noteq> sint (i_minor (icache s ! i))
      then bnd (my_proc s) (\<lambda>p. if p_killed p then Inr (None, s) else Inl (Blocked ''input''))
      else
        let c = in_at (input s) (in_r (input s));
            s' = s\<lparr>input := (input s)\<lparr>in_r := in_r (input s) + 1\<rparr>\<rparr>
        in if c = 4 then Inr (Some got, if got \<noteq> [] then s else s')
           else if c = 10 then Inr (Some (got @ [c]), s')
           else consoleread_loop i n (got @ [c]) s')"

definition consoleread :: "nat \<Rightarrow> int \<Rightarrow> 'z kcons_scheme \<Rightarrow> (u8 list option \<times> 'z kcons_scheme) res" where
  "consoleread i n s =
     bnd (iunlock i s) (\<lambda>s.
     bnd (consoleread_loop i (nat n) [] s) (\<lambda>(r, s).
     bnd (ilock i s) (\<lambda>s. Inr (r, s))))"

definition consolewrite :: "nat \<Rightarrow> u8 list \<Rightarrow> 'z kcons_scheme \<Rightarrow> (int \<times> 'z kcons_scheme) res" where
  "consolewrite i buf s =
     bnd (if active s = sint (i_minor (icache s ! i))
          then bnd (iunlock i s) (\<lambda>s. ilock i (fold (\<lambda>c. consputc (uint c)) buf s))
          else Inr s) (\<lambda>s. Inr (int (length buf), s))"


section \<open>A concrete state\<close>

definition input0 :: input where
  "input0 = \<lparr>in_buf = replicate 128 0, in_r = 0, in_w = 0, in_e = 0\<rparr>"

definition kcons_ex :: "inode list \<Rightarrow> u8 list list \<Rightarrow> kcons" where
  "kcons_ex ic d = kfs.extend (kfs_ex ic d) (kcons.fields input0 1 input0 input0 input0 input0 [])"

lemma kcons_ex_simps [simp]:
  "input (kcons_ex ic d) = input0" "active (kcons_ex ic d) = 1" "kfs.truncate (kcons_ex ic d) = kfs_ex ic d"
  "buf1 (kcons_ex ic d) = input0" "buf2 (kcons_ex ic d) = input0" "buf3 (kcons_ex ic d) = input0" "buf4 (kcons_ex ic d) = input0"
  "icache (kcons_ex ic d) = ic" "cur (kcons_ex ic d) = Some 0" "ptable (kcons_ex ic d) = procs_ex"
  by (simp_all add: kcons_ex_def kfs_ex_def klog_ex_def kbio_ex_def kmem_ex_def kproc_ex_def conts.defs kproc.defs kmem.defs
      kbio.defs klog.defs kfs.defs kcons.defs)

end
