(* ===== verification/Fs.thy ===== *)
theory Fs
  imports Console
begin

text \<open>
  The upper half of \<^verbatim>\<open>fs.c\<close>: file content, directories and path names, with the confinement of
  a container to its root directory. \<open>readi\<close> returns the bytes it would copy to its caller and
  \<open>writei\<close> takes the bytes its caller passes; \<open>None\<close> stands for the result -1.

  \<^verbatim>\<open>set_root_inode\<close> of \<^verbatim>\<open>container.c\<close> is here because it calls \<open>namei\<close>.
\<close>

section \<open>Reading and writing\<close>

definition NDEV :: int where "NDEV = 10"
definition CONSOLE :: int where "CONSOLE = 1"
definition DIRSIZ :: nat where "DIRSIZ = 14"
definition ROOTINO :: u32 where "ROOTINO = 1"
definition ROOTDEV :: u32 where "ROOTDEV = 1"

text \<open>\<open>consoleinit\<close> fills one row of \<^verbatim>\<open>devsw\<close>; the others stay NULL.\<close>

definition has_dev :: "inode \<Rightarrow> bool" where
  "has_dev ip \<longleftrightarrow> \<not> (sint (i_major ip) < 0 \<or> sint (i_major ip) \<ge> NDEV) \<and> sint (i_major ip) = CONSOLE"

function readi_loop :: "nat \<Rightarrow> nat \<Rightarrow> nat \<Rightarrow> 'z kcons_scheme \<Rightarrow> (u8 list \<times> 'z kcons_scheme) res" where
  "readi_loop i off n s =
     (if n > 0
      then bnd (bmap i (off div BSIZE) s) (\<lambda>(addr, s).
           bnd (bread (i_dev (icache s ! i)) addr s) (\<lambda>(bp, s).
             let m = min n (BSIZE - off mod BSIZE);
                 d = take m (drop (off mod BSIZE) (b_data (bufs s ! bp)))
             in bnd (brelse bp s) (\<lambda>s.
                bnd (readi_loop i (off + m) (n - m) s) (\<lambda>(ds, s). Inr (d @ ds, s)))))
      else Inr ([], s))"
  by pat_completeness auto
termination
  by (relation "measure (\<lambda>(_, _, n, _). n)") (simp_all add: BSIZE_def)

declare readi_loop.simps [simp del]

definition readi :: "nat \<Rightarrow> u32 \<Rightarrow> u32 \<Rightarrow> 'z kcons_scheme \<Rightarrow> (u8 list option \<times> 'z kcons_scheme) res" where
  "readi i off n s =
     (let ip = icache s ! i
      in if i_type ip = T_DEV
         then if has_dev ip then consoleread i (sint n) s else Inr (None, s)
         else if off > i_size ip \<or> off + n < off then Inr (None, s)
         else
           let n = (if off + n > i_size ip then i_size ip - off else n)
           in bnd (readi_loop i (unat off) (unat n) s) (\<lambda>(ds, s). Inr (Some ds, s)))"

function writei_loop :: "nat \<Rightarrow> nat \<Rightarrow> u8 list \<Rightarrow> 'z kcons_scheme \<Rightarrow> 'z kcons_scheme res" where
  "writei_loop i off src s =
     (if src \<noteq> []
      then bnd (bmap i (off div BSIZE) s) (\<lambda>(addr, s).
           bnd (bread (i_dev (icache s ! i)) addr s) (\<lambda>(bp, s).
             let m = min (length src) (BSIZE - off mod BSIZE)
             in bnd (log_write bp (bdata_put bp (off mod BSIZE) (take m src) s)) (\<lambda>s.
                bnd (brelse bp s) (\<lambda>s.
                writei_loop i (off + m) (drop m src) s))))
      else Inr s)"
  by pat_completeness auto
termination
  by (relation "measure (\<lambda>(_, _, src, _). length src)") (simp_all add: BSIZE_def)

declare writei_loop.simps [simp del]

text \<open>The charge to the container of the caller. The result tells whether the write goes on.\<close>

definition writei_charge :: "int \<Rightarrow> int \<Rightarrow> 'z kcons_scheme \<Rightarrow> (bool \<times> 'z kcons_scheme) res" where
  "writei_charge tot x s =
     (let s = set_os tot s
      in if x \<ge> 0 \<and> tot > 0
         then bnd (get_curr_disk x s) (\<lambda>before.
              bnd (set_curr_disk tot x s) (\<lambda>s.
              bnd (get_curr_disk x s) (\<lambda>after.
                if before = after
                then bnd (my_proc s) (\<lambda>me. bnd (cstop_container_helper (p_cont me) s) (\<lambda>s. Inr (False, s)))
                else Inr (True, s))))
         else Inr (True, s))"

definition writei :: "nat \<Rightarrow> u8 list \<Rightarrow> u32 \<Rightarrow> 'z kcons_scheme \<Rightarrow> (int \<times> 'z kcons_scheme) res" where
  "writei i src off s =
     bnd (my_proc s) (\<lambda>me.
     bnd (cont_deref (p_cont me) s) (\<lambda>c.
       let ip = icache s ! i; x = find_c (c_name c) s; n = of_nat (length src)
       in if i_type ip = T_DEV
          then if has_dev ip then consolewrite i src s else Inr (-1, s)
          else if off > i_size ip \<or> off + n < off then Inr (-1, s)
          else if unat (off + n) > MAXFILE * BSIZE then Inr (-1, s)
          else bnd (writei_loop i (unat off) src s) (\<lambda>s.
               bnd (writei_charge (int (length src)) x s) (\<lambda>(go, s).
                 if \<not> go then Inr (-1, s)
                 else if src \<noteq> [] \<and> off + n > i_size (icache s ! i)
                 then bnd (iupdate i (inode_upd i (\<lambda>ip. ip\<lparr>i_size := off + n\<rparr>) s)) (\<lambda>s. Inr (int (length src), s))
                 else Inr (int (length src), s)))))"

section \<open>Directories\<close>

definition namecmp :: "string \<Rightarrow> string \<Rightarrow> int" where
  "namecmp s t = strncmp s t DIRSIZ"

definition de_inum :: "u8 list \<Rightarrow> u16" where
  "de_inum d = half_at d 0"

definition de_name :: "u8 list \<Rightarrow> string" where
  "de_name d = bytes_str (take DIRSIZ (drop 2 d))"

definition dirent_bytes :: "u32 \<Rightarrow> string \<Rightarrow> u8 list" where
  "dirent_bytes inum name = bytes16 (ucast inum) @ str_bytes (strncpy name (int DIRSIZ))"

text \<open>The loop of \<^verbatim>\<open>dirlookup\<close>; \<open>n\<close> is \<^verbatim>\<open>dp->size\<close>. The result has the inode and the offset.\<close>

function dirlookup_loop :: "nat \<Rightarrow> string \<Rightarrow> nat \<Rightarrow> nat \<Rightarrow> 'z kcons_scheme
    \<Rightarrow> ((nat \<times> nat) option \<times> 'z kcons_scheme) res" where
  "dirlookup_loop dp name n off s =
     (if off < n
      then bnd (readi dp (of_nat off) 16 s) (\<lambda>(r, s).
             case r of
               None \<Rightarrow> Inl (Panic ''dirlookup read'')
             | Some de \<Rightarrow>
                 if length de \<noteq> 16 then Inl (Panic ''dirlookup read'')
                 else if de_inum de = 0 then dirlookup_loop dp name n (off + 16) s
                 else if namecmp name (de_name de) = 0
                 then bnd (iget (i_dev (icache s ! dp)) (ucast (de_inum de)) s) (\<lambda>(ip, s). Inr (Some (ip, off), s))
                 else dirlookup_loop dp name n (off + 16) s)
      else Inr (None, s))"
  by pat_completeness auto
termination
  by (relation "measure (\<lambda>(_, _, n, off, _). n - off)") simp_all

declare dirlookup_loop.simps [simp del]

definition dirlookup :: "nat \<Rightarrow> string \<Rightarrow> 'z kcons_scheme \<Rightarrow> ((nat \<times> nat) option \<times> 'z kcons_scheme) res" where
  "dirlookup dp name s =
     (if i_type (icache s ! dp) \<noteq> T_DIR then Inl (Panic ''dirlookup not DIR'')
      else dirlookup_loop dp name (unat (i_size (icache s ! dp))) 0 s)"

text \<open>The offset of the first free entry, or the end.\<close>

function dirlink_loop :: "nat \<Rightarrow> nat \<Rightarrow> nat \<Rightarrow> 'z kcons_scheme \<Rightarrow> (nat \<times> 'z kcons_scheme) res" where
  "dirlink_loop dp n off s =
     (if off < n
      then bnd (readi dp (of_nat off) 16 s) (\<lambda>(r, s).
             case r of
               None \<Rightarrow> Inl (Panic ''dirlink read'')
             | Some de \<Rightarrow>
                 if length de \<noteq> 16 then Inl (Panic ''dirlink read'')
                 else if de_inum de = 0 then Inr (off, s)
                 else dirlink_loop dp n (off + 16) s)
      else Inr (off, s))"
  by pat_completeness auto
termination
  by (relation "measure (\<lambda>(_, n, off, _). n - off)") simp_all

declare dirlink_loop.simps [simp del]

definition dirlink :: "nat \<Rightarrow> string \<Rightarrow> u32 \<Rightarrow> 'z kcons_scheme \<Rightarrow> (int \<times> 'z kcons_scheme) res" where
  "dirlink dp name inum s =
     bnd (dirlookup dp name s) (\<lambda>(r, s).
       case r of
         Some (ip, _) \<Rightarrow> bnd (iput ip s) (\<lambda>s. Inr (-1, s))
       | None \<Rightarrow>
           bnd (dirlink_loop dp (unat (i_size (icache s ! dp))) 0 s) (\<lambda>(off, s).
           bnd (writei dp (dirent_bytes inum name) (of_nat off) s) (\<lambda>(r, s).
             if r \<noteq> 16 then Inl (Panic ''dirlink'') else Inr (0, s))))"

section \<open>Paths\<close>

definition SLASH :: char where "SLASH = CHR ''/''"

text \<open>The rest of the path and the element, of at most \<open>DIRSIZ\<close> characters; \<open>None\<close> when there is no
  element left.\<close>

definition skipelem :: "string \<Rightarrow> (string \<times> string) option" where
  "skipelem path =
     (let path = dropWhile (\<lambda>c. c = SLASH) path
      in if deref path = NUL then None
         else
           let elem = takeWhile (\<lambda>c. c \<noteq> SLASH \<and> c \<noteq> NUL) path;
               path = dropWhile (\<lambda>c. c \<noteq> SLASH \<and> c \<noteq> NUL) path
           in Some (dropWhile (\<lambda>c. c = SLASH) path, take DIRSIZ elem))"

lemma skipelem_shorter:
  assumes "skipelem path = Some (rest, name)"
  shows "length rest < length path"
proof -
  let ?q = "dropWhile (\<lambda>c. c = SLASH) path"
  let ?r = "dropWhile (\<lambda>c. c \<noteq> SLASH \<and> c \<noteq> NUL) ?q"
  have q: "deref ?q \<noteq> NUL" and rest: "rest = dropWhile (\<lambda>c. c = SLASH) ?r"
    using assms by (simp_all add: skipelem_def Let_def split: if_splits)
  from q obtain c cs where cs: "?q = c # cs" by (cases ?q) (auto simp: deref_def)
  then have "c \<noteq> SLASH" by (metis (mono_tags, lifting) dropWhile_eq_Cons_conv)
  moreover have "c \<noteq> NUL" using q cs by (simp add: deref_def)
  ultimately have "length ?r < length ?q" using cs
    by (simp add: cs le_imp_less_Suc length_dropWhile_le)
  moreover have "length rest \<le> length ?r" unfolding rest by (rule length_dropWhile_le)
  moreover have "length ?q \<le> length path" by (rule length_dropWhile_le)
  ultimately show ?thesis by linarith
qed

text \<open>\<^verbatim>\<open>strncmp(path, "..", 2) == 0 && cont != NULL && cont->root->inum == ip->inum\<close>.\<close>

definition at_cont_root :: "string \<Rightarrow> int option \<Rightarrow> nat \<Rightarrow> 'z kcons_scheme \<Rightarrow> bool res" where
  "at_cont_root path cont i s =
     (if strncmp path ''..'' 2 = 0 \<and> cont \<noteq> None
      then bnd (cont_deref cont s) (\<lambda>c.
             case c_root c of
               None \<Rightarrow> Inl (Fault ''cont->root'')
             | Some r \<Rightarrow> Inr (i_inum (icache s ! r) = i_inum (icache s ! i)))
      else Inr False)"

text \<open>The loop of \<^verbatim>\<open>namex\<close>: the inode reached so far is \<open>i\<close>, \<open>name\<close> is the last element copied.\<close>

function namex_loop :: "string \<Rightarrow> bool \<Rightarrow> string \<Rightarrow> int option \<Rightarrow> nat \<Rightarrow> 'z kcons_scheme
    \<Rightarrow> ((nat option \<times> string) \<times> 'z kcons_scheme) res" where
  "namex_loop path nameiparent name cont i s =
     (case skipelem path of
        None \<Rightarrow>
          if nameiparent then bnd (iput i s) (\<lambda>s. Inr ((None, name), s)) else Inr ((Some i, name), s)
      | Some (path', name') \<Rightarrow>
          bnd (ilock i s) (\<lambda>s.
            if i_type (icache s ! i) \<noteq> T_DIR then bnd (iunlockput i s) (\<lambda>s. Inr ((None, name'), s))
            else bnd (at_cont_root path' cont i s) (\<lambda>stop.
              if stop then bnd (iunlock i s) (\<lambda>s. Inr ((Some i, name'), s))
              else if cont \<noteq> None \<and> i_inum (icache s ! i) = ROOTINO
              then bnd (iunlock i s) (\<lambda>s. bnd (cont_deref cont s) (\<lambda>c. Inr ((c_root c, name'), s)))
              else if nameiparent \<and> deref path' = NUL
              then bnd (iunlock i s) (\<lambda>s. Inr ((Some i, name'), s))
              else bnd (dirlookup i name' s) (\<lambda>(next, s).
                bnd (iunlockput i s) (\<lambda>s.
                  case next of
                    None \<Rightarrow> Inr ((None, name'), s)
                  | Some (ip, _) \<Rightarrow> namex_loop path' nameiparent name' cont ip s)))))"
  by pat_completeness auto
termination
  by (relation "measure (\<lambda>(path, _). length path)") (auto dest: skipelem_shorter)

declare namex_loop.simps [simp del]

definition namex :: "string \<Rightarrow> bool \<Rightarrow> 'z kcons_scheme \<Rightarrow> ((nat option \<times> string) \<times> 'z kcons_scheme) res" where
  "namex path nameiparent s =
     bnd (if deref path = SLASH then iget ROOTDEV ROOTINO s
          else bnd (my_proc s) (\<lambda>me.
            case p_cwd me of None \<Rightarrow> Inl (Fault ''cwd'') | Some i \<Rightarrow> Inr (i, idup i s))) (\<lambda>(i, s).
     bnd (case myproc s of None \<Rightarrow> Inr None | Some p \<Rightarrow> bnd (my_proc s) (\<lambda>me. Inr (p_cont me))) (\<lambda>cont.
     bnd (at_cont_root path cont i s) (\<lambda>stop.
       if stop then Inr ((Some i, []), s) else namex_loop path nameiparent [] cont i s)))"

definition namei :: "string \<Rightarrow> 'z kcons_scheme \<Rightarrow> (nat option \<times> 'z kcons_scheme) res" where
  "namei path s = bnd (namex path False s) (\<lambda>((ip, _), s). Inr (ip, s))"

definition nameiparent :: "string \<Rightarrow> 'z kcons_scheme \<Rightarrow> ((nat option \<times> string) \<times> 'z kcons_scheme) res" where
  "nameiparent path s = namex path True s"

definition set_root_inode :: "string \<Rightarrow> 'z kcons_scheme \<Rightarrow> 'z kcons_scheme res" where
  "set_root_inode name s =
     bnd (namei name s) (\<lambda>(ip, s). cont_upd (find_c name s) (\<lambda>c. c\<lparr>c_root := ip\<rparr>) s)"


section \<open>Files as arrays of bytes\<close>

lemma in_block:
  assumes "j < BSIZE - off mod BSIZE"
  shows "(off + j) div BSIZE = off div BSIZE" "(off + j) mod BSIZE = off mod BSIZE + j"
proof -
  have l: "off mod BSIZE + j < BSIZE" using assms by linarith
  have "(q * BSIZE + r) div BSIZE = q \<and> (q * BSIZE + r) mod BSIZE = r" if "r < BSIZE" for q r using that by simp
  from this [OF l, of "off div BSIZE"] show "(off + j) div BSIZE = off div BSIZE" "(off + j) mod BSIZE = off mod BSIZE + j"
    unfolding add.assoc [symmetric] div_mult_mod_eq by blast+
qed

lemma block_bytes:
  assumes "length (v (file_block v ip (off div BSIZE))) = BSIZE" and "m \<le> BSIZE - off mod BSIZE"
  shows "take m (drop (off mod BSIZE) (v (file_block v ip (off div BSIZE)))) = map (file_byte v ip) [off ..< off + m]"
proof (rule nth_equalityI)
  show "length (take m (drop (off mod BSIZE) (v (file_block v ip (off div BSIZE))))) = length (map (file_byte v ip) [off ..< off + m])"
    using assms by simp
  fix j assume "j < length (take m (drop (off mod BSIZE) (v (file_block v ip (off div BSIZE)))))"
  then have j: "j < m" by simp
  then have b: "j < BSIZE - off mod BSIZE" using assms(2) by simp
  show "take m (drop (off mod BSIZE) (v (file_block v ip (off div BSIZE)))) ! j = map (file_byte v ip) [off ..< off + m] ! j"
    using j assms by (simp add: file_byte_def in_block [OF b])
qed

lemma block_in_file: "off + n \<le> N * BSIZE \<Longrightarrow> 0 < n \<Longrightarrow> off div BSIZE < N"
  by (rule less_mult_imp_div_less) simp

lemma readi_loop_ok:
  assumes "log_inv s" and "file_mapped s (icache s ! i) N" and "off + n \<le> N * BSIZE"
  shows "\<exists>t. readi_loop i off n s = Inr (map (file_byte (bview s) (icache s ! i)) [off ..< off + n], t)
    \<and> fs_step 0 s t \<and> bview t = bview s"
  using assms
proof (induction n arbitrary: off s rule: less_induct)
  case (less n)
  show ?case
  proof (cases "n = 0")
    case True
    with less.prems show ?thesis by (subst readi_loop.simps) (simp add: fs_step_refl)
  next
    case False
    let ?ip = "icache s ! i"
    let ?a = "file_block (bview s) ?ip (off div BSIZE)"
    let ?m = "min n (BSIZE - off mod BSIZE)"
    have k: "off div BSIZE < N" using block_in_file [OF less.prems(3)] False by simp
    obtain s1 where s1: "bmap i (off div BSIZE) s = Inr (?a, s1)" "fs_step 0 s s1" "bview s1 = bview s"
      using bmap_mapped [OF less.prems(1,2) k] by blast
    note f1 = fs_stepD(1,2) [OF s1(2)] fs_step_kfs(2) [OF s1(2)]
    have a: "unat ?a < length (disk s1)" "i_dev ?ip = 1" using less.prems(2) k f1 by (auto simp: file_mapped_def)
    obtain bp s2 s3 where r: "bread 1 ?a s1 = Inr (bp, s2)" "b_data (bufs s2 ! bp) = bview s1 ?a" "brelse bp s2 = Inr s3"
        "fs_step 0 s1 s3" "bview s3 = bview s1"
      using f1(1) a(1) by (rule fs_block) (rule that, assumption+)
    have f: "fs_step 0 s s3" "bview s3 = bview s" using fs_step_trans [OF s1(2) r(4), of 0] r(5) s1(3) by simp_all
    note f3 = fs_stepD(1) [OF f(1)] fs_step_kfs(2) [OF f(1)]
    have m: "0 < ?m" "?m \<le> n" using False mod_less_divisor [of BSIZE off] by (simp_all add: BSIZE_def)
    have "n - ?m < n" using m by simp
    from less.IH [OF this f3(1), of "off + ?m"] less.prems(2,3) m f3(2) file_mapped_step [OF f]
    obtain t where t: "readi_loop i (off + ?m) (n - ?m) s3
        = Inr (map (file_byte (bview s) ?ip) [off + ?m ..< off + n], t)" "fs_step 0 s3 t" "bview t = bview s"
      by (auto simp: f(2))
    have "length (bview s ?a) = BSIZE" using less.prems(1) a(1) f1(2) by (intro length_bview_fs) simp_all
    then have "take ?m (drop (off mod BSIZE) (bview s ?a)) = map (file_byte (bview s) ?ip) [off ..< off + ?m]"
      by (rule block_bytes) simp
    moreover have "[off ..< off + n] = [off ..< off + ?m] @ [off + ?m ..< off + n]" 
      using m(2) upt_add_eq_append [of off "off + ?m" "n - ?m"] by simp
    ultimately show ?thesis
      using fs_step_trans [OF f(1) t(2), of 0] t False
      by (subst readi_loop.simps) (simp add: s1(1) f1(3) bread_frame a(2) r(1,2,3) s1(3) Let_def)
  qed
qed

text \<open>What the loop of \<open>writei\<close> does to a file whose first \<open>N\<close> blocks are allocated: it stores the
  bytes, changes no other byte of the file and no block outside it, and logs one block per block
  touched.\<close>

definition stored :: "'z kcons_scheme \<Rightarrow> inode \<Rightarrow> nat \<Rightarrow> nat \<Rightarrow> u8 list \<Rightarrow> 'z kcons_scheme \<Rightarrow> bool" where
  "stored s ip N off src t \<longleftrightarrow> file_mapped t ip N
     \<and> (\<forall>x < N * BSIZE. file_byte (bview t) ip x
          = (if off \<le> x \<and> x < off + length src then src ! (x - off) else file_byte (bview s) ip x))
     \<and> (\<forall>b. b \<notin> file_block (bview s) ip ` {..< N} \<longrightarrow> bview t b = bview s b)
     \<and> (\<forall>k < N. file_block (bview t) ip k = file_block (bview s) ip k)"

lemma stored_block:
  assumes inv: "log_inv s" and m: "file_mapped s ip N" and k: "off div BSIZE < N" and f: "fs_step j s t"
    and n: "length xs \<le> BSIZE - off mod BSIZE"
    and v: "bview t = (bview s)(file_block (bview s) ip (off div BSIZE)
      := splice (bview s (file_block (bview s) ip (off div BSIZE))) (off mod BSIZE) xs)"
  shows "stored s ip N off xs t"
proof -
  let ?a = "file_block (bview s) ip (off div BSIZE)"
  have "unat ?a < length (disk s)" using m k by (simp add: file_mapped_def)
  then have l: "length (bview s ?a) = BSIZE" using inv by (intro length_bview_fs)
  have B: "off mod BSIZE < BSIZE" by (simp add: BSIZE_def)
  have "file_byte (bview t) ip x = (if off \<le> x \<and> x < off + length xs then xs ! (x - off) else file_byte (bview s) ip x)"
    if x: "x < N * BSIZE" for x
  proof -
    have xN: "x div BSIZE < N" using x by (rule less_mult_imp_div_less)
    have "x div BSIZE = off div BSIZE \<and> off mod BSIZE \<le> x mod BSIZE \<and> x mod BSIZE < off mod BSIZE + length xs
        \<longleftrightarrow> off \<le> x \<and> x < off + length xs"
    proof
      assume h: "off \<le> x \<and> x < off + length xs"
      then have "x - off < BSIZE - off mod BSIZE" using n by linarith
      from in_block [OF this] h show "x div BSIZE = off div BSIZE \<and> off mod BSIZE \<le> x mod BSIZE
          \<and> x mod BSIZE < off mod BSIZE + length xs" by auto
    next
      assume h: "x div BSIZE = off div BSIZE \<and> off mod BSIZE \<le> x mod BSIZE \<and> x mod BSIZE < off mod BSIZE + length xs"
      then have q: "x div BSIZE = off div BSIZE" "off mod BSIZE \<le> x mod BSIZE" "x mod BSIZE < off mod BSIZE + length xs"
        by blast+
      show "off \<le> x \<and> x < off + length xs"
        using q(2,3) div_mult_mod_eq [of x BSIZE, unfolded q(1)] div_mult_mod_eq [of off BSIZE] by linarith
    qed
    moreover have "x mod BSIZE - off mod BSIZE = x - off" if "x div BSIZE = off div BSIZE"
      using div_mult_mod_eq [of x BSIZE, unfolded that] div_mult_mod_eq [of off BSIZE] by linarith
    ultimately show ?thesis
      using n l B file_byte_upd [OF m k xN] by (auto simp: v splice_nth file_byte_def)
  qed
  moreover have "file_mapped t ip N" by (rule file_mapped_upd [OF m k f v])
  ultimately show ?thesis using k file_block_upd [OF m k] by (auto simp: stored_def v)
qed

lemma stored_trans:
  assumes "stored s ip N off (take j src) t" and "stored t ip N (off + j) (drop j src) u" and "j \<le> length src"
  shows "stored s ip N off src u"
proof -
  have "file_byte (bview u) ip x = (if off \<le> x \<and> x < off + length src then src ! (x - off) else file_byte (bview s) ip x)"
    if "x < N * BSIZE" for x
    using assms that by (auto simp: stored_def)
  moreover have "file_block (bview t) ip ` {..< N} = file_block (bview s) ip ` {..< N}"
    using assms(1) by (auto simp: stored_def image_def)
  ultimately show ?thesis using assms by (simp add: stored_def)
qed

definition blocks_of :: "nat \<Rightarrow> nat \<Rightarrow> nat" where
  "blocks_of off n = (if n = 0 then 0 else (off + n - 1) div BSIZE - off div BSIZE + 1)"

lemma BSIZE_pos: "0 < BSIZE" by (simp add: BSIZE_def)

lemma blocks_of_step:
  assumes "0 < n" and "m = min n (BSIZE - off mod BSIZE)"
  shows "blocks_of off n = Suc (blocks_of (off + m) (n - m))"
proof (cases "m = n")
  case True
  then have "n - 1 < BSIZE - off mod BSIZE" using assms by linarith
  from in_block(1) [OF this] assms(1) True show ?thesis by (simp add: blocks_of_def)
next
  case False
  then have m: "m = BSIZE - off mod BSIZE" "m < n" using assms(2) by linarith+
  have "off + m = off div BSIZE * BSIZE + BSIZE"
    using m(1) mod_less_divisor [of BSIZE off] div_mult_mod_eq [of off BSIZE] BSIZE_pos by linarith
  then have "(off + m) div BSIZE = Suc (off div BSIZE)" by (simp add: BSIZE_def)
  moreover have "(off + m) div BSIZE \<le> (off + n - 1) div BSIZE" using m(2) by (intro div_le_mono) simp
  ultimately show ?thesis using m(2) assms(1) by (simp add: blocks_of_def)
qed

lemma writei_loop_ok:
  assumes "in_txn (blocks_of off (length src)) s" and "file_mapped s (icache s ! i) N" and "off + length src \<le> N * BSIZE"
  shows "\<exists>t. writei_loop i off src s = Inr t \<and> fs_step (blocks_of off (length src)) s t
    \<and> stored s (icache s ! i) N off src t"
  using assms
proof (induction "length src" arbitrary: off src s rule: less_induct)
  case less
  show ?case
  proof (cases "src = []")
    case True
    then show ?thesis using less.prems
      by (subst writei_loop.simps) (auto simp: fs_step_refl stored_def blocks_of_def in_txn_def)
  next
    case False
    let ?ip = "icache s ! i" and ?m = "min (length src) (BSIZE - off mod BSIZE)"
    let ?a = "file_block (bview s) ?ip (off div BSIZE)" and ?c = "blocks_of (off + ?m) (length (drop ?m src))"
    have n: "0 < length src" using False by simp
    then have k: "off div BSIZE < N" using block_in_file [OF less.prems(3)] by simp
    have bl: "blocks_of off (length src) = Suc ?c" using blocks_of_step [OF n refl] by simp
    have inv: "log_inv s" using less.prems(1) by (simp add: in_txn_def)
    obtain s1 where s1: "bmap i (off div BSIZE) s = Inr (?a, s1)" "fs_step 0 s s1" "bview s1 = bview s"
      using bmap_mapped [OF inv less.prems(2) k] by blast
    note f1 = fs_stepD(1,2,6) [OF s1(2)] fs_step_kfs(2) [OF s1(2)]
    have a: "unat ?a < length (disk s1)" "i_dev ?ip = 1" "\<not> in_log s1 ?a" using less.prems(2) k f1 by (auto simp: file_mapped_def)
    have tx1: "in_txn (Suc ?c) s1" using in_txn_step [OF less.prems(1) s1(2)] bl by simp
    obtain bp s2 where r: "bread 1 ?a s1 = Inr (bp, s2)"
      and w: "\<And>f. in_txn 1 s1 \<Longrightarrow> \<not> in_log s1 ?a \<Longrightarrow> (\<And>x. length x = BSIZE \<Longrightarrow> length (f x) = BSIZE) \<Longrightarrow>
        \<exists>s2' u. log_write bp (buf_upd bp (\<lambda>x. x\<lparr>b_data := f (b_data x)\<rparr>) s2) = Inr s2' \<and> brelse bp s2' = Inr u
          \<and> fs_step 1 s1 u \<and> bview u = (bview s1)(?a := f (bview s1 ?a))"
      using f1(1) a(1) by (rule fs_block) blast
    have "length (splice x (off mod BSIZE) (take ?m src)) = BSIZE" if "length x = BSIZE" for x
      using that mod_less_divisor [OF BSIZE_pos, of off] by simp
    from w [OF in_txn_mono [OF tx1] a(3), of "\<lambda>x. splice x (off mod BSIZE) (take ?m src)", OF _ this]
    obtain s3 u where u: "log_write bp (bdata_put bp (off mod BSIZE) (take ?m src) s2) = Inr s3" "brelse bp s3 = Inr u"
        "fs_step 1 s1 u" "bview u = (bview s)(?a := splice (bview s ?a) (off mod BSIZE) (take ?m src))"
      by (auto simp: bdata_put_def s1(3))
    have f: "fs_step 1 s u" using fs_step_trans [OF s1(2) u(3), of 1] by simp
    have ic: "icache u = icache s" by (rule fs_step_kfs(2) [OF f])
    have st: "stored s ?ip N off (take ?m src) u" by (rule stored_block [OF inv less.prems(2) k f _ u(4)]) simp
    then have fm: "file_mapped u (icache u ! i) N" by (simp add: stored_def ic)
    have tx: "in_txn ?c u" by (rule in_txn_step [OF less.prems(1) f]) (simp add: bl)
    have m: "0 < ?m" "?m \<le> length src" using n mod_less_divisor [OF BSIZE_pos, of off] by simp_all
    have "length (drop ?m src) < length src" using m by simp
    from less.hyps [OF this tx fm] less.prems(3) m obtain t where
      t: "writei_loop i (off + ?m) (drop ?m src) u = Inr t" "fs_step ?c u t" "stored u ?ip N (off + ?m) (drop ?m src) t"
      by (auto simp: ic)
    have "stored s ?ip N off src t" by (rule stored_trans [OF st t(3) m(2)])
    moreover have "fs_step (blocks_of off (length src)) s t" by (rule fs_step_trans [OF f t(2)]) (simp add: bl)
    moreover have "writei_loop i off src s = Inr t"
      by (subst writei_loop.simps) (simp add: False s1(1) f1(4) a(2) r u(1,2) t(1) Let_def)
    ultimately show ?thesis by blast
  qed
qed

text \<open>The content of a file, up to its size.\<close>

definition file_content :: "(u32 \<Rightarrow> u8 list) \<Rightarrow> inode \<Rightarrow> u8 list" where
  "file_content v ip = map (file_byte v ip) [0 ..< unat (i_size ip)]"

lemma length_file_content [simp]: "length (file_content v ip) = unat (i_size ip)"
  by (simp add: file_content_def)

lemma file_content_part:
  "a + n \<le> unat (i_size ip) \<Longrightarrow> take n (drop a (file_content v ip)) = map (file_byte v ip) [a ..< a + n]"
  by (rule nth_equalityI) (simp_all add: file_content_def)

lemma no_wrap:
  assumes "\<not> off + n < (off :: u32)"
  shows "unat (off + n) = unat off + unat n"
proof (rule ccontr)
  have e: "unat (off + n) = (unat off + unat n) mod 2 ^ 32" by (simp add: unat_word_ariths)
  have l: "unat off < 2 ^ 32" "unat n < 2 ^ 32" using unsigned_less [of off] unsigned_less [of n] by simp_all
  assume "unat (off + n) \<noteq> unat off + unat n"
  then have g: "2 ^ 32 \<le> unat off + unat n" using e by (metis mod_less not_le)
  then have "(unat off + unat n) mod 2 ^ 32 = (unat off + unat n - 2 ^ 32) mod 2 ^ 32" by (rule le_mod_geq)
  also have "\<dots> = unat off + unat n - 2 ^ 32" using l by (intro mod_less) simp
  finally have "unat (off + n) < unat off" using e l g by linarith
  with assms show False by (simp add: word_less_nat_alt)
qed

lemma readi_file:
  assumes inv: "log_inv s" and m: "file_mapped s (icache s ! i) N" and sz: "unat (i_size (icache s ! i)) \<le> N * BSIZE"
    and ty: "i_type (icache s ! i) \<noteq> T_DEV" and off: "off \<le> i_size (icache s ! i)" "\<not> off + n < off"
  shows "\<exists>t. readi i off n s = Inr (Some (take (unat n) (drop (unat off) (file_content (bview s) (icache s ! i)))), t)
    \<and> fs_step 0 s t \<and> bview t = bview s"
proof -
  let ?ip = "icache s ! i"
  define n' where "n' = (if off + n > i_size ?ip then i_size ?ip - off else n)"
  have o: "unat off \<le> unat (i_size ?ip)" using off(1) by (simp add: word_le_nat_alt)
  have n': "unat n' = min (unat n) (unat (i_size ?ip) - unat off)"
    using no_wrap [OF off(2)] o by (auto simp: n'_def word_less_nat_alt unat_sub [OF off(1)])
  then have "unat off + unat n' \<le> unat (i_size ?ip)" using o by simp
  then obtain t where t: "readi_loop i (unat off) (unat n') s = Inr (map (file_byte (bview s) ?ip) [unat off ..< unat off + unat n'], t)"
    "fs_step 0 s t" "bview t = bview s"
    using readi_loop_ok [OF inv m, of "unat off" "unat n'"] sz by (meson order_trans)
  have "take (unat n) (drop (unat off) (file_content (bview s) ?ip))
      = take (unat n') (drop (unat off) (file_content (bview s) ?ip))"
    by (cases "unat n \<le> unat (i_size ?ip) - unat off") (simp_all add: n' min_def)
  also have "\<dots> = map (file_byte (bview s) ?ip) [unat off ..< unat off + unat n']"
    using o n' by (intro file_content_part) simp
  finally show ?thesis
    using t ty off by (simp add: readi_def n'_def [symmetric] Let_def not_less [symmetric])
qed

lemma conts_upd_log:
  fixes s :: "'z kcons_scheme"
  assumes "t = s\<lparr>containers := cs, disk_used := du\<rparr>"
  shows "log_inv t = log_inv s" "bview t = bview s" "icache t = icache s" "file_mapped t ip N = file_mapped s ip N"
proof -
  have c: "log_inv t = log_inv s" "in_log t = in_log s" "bview t = bview s"
    unfolding assms by (rule log_inv_cong; simp)+
  then show "log_inv t = log_inv s" "bview t = bview s" by simp_all
  show "icache t = icache s" by (simp add: assms)
  show "file_mapped t ip N = file_mapped s ip N" using c by (simp add: file_mapped_def assms)
qed

text \<open>A charge that succeeds looks at the containers only.\<close>

lemma writei_charge_step:
  assumes c: "writei_charge n x s = Inr (True, s')" and f: "fs_step k s t"
  shows "writei_charge n x t = Inr (True, t\<lparr>containers := containers s', disk_used := disk_used s'\<rparr>)"
proof -
  have e: "t = s\<lparr>ptable := ptable t, bufs := bufs t, mru := mru t, lg_n := lg_n t, lg_block := lg_block t\<rparr>"
    using f by (simp add: fs_step_def)
  have "containers t = containers s" "disk_used t = disk_used s" by (subst e, simp)+
  with c show ?thesis
    by (cases t, cases s)
      (auto simp: writei_charge_def set_os_def get_curr_disk_def set_curr_disk_def cont_get_def cont_upd_def Let_def
        split: if_splits elim!: bnd_InrE)
qed

lemma stored_content:
  assumes "stored s ip N off src t" and "off + length src \<le> unat (i_size ip)" and "unat (i_size ip) \<le> N * BSIZE"
  shows "file_content (bview t) ip = splice (file_content (bview s) ip) off src"
  using assms by (intro nth_equalityI) (auto simp: splice_nth file_content_def stored_def)

text \<open>C23: a file is an array of bytes. When the blocks of the file are allocated and the caller's
  container is not over its disk limit, \<open>writei\<close> inside the file in a transaction with room
  for the blocks it touches returns the number of bytes; afterwards \<open>readi\<close> of any range
  returns that range of the old content with the written bytes put in place, across block
  boundaries and the indirect block. The inode cache is unchanged.\<close>

theorem writei_readi:
  assumes tx: "in_txn (blocks_of (unat off) (length src)) s" and m: "file_mapped s (icache s ! i) N"
    and ty: "i_type (icache s ! i) \<noteq> T_DEV" and sz: "unat (i_size (icache s ! i)) \<le> N * BSIZE"
    and fit: "unat off + length src \<le> unat (i_size (icache s ! i))"
    and me: "my_proc s = Inr me" "cont_deref (p_cont me) s = Inr c"
    and ch: "writei_charge (int (length src)) (find_c (c_name c) s) s = Inr (True, s')"
    and off': "off' \<le> i_size (icache s ! i)" "\<not> off' + n < off'"
  shows "\<exists>t u. writei i src off s = Inr (int (length src), t) \<and> icache t = icache s
    \<and> readi i off' n t
        = Inr (Some (take (unat n) (drop (unat off') (splice (file_content (bview s) (icache s ! i)) (unat off) src))), u)"
proof -
  let ?ip = "icache s ! i"
  obtain t where t: "writei_loop i (unat off) src s = Inr t" "fs_step (blocks_of (unat off) (length src)) s t"
    "stored s ?ip N (unat off) src t"
    using writei_loop_ok [OF tx m] fit sz by (meson order_trans)
  define u where "u = t\<lparr>containers := containers s', disk_used := disk_used s'\<rparr>"
  note c = conts_upd_log [OF u_def]
  have ic: "icache t = icache s" by (rule fs_step_kfs(2) [OF t(2)])
  have lt: "unat (i_size ?ip) < 2 ^ 32" 
  proof -
    have "unat (i_size ?ip) < 2 ^ LENGTH(32)" by (rule unsigned_less)
    then show ?thesis by simp
  qed
  have n31: "unat (of_nat (length src) :: u32) = length src"
    using fit lt by (simp add: unat_of_nat)
  have nw: "unat (off + of_nat (length src)) = unat off + length src"
    using fit lt by (simp add: unat_word_ariths n31)
  have N: "N \<le> MAXFILE" using m by (simp add: file_mapped_def)
  then have big: "\<not> unat (off + of_nat (length src)) > MAXFILE * BSIZE"
    using fit sz mult_le_mono1 [OF N, of BSIZE] nw by linarith
  have o: "\<not> off > i_size ?ip" "\<not> off + of_nat (length src) < off" "\<not> off + of_nat (length src) > i_size ?ip"
    using fit nw by (simp_all add: word_less_nat_alt)
  have "writei i src off s = Inr (int (length src), u)"
    using me ty t(1) o big writei_charge_step [OF ch t(2)] c(3) ic
    by (simp add: writei_def u_def [symmetric] Let_def)
  moreover have "file_mapped u (icache u ! i) N" "log_inv u"
    using t(3) c ic fs_stepD(1) [OF t(2)] by (simp_all add: stored_def)
  then have "\<exists>w. readi i off' n u = Inr (Some (take (unat n) (drop (unat off') (file_content (bview u) ?ip))), w)"
    using readi_file [of u i N off' n] sz ty off' c(3) ic by auto
  ultimately show ?thesis using stored_content [OF t(3) fit sz] c(2,3) ic by auto
qed

definition txnc_ex :: "inode list \<Rightarrow> u8 list \<Rightarrow> kcons" where
  "txnc_ex ic ino = (kcons_ex ic (disk_ex ino))\<lparr>lg_outstanding := 1\<rparr>"

lemma txnc_ex_ok:
  assumes "length ino = BSIZE"
  shows "k < LOGSIZE \<Longrightarrow> in_txn k (txnc_ex ic ino)" "bview (txnc_ex ic ino) b = disk_ex ino ! unat b"
    "icache (txnc_ex ic ino) = ic" "disk (txnc_ex ic ino) = disk_ex ino" "lg_start (txnc_ex ic ino) = 2"
    "cur (txnc_ex ic ino) = Some 0" "ptable (txnc_ex ic ino) = procs_ex" "containers (txnc_ex ic ino) = containers conts_ex"
    "null_cont (txnc_ex ic ino) = slot0" "gsb (txnc_ex ic ino) = sb_ex"
proof -
  let ?s = "txnc_ex ic ino" and ?t = "txn_ex ic ino"
  have f: "bufs ?s = bufs ?t" "mru ?s = mru ?t" "disk ?s = disk ?t" "cur ?s = cur ?t" "length (ptable ?s) = length (ptable ?t)"
    "lg_start ?s = lg_start ?t" "lg_size ?s = lg_size ?t" "lg_n ?s = lg_n ?t" "lg_block ?s = lg_block ?t" "lg_dev ?s = lg_dev ?t"
    and g: "icache ?s = ic" "lg_outstanding ?s = 1" "ptable ?s = procs_ex" "containers ?s = containers conts_ex"
      "null_cont ?s = slot0" "gsb ?s = sb_ex"
    by (simp_all add: txnc_ex_def txn_ex_def kcons_ex_def kfs_ex_def klog_ex_def kbio_ex_def kmem_ex_def kproc_ex_def
        conts.defs kproc.defs kmem.defs kbio.defs klog.defs kfs.defs kcons.defs)
  note c = log_inv_cong [OF f]
  show "k < LOGSIZE \<Longrightarrow> in_txn k ?s" using c(1) txn_ex_ok(1) [OF assms] f(8) g(2) by (simp add: in_txn_def)
  show "bview ?s b = disk_ex ino ! unat b" using c(3) txn_ex_ok(3) [OF assms] by simp
  show "icache ?s = ic" "disk ?s = disk_ex ino" "lg_start ?s = 2" "cur ?s = Some 0" "ptable ?s = procs_ex"
    "containers ?s = containers conts_ex" "null_cont ?s = slot0" "gsb ?s = sb_ex"
    using f g by simp_all
qed

definition file_ex :: inode where
  "file_ex = inode0\<lparr>i_dev := 1, i_inum := 3, i_ref := 1, i_type := T_FILE, i_size := 600,
     i_addrs := [36, 37, 0, 0, 0, 0, 0, 0, 0, 0, 0, 0, 0]\<rparr>"

lemma file_mapped_ex: "file_mapped (txnc_ex [file_ex] (replicate BSIZE 0)) file_ex 2"
  by (auto simp: file_mapped_def file_ex_def inode0_def MAXFILE_def NDIRECT_def txnc_ex_ok file_block_def in_log_def
      LOGSIZE_def inj_on_def less_2_cases_iff)

theorem writei_readi_witness:
  "\<exists>t u. writei 0 [7, 8, 9] 511 (txnc_ex [file_ex] (replicate BSIZE 0)) = Inr (3, t) \<and> readi 0 510 3 t = Inr (Some [0, 7, 8], u)"
proof -
  let ?s = "txnc_ex [file_ex] (replicate BSIZE 0)"
  note e = txnc_ex_ok [of "replicate BSIZE 0"]
  have me: "my_proc ?s = Inr (procs_ex ! 0)" "cont_deref (p_cont (procs_ex ! 0)) ?s = Inr slot0"
    by (simp_all add: my_proc_def myproc_def fetch_def in_range_def procs_ex_def e cont_deref_def proc0_def)
  have "find_c (c_name slot0) ?s = -1" by (simp add: find_c_def e conts_ex_def slot0_def)
  then have ch: "\<exists>s'. writei_charge (int (length [7, 8, 9 :: u8])) (find_c (c_name slot0) ?s) ?s = Inr (True, s')"
    by (simp add: writei_charge_def)
  have "file_byte (bview ?s) file_ex x = 0" if "x < 600" for x
  proof -
    have "x div BSIZE = 0 \<or> x div BSIZE = 1" using that by (auto simp: BSIZE_def)
    then have "file_block (bview ?s) file_ex (x div BSIZE) \<in> {36, 37}" by (auto simp: file_block_def file_ex_def NDIRECT_def)
    then have "bview ?s (file_block (bview ?s) file_ex (x div BSIZE)) = replicate BSIZE 0" by (auto simp: e disk_ex_def)
    then show ?thesis by (simp add: file_byte_def BSIZE_def)
  qed
  then have "file_content (bview ?s) file_ex = replicate 600 0"
    by (intro nth_equalityI) (simp_all add: file_content_def file_ex_def)
  moreover from ch obtain s' where "writei_charge (int (length [7, 8, 9 :: u8])) (find_c (c_name slot0) ?s) ?s = Inr (True, s')" ..
  note ch' = this
  have ic: "icache ?s ! 0 = file_ex" by (simp add: e)
  have sz: "i_size file_ex = 600" "i_type file_ex = T_FILE" by (simp_all add: file_ex_def)
  have b2: "600 \<le> 2 * BSIZE" by (simp add: BSIZE_def)
  have "in_txn (blocks_of (unat (511 :: u32)) (length [7, 8, 9 :: u8])) ?s"
    by (rule e(1)) (simp_all add: blocks_of_def BSIZE_def LOGSIZE_def)
  from writei_readi [OF this _ _ _ _ me ch', of 0 2 510 3] have
    "\<exists>t u. writei 0 [7, 8, 9] 511 ?s = Inr (3, t)
      \<and> readi 0 510 3 t = Inr (Some (take 3 (drop 510 (splice (file_content (bview ?s) file_ex) 511 [7, 8, 9]))), u)"
    using file_mapped_ex b2 by (auto simp: ic sz T_FILE_def T_DEV_def)
  ultimately show ?thesis by (simp add: splice_def)
qed

section \<open>Directories as lists of entries\<close>

definition dir_entries :: "u8 list \<Rightarrow> u8 list list" where
  "dir_entries d = map (\<lambda>k. take 16 (drop (16 * k) d)) [0 ..< length d div 16]"

definition entry_named :: "string \<Rightarrow> u8 list \<Rightarrow> bool" where
  "entry_named name e \<longleftrightarrow> de_inum e \<noteq> 0 \<and> namecmp name (de_name e) = 0"

text \<open>A directory: its blocks are allocated and its size is a number of whole entries.\<close>

definition dir_ok :: "'z kcons_scheme \<Rightarrow> nat \<Rightarrow> nat \<Rightarrow> bool" where
  "dir_ok s dp N \<longleftrightarrow> log_inv s \<and> file_mapped s (icache s ! dp) N \<and> i_type (icache s ! dp) = T_DIR
     \<and> unat (i_size (icache s ! dp)) \<le> N * BSIZE \<and> unat (i_size (icache s ! dp)) mod 16 = 0"

lemma dir_ok_step:
  assumes "dir_ok s dp N" and "fs_step k s t" and "bview t = bview s"
  shows "dir_ok t dp N"
  using assms fs_stepD(1) [OF assms(2)] fs_step_kfs(2) [OF assms(2)] file_mapped_step [OF assms(2,3)]
  by (simp add: dir_ok_def)

lemma MAXFILE_bytes: "MAXFILE * BSIZE = 71680"
  by (simp add: MAXFILE_def NDIRECT_def NINDIRECT_def BSIZE_def)

lemma read_entry:
  assumes ok: "dir_ok s dp N" and k: "k < unat (i_size (icache s ! dp)) div 16"
  shows "\<exists>t. readi dp (of_nat (16 * k)) 16 s = Inr (Some (dir_entries (file_content (bview s) (icache s ! dp)) ! k), t)
    \<and> fs_step 0 s t \<and> bview t = bview s \<and> length (dir_entries (file_content (bview s) (icache s ! dp)) ! k) = 16"
proof -
  let ?ip = "icache s ! dp"
  have m: "log_inv s" "file_mapped s ?ip N" "i_type ?ip \<noteq> T_DEV" "unat (i_size ?ip) \<le> N * BSIZE"
    using ok by (simp_all add: dir_ok_def T_DIR_def T_DEV_def)
  have "N * BSIZE \<le> 71680" using m(2) mult_le_mono1 [of N MAXFILE BSIZE] MAXFILE_bytes by (simp add: file_mapped_def)
  then have b: "16 * k + 16 \<le> unat (i_size ?ip)" "unat (i_size ?ip) \<le> 71680" using k m(4) by auto
  have o: "unat (of_nat (16 * k) :: u32) = 16 * k" using b by (simp add: unat_of_nat del: of_nat_mult)
  then have "(of_nat (16 * k) :: u32) \<le> i_size ?ip" "\<not> (of_nat (16 * k) + 16 :: u32) < of_nat (16 * k)"
    using b by (simp_all add: word_le_nat_alt word_less_nat_alt unat_word_ariths del: of_nat_mult)
  from readi_file [OF m(1,2,4,3) this] b k o show ?thesis by (auto simp: dir_entries_def)
qed

lemma dirlookup_loop_ok:
  assumes "dir_ok s dp N" and "n = unat (i_size (icache s ! dp)) div 16"
    and "\<forall>j < k. \<not> entry_named name (dir_entries (file_content (bview s) (icache s ! dp)) ! j)" and "k \<le> n"
  shows "\<exists>t. fs_step 0 s t \<and> bview t = bview s \<and> dirlookup_loop dp name (16 * n) (16 * k) s =
    (case first_idx (entry_named name) (dir_entries (file_content (bview s) (icache s ! dp))) of
       None \<Rightarrow> Inr (None, t)
     | Some j \<Rightarrow> bnd (iget 1 (ucast (de_inum (dir_entries (file_content (bview s) (icache s ! dp)) ! j))) t)
         (\<lambda>(ip, u). Inr (Some (ip, 16 * j), u)))"
  using assms
proof (induction "n - k" arbitrary: k s)
  case 0
  let ?es = "dir_entries (file_content (bview s) (icache s ! dp))"
  have "length ?es = n" using "0.prems" by (simp add: dir_entries_def)
  then have "first_idx (entry_named name) ?es = None"
    using 0 by (auto simp: first_idx_None_iff in_set_conv_nth)
  moreover have "log_inv s" using "0.prems"(1) by (simp add: dir_ok_def)
  ultimately show ?case using 0 by (subst dirlookup_loop.simps) (auto simp: fs_step_refl intro!: exI [of _ s])
next
  case (Suc m)
  let ?ip = "icache s ! dp"
  let ?es = "dir_entries (file_content (bview s) ?ip)"
  have k: "k < unat (i_size ?ip) div 16" "k < n" using Suc.prems Suc.hyps(2) by auto
  obtain t where t: "readi dp (of_nat (16 * k)) 16 s = Inr (Some (?es ! k), t)" "fs_step 0 s t" "bview t = bview s"
    "length (?es ! k) = 16" using read_entry [OF Suc.prems(1) k(1)] by blast
  have ic: "icache t = icache s" by (rule fs_step_kfs(2) [OF t(2)])
  show ?case
  proof (cases "entry_named name (?es ! k)")
    case True
    have "length ?es = n" using Suc.prems by (simp add: dir_entries_def)
    then have "first_idx (entry_named name) ?es = Some k" using True Suc.prems(3) k by (auto intro: first_idx_SomeI)
    moreover have "i_dev ?ip = 1" using Suc.prems(1) by (simp add: dir_ok_def file_mapped_def)
    ultimately show ?thesis using t True k ic
      by (subst dirlookup_loop.simps) (auto simp: entry_named_def intro!: exI [of _ t] simp del: of_nat_mult)
  next
    case False
    have "\<forall>j < Suc k. \<not> entry_named name (?es ! j)" using False Suc.prems(3) by (auto simp: less_Suc_eq)
    then have no: "\<forall>j < Suc k. \<not> entry_named name (dir_entries (file_content (bview t) (icache t ! dp)) ! j)"
      by (simp add: ic t(3))
    have "m = n - Suc k" "n = unat (i_size (icache t ! dp)) div 16" "Suc k \<le> n" using Suc.hyps(2) Suc.prems(2) k ic by auto
    from Suc.hyps(1) [OF this(1) dir_ok_step [OF Suc.prems(1) t(2,3)] this(2) no this(3)]
    obtain u where u: "fs_step 0 t u" "bview u = bview s" "dirlookup_loop dp name (16 * n) (16 * Suc k) t =
      (case first_idx (entry_named name) ?es of None \<Rightarrow> Inr (None, u)
       | Some j \<Rightarrow> bnd (iget 1 (ucast (de_inum (?es ! j))) u) (\<lambda>(ip, u). Inr (Some (ip, 16 * j), u)))"
      unfolding ic t(3) by blast
    have "dirlookup_loop dp name (16 * n) (16 * k) s = dirlookup_loop dp name (16 * n) (16 * Suc k) t"
      using t(1,4) False k
      by (subst dirlookup_loop.simps) (auto simp: entry_named_def add.commute simp del: of_nat_mult)
    with u fs_step_trans [OF t(2) u(1), of 0] show ?thesis by auto
  qed
qed

text \<open>C24: \<open>dirlookup\<close> is a search in the list of entries. It finds the first entry in use whose name
  agrees with the one asked for in the first 14 characters, and returns the cache entry of
  its inode and its offset; it returns nothing exactly when there is no such entry. The content
  of the file system does not change.\<close>

theorem dirlookup_correct:
  assumes ok: "dir_ok s dp N"
  shows "\<exists>t. fs_step 0 s t \<and> bview t = bview s \<and> dirlookup dp name s =
    (case first_idx (entry_named name) (dir_entries (file_content (bview s) (icache s ! dp))) of
       None \<Rightarrow> Inr (None, t)
     | Some j \<Rightarrow> bnd (iget 1 (ucast (de_inum (dir_entries (file_content (bview s) (icache s ! dp)) ! j))) t)
         (\<lambda>(ip, u). Inr (Some (ip, 16 * j), u)))"
proof -
  have "16 * (unat (i_size (icache s ! dp)) div 16) = unat (i_size (icache s ! dp))" "i_type (icache s ! dp) = T_DIR"
    using ok by (auto simp: dir_ok_def)
  with dirlookup_loop_ok [OF ok refl, of 0 name] show ?thesis by (simp add: dirlookup_def)
qed

definition dir_ex :: inode where
  "dir_ex = inode0\<lparr>i_dev := 1, i_inum := 1, i_ref := 1, i_type := T_DIR, i_size := 16,
     i_addrs := [32, 0, 0, 0, 0, 0, 0, 0, 0, 0, 0, 0, 0]\<rparr>"

definition dirblock_ex :: "u8 list" where
  "dirblock_ex = dirent_bytes 3 ''a'' @ replicate (BSIZE - 16) 0"

lemma dirent_ex: "dirent_bytes 3 ''a'' = [3, 0, 97, 0, 0, 0, 0, 0, 0, 0, 0, 0, 0, 0, 0, 0]"
  by code_simp

theorem dirlookup_correct_witness:
  "\<exists>u. dirlookup 0 ''a'' (txnc_ex [dir_ex, inode0] dirblock_ex) = Inr (Some (1, 0), u)"
proof -
  have l: "length dirblock_ex = BSIZE" by (simp add: dirblock_ex_def dirent_ex BSIZE_def)
  let ?s = "txnc_ex [dir_ex, inode0] dirblock_ex"
  note e = txnc_ex_ok [OF l]
  have ic: "icache ?s ! 0 = dir_ex" by (simp add: e)
  have b0: "file_block (bview ?s) dir_ex 0 = 32" by (simp add: file_block_def dir_ex_def NDIRECT_def)
  have sz: "unat (i_size dir_ex) = 16" "i_type dir_ex = T_DIR" by (simp_all add: dir_ex_def)
  have "file_mapped ?s dir_ex 1"
    using b0 by (simp add: file_mapped_def in_log_def LOGSIZE_def e MAXFILE_def NDIRECT_def)
      (simp add: dir_ex_def inj_on_def)
  moreover have "log_inv ?s" using e(1) [of 1] by (simp add: in_txn_def LOGSIZE_def)
  ultimately have ok: "dir_ok ?s 0 1" by (simp add: dir_ok_def ic sz) (simp add: BSIZE_def)
  have "file_content (bview ?s) dir_ex = take 16 dirblock_ex"
    using block_bytes [of "bview ?s" dir_ex 0 16] b0 l by (simp add: file_content_def sz e) (simp add: BSIZE_def)
  then have c: "file_content (bview ?s) dir_ex = dirent_bytes 3 ''a''" by (simp add: dirblock_ex_def dirent_ex)
  have d: "dir_entries (dirent_bytes 3 ''a'') = [dirent_bytes 3 ''a'']" by (simp add: dir_entries_def dirent_ex)
  have n: "de_inum (dirent_bytes 3 ''a'') = 3" "namecmp ''a'' (de_name (dirent_bytes 3 ''a'')) = 0"
    by code_simp+
  then have f: "entry_named ''a'' (dirent_bytes 3 ''a'')" by (simp add: entry_named_def)
  obtain t where t: "fs_step 0 ?s t" "dirlookup 0 ''a'' ?s = bnd (iget 1 3 t) (\<lambda>(ip, u). Inr (Some (ip, 0), u))"
    using dirlookup_correct [OF ok, of "''a''"] by (auto simp: ic c d f n)
  have "icache t = [dir_ex, inode0]" using fs_step_kfs(2) [OF t(1)] by (simp add: e)
  then show ?thesis using t(2) by (simp add: iget_def dir_ex_def inode0_def)
qed

end
