(* ===== verification/Pipe.thy ===== *)
theory Pipe
  imports Fs
begin

text \<open>
  Pipes (\<^verbatim>\<open>pipe.c\<close>): a ring of 512 bytes with two counters that wrap at 32 bits. A pipe lives in a
  page of its own; \<open>pipes\<close> gives the struct at the page's address.

  A reader and a writer hold the pipe's lock except while they sleep, so what runs atomically
  is a segment from one sleep to the next. \<open>pipewrite_seg\<close> is such a segment: it stops when all
  bytes are stored, when the pipe is broken, or when the ring is full. \<open>pipe_step\<close> interleaves
  the segments of readers and writers.
\<close>

section \<open>State\<close>

definition PIPESIZE :: nat where "PIPESIZE = 512"
definition NFILE :: nat where "NFILE = 100"

record pipe =
  pi_data :: "u8 list"
  pi_nread :: u32
  pi_nwrite :: u32
  pi_readopen :: bool
  pi_writeopen :: bool

datatype fdtype = FD_NONE | FD_PIPE | FD_INODE

record filerec =
  f_type :: fdtype
  f_ref :: int
  f_readable :: bool
  f_writable :: bool
  f_pipe :: u32
  f_ip :: nat
  f_off :: u32
  f_path :: string

record kfile = kcons +
  ftable :: "filerec list"
  pipes :: "u32 \<Rightarrow> pipe option"

definition pipe_get :: "u32 \<Rightarrow> 'z kfile_scheme \<Rightarrow> pipe res" where
  "pipe_get a s = (case pipes s a of None \<Rightarrow> Inl (Fault ''pipe'') | Some p \<Rightarrow> Inr p)"

definition pipe_put :: "u32 \<Rightarrow> pipe \<Rightarrow> 'z kfile_scheme \<Rightarrow> 'z kfile_scheme" where
  "pipe_put a p s = s\<lparr>pipes := (pipes s)(a \<mapsto> p)\<rparr>"

section \<open>Writing and reading\<close>

datatype pwres = PwDone | PwBroken | PwSleep "u8 list"

definition pipe_push :: "u8 \<Rightarrow> pipe \<Rightarrow> pipe" where
  "pipe_push c p = p\<lparr>pi_data := (pi_data p)[unat (pi_nwrite p) mod PIPESIZE := c], pi_nwrite := pi_nwrite p + 1\<rparr>"

fun pipewrite_seg :: "bool \<Rightarrow> u8 list \<Rightarrow> pipe \<Rightarrow> pwres \<times> pipe" where
  "pipewrite_seg killed [] p = (PwDone, p)"
| "pipewrite_seg killed (c # cs) p =
     (if pi_nwrite p = pi_nread p + of_nat PIPESIZE
      then (if \<not> pi_readopen p \<or> killed then PwBroken else PwSleep (c # cs), p)
      else pipewrite_seg killed cs (pipe_push c p))"

definition pipewrite :: "u32 \<Rightarrow> u8 list \<Rightarrow> 'z kfile_scheme \<Rightarrow> (int \<times> 'z kfile_scheme) res" where
  "pipewrite a addr s =
     bnd (pipe_get a s) (\<lambda>p.
     bnd (my_proc s) (\<lambda>me.
       case pipewrite_seg (p_killed me) addr p of
         (PwDone, p) \<Rightarrow> Inr (int (length addr), wakeup (Some (ChPipeRead (unat a))) (pipe_put a p s))
       | (PwBroken, p) \<Rightarrow> Inr (-1, pipe_put a p s)
       | (PwSleep _, p) \<Rightarrow> Inl (Blocked ''pipe'')))"

definition pipe_pop :: "pipe \<Rightarrow> u8 \<times> pipe" where
  "pipe_pop p = (pi_data p ! (unat (pi_nread p) mod PIPESIZE), p\<lparr>pi_nread := pi_nread p + 1\<rparr>)"

fun piperead_copy :: "nat \<Rightarrow> pipe \<Rightarrow> u8 list \<times> pipe" where
  "piperead_copy 0 p = ([], p)"
| "piperead_copy (Suc n) p =
     (if pi_nread p = pi_nwrite p then ([], p)
      else let (c, p) = pipe_pop p; (cs, p) = piperead_copy n p in (c # cs, p))"

definition piperead :: "u32 \<Rightarrow> int \<Rightarrow> 'z kfile_scheme \<Rightarrow> (u8 list option \<times> 'z kfile_scheme) res" where
  "piperead a n s =
     bnd (pipe_get a s) (\<lambda>p.
       if pi_nread p = pi_nwrite p \<and> pi_writeopen p
       then bnd (my_proc s) (\<lambda>me. if p_killed me then Inr (None, s) else Inl (Blocked ''pipe''))
       else let (cs, p) = piperead_copy (nat n) p
            in Inr (Some cs, wakeup (Some (ChPipeWrite (unat a))) (pipe_put a p s)))"

definition pipeclose :: "u32 \<Rightarrow> bool \<Rightarrow> 'z kfile_scheme \<Rightarrow> 'z kfile_scheme res" where
  "pipeclose a writable s =
     bnd (pipe_get a s) (\<lambda>p.
       let p = (if writable then p\<lparr>pi_writeopen := False\<rparr> else p\<lparr>pi_readopen := False\<rparr>);
           s = wakeup (Some (if writable then ChPipeRead (unat a) else ChPipeWrite (unat a))) (pipe_put a p s)
       in if \<not> pi_readopen p \<and> \<not> pi_writeopen p
          then kfree a (s\<lparr>pipes := (pipes s)(a := None)\<rparr>)
          else Inr s)"


section \<open>The ring is a bounded queue\<close>

text \<open>\<open>pipe_q\<close> is the abstract value of a pipe: the bytes between the two counters, oldest first.
  The counters wrap at 32 bits, which the ring does not notice because its size divides
  \<open>2 ^ 32\<close>.\<close>

definition pipe_n :: "pipe \<Rightarrow> nat" where
  "pipe_n p = unat (pi_nwrite p - pi_nread p)"

definition pipe_q :: "pipe \<Rightarrow> u8 list" where
  "pipe_q p = map (\<lambda>i. pi_data p ! ((unat (pi_nread p) + i) mod PIPESIZE)) [0 ..< pipe_n p]"

definition pipe_inv :: "pipe \<Rightarrow> bool" where
  "pipe_inv p \<longleftrightarrow> length (pi_data p) = PIPESIZE \<and> pipe_n p \<le> PIPESIZE"

lemma unat_add_mod_ring: "(unat (a + b :: u32)) mod PIPESIZE = (unat a + unat b) mod PIPESIZE"
  unfolding unat_word_ariths PIPESIZE_def by (rule mod_mod_cancel) simp

lemma length_pipe_q [simp]: "length (pipe_q p) = pipe_n p"
  by (simp add: pipe_q_def)

lemma pipe_full_iff: "pi_nwrite p = pi_nread p + of_nat PIPESIZE \<longleftrightarrow> pipe_n p = PIPESIZE"
proof -
  have "pi_nwrite p = pi_nread p + of_nat PIPESIZE \<longleftrightarrow> pi_nwrite p - pi_nread p = of_nat PIPESIZE"
    by (auto simp: algebra_simps)
  then show ?thesis by (simp add: pipe_n_def word_unat_eq_iff PIPESIZE_def)
qed

lemma pipe_empty_iff: "pi_nread p = pi_nwrite p \<longleftrightarrow> pipe_n p = 0"
  by (auto simp: pipe_n_def unat_eq_0)

lemma pipe_nwrite_pos: "unat (pi_nwrite p) mod PIPESIZE = (unat (pi_nread p) + pipe_n p) mod PIPESIZE"
  using unat_add_mod_ring [of "pi_nread p" "pi_nwrite p - pi_nread p"] by (simp add: pipe_n_def)

lemma ring_distinct:
  assumes "i < n" and "n < PIPESIZE"
  shows "(a + i) mod PIPESIZE \<noteq> (a + n) mod PIPESIZE"
proof
  assume "(a + i) mod PIPESIZE = (a + n) mod PIPESIZE"
  then have "PIPESIZE dvd (a + n) - (a + i)" using assms by (metis mod_eq_dvd_iff_nat add_le_cancel_left less_imp_le)
  with assms show False by (auto dest: dvd_imp_le)
qed

lemma pipe_push_ok:
  assumes p: "pipe_inv p" and n: "pipe_n p < PIPESIZE"
  shows "pipe_q (pipe_push c p) = pipe_q p @ [c]" and "pipe_inv (pipe_push c p)"
proof -
  have e: "pi_nwrite p + 1 - pi_nread p = (pi_nwrite p - pi_nread p) + 1" by simp
  have "unat ((pi_nwrite p - pi_nread p) + 1) = Suc (pipe_n p)"
    using n by (simp add: pipe_n_def PIPESIZE_def unat_word_ariths)
  then have m: "pipe_n (pipe_push c p) = Suc (pipe_n p)" by (simp add: pipe_n_def pipe_push_def e)
  have "0 < PIPESIZE" by (simp add: PIPESIZE_def)
  then have old: "pi_data (pipe_push c p) ! ((unat (pi_nread p) + i) mod PIPESIZE)
      = (if i = pipe_n p then c else pi_data p ! ((unat (pi_nread p) + i) mod PIPESIZE))" if "i \<le> pipe_n p" for i
    using that p n ring_distinct [of i "pipe_n p" "unat (pi_nread p)"]
    by (auto simp: pipe_push_def pipe_inv_def pipe_nwrite_pos nth_list_update)
  have r: "pi_nread (pipe_push c p) = pi_nread p" by (simp add: pipe_push_def)
  show "pipe_q (pipe_push c p) = pipe_q p @ [c]"
    unfolding pipe_q_def m r by (auto simp: old)
  show "pipe_inv (pipe_push c p)" using p n m by (simp add: pipe_inv_def pipe_push_def)
qed

lemma pipe_pop_ok:
  assumes p: "pipe_inv p" and n: "0 < pipe_n p" and c: "pipe_pop p = (c, p')"
  shows "pipe_q p = c # pipe_q p'" and "pipe_inv p'"
proof -
  have p': "p' = p\<lparr>pi_nread := pi_nread p + 1\<rparr>" and c': "c = pi_data p ! (unat (pi_nread p) mod PIPESIZE)"
    using c by (simp_all add: pipe_pop_def)
  obtain k where k: "pipe_n p = Suc k" using n by (cases "pipe_n p") auto
  have e: "pi_nwrite p - (pi_nread p + 1) = (pi_nwrite p - pi_nread p) - 1" by simp
  have "unat ((pi_nwrite p - pi_nread p) - 1) = k"
    using k by (subst unat_minus_one) (auto simp: pipe_n_def unat_eq_0)
  then have m: "pipe_n p' = k" by (simp add: pipe_n_def p' e)
  have s: "(unat (pi_nread p + 1) + i) mod PIPESIZE = (unat (pi_nread p) + Suc i) mod PIPESIZE" for i
    using unat_add_mod_ring [of "pi_nread p" 1] mod_add_left_eq [of "unat (pi_nread p + 1)" PIPESIZE i]
      mod_add_left_eq [of "unat (pi_nread p) + 1" PIPESIZE i] by simp
  show "pipe_q p = c # pipe_q p'"
    unfolding pipe_q_def m k c' map_upt_Suc by (simp add: p' s)
  show "pipe_inv p'" using p m k by (simp add: pipe_inv_def p')
qed

lemma pipewrite_seg_ok:
  assumes "pipe_inv p" and "pipewrite_seg killed cs p = (r, p')"
  shows "\<exists>k \<le> length cs. pipe_q p' = pipe_q p @ take k cs \<and> pipe_inv p'
    \<and> (case r of PwDone \<Rightarrow> k = length cs
       | PwBroken \<Rightarrow> (\<not> pi_readopen p \<or> killed) \<and> pipe_n p' = PIPESIZE \<and> k < length cs
       | PwSleep cs' \<Rightarrow> pi_readopen p \<and> \<not> killed \<and> pipe_n p' = PIPESIZE \<and> cs' = drop k cs \<and> cs' \<noteq> [])"
  using assms
proof (induction killed cs p rule: pipewrite_seg.induct)
  case (1 killed p)
  then show ?case by auto
next
  case (2 killed c cs p)
  show ?case
  proof (cases "pipe_n p = PIPESIZE")
    case True
    with 2(2,3) show ?thesis by (intro exI [of _ 0]) (auto simp: pipe_full_iff split: if_splits)
  next
    case False
    then have n: "pipe_n p < PIPESIZE" using 2(2) by (simp add: pipe_inv_def)
    note q = pipe_push_ok [OF 2(2) n, of c]
    have "\<not> pi_nwrite p = pi_nread p + of_nat PIPESIZE" using False by (simp add: pipe_full_iff)
    from 2(1) [OF this q(2)] 2(3) this obtain k where k: "k \<le> length cs"
      "pipe_q p' = pipe_q (pipe_push c p) @ take k cs" "pipe_inv p'"
      "case r of PwDone \<Rightarrow> k = length cs
       | PwBroken \<Rightarrow> (\<not> pi_readopen (pipe_push c p) \<or> killed) \<and> pipe_n p' = PIPESIZE \<and> k < length cs
       | PwSleep cs' \<Rightarrow> pi_readopen (pipe_push c p) \<and> \<not> killed \<and> pipe_n p' = PIPESIZE \<and> cs' = drop k cs \<and> cs' \<noteq> []"
      by auto
    have "pi_readopen (pipe_push c p) = pi_readopen p" by (simp add: pipe_push_def)
    with k q(1) show ?thesis by (intro exI [of _ "Suc k"]) (auto split: pwres.splits)
  qed
qed

lemma piperead_copy_ok:
  assumes "pipe_inv p" and "piperead_copy n p = (cs, p')"
  shows "cs = take n (pipe_q p) \<and> pipe_q p' = drop n (pipe_q p) \<and> pipe_inv p'"
  using assms
proof (induction n arbitrary: p cs p')
  case 0
  then show ?case by simp
next
  case (Suc n)
  show ?case
  proof (cases "pipe_n p = 0")
    case True
    then have "pipe_q p = []" by (simp add: pipe_q_def)
    with Suc.prems True show ?thesis by (auto simp: pipe_empty_iff)
  next
    case False
    obtain c p1 where c: "pipe_pop p = (c, p1)" by fastforce
    obtain ds p2 where d: "piperead_copy n p1 = (ds, p2)" by fastforce
    have "0 < pipe_n p" using False by simp
    note q = pipe_pop_ok [OF Suc.prems(1) this c]
    from Suc.IH [OF q(2) d] Suc.prems(2) False c d q show ?thesis by (auto simp: pipe_empty_iff)
  qed
qed

section \<open>Readers and writers interleaved\<close>

text \<open>
  A system of any number of writers and readers of one pipe. \<open>ps_pend\<close> gives the bytes that each
  writer's current \<open>pipewrite\<close> still has to store. The other fields record the history: the
  bytes each writer was given, the bytes stored with their writer, and the bytes read. A step
  is a call of \<open>pipewrite\<close> up to its loop, a segment of a writer from one sleep to the next
  (a writer may run a segment at any time, since \<open>wakeup\<close> may be spurious), or the copying loop
  of a reader. A writer that finds the pipe broken gives up; its unstored bytes are taken back.
\<close>

record psys =
  ps_pipe :: pipe
  ps_pend :: "nat \<Rightarrow> u8 list"
  ps_sent :: "nat \<Rightarrow> u8 list"
  ps_log :: "(nat \<times> u8) list"
  ps_out :: "u8 list"

definition psys_init :: "pipe \<Rightarrow> psys" where
  "psys_init p = \<lparr>ps_pipe = p, ps_pend = (\<lambda>_. []), ps_sent = (\<lambda>_. []), ps_log = [], ps_out = []\<rparr>"

definition seg_rest :: "pwres \<Rightarrow> u8 list" where
  "seg_rest r = (case r of PwSleep rest \<Rightarrow> rest | _ \<Rightarrow> [])"

definition seg_back :: "pwres \<Rightarrow> nat \<Rightarrow> u8 list \<Rightarrow> u8 list" where
  "seg_back r k sent = (if r = PwBroken then take (length sent - k) sent else sent)"

inductive pipe_step :: "psys \<Rightarrow> psys \<Rightarrow> bool" where
  call: "ps_pend c w = [] \<Longrightarrow>
     pipe_step c (c\<lparr>ps_pend := (ps_pend c)(w := bs), ps_sent := (ps_sent c)(w := ps_sent c w @ bs)\<rparr>)"
| seg: "pipewrite_seg killed (ps_pend c w) (ps_pipe c) = (r, p) \<Longrightarrow> k = pipe_n p - pipe_n (ps_pipe c) \<Longrightarrow>
     pipe_step c (c\<lparr>ps_pipe := p, ps_pend := (ps_pend c)(w := seg_rest r),
       ps_sent := (ps_sent c)(w := seg_back r (length (ps_pend c w) - k) (ps_sent c w)),
       ps_log := ps_log c @ map (Pair w) (take k (ps_pend c w))\<rparr>)"
| take: "piperead_copy n (ps_pipe c) = (cs, p) \<Longrightarrow>
     pipe_step c (c\<lparr>ps_pipe := p, ps_out := ps_out c @ cs\<rparr>)"
| close: "pipe_step c (c\<lparr>ps_pipe := (ps_pipe c)\<lparr>pi_readopen := ro, pi_writeopen := wo\<rparr>\<rparr>)"

definition stored_by :: "nat \<Rightarrow> (nat \<times> u8) list \<Rightarrow> u8 list" where
  "stored_by w l = map snd (filter (\<lambda>e. fst e = w) l)"

definition psys_inv :: "psys \<Rightarrow> bool" where
  "psys_inv c \<longleftrightarrow> pipe_inv (ps_pipe c) \<and> map snd (ps_log c) = ps_out c @ pipe_q (ps_pipe c)
     \<and> (\<forall>w. stored_by w (ps_log c) @ ps_pend c w = ps_sent c w)"

lemma stored_by_append: "stored_by w (l @ map (Pair v) bs) = stored_by w l @ (if v = w then bs else [])"
  by (simp add: stored_by_def filter_map comp_def)

lemma pipe_q_open [simp]:
  "pipe_q (p\<lparr>pi_readopen := ro, pi_writeopen := wo\<rparr>) = pipe_q p"
  "pipe_inv (p\<lparr>pi_readopen := ro, pi_writeopen := wo\<rparr>) = pipe_inv p"
  by (simp_all add: pipe_q_def pipe_inv_def pipe_n_def)

lemma pipe_seg_inv:
  assumes c: "psys_inv c" and s: "pipewrite_seg killed (ps_pend c w) (ps_pipe c) = (r, p)"
    and k: "k = pipe_n p - pipe_n (ps_pipe c)"
  shows "psys_inv (c\<lparr>ps_pipe := p, ps_pend := (ps_pend c)(w := seg_rest r),
       ps_sent := (ps_sent c)(w := seg_back r (length (ps_pend c w) - k) (ps_sent c w)),
       ps_log := ps_log c @ map (Pair w) (take k (ps_pend c w))\<rparr>)"
proof -
  have p: "pipe_inv (ps_pipe c)" and w: "stored_by w (ps_log c) @ ps_pend c w = ps_sent c w"
    using c by (simp_all add: psys_inv_def)
  obtain j where j: "j \<le> length (ps_pend c w)" "pipe_q p = pipe_q (ps_pipe c) @ take j (ps_pend c w)" "pipe_inv p"
    and r: "case r of PwDone \<Rightarrow> j = length (ps_pend c w)
       | PwBroken \<Rightarrow> (\<not> pi_readopen (ps_pipe c) \<or> killed) \<and> pipe_n p = PIPESIZE \<and> j < length (ps_pend c w)
       | PwSleep cs' \<Rightarrow> pi_readopen (ps_pipe c) \<and> \<not> killed \<and> pipe_n p = PIPESIZE \<and> cs' = drop j (ps_pend c w) \<and> cs' \<noteq> []"
    using pipewrite_seg_ok [OF p s] by blast
  have "length (pipe_q p) = length (pipe_q (ps_pipe c) @ take j (ps_pend c w))" using j(2) by simp
  then have kj: "k = j" using j(1) by (simp add: k)
  have "stored_by w (ps_log c) @ take j (ps_pend c w) @ seg_rest r
      = seg_back r (length (ps_pend c w) - j) (ps_sent c w)"
    using r j(1) by (cases r) (simp_all add: seg_rest_def seg_back_def flip: w)
  with c j show ?thesis by (auto simp: psys_inv_def kj stored_by_append comp_def)
qed

lemma pipe_step_inv:
  assumes "pipe_step c c'" and "psys_inv c"
  shows "psys_inv c'"
  using assms
proof cases
  case (call w bs)
  then have "stored_by w (ps_log c) = ps_sent c w" using assms(2) by (metis psys_inv_def append_Nil2)
  with call assms(2) show ?thesis by (auto simp: psys_inv_def)
next
  case (seg killed w r p k)
  with pipe_seg_inv [OF assms(2)] show ?thesis by blast
next
  case (take n cs p)
  have "pipe_inv (ps_pipe c)" using assms(2) by (simp add: psys_inv_def)
  from piperead_copy_ok [OF this take(2)] take(1) assms(2) show ?thesis by (auto simp: psys_inv_def)
next
  case (close ro wo)
  with assms(2) show ?thesis by (simp add: psys_inv_def)
qed

text \<open>C27: a pipe is a bounded first-in first-out queue under any interleaving of its readers and
  writers. In every reachable state the bytes read, followed by those in the ring, are exactly
  the bytes stored, in the order in which they were stored; each writer's bytes are stored
  in the order it gave them, with what it has not stored yet still pending; and at most 512 bytes
  are in flight. The counters may wrap any number of times.\<close>

theorem pipe_fifo:
  assumes "length (pi_data p) = PIPESIZE" and "pi_nread p = pi_nwrite p"
    and "pipe_step\<^sup>*\<^sup>* (psys_init p) c"
  shows "map snd (ps_log c) = ps_out c @ pipe_q (ps_pipe c)
    \<and> stored_by w (ps_log c) @ ps_pend c w = ps_sent c w
    \<and> length (pipe_q (ps_pipe c)) \<le> PIPESIZE"
proof -
  have n: "pipe_n p = 0" using assms(2) by (simp add: pipe_n_def)
  then have "pipe_q p = []" by (simp add: pipe_q_def)
  with n assms(1) have "psys_inv (psys_init p)"
    by (simp add: psys_inv_def psys_init_def pipe_inv_def stored_by_def)
  with assms(3) have "psys_inv c" by (induction rule: rtranclp_induct) (auto dest: pipe_step_inv)
  then show ?thesis by (simp add: psys_inv_def pipe_inv_def)
qed

definition pipe_ex :: pipe where
  "pipe_ex = \<lparr>pi_data = replicate PIPESIZE 0, pi_nread = 0xFFFFFFFF, pi_nwrite = 0xFFFFFFFF, pi_readopen = True, pi_writeopen = True\<rparr>"

theorem pipe_fifo_witness:
  "\<exists>c. pipe_step\<^sup>*\<^sup>* (psys_init pipe_ex) c \<and> ps_out c = [7] \<and> pipe_q (ps_pipe c) = [8]
     \<and> map snd (ps_log c) = [7, 8]"
proof -
  let ?c1 = "(psys_init pipe_ex)\<lparr>ps_pend := (\<lambda>_. [])(0 := [7, 8]), ps_sent := (\<lambda>_. [])(0 := [7, 8])\<rparr>"
  have 1: "pipe_step (psys_init pipe_ex) ?c1"
    using pipe_step.call [of "psys_init pipe_ex" 0 "[7, 8]"] by (simp add: psys_init_def)
  have s: "pipewrite_seg False (ps_pend ?c1 0) (ps_pipe ?c1) = (PwDone, pipe_push 8 (pipe_push 7 pipe_ex))"
    by (simp add: psys_init_def pipe_ex_def pipe_push_def PIPESIZE_def)
  obtain c2 where 2: "pipe_step ?c1 c2" "ps_pipe c2 = pipe_push 8 (pipe_push 7 pipe_ex)" "ps_out c2 = []"
    using pipe_step.seg [OF s refl] by (auto simp: psys_init_def)
  obtain c3 where 3: "pipe_step c2 c3" "ps_out c3 = [7]" "ps_pipe c3 = snd (pipe_pop (ps_pipe c2))"
    using pipe_step.take [of 1 c2 "[7]" "snd (pipe_pop (ps_pipe c2))"] 2(2,3)
    by (auto simp: pipe_push_def pipe_pop_def pipe_ex_def PIPESIZE_def)
  have q: "pipe_q (ps_pipe c3) = [8]"
    by (simp add: 3(3) 2(2) pipe_q_def pipe_n_def pipe_push_def pipe_pop_def pipe_ex_def PIPESIZE_def)
  have r: "pipe_step\<^sup>*\<^sup>* (psys_init pipe_ex) c3" 
    by (rule rtranclp.intros(2), rule rtranclp.intros(2), rule r_into_rtranclp, rule 1, rule 2(1), rule 3(1))
  have "map snd (ps_log c3) = ps_out c3 @ pipe_q (ps_pipe c3)"
    by (rule conjunct1 [OF pipe_fifo [OF _ _ r]]) (simp_all add: pipe_ex_def)
  with r q 3(2) show ?thesis by auto
qed

section \<open>Calls on an open pipe\<close>

lemma wakeup_pipes [simp]: "pipes (wakeup ch s) = pipes s"
  by (simp add: wakeup_def wakeup1_def)

lemma pipewrite_seg_room:
  "pipe_inv p \<Longrightarrow> pipe_n p + length cs \<le> PIPESIZE \<Longrightarrow> \<exists>p'. pipewrite_seg killed cs p = (PwDone, p')"
proof (induction cs arbitrary: p)
  case Nil
  then show ?case by simp
next
  case (Cons c cs)
  then have n: "pipe_n p < PIPESIZE" by simp
  note q = pipe_push_ok [OF Cons.prems(1) n, of c]
  have "pipe_n (pipe_push c p) = Suc (pipe_n p)" using arg_cong [OF q(1), of length] by simp
  with Cons.IH [OF q(2)] Cons.prems(2) n show ?case by (simp add: pipe_full_iff)
qed

text \<open>C28: what a process writes to an open pipe with room for it can be read back. \<open>pipewrite\<close>
  stores all bytes and returns their number without sleeping, and the next \<open>piperead\<close> of \<open>n\<close> bytes
  returns the first \<open>n\<close> bytes of what was in the pipe before followed by what was written, and
  leaves the rest.\<close>

theorem pipe_write_read:
  assumes a: "pipes s a = Some p" and p: "pipe_inv p" and me: "my_proc s = Inr me"
    and room: "pipe_n p + length bs \<le> PIPESIZE" and n: "0 \<le> n" and ne: "pipe_n p + length bs \<noteq> 0"
  shows "\<exists>t u q. pipewrite a bs s = Inr (int (length bs), t)
    \<and> piperead a n t = Inr (Some (take (nat n) (pipe_q p @ bs)), u)
    \<and> pipes u a = Some q \<and> pipe_inv q \<and> pipe_q q = drop (nat n) (pipe_q p @ bs)"
proof -
  obtain p1 where w: "pipewrite_seg (p_killed me) bs p = (PwDone, p1)"
    using pipewrite_seg_room [OF p room] by blast
  from pipewrite_seg_ok [OF p w] have q1: "pipe_q p1 = pipe_q p @ bs" "pipe_inv p1" by auto
  have "pipe_n p1 \<noteq> 0" using arg_cong [OF q1(1), of length] ne by simp
  then have e: "pi_nread p1 \<noteq> pi_nwrite p1" by (simp add: pipe_empty_iff)
  obtain cs p2 where r: "piperead_copy (nat n) p1 = (cs, p2)" by fastforce
  from piperead_copy_ok [OF q1(2) r] a me w e r q1(1) show ?thesis
    by (simp add: pipewrite_def piperead_def pipe_get_def pipe_put_def)
qed

lemma pipe_q_unchanged [simp]:
  "pipe_q (p\<lparr>pi_readopen := ro\<rparr>) = pipe_q p" "pipe_q (p\<lparr>pi_writeopen := wo\<rparr>) = pipe_q p"
  by (simp_all add: pipe_q_def pipe_n_def)

definition file0 :: filerec where
  "file0 = \<lparr>f_type = FD_NONE, f_ref = 0, f_readable = False, f_writable = False, f_pipe = 0, f_ip = 0, f_off = 0, f_path = []\<rparr>"

definition kfile_ex :: "filerec list \<Rightarrow> (u32 \<Rightarrow> pipe option) \<Rightarrow> kfile" where
  "kfile_ex ft ps = kcons.extend (kcons_ex (replicate NINODE inode0) []) (kfile.fields ft ps)"

lemma kfile_ex_simps [simp]:
  "ftable (kfile_ex ft ps) = ft" "pipes (kfile_ex ft ps) = ps" "icache (kfile_ex ft ps) = replicate NINODE inode0"
  "cur (kfile_ex ft ps) = Some 0" "ptable (kfile_ex ft ps) = procs_ex"
  by (simp_all add: kfile_ex_def kcons_ex_def kfs_ex_def klog_ex_def kbio_ex_def kmem_ex_def kproc_ex_def conts.defs
      kproc.defs kmem.defs kbio.defs klog.defs kfs.defs kcons.defs kfile.defs)

theorem pipe_write_read_witness:
  "\<exists>t u. pipewrite 4096 [1, 2, 3] (kfile_ex [] [4096 \<mapsto> pipe_ex]) = Inr (3, t) \<and> piperead 4096 2 t = Inr (Some [1, 2], u)"
proof -
  have "my_proc (kfile_ex [] [4096 \<mapsto> pipe_ex]) = Inr (procs_ex ! 0)"
    by (simp add: my_proc_def myproc_def fetch_def in_range_def procs_ex_def)
  moreover have "pipe_n pipe_ex = 0" by (simp add: pipe_n_def pipe_ex_def)
  then have "pipe_q pipe_ex = []" "pipe_inv pipe_ex" "pipe_n pipe_ex + length [1, 2, 3 :: u8] \<le> PIPESIZE"
    by (simp_all add: pipe_q_def pipe_inv_def pipe_ex_def PIPESIZE_def)
  ultimately show ?thesis
    using pipe_write_read [of "kfile_ex [] [4096 \<mapsto> pipe_ex]" 4096 pipe_ex "procs_ex ! 0" "[1, 2, 3]" 2] by auto
qed

end
