(* ===== verification/File.thy ===== *)
theory File
  imports Pipe
begin

text \<open>
  Open files (\<^verbatim>\<open>file.c\<close>) and \<open>pipealloc\<close> of \<^verbatim>\<open>pipe.c\<close>. A file is named by its index in the file
  table. Reads return the bytes and writes take them; the system calls move them from and to
  user memory.
\<close>

definition file_upd :: "nat \<Rightarrow> (filerec \<Rightarrow> filerec) \<Rightarrow> 'z kfile_scheme \<Rightarrow> 'z kfile_scheme" where
  "file_upd i f s = s\<lparr>ftable := (ftable s)[i := f (ftable s ! i)]\<rparr>"

definition file_free :: "filerec \<Rightarrow> bool" where
  "file_free f \<longleftrightarrow> f_ref f = 0"

text \<open>The scan of \<^verbatim>\<open>filealloc\<close> on the table.\<close>

definition ftable_alloc :: "filerec list \<Rightarrow> (nat \<times> filerec list) option" where
  "ftable_alloc tab =
     (case first_idx file_free tab of None \<Rightarrow> None | Some i \<Rightarrow> Some (i, tab[i := (tab ! i)\<lparr>f_ref := 1\<rparr>]))"

definition filealloc :: "'z kfile_scheme \<Rightarrow> nat option \<times> 'z kfile_scheme" where
  "filealloc s =
     (case ftable_alloc (ftable s) of None \<Rightarrow> (None, s) | Some (i, tab) \<Rightarrow> (Some i, s\<lparr>ftable := tab\<rparr>))"

definition filedup :: "nat \<Rightarrow> 'z kfile_scheme \<Rightarrow> 'z kfile_scheme res" where
  "filedup f s =
     (if f_ref (ftable s ! f) < 1 then Inl (Panic ''filedup'')
      else Inr (file_upd f (\<lambda>f. f\<lparr>f_ref := f_ref f + 1\<rparr>) s))"

definition fileclose :: "nat \<Rightarrow> 'z kfile_scheme \<Rightarrow> 'z kfile_scheme res" where
  "fileclose f s =
     (let ff = ftable s ! f
      in if f_ref ff < 1 then Inl (Panic ''fileclose'')
         else if f_ref ff - 1 > 0 then Inr (file_upd f (\<lambda>f. f\<lparr>f_ref := f_ref f - 1\<rparr>) s)
         else
           let s = file_upd f (\<lambda>f. f\<lparr>f_ref := 0, f_type := FD_NONE\<rparr>) s
           in case f_type ff of
                FD_PIPE \<Rightarrow> pipeclose (f_pipe ff) (f_writable ff) s
              | FD_INODE \<Rightarrow> bnd (begin_op s) (\<lambda>s. bnd (iput (f_ip ff) s) end_op)
              | FD_NONE \<Rightarrow> Inr s)"

definition filestat :: "nat \<Rightarrow> 'z kfile_scheme \<Rightarrow> (stat option \<times> 'z kfile_scheme) res" where
  "filestat f s =
     (let fl = ftable s ! f
      in if f_type fl = FD_INODE
         then bnd (ilock (f_ip fl) s) (\<lambda>s.
              let st = stati (f_ip fl) s in bnd (iunlock (f_ip fl) s) (\<lambda>s. Inr (Some st, s)))
         else Inr (None, s))"

definition fileread :: "nat \<Rightarrow> int \<Rightarrow> 'z kfile_scheme \<Rightarrow> (u8 list option \<times> 'z kfile_scheme) res" where
  "fileread f n s =
     (let fl = ftable s ! f
      in if \<not> f_readable fl then Inr (None, s)
         else case f_type fl of
           FD_PIPE \<Rightarrow> piperead (f_pipe fl) n s
         | FD_INODE \<Rightarrow>
             bnd (ilock (f_ip fl) s) (\<lambda>s.
             bnd (readi (f_ip fl) (f_off fl) (word_of_int n) s) (\<lambda>(r, s).
               let s = (case r of None \<Rightarrow> s
                        | Some d \<Rightarrow> file_upd f (\<lambda>fl. fl\<lparr>f_off := f_off fl + of_nat (length d)\<rparr>) s)
               in bnd (iunlock (f_ip fl) s) (\<lambda>s. Inr (r, s))))
         | FD_NONE \<Rightarrow> Inl (Panic ''fileread''))"

definition FILEWRITE_MAX :: nat where
  "FILEWRITE_MAX = ((LOGSIZE - 1 - 1 - 2) div 2) * 512"

text \<open>The loop of \<^verbatim>\<open>filewrite\<close>; the result is the number of bytes written when it ends.\<close>

function filewrite_loop :: "nat \<Rightarrow> u8 list \<Rightarrow> nat \<Rightarrow> 'z kfile_scheme \<Rightarrow> (nat \<times> 'z kfile_scheme) res" where
  "filewrite_loop f addr i s =
     (if i < length addr
      then
        let n1 = min (length addr - i) FILEWRITE_MAX; ip = f_ip (ftable s ! f)
        in bnd (begin_op s) (\<lambda>s.
           bnd (ilock ip s) (\<lambda>s.
           bnd (writei ip (take n1 (drop i addr)) (f_off (ftable s ! f)) s) (\<lambda>(r, s).
             let s = (if r > 0 then file_upd f (\<lambda>fl. fl\<lparr>f_off := f_off fl + word_of_int r\<rparr>) s else s)
             in bnd (iunlock ip s) (\<lambda>s.
                bnd (end_op s) (\<lambda>s.
                  if r < 0 then Inr (i, s)
                  else if r \<noteq> int n1 then Inl (Panic ''short filewrite'')
                  else filewrite_loop f addr (i + n1) s)))))
      else Inr (i, s))"
  by pat_completeness auto
termination
  by (relation "measure (\<lambda>(_, addr, i, _). length addr - i)") (simp_all add: FILEWRITE_MAX_def LOGSIZE_def)

declare filewrite_loop.simps [simp del]

definition filewrite :: "nat \<Rightarrow> u8 list \<Rightarrow> 'z kfile_scheme \<Rightarrow> (int \<times> 'z kfile_scheme) res" where
  "filewrite f addr s =
     (let fl = ftable s ! f
      in if \<not> f_writable fl then Inr (-1, s)
         else case f_type fl of
           FD_PIPE \<Rightarrow> pipewrite (f_pipe fl) addr s
         | FD_INODE \<Rightarrow> bnd (filewrite_loop f addr 0 s) (\<lambda>(i, s).
             Inr (if i = length addr then int (length addr) else -1, s))
         | FD_NONE \<Rightarrow> Inl (Panic ''filewrite''))"

section \<open>Creating pipes\<close>

text \<open>At \<^verbatim>\<open>bad\<close> the files that were allocated are closed again. The bytes of the new pipe's ring are
  those the page had, after its lock.\<close>

definition close_opt :: "nat option \<Rightarrow> 'z kfile_scheme \<Rightarrow> 'z kfile_scheme res" where
  "close_opt f s = (case f of None \<Rightarrow> Inr s | Some i \<Rightarrow> fileclose i s)"

definition pipe_init :: "u32 \<Rightarrow> 'z kfile_scheme \<Rightarrow> pipe" where
  "pipe_init p s = \<lparr>pi_data = load_bytes (pmem s) (unat p + 52) PIPESIZE, pi_nread = 0, pi_nwrite = 0,
     pi_readopen = True, pi_writeopen = True\<rparr>"

definition pipealloc :: "'z kfile_scheme \<Rightarrow> ((nat \<times> nat) option \<times> 'z kfile_scheme) res" where
  "pipealloc s =
     (case filealloc s of
        (None, s) \<Rightarrow> Inr (None, s)
      | (Some f0, s) \<Rightarrow>
          (case filealloc s of
             (None, s) \<Rightarrow> bnd (close_opt (Some f0) s) (\<lambda>s. Inr (None, s))
           | (Some f1, s) \<Rightarrow>
               bnd (kalloc s) (\<lambda>(p, s).
                 if p = 0
                 then bnd (close_opt (Some f0) s) (\<lambda>s. bnd (close_opt (Some f1) s) (\<lambda>s. Inr (None, s)))
                 else
                   Inr (Some (f0, f1),
                     file_upd f1 (\<lambda>f. f\<lparr>f_type := FD_PIPE, f_readable := False, f_writable := True, f_pipe := p\<rparr>)
                       (file_upd f0 (\<lambda>f. f\<lparr>f_type := FD_PIPE, f_readable := True, f_writable := False, f_pipe := p\<rparr>)
                         (pipe_put p (pipe_init p s) s))))))"


section \<open>The file table as an allocator\<close>

interpretation files: slot_alloc file_free ftable_alloc
  by (rule slot_allocI [where mark = "\<lambda>f. f\<lparr>f_ref := 1\<rparr>"]) (simp_all add: file_free_def ftable_alloc_def)

text \<open>\<open>n\<close> calls of \<open>filealloc\<close> in a row; the list of the files they return.\<close>

fun filealloc_n :: "nat \<Rightarrow> 'z kfile_scheme \<Rightarrow> nat list \<times> 'z kfile_scheme" where
  "filealloc_n 0 s = ([], s)"
| "filealloc_n (Suc n) s =
     (case filealloc s of
        (None, s) \<Rightarrow> ([], s)
      | (Some f, s) \<Rightarrow> (let (fs, s) = filealloc_n n s in (f # fs, s)))"

lemma filealloc_n_many:
  "filealloc_n n s = (let (fs, tab) = files.alloc_many n (ftable s) in (fs, s\<lparr>ftable := tab\<rparr>))"
  by (induction n arbitrary: s) (auto simp: filealloc_def split: option.splits prod.splits)

text \<open>C32: open files are never shared by accident. Any number of calls of \<open>filealloc\<close> return distinct
  files, none of which was in use, leave every file in use as it was, and succeed exactly as often
  as there are free entries in the table.\<close>

theorem filealloc_no_sharing:
  assumes "filealloc_n n s = (fs, t)"
  shows "distinct fs \<and> length fs = min n (length (filter file_free (ftable s)))
    \<and> (\<forall>f. if f \<in> set fs then f < length (ftable s) \<and> f_ref (ftable s ! f) = 0 \<and> f_ref (ftable t ! f) = 1
           else ftable t ! f = ftable s ! f)"
proof -
  obtain tab where m: "files.alloc_many n (ftable s) = (fs, tab)" and t: "t = s\<lparr>ftable := tab\<rparr>"
    using assms by (auto simp: filealloc_n_many split: prod.splits)
  have 1: "distinct fs" by (rule files.alloc_many_distinct [OF m])
  have 2: "f \<notin> set fs \<Longrightarrow> ftable t ! f = ftable s ! f" for f
    using files.alloc_many_other [OF m] by (simp add: t)
  have 3: "length fs = min n (length (filter file_free (ftable s)))"
    using files.alloc_many_length [of n "ftable s"] m by simp
  have "f < length (ftable s) \<and> f_ref (ftable s ! f) = 0 \<and> f_ref (ftable t ! f) = 1" if f: "f \<in> set fs" for f
  proof -
    from files.alloc_many_free [OF m f] have "f < length (ftable s)" "f_ref (ftable s ! f) = 0"
      by (simp_all add: file_free_def)
    moreover have "f_ref (ftable t ! f) = 1"
    proof -
      have "\<exists>e. tab ! f = e\<lparr>f_ref := 1\<rparr>"
        by (rule files.alloc_many_mark [OF _ m f]) (auto simp: ftable_alloc_def first_idx_Some_iff split: option.splits)
      then show ?thesis by (auto simp: t)
    qed
    ultimately show ?thesis by simp
  qed
  with 1 2 3 show ?thesis by simp
qed

theorem filealloc_no_sharing_witness:
  "\<exists>t. filealloc_n 5 (kfile_ex [file0\<lparr>f_ref := 2\<rparr>, file0, file0] Map.empty) = ([1, 2], t) \<and> distinct [1 :: nat, 2]"
proof -
  obtain fs t where r: "filealloc_n 5 (kfile_ex [file0\<lparr>f_ref := 2\<rparr>, file0, file0] Map.empty) = (fs, t)" by fastforce
  then have "fs = [1, 2]"
    by (auto simp: eval_nat_numeral filealloc_def ftable_alloc_def file_free_def file0_def)
  with r filealloc_no_sharing [OF r] show ?thesis by simp
qed

end
