(* ===== verification/Vm.thy ===== *)
theory Vm
  imports Kalloc
begin

text \<open>
  The page tables of \<^verbatim>\<open>vm.c\<close>. A page directory and the page tables it names are pages of the
  memory \<open>pmem\<close>, read and written word by word, so that a page table, the pages it maps and
  the free list share one memory as they do in the machine. The loops over user addresses run
  below \<open>KERNBASE\<close>, where the address does not wrap, and count in \<open>nat\<close>.

  \<open>loaduvm\<close>, which reads a file, is in the theory of \<^verbatim>\<open>exec.c\<close>; the segment descriptors of
  \<open>seginit\<close> and \<open>switchuvm\<close> are not modelled.
\<close>

section \<open>Addresses and entries\<close>

definition EXTMEM :: u32 where "EXTMEM = 0x100000"
definition DEVSPACE :: u32 where "DEVSPACE = 0xFE000000"
definition KERNLINK :: u32 where "KERNLINK = KERNBASE + EXTMEM"
definition NPDENTRIES :: nat where "NPDENTRIES = 1024"
definition KSTACKSIZE :: u32 where "KSTACKSIZE = 4096"

definition PTE_P :: u32 where "PTE_P = 0x001"
definition PTE_W :: u32 where "PTE_W = 0x002"
definition PTE_U :: u32 where "PTE_U = 0x004"

definition PDX :: "u32 \<Rightarrow> u32" where "PDX va = drop_bit 22 va AND 0x3FF"
definition PTX :: "u32 \<Rightarrow> u32" where "PTX va = drop_bit 12 va AND 0x3FF"

definition PGADDR :: "u32 \<Rightarrow> u32 \<Rightarrow> u32 \<Rightarrow> u32" where
  "PGADDR d t off = push_bit 22 d OR push_bit 12 t OR off"

definition PTE_ADDR :: "u32 \<Rightarrow> u32" where "PTE_ADDR pte = pte AND NOT 0xFFF"
definition PTE_FLAGS :: "u32 \<Rightarrow> u32" where "PTE_FLAGS pte = pte AND 0xFFF"

text \<open>\<^verbatim>\<open>*(uint*)a\<close>.\<close>

definition mget :: "'z kmem_scheme \<Rightarrow> u32 \<Rightarrow> u32" where
  "mget s a = get32 (pmem s) (unat a)"

definition mput :: "u32 \<Rightarrow> u32 \<Rightarrow> 'z kmem_scheme \<Rightarrow> 'z kmem_scheme" where
  "mput a v s = s\<lparr>pmem := put32 (pmem s) (unat a) v\<rparr>"

definition mclear :: "u32 \<Rightarrow> 'z kmem_scheme \<Rightarrow> 'z kmem_scheme" where
  "mclear p s = s\<lparr>pmem := memset (pmem s) (unat p) 0 PGSIZE\<rparr>"

lemma unat_and_low: "unat (x AND 0xFFF :: u32) = unat x mod 4096"
proof -
  have "x AND 0xFFF = take_bit 12 x" by (simp add: take_bit_eq_mask mask_eq_exp_minus_1)
  then show ?thesis by (simp add: unat_mod take_bit_eq_mod)
qed

lemma sub_pgrounddown: "unat (va - PGROUNDDOWN va) = unat va mod 4096"
proof -
  have "unat (PGROUNDDOWN va) = unat va div 4096 * 4096"
    using and_not_pgmask [of va] by (simp add: PGROUNDDOWN_def PGSIZE_def)
  then show ?thesis
    by (simp add: unat_sub_if' minus_div_mult_eq_mod)
qed

section \<open>Mapping\<close>

text \<open>The address of the entry for \<open>va\<close>, or 0.\<close>

definition walkpgdir :: "u32 \<Rightarrow> u32 \<Rightarrow> bool \<Rightarrow> 'z kmem_scheme \<Rightarrow> (u32 \<times> 'z kmem_scheme) res" where
  "walkpgdir pgdir va alloc s =
     (let pde = pgdir + 4 * PDX va
      in if mget s pde AND PTE_P \<noteq> 0
         then Inr (P2V (PTE_ADDR (mget s pde)) + 4 * PTX va, s)
         else if \<not> alloc then Inr (0, s)
         else bnd (kalloc s) (\<lambda>(pgtab, s).
                if pgtab = 0 then Inr (0, s)
                else Inr (pgtab + 4 * PTX va,
                          mput pde (V2P pgtab OR PTE_P OR PTE_W OR PTE_U) (mclear pgtab s))))"

text \<open>The loop of \<^verbatim>\<open>mappages\<close>; \<open>n\<close> is the number of pages from \<open>a\<close> up to \<^verbatim>\<open>last\<close>. Both are page
  aligned, so \<^verbatim>\<open>a == last\<close> exactly when \<open>n\<close> is 0, and the loop ends.\<close>

fun mappages_loop :: "nat \<Rightarrow> u32 \<Rightarrow> u32 \<Rightarrow> u32 \<Rightarrow> u32 \<Rightarrow> 'z kmem_scheme \<Rightarrow> (int \<times> 'z kmem_scheme) res" where
  "mappages_loop n pgdir a pa perm s =
     bnd (walkpgdir pgdir a True s) (\<lambda>(pte, s).
       if pte = 0 then Inr (-1, s)
       else if mget s pte AND PTE_P \<noteq> 0 then Inl (Panic ''remap'')
       else
         let s = mput pte (pa OR perm OR PTE_P) s
         in case n of
              0 \<Rightarrow> Inr (0, s)
            | Suc m \<Rightarrow> mappages_loop m pgdir (a + of_nat PGSIZE) (pa + of_nat PGSIZE) perm s)"

declare mappages_loop.simps [simp del]

definition mappages :: "u32 \<Rightarrow> u32 \<Rightarrow> u32 \<Rightarrow> u32 \<Rightarrow> u32 \<Rightarrow> 'z kmem_scheme \<Rightarrow> (int \<times> 'z kmem_scheme) res" where
  "mappages pgdir va sz pa perm s =
     (let a = PGROUNDDOWN va; last = PGROUNDDOWN (va + sz - 1)
      in mappages_loop (unat (last - a) div PGSIZE) pgdir a pa perm s)"

section \<open>Freeing\<close>

text \<open>The loop of \<^verbatim>\<open>deallocuvm\<close>. Every call has \<open>oldsz \<le> KERNBASE\<close>.\<close>

function deallocuvm_loop :: "u32 \<Rightarrow> nat \<Rightarrow> nat \<Rightarrow> 'z kmem_scheme \<Rightarrow> 'z kmem_scheme res" where
  "deallocuvm_loop pgdir a oldsz s =
     (if a < oldsz
      then bnd (walkpgdir pgdir (of_nat a) False s) (\<lambda>(pte, s).
             if pte = 0 then deallocuvm_loop pgdir ((a div 0x400000 + 1) * 0x400000) oldsz s
             else if mget s pte AND PTE_P \<noteq> 0
             then
               let pa = PTE_ADDR (mget s pte)
               in if pa = 0 then Inl (Panic ''kfree'')
                  else bnd (kfree (P2V pa) s) (\<lambda>s. deallocuvm_loop pgdir (a + PGSIZE) oldsz (mput pte 0 s))
             else deallocuvm_loop pgdir (a + PGSIZE) oldsz s)
      else Inr s)"
  by pat_completeness auto
termination
proof (relation "measure (\<lambda>(_, a, oldsz, _). oldsz - a)", goal_cases)
  case (2 pgdir a oldsz s x pte s')
  have "a < (a div 0x400000 + 1) * 0x400000"
    using dividend_less_div_times [of "0x400000" a] by simp
  with 2(1) show ?case by simp
next
  case (3 pgdir a oldsz)
  from 3(1) show ?case by (simp add: PGSIZE_def)
next
  case (4 pgdir a oldsz)
  from 4(1) show ?case by (simp add: PGSIZE_def)
qed simp

declare deallocuvm_loop.simps [simp del]

definition deallocuvm :: "u32 \<Rightarrow> u32 \<Rightarrow> u32 \<Rightarrow> 'z kmem_scheme \<Rightarrow> (u32 \<times> 'z kmem_scheme) res" where
  "deallocuvm pgdir oldsz newsz s =
     (if newsz \<ge> oldsz then Inr (oldsz, s)
      else bnd (deallocuvm_loop pgdir (unat (PGROUNDUP newsz)) (unat oldsz) s) (\<lambda>s. Inr (newsz, s)))"

definition freevm_one :: "u32 \<Rightarrow> nat \<Rightarrow> 'z kmem_scheme \<Rightarrow> 'z kmem_scheme res" where
  "freevm_one pgdir i s =
     (let pde = mget s (pgdir + 4 * of_nat i)
      in if pde AND PTE_P \<noteq> 0 then kfree (P2V (PTE_ADDR pde)) s else Inr s)"

definition freevm :: "u32 \<Rightarrow> 'z kmem_scheme \<Rightarrow> 'z kmem_scheme res" where
  "freevm pgdir s =
     (if pgdir = 0 then Inl (Panic ''freevm: no pgdir'')
      else bnd (deallocuvm pgdir KERNBASE 0 s) (\<lambda>(_, s).
           bnd (foldR (freevm_one pgdir) [0 ..< NPDENTRIES] s) (\<lambda>s.
           kfree pgdir s)))"

section \<open>Address spaces\<close>

text \<open>The rows of \<^verbatim>\<open>kmap\<close>: virtual address, physical start and end, permissions.\<close>

definition kmap :: "u32 \<Rightarrow> (u32 \<times> u32 \<times> u32 \<times> u32) list" where
  "kmap data =
     [(KERNBASE, 0, EXTMEM, PTE_W),
      (KERNLINK, V2P KERNLINK, V2P data, 0),
      (data, V2P data, PHYSTOP, PTE_W),
      (DEVSPACE, DEVSPACE, 0, PTE_W)]"

fun setupkvm_loop :: "u32 \<Rightarrow> (u32 \<times> u32 \<times> u32 \<times> u32) list \<Rightarrow> 'z kmem_scheme \<Rightarrow> (u32 \<times> 'z kmem_scheme) res" where
  "setupkvm_loop pgdir [] s = Inr (pgdir, s)"
| "setupkvm_loop pgdir ((virt, phys_start, phys_end, perm) # ks) s =
     bnd (mappages pgdir virt (phys_end - phys_start) phys_start perm s) (\<lambda>(r, s).
       if r < 0 then bnd (freevm pgdir s) (\<lambda>s. Inr (0, s))
       else setupkvm_loop pgdir ks s)"

definition setupkvm :: "'z kmem_scheme \<Rightarrow> (u32 \<times> 'z kmem_scheme) res" where
  "setupkvm s =
     bnd (kalloc s) (\<lambda>(pgdir, s).
       if pgdir = 0 then Inr (0, s)
       else
         let s = mclear pgdir s
         in if P2V PHYSTOP > DEVSPACE then Inl (Panic ''PHYSTOP too high'')
            else setupkvm_loop pgdir (kmap (kdata s)) s)"

definition switchkvm :: "'z kmem_scheme \<Rightarrow> 'z kmem_scheme" where
  "switchkvm s = s\<lparr>cr3 := V2P (kpgdir s)\<rparr>"

definition kvmalloc :: "'z kmem_scheme \<Rightarrow> 'z kmem_scheme res" where
  "kvmalloc s = bnd (setupkvm s) (\<lambda>(pgdir, s). Inr (switchkvm (s\<lparr>kpgdir := pgdir\<rparr>)))"

definition switchuvm :: "nat option \<Rightarrow> 'z kmem_scheme \<Rightarrow> 'z kmem_scheme res" where
  "switchuvm p s =
     (case p of None \<Rightarrow> Inl (Panic ''switchuvm: no process'')
      | Some i \<Rightarrow>
          bnd (fetch ''ptable'' (ptable s) (int i)) (\<lambda>p.
            if p_kstack p = 0 then Inl (Panic ''switchuvm: no kstack'')
            else if p_pgdir p = 0 then Inl (Panic ''switchuvm: no pgdir'')
            else Inr (s\<lparr>ts_esp0 := p_kstack p + KSTACKSIZE, cr3 := V2P (p_pgdir p)\<rparr>)))"

text \<open>\<^verbatim>\<open>kalloc\<close> is not tested in \<open>inituvm\<close>; a write through NULL there faults, for no user page is
  mapped yet.\<close>

definition inituvm :: "u32 \<Rightarrow> u8 list \<Rightarrow> 'z kmem_scheme \<Rightarrow> 'z kmem_scheme res" where
  "inituvm pgdir init s =
     (if length init \<ge> PGSIZE then Inl (Panic ''inituvm: more than a page'')
      else bnd (kalloc s) (\<lambda>(m, s).
        if m = 0 then Inl (Fault ''inituvm'')
        else bnd (mappages pgdir 0 (of_nat PGSIZE) (V2P m) (PTE_W OR PTE_U) (mclear m s)) (\<lambda>(_, s).
               Inr (s\<lparr>pmem := store_bytes (pmem s) (unat m) init\<rparr>))))"

text \<open>The loop of \<^verbatim>\<open>allocuvm\<close>, entered with \<open>newsz < KERNBASE\<close>. The result is the new size or 0.\<close>

function allocuvm_loop :: "u32 \<Rightarrow> u32 \<Rightarrow> nat \<Rightarrow> nat \<Rightarrow> 'z kmem_scheme \<Rightarrow> (u32 \<times> 'z kmem_scheme) res" where
  "allocuvm_loop pgdir oldsz a newsz s =
     (if a < newsz
      then bnd (kalloc s) (\<lambda>(m, s).
             if m = 0 then bnd (deallocuvm pgdir (of_nat newsz) oldsz s) (\<lambda>(_, s). Inr (0, s))
             else bnd (mappages pgdir (of_nat a) (of_nat PGSIZE) (V2P m) (PTE_W OR PTE_U) (mclear m s)) (\<lambda>(r, s).
               if r < 0
               then bnd (deallocuvm pgdir (of_nat newsz) oldsz s) (\<lambda>(_, s).
                    bnd (kfree m s) (\<lambda>s. Inr (0, s)))
               else allocuvm_loop pgdir oldsz (a + PGSIZE) newsz s))
      else Inr (of_nat newsz, s))"
  by pat_completeness auto
termination by (relation "measure (\<lambda>(_, _, a, newsz, _). newsz - a)") (auto simp: PGSIZE_def)

declare allocuvm_loop.simps [simp del]

definition allocuvm :: "u32 \<Rightarrow> u32 \<Rightarrow> u32 \<Rightarrow> 'z kmem_scheme \<Rightarrow> (u32 \<times> 'z kmem_scheme) res" where
  "allocuvm pgdir oldsz newsz s =
     (if newsz \<ge> KERNBASE then Inr (0, s)
      else if newsz < oldsz then Inr (oldsz, s)
      else allocuvm_loop pgdir oldsz (unat (PGROUNDUP oldsz)) (unat newsz) s)"

definition clearpteu :: "u32 \<Rightarrow> u32 \<Rightarrow> 'z kmem_scheme \<Rightarrow> 'z kmem_scheme res" where
  "clearpteu pgdir uva s =
     bnd (walkpgdir pgdir uva False s) (\<lambda>(pte, s).
       if pte = 0 then Inl (Panic ''clearpteu'')
       else Inr (mput pte (mget s pte AND NOT PTE_U) s))"

text \<open>The loop of \<^verbatim>\<open>copyuvm\<close>; a process's size is below \<open>KERNBASE\<close>. At \<^verbatim>\<open>bad\<close> the new address space
  is freed and the result is 0.\<close>

function copyuvm_loop :: "u32 \<Rightarrow> u32 \<Rightarrow> nat \<Rightarrow> nat \<Rightarrow> 'z kmem_scheme \<Rightarrow> (u32 \<times> 'z kmem_scheme) res" where
  "copyuvm_loop pgdir d i sz s =
     (if i < sz
      then bnd (walkpgdir pgdir (of_nat i) False s) (\<lambda>(pte, s).
             if pte = 0 then Inl (Panic ''copyuvm: pte should exist'')
             else if mget s pte AND PTE_P = 0 then Inl (Panic ''copyuvm: page not present'')
             else
               let pa = PTE_ADDR (mget s pte); flags = PTE_FLAGS (mget s pte)
               in bnd (kalloc s) (\<lambda>(m, s).
                    if m = 0 then bnd (freevm d s) (\<lambda>s. Inr (0, s))
                    else
                      let s = s\<lparr>pmem := memmove (pmem s) (unat m) (unat (P2V pa)) PGSIZE\<rparr>
                      in bnd (mappages d (of_nat i) (of_nat PGSIZE) (V2P m) flags s) (\<lambda>(r, s).
                           if r < 0 then bnd (freevm d s) (\<lambda>s. Inr (0, s))
                           else copyuvm_loop pgdir d (i + PGSIZE) sz s)))
      else Inr (d, s))"
  by pat_completeness auto
termination by (relation "measure (\<lambda>(_, _, i, sz, _). sz - i)") (auto simp: PGSIZE_def)

declare copyuvm_loop.simps [simp del]

definition copyuvm :: "u32 \<Rightarrow> u32 \<Rightarrow> 'z kmem_scheme \<Rightarrow> (u32 \<times> 'z kmem_scheme) res" where
  "copyuvm pgdir sz s =
     bnd (setupkvm s) (\<lambda>(d, s). if d = 0 then Inr (0, s) else copyuvm_loop pgdir d 0 (unat sz) s)"

text \<open>\<^verbatim>\<open>*pte\<close> is read in \<open>uva2ka\<close> without a test for NULL.\<close>

definition uva2ka :: "u32 \<Rightarrow> u32 \<Rightarrow> 'z kmem_scheme \<Rightarrow> u32 res" where
  "uva2ka pgdir uva s =
     bnd (walkpgdir pgdir uva False s) (\<lambda>(pte, s).
       if pte = 0 then Inl (Fault ''pte'')
       else if mget s pte AND PTE_P = 0 then Inr 0
       else if mget s pte AND PTE_U = 0 then Inr 0
       else Inr (P2V (PTE_ADDR (mget s pte))))"

function copyout :: "u32 \<Rightarrow> u32 \<Rightarrow> u8 list \<Rightarrow> 'z kmem_scheme \<Rightarrow> (int \<times> 'z kmem_scheme) res" where
  "copyout pgdir va p s =
     (if p \<noteq> []
      then
        let va0 = PGROUNDDOWN va
        in bnd (uva2ka pgdir va0 s) (\<lambda>pa0.
             if pa0 = 0 then Inr (-1, s)
             else
               let n = min (PGSIZE - unat (va - va0)) (length p)
               in copyout pgdir (va0 + of_nat PGSIZE) (drop n p)
                    (s\<lparr>pmem := store_bytes (pmem s) (unat (pa0 + (va - va0))) (take n p)\<rparr>))
      else Inr (0, s))"
  by pat_completeness auto
termination
proof (relation "measure (\<lambda>(_, _, p, _). length p)", goal_cases)
  case (2 pgdir va p s va0 pa0 n)
  have "0 < PGSIZE - unat (va - va0)" unfolding 2(2) using sub_pgrounddown [of va] by (simp add: PGSIZE_def)
  then have "0 < n" and "p \<noteq> []" unfolding 2(5) using 2(1) by simp_all
  then show ?case by simp
qed simp

declare copyout.simps [simp del]

end
