(* ===== verification/Life.thy ===== *)
theory Life
  imports File Vm
begin

text \<open>
  The life of a process (\<^verbatim>\<open>proc.c\<close>): allocation of a table slot, the first process, \<open>growproc\<close>,
  \<open>fork\<close>, \<open>exit\<close> and \<open>wait\<close>. Each is the whole routine, with the calls into the page
  tables, the open files and the log.

  \<open>exit\<close> ends where it calls \<open>sched\<close>, as a zombie. \<open>wait\<close> is one scan of the table; where it would
  sleep the result is \<open>Blocked\<close>. The saved registers of a kernel thread are not part of the
  state.
\<close>

definition NOFILE :: nat where "NOFILE = 16"

section \<open>Allocation\<close>

definition proc_free :: "proc \<Rightarrow> bool" where
  "proc_free p \<longleftrightarrow> p_state p = UNUSED"

text \<open>The part of \<^verbatim>\<open>allocproc\<close> under \<^verbatim>\<open>ptable.lock\<close>.\<close>

definition ptable_alloc :: "int \<Rightarrow> proc list \<Rightarrow> (nat \<times> proc list) option" where
  "ptable_alloc pid tab =
     (case first_idx proc_free tab of
        None \<Rightarrow> None
      | Some i \<Rightarrow> Some (i, tab[i := (tab ! i)\<lparr>p_state := EMBRYO, p_pid := pid\<rparr>]))"

definition allocproc :: "'z kmem_scheme \<Rightarrow> (nat option \<times> 'z kmem_scheme) res" where
  "allocproc s =
     (case ptable_alloc (nextpid s) (ptable s) of
        None \<Rightarrow> Inr (None, s)
      | Some (i, tab) \<Rightarrow>
          bnd (kalloc (s\<lparr>ptable := tab, nextpid := i32 (nextpid s + 1)\<rparr>)) (\<lambda>(k, s).
            let s = proc_upd i (\<lambda>p. p\<lparr>p_kstack := k\<rparr>) s
            in if k = 0 then Inr (None, proc_upd i (\<lambda>p. p\<lparr>p_state := UNUSED\<rparr>) s)
               else Inr (Some i, proc_upd i (\<lambda>p. p\<lparr>p_cont := None\<rparr>) s)))"

definition tf_zero :: trapframe where
  "tf_zero = \<lparr>tf_edi = 0, tf_esi = 0, tf_ebp = 0, tf_oesp = 0, tf_ebx = 0, tf_edx = 0, tf_ecx = 0,
     tf_eax = 0, tf_gs = 0, tf_fs = 0, tf_es = 0, tf_ds = 0, tf_trapno = 0, tf_err = 0, tf_eip = 0,
     tf_cs = 0, tf_eflags = 0, tf_esp = 0, tf_ss = 0\<rparr>"

definition DPL_USER :: u16 where "DPL_USER = 3"
definition SEG_UCODE :: u16 where "SEG_UCODE = 3"
definition SEG_UDATA :: u16 where "SEG_UDATA = 4"
definition FL_IF :: u32 where "FL_IF = 0x200"

definition tf_user :: trapframe where
  "tf_user =
     (let d = push_bit 3 SEG_UDATA OR DPL_USER
      in tf_zero\<lparr>tf_cs := push_bit 3 SEG_UCODE OR DPL_USER, tf_ds := d, tf_es := d, tf_ss := d,
                 tf_eflags := FL_IF, tf_esp := of_nat PGSIZE, tf_eip := 0\<rparr>)"

text \<open>\<open>initcode\<close> is the program that the build links in as \<^verbatim>\<open>_binary_initcode_start\<close>.\<close>

definition userinit :: "u8 list \<Rightarrow> 'z kfile_scheme \<Rightarrow> 'z kfile_scheme res" where
  "userinit initcode s =
     bnd (allocproc s) (\<lambda>(p, s).
       case p of
         None \<Rightarrow> Inl (Fault ''userinit'')
       | Some i \<Rightarrow>
           bnd (setupkvm (s\<lparr>initproc := Some i\<rparr>)) (\<lambda>(pgdir, s).
             if pgdir = 0 then Inl (Panic ''userinit: out of memory?'')
             else
               bnd (inituvm pgdir initcode (proc_upd i (\<lambda>p. p\<lparr>p_pgdir := pgdir\<rparr>) s)) (\<lambda>s.
                 let s = proc_upd i (\<lambda>p. p\<lparr>p_sz := of_nat PGSIZE, p_tf := tf_user,
                           p_name := safestrcpy ''initcode'' 16\<rparr>) s
                 in bnd (namei ''/'' s) (\<lambda>(ip, s).
                      Inr (proc_upd i (\<lambda>p. p\<lparr>p_cwd := ip, p_state := RUNNABLE\<rparr>) s)))))"

definition growproc :: "int \<Rightarrow> 'z kmem_scheme \<Rightarrow> (int \<times> 'z kmem_scheme) res" where
  "growproc n s =
     bnd (my_proc s) (\<lambda>me.
       let sz = p_sz me; new = sz + word_of_int n
       in bnd (if n > 0 then allocuvm (p_pgdir me) sz new s
               else if n < 0 then deallocuvm (p_pgdir me) sz new s
               else Inr (sz, s)) (\<lambda>(sz', s).
            if n \<noteq> 0 \<and> sz' = 0 then Inr (-1, s)
            else bnd (my_upd (\<lambda>p. p\<lparr>p_sz := sz'\<rparr>) s) (\<lambda>s.
                 bnd (switchuvm (myproc s) s) (\<lambda>s. Inr (0, s)))))"

section \<open>Fork\<close>

definition fork_file :: "nat \<Rightarrow> nat \<Rightarrow> nat \<Rightarrow> 'z kfile_scheme \<Rightarrow> 'z kfile_scheme res" where
  "fork_file me np fd s =
     (case p_ofile (ptable s ! me) ! fd of
        None \<Rightarrow> Inr s
      | Some f \<Rightarrow> bnd (filedup f s) (\<lambda>s.
          Inr (proc_upd np (\<lambda>p. p\<lparr>p_ofile := (p_ofile p)[fd := Some f]\<rparr>) s)))"

definition fork :: "'z kfile_scheme \<Rightarrow> (int \<times> 'z kfile_scheme) res" where
  "fork s =
     (case myproc s of
        None \<Rightarrow> Inl (Fault ''myproc'')
      | Some me \<Rightarrow>
          bnd (allocproc s) (\<lambda>(np, s).
            case np of
              None \<Rightarrow> Inr (-1, s)
            | Some np \<Rightarrow>
                bnd (copyuvm (p_pgdir (ptable s ! me)) (p_sz (ptable s ! me)) s) (\<lambda>(pgdir, s).
                  let s = proc_upd np (\<lambda>p. p\<lparr>p_pgdir := pgdir\<rparr>) s
                  in if pgdir = 0
                     then bnd (kfree (p_kstack (ptable s ! np)) s) (\<lambda>s.
                            Inr (-1, proc_upd np (\<lambda>p. p\<lparr>p_kstack := 0, p_state := UNUSED\<rparr>) s))
                     else
                       let cp = ptable s ! me;
                           s = proc_upd np (\<lambda>p. p\<lparr>p_sz := p_sz cp, p_parent := Some me,
                                 p_tf := (p_tf cp)\<lparr>tf_eax := 0\<rparr>\<rparr>) s
                       in bnd (foldR (fork_file me np) [0 ..< NOFILE] s) (\<lambda>s.
                            case p_cwd (ptable s ! me) of
                              None \<Rightarrow> Inl (Fault ''cwd'')
                            | Some cwd \<Rightarrow>
                                let s = idup cwd s; cp = ptable s ! me;
                                    s = proc_upd np (\<lambda>p. p\<lparr>p_cwd := Some cwd,
                                          p_name := safestrcpy (p_name cp) 16\<rparr>) s
                                in Inr (p_pid (ptable s ! np),
                                        proc_upd np (\<lambda>p. p\<lparr>p_state := RUNNABLE, p_ticks := 0,
                                          p_cont := p_cont cp\<rparr>) s)))))"

section \<open>Exit and wait\<close>

definition exit_file :: "nat \<Rightarrow> nat \<Rightarrow> 'z kfile_scheme \<Rightarrow> 'z kfile_scheme res" where
  "exit_file me fd s =
     (case p_ofile (ptable s ! me) ! fd of
        None \<Rightarrow> Inr s
      | Some f \<Rightarrow> bnd (fileclose f s) (\<lambda>s.
          Inr (proc_upd me (\<lambda>p. p\<lparr>p_ofile := (p_ofile p)[fd := None]\<rparr>) s)))"

definition exit_child :: "nat \<Rightarrow> nat \<Rightarrow> 'z kproc_scheme \<Rightarrow> 'z kproc_scheme" where
  "exit_child me i s =
     (if p_parent (ptable s ! i) = Some me
      then
        let s = proc_upd i (\<lambda>p. p\<lparr>p_parent := initproc s\<rparr>) s
        in if p_state (ptable s ! i) = ZOMBIE then wakeup1 (map_option ChProc (initproc s)) s else s
      else s)"

definition exit :: "'z kfile_scheme \<Rightarrow> 'z kfile_scheme res" where
  "exit s =
     (case myproc s of
        None \<Rightarrow> Inl (Fault ''myproc'')
      | Some me \<Rightarrow>
          if initproc s = Some me then Inl (Panic ''init exiting'')
          else
            bnd (foldR (exit_file me) [0 ..< NOFILE] s) (\<lambda>s.
            bnd (begin_op s) (\<lambda>s.
            bnd (case p_cwd (ptable s ! me) of None \<Rightarrow> Inl (Fault ''cwd'') | Some i \<Rightarrow> iput i s) (\<lambda>s.
            bnd (end_op s) (\<lambda>s.
              let s = proc_upd me (\<lambda>p. p\<lparr>p_cwd := None\<rparr>) s;
                  s = wakeup1 (map_option ChProc (p_parent (ptable s ! me))) s;
                  s = fold (exit_child me) [0 ..< length (ptable s)] s
              in Inr (proc_upd me (\<lambda>p. p\<lparr>p_state := ZOMBIE\<rparr>) s))))))"

definition is_child :: "nat \<Rightarrow> proc \<Rightarrow> bool" where
  "is_child me p \<longleftrightarrow> p_parent p = Some me"

text \<open>What \<^verbatim>\<open>wait\<close> does with a zombie child \<open>i\<close>.\<close>

definition reap :: "nat \<Rightarrow> 'z kmem_scheme \<Rightarrow> (int \<times> 'z kmem_scheme) res" where
  "reap i s =
     (let pid = p_pid (ptable s ! i)
      in bnd (kfree (p_kstack (ptable s ! i)) s) (\<lambda>s.
         bnd (freevm (p_pgdir (ptable s ! i)) (proc_upd i (\<lambda>p. p\<lparr>p_kstack := 0\<rparr>) s)) (\<lambda>s.
           Inr (pid, proc_upd i (\<lambda>p. p\<lparr>p_pid := 0, p_parent := None, p_name := [], p_killed := False,
                 p_state := UNUSED\<rparr>) s))))"

definition wait :: "'z kmem_scheme \<Rightarrow> (int \<times> 'z kmem_scheme) res" where
  "wait s =
     (case myproc s of
        None \<Rightarrow> Inl (Fault ''myproc'')
      | Some me \<Rightarrow>
          (case first_idx (\<lambda>p. is_child me p \<and> p_state p = ZOMBIE) (ptable s) of
             Some i \<Rightarrow> reap i s
           | None \<Rightarrow>
               if (\<forall>p \<in> set (ptable s). \<not> is_child me p) \<or> p_killed (ptable s ! me) then Inr (-1, s)
               else Inl (Blocked ''wait'')))"

end
