(* ===== verification/SpinLock.thy ===== *)
theory SpinLock
  imports Prelude
begin

text \<open>
  The spin locks of \<^verbatim>\<open>spinlock.c\<close> and the processor lookup \<^verbatim>\<open>mycpu\<close> of \<^verbatim>\<open>proc.c\<close> they rest on.

  A \<open>cpu\<close> holds the fields of \<^verbatim>\<open>struct cpu\<close> that the locks use, with the interrupt flag of the
  processor's own \<^verbatim>\<open>eflags\<close> beside them; \<open>me\<close> is the processor that runs the routine. The
  debugging fields of a lock (its name and call stack) are left out. The routines are given
  one after the other; the relation \<open>lstep\<close> then interleaves them over any number of
  processors, one memory access of the lock word at a time.
\<close>

section \<open>Processors\<close>

record cpu =
  cpu_apicid :: u8
  cpu_ncli :: int
  cpu_intena :: bool
  cpu_if :: bool
  cpu_proc :: "nat option"

definition mycpu :: "nat \<Rightarrow> cpu list \<Rightarrow> nat res" where
  "mycpu me cpus =
     (if cpu_if (cpus ! me) then Inl (Panic ''mycpu called with interrupts enabled'')
      else case first_idx (\<lambda>c. cpu_apicid c = cpu_apicid (cpus ! me)) cpus of
             Some i \<Rightarrow> Inr i
           | None \<Rightarrow> Inl (Panic ''unknown apicid''))"

definition cli :: "nat \<Rightarrow> cpu list \<Rightarrow> cpu list" where
  "cli me cpus = cpus[me := (cpus ! me)\<lparr>cpu_if := False\<rparr>]"

definition sti :: "nat \<Rightarrow> cpu list \<Rightarrow> cpu list" where
  "sti me cpus = cpus[me := (cpus ! me)\<lparr>cpu_if := True\<rparr>]"

definition pushcli :: "nat \<Rightarrow> cpu list \<Rightarrow> cpu list res" where
  "pushcli me cpus =
     (let eflags = cpu_if (cpus ! me); cpus = cli me cpus
      in bnd (mycpu me cpus) (\<lambda>i.
           let c = cpus ! i;
               c = (if cpu_ncli c = 0 then c\<lparr>cpu_intena := eflags\<rparr> else c)
           in Inr (cpus[i := c\<lparr>cpu_ncli := cpu_ncli c + 1\<rparr>])))"

definition popcli :: "nat \<Rightarrow> cpu list \<Rightarrow> cpu list res" where
  "popcli me cpus =
     (if cpu_if (cpus ! me) then Inl (Panic ''popcli - interruptible'')
      else bnd (mycpu me cpus) (\<lambda>i.
        let c = (cpus ! i)\<lparr>cpu_ncli := cpu_ncli (cpus ! i) - 1\<rparr>; cpus = cpus[i := c]
        in if cpu_ncli c < 0 then Inl (Panic ''popcli'')
           else if cpu_ncli c = 0 \<and> cpu_intena c then Inr (sti me cpus)
           else Inr cpus))"

section \<open>Locks\<close>

record spinlock =
  l_locked :: bool
  l_cpu :: "nat option"

definition initlock :: "spinlock \<Rightarrow> spinlock" where
  "initlock lk = lk\<lparr>l_locked := False, l_cpu := None\<rparr>"

definition holding :: "nat \<Rightarrow> spinlock \<Rightarrow> cpu list \<Rightarrow> bool res" where
  "holding me lk cpus =
     (if l_locked lk then bnd (mycpu me cpus) (\<lambda>i. Inr (l_cpu lk = Some i)) else Inr False)"

text \<open>\<^verbatim>\<open>xchg(&lk->locked, 1)\<close> returns what the word held.\<close>

definition xchg_locked :: "spinlock \<Rightarrow> bool \<times> spinlock" where
  "xchg_locked lk = (l_locked lk, lk\<lparr>l_locked := True\<rparr>)"

text \<open>The three parts of \<^verbatim>\<open>acquire\<close>: up to the spin loop, one turn of the loop, and the rest.\<close>

definition acquire_enter :: "nat \<Rightarrow> spinlock \<Rightarrow> cpu list \<Rightarrow> cpu list res" where
  "acquire_enter me lk cpus =
     bnd (pushcli me cpus) (\<lambda>cpus.
       bnd (holding me lk cpus) (\<lambda>h. if h then Inl (Panic ''acquire'') else Inr cpus))"

definition acquire_leave :: "nat \<Rightarrow> spinlock \<Rightarrow> cpu list \<Rightarrow> spinlock res" where
  "acquire_leave me lk cpus = bnd (mycpu me cpus) (\<lambda>i. Inr (lk\<lparr>l_cpu := Some i\<rparr>))"

text \<open>A processor that runs alone either gets the lock at the first turn or spins for good.\<close>

definition acquire :: "nat \<Rightarrow> spinlock \<Rightarrow> cpu list \<Rightarrow> (spinlock \<times> cpu list) res" where
  "acquire me lk cpus =
     bnd (acquire_enter me lk cpus) (\<lambda>cpus.
       let (old, lk) = xchg_locked lk
       in if old then Inl (Blocked ''acquire'')
          else bnd (acquire_leave me lk cpus) (\<lambda>lk. Inr (lk, cpus)))"

definition release :: "nat \<Rightarrow> spinlock \<Rightarrow> cpu list \<Rightarrow> (spinlock \<times> cpu list) res" where
  "release me lk cpus =
     bnd (holding me lk cpus) (\<lambda>h.
       if \<not> h then Inl (Panic ''release'')
       else bnd (popcli me cpus) (\<lambda>cpus. Inr (lk\<lparr>l_cpu := None, l_locked := False\<rparr>, cpus)))"

section \<open>Processor lemmas\<close>

definition wf_cpus :: "cpu list \<Rightarrow> bool" where
  "wf_cpus cpus \<longleftrightarrow> distinct (map cpu_apicid cpus)"

lemma mycpu_me:
  assumes "wf_cpus cpus" and "me < length cpus" and "\<not> cpu_if (cpus ! me)"
  shows "mycpu me cpus = Inr me"
proof -
  have "first_idx (\<lambda>c. cpu_apicid c = cpu_apicid (cpus ! me)) cpus = Some me"
    using assms(1,2) by (intro first_idx_SomeI) (auto simp: wf_cpus_def distinct_conv_nth)
  with assms(3) show ?thesis by (simp add: mycpu_def)
qed

lemma wf_cpus_upd:
  "wf_cpus cpus \<Longrightarrow> cpu_apicid c = cpu_apicid (cpus ! i) \<Longrightarrow> wf_cpus (cpus[i := c])"
proof -
  assume *: "wf_cpus cpus" "cpu_apicid c = cpu_apicid (cpus ! i)"
  have "map cpu_apicid (cpus[i := c]) = map cpu_apicid cpus"
    using *(2) by (cases "i < length cpus") (auto intro!: nth_equalityI simp: nth_list_update)
  with *(1) show ?thesis by (simp add: wf_cpus_def)
qed

definition pushed :: "cpu \<Rightarrow> cpu" where
  "pushed c = c\<lparr>cpu_if := False, cpu_intena := (if cpu_ncli c = 0 then cpu_if c else cpu_intena c),
     cpu_ncli := cpu_ncli c + 1\<rparr>"

definition popped :: "cpu \<Rightarrow> cpu" where
  "popped c = c\<lparr>cpu_if := (cpu_ncli c = 1 \<and> cpu_intena c), cpu_ncli := cpu_ncli c - 1\<rparr>"

lemma pushcli_eq:
  assumes "wf_cpus cpus" and "me < length cpus"
  shows "pushcli me cpus = Inr (cpus[me := pushed (cpus ! me)])"
proof -
  have "mycpu me (cli me cpus) = Inr me"
    using assms by (intro mycpu_me) (simp_all add: cli_def wf_cpus_upd)
  with assms(2) show ?thesis
    by (simp add: pushcli_def cli_def pushed_def Let_def)
qed

lemma popcli_eq:
  assumes "wf_cpus cpus" and "me < length cpus" and "\<not> cpu_if (cpus ! me)" and "0 < cpu_ncli (cpus ! me)"
  shows "popcli me cpus = Inr (cpus[me := popped (cpus ! me)])"
proof (cases "cpus ! me")
  case (fields a n i f p)
  with assms show ?thesis by (auto simp: popcli_def mycpu_me Let_def sti_def popped_def)
qed

fun pushcli_n :: "nat \<Rightarrow> nat \<Rightarrow> cpu list \<Rightarrow> cpu list res" where
  "pushcli_n 0 me cpus = Inr cpus"
| "pushcli_n (Suc n) me cpus = bnd (pushcli me cpus) (pushcli_n n me)"

fun popcli_n :: "nat \<Rightarrow> nat \<Rightarrow> cpu list \<Rightarrow> cpu list res" where
  "popcli_n 0 me cpus = Inr cpus"
| "popcli_n (Suc n) me cpus = bnd (popcli me cpus) (popcli_n n me)"

lemma popped_pushed: "0 < cpu_ncli c \<Longrightarrow> \<not> cpu_if c \<Longrightarrow> popped (pushed c) = c"
  by (cases c) (simp add: popped_def pushed_def)

lemma popped_pushed_outer:
  "cpu_ncli c = 0 \<Longrightarrow> popped (pushed c) = c\<lparr>cpu_intena := cpu_if c\<rparr>"
  by (cases c) (simp add: popped_def pushed_def)

lemma popcli_n_last: "popcli_n (Suc n) me cs = bnd (popcli_n n me cs) (popcli me)"
proof (induction n arbitrary: cs)
  case 0
  have "popcli_n 0 me = Inr" by (simp add: fun_eq_iff)
  then show ?case by simp
next
  case (Suc n)
  have step: "popcli_n (Suc n) me = (\<lambda>c. bnd (popcli_n n me c) (popcli me))"
    by (rule ext) (rule Suc.IH)
  have "popcli_n (Suc (Suc n)) me cs = bnd (popcli me cs) (popcli_n (Suc n) me)"
    by (rule popcli_n.simps)
  also have "\<dots> = bnd (bnd (popcli me cs) (popcli_n n me)) (popcli me)"
    by (simp only: step bnd_assoc)
  also have "\<dots> = bnd (popcli_n (Suc n) me cs) (popcli me)"
    by (simp only: popcli_n.simps)
  finally show ?case .
qed

lemma pop_after_push:
  "bnd (pushcli_n n me c) (popcli_n n me) = Inr c \<Longrightarrow>
   bnd (pushcli_n n me c) (popcli_n (Suc n) me) = popcli me c"
proof -
  assume *: "bnd (pushcli_n n me c) (popcli_n n me) = Inr c"
  have "popcli_n (Suc n) me = (\<lambda>c. bnd (popcli_n n me c) (popcli me))"
    by (rule ext) (rule popcli_n_last)
  then show ?thesis by (simp only: bnd_assoc [symmetric] * bnd_simps)
qed

text \<open>Between a first \<^verbatim>\<open>pushcli\<close> and its \<^verbatim>\<open>popcli\<close> any number of matched pairs cancel.\<close>

lemma push_pop_n:
  assumes "wf_cpus cpus" and "me < length cpus" and "\<not> cpu_if (cpus ! me)"
    and "0 < cpu_ncli (cpus ! me)"
  shows "bnd (pushcli_n n me cpus) (popcli_n n me) = Inr cpus"
  using assms
proof (induction n arbitrary: cpus)
  case 0
  then show ?case by simp
next
  case (Suc n)
  let ?c1 = "cpus[me := pushed (cpus ! me)]"
  have push: "pushcli me cpus = Inr ?c1" using Suc.prems by (simp add: pushcli_eq)
  have wf1: "wf_cpus ?c1" using Suc.prems by (simp add: wf_cpus_upd pushed_def)
  have st1: "\<not> cpu_if (?c1 ! me)" "0 < cpu_ncli (?c1 ! me)" "me < length ?c1"
    using Suc.prems by (simp_all add: pushed_def)
  have "bnd (pushcli_n n me ?c1) (popcli_n (Suc n) me) = popcli me ?c1"
    using Suc.IH [OF wf1 st1(3) st1(1,2)] by (rule pop_after_push)
  also have "\<dots> = Inr cpus"
    using Suc.prems wf1 st1 by (simp add: popcli_eq popped_pushed)
  finally show ?case using push by (simp del: popcli_n.simps)
qed

text \<open>\<open>pushcli\<close> and \<open>popcli\<close> match. After any number of nested calls and as many returns the
  processor is as before, interrupts included: they are on again exactly if they were on
  at the outermost \<open>pushcli\<close>, and they stay off in between.\<close>

theorem pushcli_popcli_match:
  assumes "wf_cpus cpus" and "me < length cpus" and "cpu_ncli (cpus ! me) = 0"
  shows "bnd (pushcli_n (Suc n) me cpus) (popcli_n (Suc n) me)
       = Inr (cpus[me := (cpus ! me)\<lparr>cpu_intena := cpu_if (cpus ! me)\<rparr>])
    \<and> (\<exists>c. pushcli_n (Suc n) me cpus = Inr c \<and> \<not> cpu_if (c ! me) \<and> cpu_ncli (c ! me) = 1 + int n)"
proof -
  let ?c1 = "cpus[me := pushed (cpus ! me)]"
  have push: "pushcli me cpus = Inr ?c1" using assms by (simp add: pushcli_eq)
  have wf1: "wf_cpus ?c1" using assms by (simp add: wf_cpus_upd pushed_def)
  have st1: "\<not> cpu_if (?c1 ! me)" "0 < cpu_ncli (?c1 ! me)" "me < length ?c1"
    using assms by (simp_all add: pushed_def)
  have "bnd (pushcli_n n me ?c1) (popcli_n (Suc n) me) = popcli me ?c1"
    using push_pop_n [OF wf1 st1(3) st1(1,2)] by (rule pop_after_push)
  also have "\<dots> = Inr (cpus[me := (cpus ! me)\<lparr>cpu_intena := cpu_if (cpus ! me)\<rparr>])"
    using assms wf1 st1 by (simp add: popcli_eq popped_pushed_outer)
  finally have 1: "bnd (pushcli_n (Suc n) me cpus) (popcli_n (Suc n) me)
      = Inr (cpus[me := (cpus ! me)\<lparr>cpu_intena := cpu_if (cpus ! me)\<rparr>])"
    using push by (simp del: popcli_n.simps)
  have depth: "\<exists>c. pushcli_n n me cs = Inr c \<and> \<not> cpu_if (c ! me) \<and> cpu_ncli (c ! me) = k + int n"
    if "wf_cpus cs" "me < length cs" "\<not> cpu_if (cs ! me)" "cpu_ncli (cs ! me) = k" for cs k
    using that
  proof (induction n arbitrary: cs k)
    case (Suc n)
    from Suc.prems Suc.IH [of "cs[me := pushed (cs ! me)]" "k + 1"] show ?case
      by (simp add: pushcli_eq wf_cpus_upd pushed_def algebra_simps)
  qed simp
  have "\<exists>c. pushcli_n n me ?c1 = Inr c \<and> \<not> cpu_if (c ! me) \<and> cpu_ncli (c ! me) = 1 + int n"
    using assms st1 by (intro depth wf1) (simp_all add: pushed_def)
  with 1 push show ?thesis by (simp del: popcli_n.simps)
qed

definition cpus_ex :: "cpu list" where
  "cpus_ex = [\<lparr>cpu_apicid = 0, cpu_ncli = 0, cpu_intena = False, cpu_if = True, cpu_proc = None\<rparr>,
              \<lparr>cpu_apicid = 4, cpu_ncli = 0, cpu_intena = False, cpu_if = True, cpu_proc = None\<rparr>]"

theorem pushcli_popcli_match_witness:
  "wf_cpus cpus_ex \<and> bnd (pushcli_n 3 1 cpus_ex) (popcli_n 3 1)
     = Inr (cpus_ex[1 := (cpus_ex ! 1)\<lparr>cpu_intena := True\<rparr>])"
proof -
  have wf: "wf_cpus cpus_ex" by (simp add: wf_cpus_def cpus_ex_def)
  have "1 < length cpus_ex" and "cpu_ncli (cpus_ex ! 1) = 0" and "cpu_if (cpus_ex ! 1)"
    by (simp_all add: cpus_ex_def)
  with pushcli_popcli_match [OF wf, of 1 2] wf show ?thesis
    by (simp add: numeral_eq_Suc)
qed

section \<open>Interleaving\<close>

text \<open>
  Several processors use one lock. Each is outside, spinning, has just won the exchange, is
  inside, or has cleared \<^verbatim>\<open>lk->cpu\<close> on its way out. A step is one processor running up to its
  next access of the shared lock word; \<^verbatim>\<open>panic\<close> is never a step, so it shows as a processor
  that cannot move.
\<close>

datatype lpc = Outside | Spinning | Won | Inside | Leaving

record lsys =
  ls_lock :: spinlock
  ls_cpus :: "cpu list"
  ls_pc :: "nat \<Rightarrow> lpc"

inductive lstep :: "lsys \<Rightarrow> lsys \<Rightarrow> bool" where
  enter: "i < length (ls_cpus s) \<Longrightarrow> ls_pc s i = Outside \<Longrightarrow>
     acquire_enter i (ls_lock s) (ls_cpus s) = Inr cs \<Longrightarrow>
     lstep s (s\<lparr>ls_cpus := cs, ls_pc := (ls_pc s)(i := Spinning)\<rparr>)"
| spin: "i < length (ls_cpus s) \<Longrightarrow> ls_pc s i = Spinning \<Longrightarrow>
     xchg_locked (ls_lock s) = (old, lk) \<Longrightarrow>
     lstep s (s\<lparr>ls_lock := lk, ls_pc := (ls_pc s)(i := if old then Spinning else Won)\<rparr>)"
| record_holder: "i < length (ls_cpus s) \<Longrightarrow> ls_pc s i = Won \<Longrightarrow>
     acquire_leave i (ls_lock s) (ls_cpus s) = Inr lk \<Longrightarrow>
     lstep s (s\<lparr>ls_lock := lk, ls_pc := (ls_pc s)(i := Inside)\<rparr>)"
| leave: "i < length (ls_cpus s) \<Longrightarrow> ls_pc s i = Inside \<Longrightarrow>
     holding i (ls_lock s) (ls_cpus s) = Inr True \<Longrightarrow>
     lstep s (s\<lparr>ls_lock := (ls_lock s)\<lparr>l_cpu := None\<rparr>, ls_pc := (ls_pc s)(i := Leaving)\<rparr>)"
| unlock: "i < length (ls_cpus s) \<Longrightarrow> ls_pc s i = Leaving \<Longrightarrow>
     popcli i (ls_cpus s) = Inr cs \<Longrightarrow>
     lstep s (s\<lparr>ls_lock := (ls_lock s)\<lparr>l_locked := False\<rparr>, ls_cpus := cs,
                ls_pc := (ls_pc s)(i := Outside)\<rparr>)"

definition lsys_init :: "cpu list \<Rightarrow> lsys" where
  "lsys_init cs = \<lparr>ls_lock = initlock \<lparr>l_locked = False, l_cpu = None\<rparr>, ls_cpus = cs,
     ls_pc = (\<lambda>_. Outside)\<rparr>"

inductive lreach :: "cpu list \<Rightarrow> lsys \<Rightarrow> bool" for cs where
  start: "lreach cs (lsys_init cs)"
| step: "lreach cs s \<Longrightarrow> lstep s t \<Longrightarrow> lreach cs t"

definition owns :: "lsys \<Rightarrow> nat \<Rightarrow> bool" where
  "owns s i \<longleftrightarrow> ls_pc s i \<in> {Won, Inside, Leaving}"

definition lock_inv :: "lsys \<Rightarrow> bool" where
  "lock_inv s \<longleftrightarrow> wf_cpus (ls_cpus s)
     \<and> (\<forall>i. i \<ge> length (ls_cpus s) \<longrightarrow> ls_pc s i = Outside)
     \<and> (\<forall>i j. owns s i \<longrightarrow> owns s j \<longrightarrow> i = j)
     \<and> (l_locked (ls_lock s) \<longleftrightarrow> (\<exists>i. owns s i))
     \<and> (\<forall>i. l_cpu (ls_lock s) = Some i \<longleftrightarrow> ls_pc s i = Inside)
     \<and> (\<forall>i < length (ls_cpus s). ls_pc s i \<noteq> Outside \<longrightarrow>
          \<not> cpu_if (ls_cpus s ! i) \<and> 0 < cpu_ncli (ls_cpus s ! i))
     \<and> (\<forall>i < length (ls_cpus s). 0 \<le> cpu_ncli (ls_cpus s ! i))"

lemma lock_inv_init:
  assumes "wf_cpus cs" and "\<forall>c \<in> set cs. 0 \<le> cpu_ncli c"
  shows "lock_inv (lsys_init cs)"
  using assms by (simp add: lock_inv_def lsys_init_def initlock_def owns_def)

lemma acquire_enter_eq:
  assumes "wf_cpus cs" and "i < length cs"
  shows "acquire_enter i lk cs =
    (if l_locked lk \<and> l_cpu lk = Some i then Inl (Panic ''acquire'')
     else Inr (cs[i := pushed (cs ! i)]))"
proof -
  let ?cs = "cs[i := pushed (cs ! i)]"
  have "mycpu i ?cs = Inr i"
    using assms by (intro mycpu_me) (simp_all add: wf_cpus_upd pushed_def)
  with assms show ?thesis by (simp add: acquire_enter_def pushcli_eq holding_def)
qed

lemma lstep_inv: "lstep s t \<Longrightarrow> lock_inv s \<Longrightarrow> lock_inv t"
proof (induction rule: lstep.induct)
  case (enter i s cs)
  then have "cs = (ls_cpus s)[i := pushed (ls_cpus s ! i)]"
    by (auto simp: lock_inv_def acquire_enter_eq split: if_splits)
  with enter have "wf_cpus cs" by (auto simp: lock_inv_def pushed_def intro: wf_cpus_upd)
  with enter \<open>cs = _\<close> show ?case
    by (simp add: lock_inv_def owns_def nth_list_update pushed_def, metis lpc.distinct(3,5,7))
next
  case (spin i s old lk)
  show ?case
  proof (cases "l_locked (ls_lock s)")
    case True
    with spin have "old" "lk = ls_lock s" "(ls_pc s)(i := Spinning) = ls_pc s"
      by (auto simp: xchg_locked_def fun_eq_iff)
    with spin show ?thesis by simp
  next
    case False
    with spin have lk: "\<not> old" "lk = (ls_lock s)\<lparr>l_locked := True\<rparr>" and none: "\<And>j. \<not> owns s j"
      by (auto simp: xchg_locked_def lock_inv_def)
    with none spin show ?thesis by (simp add: lock_inv_def owns_def)
  qed
next
  case (record_holder i s lk)
  then have "lk = (ls_lock s)\<lparr>l_cpu := Some i\<rparr>"
    by (auto simp: acquire_leave_def lock_inv_def mycpu_me)
  with record_holder show ?case
    by (auto simp: lock_inv_def owns_def split: if_splits)
next
  case (leave i s)
  then show ?case
    by (auto simp: lock_inv_def owns_def split: if_splits)
next
  case (unlock i s cs)
  then have cs: "cs = (ls_cpus s)[i := popped (ls_cpus s ! i)]"
    by (auto simp: lock_inv_def popcli_eq)
  from unlock have only: "\<And>j. owns s j \<Longrightarrow> j = i"
    by (auto simp: lock_inv_def owns_def)
  have "wf_cpus cs"
    using unlock cs by (auto simp: lock_inv_def popped_def intro: wf_cpus_upd)
  with unlock cs only show ?case
    by (auto simp: lock_inv_def owns_def nth_list_update popped_def split: if_splits)
qed

lemma lreach_inv:
  assumes "lreach cs s" and "wf_cpus cs" and "\<forall>c \<in> set cs. 0 \<le> cpu_ncli c"
  shows "lock_inv s"
  using assms by (induction rule: lreach.induct) (auto intro: lock_inv_init lstep_inv)

text \<open>C5: spin locks exclude. On any number of processors with distinct APIC ids, however their
  steps interleave, at most one is between winning the exchange and releasing the lock; it
  runs with interrupts off; and \<open>lk->cpu\<close> names a processor only while that processor is
  inside.\<close>

theorem spinlock_mutual_exclusion:
  assumes "lreach cs s" and "wf_cpus cs" and "\<forall>c \<in> set cs. 0 \<le> cpu_ncli c"
    and "ls_pc s i \<in> {Won, Inside, Leaving}"
  shows "(\<forall>j. ls_pc s j \<in> {Won, Inside, Leaving} \<longrightarrow> j = i) \<and> l_locked (ls_lock s)
    \<and> \<not> cpu_if (ls_cpus s ! i) \<and> (\<forall>j. l_cpu (ls_lock s) = Some j \<longrightarrow> ls_pc s j = Inside \<and> j = i)"
proof -
  have inv: "lock_inv s" using assms(1-3) by (rule lreach_inv)
  have "i < length (ls_cpus s)"
  proof (rule ccontr)
    assume "\<not> i < length (ls_cpus s)"
    with inv have "ls_pc s i = Outside" by (simp add: lock_inv_def)
    with assms(4) show False by simp
  qed
  with inv assms(4) show ?thesis by (auto simp: lock_inv_def owns_def)
qed

theorem spinlock_mutual_exclusion_witness:
  "\<exists>s. lreach cpus_ex s \<and> ls_pc s 1 = Won \<and> \<not> cpu_if (ls_cpus s ! 1)"
proof -
  have wf: "wf_cpus cpus_ex" by (simp add: wf_cpus_def cpus_ex_def)
  have ncli: "\<forall>c \<in> set cpus_ex. 0 \<le> cpu_ncli c" by (simp add: cpus_ex_def)
  have len: "1 < length cpus_ex" by (simp add: cpus_ex_def)
  let ?s0 = "lsys_init cpus_ex"
  let ?s1 = "?s0\<lparr>ls_cpus := cpus_ex[1 := pushed (cpus_ex ! 1)], ls_pc := (ls_pc ?s0)(1 := Spinning)\<rparr>"
  let ?s2 = "?s1\<lparr>ls_lock := (ls_lock ?s0)\<lparr>l_locked := True\<rparr>, ls_pc := (ls_pc ?s1)(1 := Won)\<rparr>"
  have "lstep ?s0 ?s1"
    using lstep.enter [of 1 ?s0 "cpus_ex[1 := pushed (cpus_ex ! 1)]"] len wf
    by (simp add: lsys_init_def initlock_def acquire_enter_eq)
  moreover have "lstep ?s1 ?s2"
    using lstep.spin [of 1 ?s1 False "(ls_lock ?s0)\<lparr>l_locked := True\<rparr>"] len
    by (simp add: lsys_init_def initlock_def xchg_locked_def)
  ultimately have r: "lreach cpus_ex ?s2" by (meson lreach.start lreach.step)
  have "ls_pc ?s2 1 = Won" by simp
  with spinlock_mutual_exclusion [OF r wf ncli, of 1] r show ?thesis
    by (intro exI [of _ ?s2]) simp
qed

end
