(* ===== verification/Sched.thy ===== *)
theory Sched
  imports Life SpinLock
begin

text \<open>
  Scheduling (\<^verbatim>\<open>scheduler\<close>, \<^verbatim>\<open>sched\<close>, \<^verbatim>\<open>yield\<close> and \<^verbatim>\<open>forkret\<close> of \<^verbatim>\<open>proc.c\<close>).

  A context switch runs another thread until that thread switches back. \<open>sched_loop\<close> is one
  round of the scheduler, with the switch to process \<open>i\<close> as its parameter \<open>run\<close>: what happens
  to the state from the switch to the return. \<open>mstep\<close> interleaves several processors: a
  step is what one of them does while it holds \<^verbatim>\<open>ptable.lock\<close>, or a single access to the table
  by code that does not take the lock.
\<close>

section \<open>One round\<close>

text \<open>The choice of the container whose turn it is; \<open>name\<close> is the local array of 16 characters.\<close>

definition sched_begin :: "string \<Rightarrow> 'z conts_scheme \<Rightarrow> (int \<times> string \<times> 'z conts_scheme) res" where
  "sched_begin name s =
     (let (holder, s) = get_cticks s
      in if holder \<noteq> -1 then bnd (get_name holder name s) (\<lambda>name. Inr (holder, name, s))
         else Inr (holder, name, s))"

text \<open>The tests that make the loop go on to the next process.\<close>

definition sched_skip :: "int \<Rightarrow> string \<Rightarrow> proc \<Rightarrow> 'z kproc_scheme \<Rightarrow> bool res" where
  "sched_skip holder name p s =
     (if holder = -1 then Inr (p_cont p \<noteq> None \<or> p_state p \<noteq> RUNNABLE)
      else if p_cont p = None then Inr True
      else bnd (cont_deref (p_cont p) s) (\<lambda>c.
        Inr (strcmp1 (c_name c) name \<noteq> 0 \<or> p_state p \<noteq> RUNNABLE)))"

definition sched_switch :: "nat \<Rightarrow> 'z kmem_scheme \<Rightarrow> 'z kmem_scheme res" where
  "sched_switch i s =
     bnd (switchuvm (Some i) (s\<lparr>cur := Some i\<rparr>)) (\<lambda>s. Inr (proc_upd i (\<lambda>p. p\<lparr>p_state := RUNNING\<rparr>) s))"

definition sched_back :: "'z kmem_scheme \<Rightarrow> 'z kmem_scheme" where
  "sched_back s = (switchkvm s)\<lparr>cur := None\<rparr>"

text \<open>The loop over the table; the result lists the processes that ran.\<close>

fun sched_loop :: "(nat \<Rightarrow> 'z kmem_scheme \<Rightarrow> 'z kmem_scheme res) \<Rightarrow> int \<Rightarrow> string \<Rightarrow> nat list \<Rightarrow> 'z kmem_scheme
    \<Rightarrow> (nat list \<times> 'z kmem_scheme) res" where
  "sched_loop run holder name [] s = Inr ([], s)"
| "sched_loop run holder name (i # is) s =
     bnd (sched_skip holder name (ptable s ! i) s) (\<lambda>skip.
       if skip then sched_loop run holder name is s
       else bnd (sched_switch i s) (\<lambda>s.
            bnd (run i s) (\<lambda>s.
            bnd (sched_loop run holder name is (sched_back s)) (\<lambda>(ran, s). Inr (i # ran, s)))))"

text \<open>One turn of the endless loop of \<^verbatim>\<open>scheduler\<close>.\<close>

definition scheduler_round :: "(nat \<Rightarrow> 'z kmem_scheme \<Rightarrow> 'z kmem_scheme res) \<Rightarrow> string \<Rightarrow> 'z kmem_scheme
    \<Rightarrow> (nat list \<times> string \<times> 'z kmem_scheme) res" where
  "scheduler_round run name s =
     bnd (sched_begin name s) (\<lambda>(holder, name, s).
     bnd (sched_loop run holder name [0 ..< length (ptable s)] s) (\<lambda>(ran, s). Inr (ran, name, s)))"

section \<open>Giving up the processor\<close>

text \<open>The tests of \<^verbatim>\<open>sched\<close>; the switch is where it ends. \<open>lk\<close> is \<^verbatim>\<open>ptable.lock\<close>.\<close>

definition sched :: "nat \<Rightarrow> spinlock \<Rightarrow> cpu list \<Rightarrow> 'z kproc_scheme \<Rightarrow> bool res" where
  "sched me lk cpus s =
     bnd (holding me lk cpus) (\<lambda>h.
       if \<not> h then Inl (Panic ''sched ptable.lock'')
       else bnd (mycpu me cpus) (\<lambda>c.
         if cpu_ncli (cpus ! c) \<noteq> 1 then Inl (Panic ''sched locks'')
         else bnd (my_proc s) (\<lambda>p.
           if p_state p = RUNNING then Inl (Panic ''sched running'')
           else if cpu_if (cpus ! me) then Inl (Panic ''sched interruptible'')
           else Inr (cpu_intena (cpus ! c)))))"

text \<open>\<^verbatim>\<open>yield\<close> up to the switch in \<open>sched\<close>.\<close>

definition yield :: "nat \<Rightarrow> spinlock \<Rightarrow> cpu list \<Rightarrow> 'z kproc_scheme \<Rightarrow> ((spinlock \<times> cpu list) \<times> 'z kproc_scheme) res" where
  "yield me lk cpus s =
     bnd (acquire me lk cpus) (\<lambda>(lk, cpus).
     bnd (my_upd (\<lambda>p. p\<lparr>p_state := RUNNABLE\<rparr>) s) (\<lambda>s.
     bnd (sched me lk cpus s) (\<lambda>_. Inr ((lk, cpus), s))))"

text \<open>\<open>first\<close> is the static flag of \<^verbatim>\<open>forkret\<close>.\<close>

definition forkret :: "nat \<Rightarrow> spinlock \<Rightarrow> cpu list \<Rightarrow> bool \<Rightarrow> 'z kfs_scheme
    \<Rightarrow> ((spinlock \<times> cpu list) \<times> bool \<times> 'z kfs_scheme) res" where
  "forkret me lk cpus first s =
     bnd (release me lk cpus) (\<lambda>lc.
       if first then bnd (iinit ROOTDEV s) (\<lambda>s. bnd (initlog ROOTDEV s) (\<lambda>s. Inr (lc, False, s)))
       else Inr (lc, False, s))"


section \<open>Several processors\<close>

text \<open>
  What a processor does between two points where it holds \<^verbatim>\<open>ptable.lock\<close>: it is between two
  rounds, in a round with the entries from \<open>i\<close> on still to scan, or it runs a process.
\<close>

datatype cmode = Idle | Scan int string nat | Run int string nat

text \<open>
  Where a process is in the kernel, as far as the process table is concerned. \<open>KFork i\<close>: in \<open>fork\<close>, which is
  building entry \<open>i\<close>. The other three are the points of \<open>pause\<close> and \<open>resume\<close>, which take no lock: about to
  look at the state of entry \<open>i\<close>, about to look at its container, about to store the new state.
\<close>

datatype sweep = SPause | SResume

datatype kact = KUser | KFork nat | KState sweep string nat | KCont sweep string nat | KStore sweep string nat

record msys =
  ms_k :: kmem
  ms_cpus :: "cmode list"
  ms_act :: "nat \<Rightarrow> kact"

text \<open>The first process from \<open>i\<close> on that the scan does not skip.\<close>

fun sched_scan :: "int \<Rightarrow> string \<Rightarrow> nat list \<Rightarrow> 'z kproc_scheme \<Rightarrow> nat option res" where
  "sched_scan holder name [] s = Inr None"
| "sched_scan holder name (i # is) s =
     bnd (sched_skip holder name (ptable s ! i) s) (\<lambda>skip.
       if skip then sched_scan holder name is s else Inr (Some i))"

text \<open>The tests and the store of \<open>pause\<close> and \<open>resume\<close> on one entry.\<close>

definition sweep_state :: "sweep \<Rightarrow> procstate \<Rightarrow> bool" where
  "sweep_state w st = (case w of SPause \<Rightarrow> st \<noteq> UNUSED | SResume \<Rightarrow> st = PAUSE)"

definition sweep_cont :: "sweep \<Rightarrow> string \<Rightarrow> int option \<Rightarrow> 'z kproc_scheme \<Rightarrow> bool res" where
  "sweep_cont w name cont s =
     (if w = SPause \<and> cont = None then Inr False
      else bnd (cont_deref cont s) (\<lambda>c. Inr (strcmp1 (c_name c) name = 0)))"

definition sweep_store :: "sweep \<Rightarrow> proc \<Rightarrow> proc" where
  "sweep_store w p = p\<lparr>p_state := (case w of SPause \<Rightarrow> PAUSE | SResume \<Rightarrow> RUNNABLE)\<rparr>"

text \<open>Taken together they are the bodies of the two loops.\<close>

lemma sweep_one:
  "pause_one name s p = (if sweep_state SPause (p_state p)
     then bnd (sweep_cont SPause name (p_cont p) s) (\<lambda>m. Inr (if m then sweep_store SPause p else p)) else Inr p)"
  "resume_one name s p = (if sweep_state SResume (p_state p)
     then bnd (sweep_cont SResume name (p_cont p) s) (\<lambda>m. Inr (if m then sweep_store SResume p else p)) else Inr p)"
  by (auto simp: pause_one_def resume_one_def sweep_state_def sweep_cont_def sweep_store_def bnd_def split: sum.splits)

text \<open>Process \<open>j\<close> is on processor \<open>c\<close>.\<close>

definition runs :: "msys \<Rightarrow> nat \<Rightarrow> nat \<Rightarrow> bool" where
  "runs m c j \<longleftrightarrow> c < length (ms_cpus m) \<and> (\<exists>h n. ms_cpus m ! c = Run h n j)"

text \<open>The processor goes on with its round behind the process it has run.\<close>

definition to_round :: "cmode \<Rightarrow> cmode" where
  "to_round x = (case x of Run h n j \<Rightarrow> Scan h n (Suc j) | _ \<Rightarrow> x)"

definition goes_back :: "nat \<Rightarrow> kmem \<Rightarrow> msys \<Rightarrow> msys" where
  "goes_back c k m = m\<lparr>ms_k := k, ms_cpus := (ms_cpus m)[c := to_round (ms_cpus m ! c)]\<rparr>"

text \<open>
  The steps. Those of the scheduler: the start of a round, the switch to the next process of
  the round, the end of a round. Those of a process on a processor, under the lock: it yields, sleeps or exits, which brings
  its processor back into the round, it kills a process, takes a free entry for \<open>fork\<close>, makes the new process runnable,
  and reaps a zombie. A wake-up may come from an interrupt on any processor. Without the lock: a \<open>fork\<close> that fails gives
  the entry back; the single accesses of \<open>pause\<close> and \<open>resume\<close>; and \<open>works\<close>, everything else a process makes the kernel
  do, which changes no state of a process. A timer interrupt makes a process yield at any of these points.

  The store of \<open>pause\<close> or \<open>resume\<close> may also fall between the test and the store of a processor that holds
  the lock, and be overwritten there; this is the step \<open>lost\<close>.
\<close>

datatype slabel = LBegin | LPick | LEnd | LYield | LSleep | LExit | LWakeup | LKill | LWork | LFork | LReady | LFail | LReap
  | LCall sweep | LTest sweep nat | LStore sweep nat | LLost sweep nat

inductive mstep :: "slabel \<Rightarrow> msys \<Rightarrow> msys \<Rightarrow> bool" where
  begin_round: "c < length (ms_cpus m) \<Longrightarrow> ms_cpus m ! c = Idle \<Longrightarrow> sched_begin buf (ms_k m) = Inr (h, n, k) \<Longrightarrow>
     mstep LBegin m (m\<lparr>ms_k := k, ms_cpus := (ms_cpus m)[c := Scan h n 0]\<rparr>)"
| pick: "c < length (ms_cpus m) \<Longrightarrow> ms_cpus m ! c = Scan h n i \<Longrightarrow>
     sched_scan h n [i ..< length (ptable (ms_k m))] (ms_k m) = Inr (Some j) \<Longrightarrow> sched_switch j (ms_k m) = Inr k \<Longrightarrow>
     mstep LPick m (m\<lparr>ms_k := k, ms_cpus := (ms_cpus m)[c := Run h n j]\<rparr>)"
| end_round: "c < length (ms_cpus m) \<Longrightarrow> ms_cpus m ! c = Scan h n i \<Longrightarrow>
     sched_scan h n [i ..< length (ptable (ms_k m))] (ms_k m) = Inr None \<Longrightarrow>
     mstep LEnd m (m\<lparr>ms_cpus := (ms_cpus m)[c := Idle]\<rparr>)"
| yields: "runs m c j \<Longrightarrow> mstep LYield m (goes_back c (proc_upd j (\<lambda>p. p\<lparr>p_state := RUNNABLE\<rparr>) (ms_k m)) m)"
| sleeps: "runs m c j \<Longrightarrow> ms_act m j = KUser \<Longrightarrow> sleep_enter ch (Some ()) ((ms_k m)\<lparr>cur := Some j\<rparr>) = Inr k \<Longrightarrow>
     mstep LSleep m (goes_back c k m)"
| exits: "runs m c j \<Longrightarrow> ms_act m j = KUser \<Longrightarrow>
     mstep LExit m (goes_back c (proc_upd j (\<lambda>p. p\<lparr>p_state := ZOMBIE\<rparr>) (ms_k m)) m)"
| wakes: "mstep LWakeup m (m\<lparr>ms_k := wakeup ch (ms_k m)\<rparr>)"
| kills: "runs m c j \<Longrightarrow> kill pid ((ms_k m)\<lparr>cur := Some j\<rparr>) = Inr (r, k) \<Longrightarrow> mstep LKill m (m\<lparr>ms_k := k\<rparr>)"
| works: "runs m c j \<Longrightarrow> map p_state (ptable k) = map p_state (ptable (ms_k m)) \<Longrightarrow> mstep LWork m (m\<lparr>ms_k := k\<rparr>)"
| forks: "runs m c j \<Longrightarrow> ms_act m j = KUser \<Longrightarrow> ptable_alloc pid (ptable (ms_k m)) = Some (i, tab) \<Longrightarrow>
     mstep LFork m (m\<lparr>ms_k := (ms_k m)\<lparr>ptable := tab\<rparr>, ms_act := (ms_act m)(j := KFork i)\<rparr>)"
| ready: "runs m c j \<Longrightarrow> ms_act m j = KFork i \<Longrightarrow>
     mstep LReady m (m\<lparr>ms_k := proc_upd i (\<lambda>p. p\<lparr>p_state := RUNNABLE, p_ticks := 0, p_cont := p_cont (ptable (ms_k m) ! j)\<rparr>) (ms_k m),
       ms_act := (ms_act m)(j := KUser)\<rparr>)"
| fails: "runs m c j \<Longrightarrow> ms_act m j = KFork i \<Longrightarrow>
     mstep LFail m (m\<lparr>ms_k := proc_upd i (\<lambda>p. p\<lparr>p_kstack := 0, p_state := UNUSED\<rparr>) (ms_k m), ms_act := (ms_act m)(j := KUser)\<rparr>)"
| reaps: "runs m c j \<Longrightarrow> ms_act m j = KUser \<Longrightarrow> p_state (ptable (ms_k m) ! i) = ZOMBIE \<Longrightarrow>
     mstep LReap m (m\<lparr>ms_k := proc_upd i (\<lambda>p. p\<lparr>p_kstack := 0, p_pid := 0, p_parent := None, p_name := [], p_killed := False,
       p_state := UNUSED\<rparr>) (ms_k m)\<rparr>)"
| calls: "runs m c j \<Longrightarrow> ms_act m j = KUser \<Longrightarrow> mstep (LCall w) m (m\<lparr>ms_act := (ms_act m)(j := KState w name 0)\<rparr>)"
| looks: "runs m c j \<Longrightarrow> ms_act m j = KState w name i \<Longrightarrow> i < length (ptable (ms_k m)) \<Longrightarrow>
     mstep (LTest w i) m (m\<lparr>ms_act := (ms_act m)(j :=
       if sweep_state w (p_state (ptable (ms_k m) ! i)) then KCont w name i else KState w name (Suc i))\<rparr>)"
| compares: "runs m c j \<Longrightarrow> ms_act m j = KCont w name i \<Longrightarrow> sweep_cont w name (p_cont (ptable (ms_k m) ! i)) (ms_k m) = Inr b \<Longrightarrow>
     mstep (LTest w i) m (m\<lparr>ms_act := (ms_act m)(j := if b then KStore w name i else KState w name (Suc i))\<rparr>)"
| stores: "runs m c j \<Longrightarrow> ms_act m j = KStore w name i \<Longrightarrow>
     mstep (LStore w i) m (m\<lparr>ms_k := proc_upd i (sweep_store w) (ms_k m), ms_act := (ms_act m)(j := KState w name (Suc i))\<rparr>)"
| lost: "runs m c j \<Longrightarrow> ms_act m j = KStore w name i \<Longrightarrow>
     mstep (LLost w i) m (m\<lparr>ms_act := (ms_act m)(j := KState w name (Suc i))\<rparr>)"
| returns: "runs m c j \<Longrightarrow> ms_act m j = KState w name i \<Longrightarrow> length (ptable (ms_k m)) \<le> i \<Longrightarrow>
     mstep (LCall w) m (m\<lparr>ms_act := (ms_act m)(j := KUser)\<rparr>)"

inductive_cases mstepE: "mstep l m m'"

text \<open>Entry \<open>i\<close> is in use outside the lock: its process is on a processor, or a \<open>fork\<close> is building it.\<close>

definition held :: "msys \<Rightarrow> nat \<Rightarrow> bool" where
  "held m i \<longleftrightarrow> (\<exists>c. runs m c i) \<or> (\<exists>j. ms_act m j = KFork i)"

text \<open>The runs in which no \<open>resume\<close> stores into the entry of such a process.\<close>

inductive mreach :: "msys \<Rightarrow> msys \<Rightarrow> bool" for m0 where
  start: "mreach m0 m0"
| more: "mreach m0 m \<Longrightarrow> mstep l m m' \<Longrightarrow> (\<forall>i. l = LStore SResume i \<longrightarrow> \<not> held m i) \<Longrightarrow> mreach m0 m'"

definition excl :: "msys \<Rightarrow> bool" where
  "excl m \<longleftrightarrow> (\<forall>c j. runs m c j \<longrightarrow> j < length (ptable (ms_k m)) \<and> p_state (ptable (ms_k m) ! j) \<in> {RUNNING, PAUSE})
     \<and> (\<forall>c d j. runs m c j \<longrightarrow> runs m d j \<longrightarrow> c = d)
     \<and> (\<forall>j i. ms_act m j = KFork i \<longrightarrow> i < length (ptable (ms_k m)) \<and> p_state (ptable (ms_k m) ! i) \<in> {EMBRYO, PAUSE})
     \<and> (\<forall>j i c. ms_act m j = KFork i \<longrightarrow> \<not> runs m c i)
     \<and> (\<forall>j k i. ms_act m j = KFork i \<longrightarrow> ms_act m k = KFork i \<longrightarrow> j = k)"

lemma sched_scan_Some:
  assumes "sched_scan h n is s = Inr (Some j)"
  shows "j \<in> set is" "p_state (ptable s ! j) = RUNNABLE"
  using assms
  by (induction "is") (auto simp: sched_skip_def bnd_Inr_iff split: if_splits)

lemma runs_upd: "runs (m\<lparr>ms_k := k, ms_cpus := (ms_cpus m)[c := x]\<rparr>) d j
    \<longleftrightarrow> (if d = c then c < length (ms_cpus m) \<and> (\<exists>h n. x = Run h n j) else runs m d j)"
  by (auto simp: runs_def)

lemma runs_same [simp]: "runs (m\<lparr>ms_k := k\<rparr>) c j = runs m c j" "runs (m\<lparr>ms_act := a\<rparr>) c j = runs m c j"
  by (simp_all add: runs_def)

text \<open>What the invariant says of an entry that is held, and of one that is not.\<close>

lemma excl_held:
  assumes "excl m" and "held m i"
  shows "i < length (ptable (ms_k m)) \<and> p_state (ptable (ms_k m) ! i) \<in> {RUNNING, PAUSE, EMBRYO}"
  using assms by (auto simp: excl_def held_def)

lemma excl_runs: "excl m \<Longrightarrow> runs m d j \<Longrightarrow> j < length (ptable (ms_k m)) \<and> p_state (ptable (ms_k m) ! j) \<in> {RUNNING, PAUSE}"
  by (simp add: excl_def)

text \<open>A step that leaves the held entries in their states, or pauses them, keeps the invariant.\<close>

definition keeps :: "msys \<Rightarrow> kmem \<Rightarrow> nat \<Rightarrow> bool" where
  "keeps m k i \<longleftrightarrow> i < length (ptable k) \<and> p_state (ptable k ! i) \<in> {p_state (ptable (ms_k m) ! i), PAUSE}"

lemma excl_kernel:
  assumes "excl m" and "\<And>i. held m i \<Longrightarrow> keeps m k i"
  shows "excl (m\<lparr>ms_k := k\<rparr>)"
  using assms by (fastforce simp: excl_def held_def keeps_def)

lemma excl_act:
  assumes "excl m" and "\<And>i. a \<noteq> KFork i"
  shows "excl (m\<lparr>ms_act := (ms_act m)(j := a)\<rparr>)"
  using assms by (auto simp: excl_def)

text \<open>The entry that a process has been building becomes free or runnable.\<close>

lemma excl_built:
  assumes e: "excl m" and "ms_act m j = KFork i" and k: "\<And>l. l \<noteq> i \<Longrightarrow> held m l \<Longrightarrow> keeps m k l"
  shows "excl (m\<lparr>ms_k := k, ms_act := (ms_act m)(j := KUser)\<rparr>)"
proof -
  let ?m = "m\<lparr>ms_act := (ms_act m)(j := KUser)\<rparr>"
  have "excl ?m" using e by (rule excl_act) simp
  moreover have "keeps ?m k l" if "held ?m l" for l
  proof -
    from that e assms(2) have "l \<noteq> i" "held m l" by (auto simp: held_def excl_def split: if_splits)
    from k [OF this] show ?thesis by (simp add: keeps_def)
  qed
  ultimately have "excl (?m\<lparr>ms_k := k\<rparr>)" by (rule excl_kernel)
  moreover have "?m\<lparr>ms_k := k\<rparr> = m\<lparr>ms_k := k, ms_act := (ms_act m)(j := KUser)\<rparr>" by (cases m) simp
  ultimately show ?thesis by simp
qed

text \<open>A process leaves its processor.\<close>

lemma excl_back:
  assumes e: "excl m" and c: "runs m c j" and k: "\<And>l. l \<noteq> j \<Longrightarrow> held m l \<Longrightarrow> keeps m k l"
  shows "excl (goes_back c k m)"
proof -
  have r: "runs (goes_back c k m) d l \<longleftrightarrow> d \<noteq> c \<and> runs m d l" for d l
    using c by (cases "d = c") (auto simp: goes_back_def runs_def to_round_def)
  have "l \<noteq> j" "held m l" if "d \<noteq> c" "runs m d l" for d l using that c e by (auto simp: excl_def held_def)
  moreover have "l \<noteq> j" "held m l" if "ms_act m i = KFork l" for i l using that c e by (auto simp: excl_def held_def)
  moreover have "ms_k (goes_back c k m) = k" "ms_act (goes_back c k m) = ms_act m" by (simp_all add: goes_back_def)
  ultimately show ?thesis
    using e k unfolding excl_def r by (fastforce simp: keeps_def)
qed

lemma upd_keeps:
  assumes "excl m" and "held m i" and "i \<noteq> j"
  shows "keeps m (proc_upd j f (ms_k m)) i"
  using excl_held [OF assms(1,2)] assms(3) by (simp add: proc_upd_def keeps_def)

lemma sched_begin_ptable:
  fixes s :: "'z kproc_scheme"
  assumes "sched_begin buf s = Inr (h, n, k)"
  shows "ptable k = ptable s"
  using assms by (auto simp: sched_begin_def get_cticks_def rand_def Let_def bnd_Inr_iff split: if_splits prod.splits)

lemma sched_switch_ptable:
  assumes "sched_switch j s = Inr k"
  shows "ptable k = (ptable s)[j := (ptable s ! j)\<lparr>p_state := RUNNING\<rparr>]"
  using assms by (auto simp: sched_switch_def switchuvm_def proc_upd_def bnd_Inr_iff split: if_splits)

text \<open>The steps of the scheduler that put no process on a processor.\<close>

lemma excl_round:
  assumes e: "excl m" and "c < length (ms_cpus m)" and "\<And>h n j. ms_cpus m ! c \<noteq> Run h n j" and "\<And>h n j. x \<noteq> Run h n j"
    and "ptable k = ptable (ms_k m)"
  shows "excl (m\<lparr>ms_k := k, ms_cpus := (ms_cpus m)[c := x]\<rparr>)"
proof -
  have "runs (m\<lparr>ms_k := k, ms_cpus := (ms_cpus m)[c := x]\<rparr>) d j = runs m d j" for d j
    using assms(2-4) by (cases "d = c") (auto simp: runs_upd runs_def)
  then show ?thesis using e assms(5) by (simp add: excl_def)
qed

lemma excl_pick:
  assumes e: "excl m" and c: "c < length (ms_cpus m)" and j: "j < length (ptable (ms_k m))" "p_state (ptable (ms_k m) ! j) = RUNNABLE"
    and k: "ptable k = (ptable (ms_k m))[j := (ptable (ms_k m) ! j)\<lparr>p_state := RUNNING\<rparr>]"
  shows "excl (m\<lparr>ms_k := k, ms_cpus := (ms_cpus m)[c := Run h n j]\<rparr>)"
proof -
  have "\<not> held m j" using excl_held [OF e, of j] j(2) by auto
  then have no: "\<not> runs m d j" "ms_act m i \<noteq> KFork j" for d i by (auto simp: held_def)
  have st: "p_state (ptable k ! i) = p_state (ptable (ms_k m) ! i)" if "i \<noteq> j" for i using that by (simp add: k)
  show ?thesis
    using e no j(1) c unfolding excl_def runs_upd by (auto simp: k nth_list_update split: if_splits)
qed

text \<open>The entries of the table after the locked operations on it.\<close>

lemma wakeup_keeps:
  assumes "excl m" and "held m i"
  shows "keeps m (wakeup ch (ms_k m)) i"
  using excl_held [OF assms] by (auto simp: keeps_def wakeup_def wakeup1_def wakeup_one_def)

lemma kill_keeps:
  assumes "excl m" and "held m i" and "kill pid ((ms_k m)\<lparr>cur := Some j\<rparr>) = Inr (r, k)"
  shows "keeps m k i"
proof -
  note h = excl_held [OF assms(1,2)]
  from kill_cases [OF assms(3)] consider "ptable k = ptable (ms_k m)"
    | l where "ptable k = (ptable (ms_k m))[l := set_killed (ptable (ms_k m) ! l)]"
    by (auto simp: proc_upd_def)
  then show ?thesis
  proof cases
    case 2
    then show ?thesis using h by (cases "l = i") (auto simp: keeps_def set_killed_def)
  qed (use h in \<open>simp add: keeps_def\<close>)
qed

lemma work_keeps:
  assumes "excl m" and "held m i" and "map p_state (ptable k) = map p_state (ptable (ms_k m))"
  shows "keeps m k i"
proof -
  have "length (ptable k) = length (ptable (ms_k m))" using map_eq_imp_length_eq [OF assms(3)] .
  moreover have "i < length (ptable (ms_k m))" using excl_held [OF assms(1,2)] by simp
  ultimately show ?thesis using arg_cong [OF assms(3), of "\<lambda>xs. xs ! i"] by (simp add: keeps_def)
qed

lemma excl_fork:
  assumes e: "excl m" and j: "ms_act m j = KUser" and a: "ptable_alloc pid (ptable (ms_k m)) = Some (i, tab)"
  shows "excl (m\<lparr>ms_k := (ms_k m)\<lparr>ptable := tab\<rparr>, ms_act := (ms_act m)(j := KFork i)\<rparr>)"
proof -
  have t: "tab = (ptable (ms_k m))[i := (ptable (ms_k m) ! i)\<lparr>p_state := EMBRYO, p_pid := pid\<rparr>]"
    and i: "i < length (ptable (ms_k m))" "p_state (ptable (ms_k m) ! i) = UNUSED"
    using a by (auto simp: ptable_alloc_def proc_free_def first_idx_Some_iff split: option.splits)
  have "\<not> held m i" using excl_held [OF e, of i] i(2) by auto
  then have no: "\<not> runs m d i" "ms_act m l \<noteq> KFork i" for d l by (auto simp: held_def)
  show ?thesis using e no i(1) j by (auto simp: excl_def t runs_def nth_list_update split: if_splits)
qed

lemma mstep_excl:
  assumes "mstep l m m'" and e: "excl m" and r: "\<forall>i. l = LStore SResume i \<longrightarrow> \<not> held m i"
  shows "excl m'"
  using assms(1)
proof cases
  case (begin_round c buf h n k)
  then show ?thesis using sched_begin_ptable [OF begin_round(5)] by (auto intro!: excl_round [OF e])
next
  case (pick c h n i j k)
  with sched_scan_Some [OF pick(5)] show ?thesis
    unfolding pick(2) by (intro excl_pick [OF e pick(3) _ _ sched_switch_ptable [OF pick(6)]]) auto
next
  case (end_round c h n i)
  then show ?thesis using excl_round [OF e, of c Idle "ms_k m"] by simp
next
  case (yields c j)
  then show ?thesis by (auto intro!: excl_back [OF e] upd_keeps [OF e])
next
  case (sleeps c j ch k)
  have "ptable k = ptable (proc_upd j (\<lambda>p. p\<lparr>p_chan := ch, p_state := SLEEPING\<rparr>) (ms_k m))"
    using sleeps(5) by (auto simp: sleep_enter_def myproc_def proc_upd_def)
  then have "keeps m k i" if "i \<noteq> j" "held m i" for i
    using upd_keeps [OF e that(2,1), of "\<lambda>p. p\<lparr>p_chan := ch, p_state := SLEEPING\<rparr>"] by (simp add: keeps_def)
  then show ?thesis unfolding sleeps(2) by (rule excl_back [OF e sleeps(3)])
next
  case (exits c j)
  then show ?thesis by (auto intro!: excl_back [OF e] upd_keeps [OF e])
next
  case (wakes ch)
  then show ?thesis by (auto intro!: excl_kernel [OF e] wakeup_keeps [OF e])
next
  case (kills c j pid r k)
  then show ?thesis by (auto intro!: excl_kernel [OF e] kill_keeps [OF e])
next
  case (works c j k)
  then show ?thesis by (auto intro!: excl_kernel [OF e] work_keeps [OF e])
next
  case (forks c j pid i tab)
  then show ?thesis using excl_fork [OF e] by simp
next
  case (ready c j i)
  then show ?thesis by (auto intro!: excl_built [OF e] upd_keeps [OF e])
next
  case (fails c j i)
  then show ?thesis by (auto intro!: excl_built [OF e] upd_keeps [OF e])
next
  case (reaps c j i)
  have "\<not> held m i" using excl_held [OF e, of i] reaps(5) by auto
  then show ?thesis unfolding reaps(2) by (intro excl_kernel [OF e] upd_keeps [OF e]) auto
next
  case (stores c j w name i)
  have "keeps m (proc_upd i (sweep_store w) (ms_k m)) l" if "held m l" for l
  proof (cases "l = i")
    case True
    with r stores(1) that have "w = SPause" by (cases w) auto
    with excl_held [OF e that] True show ?thesis by (simp add: keeps_def proc_upd_def sweep_store_def)
  qed (rule upd_keeps [OF e that])
  then have "excl (m\<lparr>ms_k := proc_upd i (sweep_store w) (ms_k m)\<rparr>)" by (rule excl_kernel [OF e])
  then show ?thesis unfolding stores(2) using excl_act [of "m\<lparr>ms_k := proc_upd i (sweep_store w) (ms_k m)\<rparr>"] by simp
qed (auto intro!: excl_act [OF e] split: if_splits)

lemma mreach_excl: "mreach m0 m \<Longrightarrow> excl m0 \<Longrightarrow> excl m"
  by (induction rule: mreach.induct) (auto intro: mstep_excl)

text \<open>C33: a process never runs on two processors. From any state in which no process runs and none is inside \<open>fork\<close>, \<open>pause\<close> or \<open>resume\<close>, whatever the
  processors and the processes do, step by step and in any order, a process that is on a processor is on that one only and
  its entry says RUNNING or PAUSE. The condition is that no \<open>resume\<close>, at the moment when it stores RUNNABLE, hits the entry of a process
  that is on a processor or that a \<open>fork\<close> has not finished. \<open>pause\<close> and \<open>resume\<close> take no lock: their tests and their stores are separate
  steps, and nothing in the code ensures the condition.\<close>

theorem sched_exclusive:
  assumes "\<And>c j. \<not> runs m0 c j" and "\<And>j. ms_act m0 j = KUser" and "mreach m0 m" and "runs m c j"
  shows "p_state (ptable (ms_k m) ! j) \<in> {RUNNING, PAUSE} \<and> (\<forall>d. runs m d j \<longrightarrow> d = c)"
proof -
  have "excl m0" using assms(1,2) by (simp add: excl_def)
  then have e: "excl m" by (rule mreach_excl [OF assms(3)])
  have "p_state (ptable (ms_k m) ! j) \<in> {RUNNING, PAUSE}" using excl_runs [OF e assms(4)] by simp
  moreover have "\<forall>d. runs m d j \<longrightarrow> d = c" using e assms(4) by (auto simp: excl_def)
  ultimately show ?thesis by blast
qed

text \<open>A process outside the containers, one in the container web, and processors in a round.\<close>

definition runnable_ex :: proc where
  "runnable_ex = proc0\<lparr>p_state := RUNNABLE, p_kstack := 4096, p_pgdir := 4096\<rparr>"

definition sched_ex :: "proc list \<Rightarrow> cmode list \<Rightarrow> msys" where
  "sched_ex ps cs = \<lparr>ms_k = (kmem_ex (Some 0))\<lparr>ptable := ps\<rparr>, ms_cpus = cs, ms_act = (\<lambda>_. KUser)\<rparr>"

theorem sched_exclusive_witness:
  "\<exists>m. mreach (sched_ex [runnable_ex, runnable_ex\<lparr>p_cont := Some 0\<rparr>] [Scan (- 1) [] 0, Idle]) m
     \<and> runs m 0 0 \<and> p_state (ptable (ms_k m) ! 0) \<in> {RUNNING, PAUSE}"
proof -
  let ?m0 = "sched_ex [runnable_ex, runnable_ex\<lparr>p_cont := Some 0\<rparr>] [Scan (- 1) [] 0, Idle]"
  obtain k where k: "sched_switch 0 (ms_k ?m0) = Inr k"
    by (simp add: sched_ex_def sched_switch_def switchuvm_def fetch_def in_range_def runnable_ex_def proc0_def)
  have "mstep LPick ?m0 (?m0\<lparr>ms_k := k, ms_cpus := (ms_cpus ?m0)[0 := Run (- 1) [] 0]\<rparr>)"
    using k by (intro mstep.pick [where h = "- 1" and n = "[]" and i = 0])
      (simp_all add: sched_ex_def upt_conv_Cons sched_skip_def runnable_ex_def proc0_def)
  then have r: "mreach ?m0 (?m0\<lparr>ms_k := k, ms_cpus := (ms_cpus ?m0)[0 := Run (- 1) [] 0]\<rparr>)"
    by (rule mreach.more [OF mreach.start]) simp
  have no: "\<not> runs ?m0 c j" for c j by (cases c) (auto simp: runs_def sched_ex_def less_Suc_eq)
  have us: "ms_act ?m0 j = KUser" for j by (simp add: sched_ex_def)
  have ru: "runs (?m0\<lparr>ms_k := k, ms_cpus := (ms_cpus ?m0)[0 := Run (- 1) [] 0]\<rparr>) 0 0"
    by (simp add: runs_def sched_ex_def)
  from sched_exclusive [OF no us r ru] r ru show ?thesis by blast
qed

text \<open>
  Without that condition it fails, even for a process that is on no processor while it is paused. Two processes
  resume its container. Both find it paused; the first makes it runnable and a processor runs it; then
  the second makes it runnable once more, and another processor runs it too.
\<close>

abbreviation steps :: "msys \<Rightarrow> msys \<Rightarrow> bool" where
  "steps \<equiv> (\<lambda>a b. \<exists>l. mstep l a b)\<^sup>*\<^sup>*"

lemma steps_one: "steps a b \<Longrightarrow> mstep l b c \<Longrightarrow> steps a c"
  by (erule rtranclp.rtrancl_into_rtrancl) blast

lemma pick_ex:
  assumes "c < length (ms_cpus m)" and "ms_cpus m ! c = Scan h n 0" and "ptable (ms_k m) = p # ps"
    and "sched_skip h n p (ms_k m) = Inr False" and "p_kstack p \<noteq> 0" and "p_pgdir p \<noteq> 0"
  shows "\<exists>m'. mstep LPick m m' \<and> ms_cpus m' = (ms_cpus m)[c := Run h n 0] \<and> ms_act m' = ms_act m
    \<and> containers (ms_k m') = containers (ms_k m) \<and> ptable (ms_k m') = p\<lparr>p_state := RUNNING\<rparr> # ps"
proof -
  obtain k where k: "sched_switch 0 (ms_k m) = Inr k" "containers k = containers (ms_k m)"
    using assms(3,5,6) by (simp add: sched_switch_def switchuvm_def fetch_def in_range_def proc_upd_def)
  have "sched_scan h n [0 ..< length (ptable (ms_k m))] (ms_k m) = Inr (Some 0)"
    using assms(3,4) by (simp add: upt_conv_Cons del: upt_Suc)
  from mstep.pick [OF assms(1,2) this k(1)] show ?thesis
    using sched_switch_ptable [OF k(1)] k(2) assms(3)
    by (intro exI [of _ "m\<lparr>ms_k := k, ms_cpus := (ms_cpus m)[c := Run h n 0]\<rparr>"]) simp
qed

text \<open>The two tests of \<open>resume\<close> on a paused process of the container, at the front of the table.\<close>

lemma resume_tests_ex:
  assumes "runs m c j" and "ms_act m j = KUser" and "ptable (ms_k m) = p # ps" and "p_state p = PAUSE"
    and "sweep_cont SResume name (p_cont p) (ms_k m) = Inr True"
  shows "steps m (m\<lparr>ms_act := (ms_act m)(j := KStore SResume name 0)\<rparr>)"
proof -
  let ?m = "\<lambda>a. m\<lparr>ms_act := (ms_act m)(j := a)\<rparr>"
  have "mstep (LCall SResume) m (?m (KState SResume name 0))" using assms(1,2) by (rule mstep.calls)
  moreover have "mstep (LTest SResume 0) (?m (KState SResume name 0)) (?m (KCont SResume name 0))"
    using mstep.looks [of "?m (KState SResume name 0)" c j SResume name 0] assms(1,3,4) by (simp add: sweep_state_def)
  moreover have "mstep (LTest SResume 0) (?m (KCont SResume name 0)) (?m (KStore SResume name 0))"
    using mstep.compares [of "?m (KCont SResume name 0)" c j SResume name 0 True] assms(1,3,5) by simp
  ultimately show ?thesis by (blast intro: steps_one rtranclp.rtrancl_refl)
qed

lemma resume_stores_ex:
  assumes "runs m c j" and "ms_act m j = KStore SResume name 0" and "ptable (ms_k m) = p # ps"
  shows "\<exists>m'. mstep (LStore SResume 0) m m' \<and> ms_cpus m' = ms_cpus m \<and> (\<forall>i. i \<noteq> j \<longrightarrow> ms_act m' i = ms_act m i)
    \<and> containers (ms_k m') = containers (ms_k m) \<and> ptable (ms_k m') = p\<lparr>p_state := RUNNABLE\<rparr> # ps"
  using mstep.stores [OF assms(1,2)] assms(3) by (fastforce simp: proc_upd_def sweep_store_def)

definition paused_ex :: proc where
  "paused_ex = runnable_ex\<lparr>p_state := PAUSE, p_cont := Some 0\<rparr>"

definition running_ex :: proc where
  "running_ex = runnable_ex\<lparr>p_state := RUNNING\<rparr>"

lemma resume_runs_twice:
  "\<exists>m0 m. excl m0 \<and> p_state (ptable (ms_k m0) ! 0) = PAUSE \<and> (\<forall>c. \<not> runs m0 c 0) \<and> steps m0 m \<and> runs m 2 0 \<and> runs m 3 0"
proof -
  let ?w = "Scan 0 ''web'' 0" and ?ps = "[running_ex, running_ex]"
  let ?cs = "\<lambda>x y. [Run (- 1) [] 1, Run (- 1) [] 2, x, y]"
  let ?m0 = "sched_ex (paused_ex # ?ps) (?cs ?w ?w)"
  note ev = sched_skip_def sweep_cont_def cont_deref_def cont_get_def fetch_def in_range_def conts_ex_def runnable_ex_def
    running_ex_def paused_ex_def proc0_def
  let ?s = "KStore SResume ''web'' 0"
  let ?m1 = "?m0\<lparr>ms_act := (ms_act ?m0)(1 := ?s)\<rparr>" and ?m2 = "?m0\<lparr>ms_act := ((ms_act ?m0)(1 := ?s))(2 := ?s)\<rparr>"
  have m1: "steps ?m0 ?m1"
    by (rule resume_tests_ex [where c = 0 and p = paused_ex and ps = ?ps]) (simp_all add: sched_ex_def runs_def ev)
  have "steps ?m1 (?m1\<lparr>ms_act := (ms_act ?m1)(2 := ?s)\<rparr>)"
    by (rule resume_tests_ex [where c = 1 and p = paused_ex and ps = ?ps]) (simp_all add: sched_ex_def runs_def ev)
  then have m2: "steps ?m0 ?m2" using m1 by simp
  obtain m3 where m3: "mstep (LStore SResume 0) ?m2 m3" "ms_cpus m3 = ?cs ?w ?w" "ms_act m3 2 = ?s"
      "containers (ms_k m3) = containers conts_ex" "ptable (ms_k m3) = paused_ex\<lparr>p_state := RUNNABLE\<rparr> # ?ps"
    using resume_stores_ex [of ?m2 0 1 "''web''" paused_ex ?ps] by (auto simp: sched_ex_def runs_def)
  obtain m4 where m4: "mstep LPick m3 m4" "ms_cpus m4 = ?cs (Run 0 ''web'' 0) ?w" "ms_act m4 2 = ?s"
      "containers (ms_k m4) = containers conts_ex" "ptable (ms_k m4) = paused_ex\<lparr>p_state := RUNNING\<rparr> # ?ps"
    using pick_ex [of 2 m3 0 "''web''" "paused_ex\<lparr>p_state := RUNNABLE\<rparr>" ?ps] m3(2-5) by (auto simp: ev)
  obtain m5 where m5: "mstep (LStore SResume 0) m4 m5" "ms_cpus m5 = ?cs (Run 0 ''web'' 0) ?w"
      "containers (ms_k m5) = containers conts_ex" "ptable (ms_k m5) = paused_ex\<lparr>p_state := RUNNABLE\<rparr> # ?ps"
    using resume_stores_ex [of m4 1 2 "''web''" "paused_ex\<lparr>p_state := RUNNING\<rparr>" ?ps] m4(2-5) by (auto simp: runs_def)
  obtain m6 where m6: "mstep LPick m5 m6" "ms_cpus m6 = ?cs (Run 0 ''web'' 0) (Run 0 ''web'' 0)"
    using pick_ex [of 3 m5 0 "''web''" "paused_ex\<lparr>p_state := RUNNABLE\<rparr>" ?ps] m5(2-4) by (auto simp: ev)
  have "steps ?m0 m6"
    by (rule steps_one [OF steps_one [OF steps_one [OF steps_one [OF m2 m3(1)] m4(1)] m5(1)] m6(1)])
  moreover have "excl ?m0"
    by (auto simp: excl_def runs_def sched_ex_def nth_Cons' running_ex_def split: if_splits)
  moreover have "\<not> runs ?m0 c 0" for c by (auto simp: runs_def sched_ex_def nth_Cons' split: if_splits)
  moreover have "p_state (ptable (ms_k ?m0) ! 0) = PAUSE" by (simp add: sched_ex_def paused_ex_def)
  ultimately show ?thesis using m6(2) by (intro exI [of _ ?m0] exI [of _ m6]) (auto simp: runs_def)
qed

section \<open>Progress of a round\<close>

text \<open>Process \<open>k\<close> waits for a processor, outside the containers; every process that can be chosen has a
  kernel stack and a page directory.\<close>

definition waiting :: "nat \<Rightarrow> 'z kproc_scheme \<Rightarrow> bool" where
  "waiting k s \<longleftrightarrow> k < length (ptable s) \<and> p_state (ptable s ! k) = RUNNABLE \<and> p_cont (ptable s ! k) = None"

definition runnable_ok :: "'z kproc_scheme \<Rightarrow> bool" where
  "runnable_ok s \<longleftrightarrow> (\<forall>p \<in> set (ptable s). p_state p = RUNNABLE \<longrightarrow> p_kstack p \<noteq> 0 \<and> p_pgdir p \<noteq> 0)"

text \<open>A process that is switched to gives the processor back at some time, and leaves the others
  waiting.\<close>

definition gives_back :: "(nat \<Rightarrow> 'z kmem_scheme \<Rightarrow> 'z kmem_scheme res) \<Rightarrow> bool" where
  "gives_back run \<longleftrightarrow> (\<forall>i s. i < length (ptable s) \<longrightarrow> runnable_ok s \<longrightarrow>
     (\<exists>t. run i s = Inr t \<and> runnable_ok t \<and> length (ptable t) = length (ptable s)
        \<and> (\<forall>k. k \<noteq> i \<longrightarrow> waiting k s \<longrightarrow> waiting k t)))"

lemma sched_switch_ok:
  assumes "runnable_ok s" and "i < length (ptable s)" and "p_state (ptable s ! i) = RUNNABLE"
  shows "\<exists>t. sched_switch i s = Inr t \<and> runnable_ok t \<and> length (ptable t) = length (ptable s)
    \<and> (\<forall>k. k \<noteq> i \<longrightarrow> waiting k s \<longrightarrow> waiting k t)"
proof -
  have "p_kstack (ptable s ! i) \<noteq> 0" "p_pgdir (ptable s ! i) \<noteq> 0" using assms by (auto simp: runnable_ok_def)
  then obtain t where t: "sched_switch i s = Inr t"
    using assms(2) by (simp add: sched_switch_def switchuvm_def fetch_def)
  have p: "ptable t = (ptable s)[i := (ptable s ! i)\<lparr>p_state := RUNNING\<rparr>]" by (rule sched_switch_ptable [OF t])
  have "runnable_ok t"
    using assms(1) by (auto simp: runnable_ok_def p dest!: set_update_subset_insert [THEN subsetD])
  with t p show ?thesis by (auto simp: waiting_def)
qed

lemma sched_back_simps [simp]:
  "ptable (sched_back s) = ptable s" "runnable_ok (sched_back s) = runnable_ok s" "waiting k (sched_back s) = waiting k s"
  by (simp_all add: sched_back_def switchkvm_def runnable_ok_def waiting_def)

lemma sched_loop_serves:
  assumes g: "gives_back run"
  shows "runnable_ok s \<Longrightarrow> distinct js \<Longrightarrow> \<forall>i \<in> set js. i < length (ptable s) \<Longrightarrow>
    \<exists>ran t. sched_loop run (- 1) name js s = Inr (ran, t) \<and> set ran \<subseteq> set js \<and> distinct ran
      \<and> (\<forall>k \<in> set js. waiting k s \<longrightarrow> k \<in> set ran)"
proof (induction js arbitrary: s)
  case Nil
  then show ?case by simp
next
  case (Cons i js)
  show ?case
  proof (cases "waiting i s")
    case False
    then have "sched_skip (- 1) name (ptable s ! i) s = Inr True"
      using Cons.prems(3) by (auto simp: sched_skip_def waiting_def)
    then have st: "sched_loop run (- 1) name (i # js) s = sched_loop run (- 1) name js s" by simp
    have "distinct js" "\<forall>i \<in> set js. i < length (ptable s)" using Cons.prems(2,3) by simp_all
    from Cons.IH [OF Cons.prems(1) this] obtain ran t
      where "sched_loop run (- 1) name js s = Inr (ran, t)" "set ran \<subseteq> set js" "distinct ran"
        "\<forall>k \<in> set js. waiting k s \<longrightarrow> k \<in> set ran" by blast
    with False show ?thesis unfolding st by (intro exI [of _ ran] exI [of _ t]) auto
  next
    case True
    then have sk: "sched_skip (- 1) name (ptable s ! i) s = Inr False" by (simp add: sched_skip_def waiting_def)
    obtain s1 where s1: "sched_switch i s = Inr s1" "runnable_ok s1" "length (ptable s1) = length (ptable s)"
      "\<And>k. k \<noteq> i \<Longrightarrow> waiting k s \<Longrightarrow> waiting k s1"
      using sched_switch_ok [OF Cons.prems(1) True [unfolded waiting_def, THEN conjunct1]
        True [unfolded waiting_def, THEN conjunct2, THEN conjunct1]] by blast
    have "i < length (ptable s1)" using Cons.prems(3) s1(3) by simp
    with g s1(2) obtain s2 where s2: "run i s1 = Inr s2" "runnable_ok s2" "length (ptable s2) = length (ptable s1)"
      "\<And>k. k \<noteq> i \<Longrightarrow> waiting k s1 \<Longrightarrow> waiting k s2"
      unfolding gives_back_def by blast
    have "runnable_ok (sched_back s2)" "distinct js" "\<forall>j \<in> set js. j < length (ptable (sched_back s2))"
      using s2(2,3) s1(3) Cons.prems(2,3) by simp_all
    from Cons.IH [OF this] obtain ran t where r: "sched_loop run (- 1) name js (sched_back s2) = Inr (ran, t)"
      "set ran \<subseteq> set js" "distinct ran" "\<forall>k \<in> set js. waiting k (sched_back s2) \<longrightarrow> k \<in> set ran" by blast
    have "\<forall>k \<in> set js. waiting k s \<longrightarrow> k \<in> set ran" using r(4) s1(4) s2(4) Cons.prems(2)
      by (metis distinct.simps(2) sched_back_simps(3))
    moreover have "sched_loop run (- 1) name (i # js) s = Inr (i # ran, t)" using sk s1(1) s2(1) r(1) by simp
    ultimately show ?thesis using r(2,3) Cons.prems(2) by (intro exI [of _ "i # ran"] exI [of _ t]) auto
  qed
qed

definition park_ex :: "nat \<Rightarrow> kmem \<Rightarrow> kmem res" where
  "park_ex i s = Inr (proc_upd i (\<lambda>p. p\<lparr>p_state := SLEEPING\<rparr>) s)"

lemma park_ex_gives_back: "gives_back park_ex"
  unfolding gives_back_def
proof (intro allI impI)
  fix i and s :: kmem
  assume "i < length (ptable s)" and "runnable_ok s"
  then have "runnable_ok (proc_upd i (\<lambda>p. p\<lparr>p_state := SLEEPING\<rparr>) s)"
    by (auto simp: runnable_ok_def proc_upd_def dest!: set_update_subset_insert [THEN subsetD])
  then show "\<exists>t. park_ex i s = Inr t \<and> runnable_ok t \<and> length (ptable t) = length (ptable s)
      \<and> (\<forall>k. k \<noteq> i \<longrightarrow> waiting k s \<longrightarrow> waiting k t)"
    by (simp add: park_ex_def waiting_def proc_upd_def)
qed

text \<open>C34: no process outside the containers starves while no container is in use. If every process
  that is given the processor gives it back, one round of the scheduler ends and has run every
  process that was waiting, each process at most once.\<close>

theorem scheduler_round_serves:
  assumes "get_used s = 0" and "runnable_ok s" and "gives_back run"
  shows "\<exists>ran name' t. scheduler_round run name s = Inr (ran, name', t) \<and> distinct ran
    \<and> (\<forall>k. waiting k s \<longrightarrow> k \<in> set ran)"
proof -
  have b: "sched_begin name s = Inr (- 1, name, s)" using assms(1) by (simp add: sched_begin_def get_cticks_def)
  obtain ran t where r: "sched_loop run (- 1) name [0 ..< length (ptable s)] s = Inr (ran, t)" "distinct ran"
    "\<forall>k \<in> set [0 ..< length (ptable s)]. waiting k s \<longrightarrow> k \<in> set ran"
    using sched_loop_serves [OF assms(3,2), of "[0 ..< length (ptable s)]" name] by auto
  then show ?thesis by (auto simp: scheduler_round_def b waiting_def)
qed

theorem scheduler_round_serves_witness:
  "\<exists>ran name' t. scheduler_round park_ex []
     ((kmem_ex None)\<lparr>ptable := [proc0, runnable_ex, runnable_ex], containers := []\<rparr>) = Inr (ran, name', t)
     \<and> 1 \<in> set ran \<and> 2 \<in> set ran"
proof -
  let ?s = "(kmem_ex None)\<lparr>ptable := [proc0, runnable_ex, runnable_ex], containers := []\<rparr>"
  have "get_used ?s = 0" by (simp add: get_used_def)
  moreover have "runnable_ok ?s" by (simp add: runnable_ok_def runnable_ex_def proc0_def)
  moreover have "waiting 1 ?s" "waiting 2 ?s" by (simp_all add: waiting_def runnable_ex_def proc0_def)
  ultimately show ?thesis using scheduler_round_serves [of ?s park_ex "[]", OF _ _ park_ex_gives_back] by blast
qed

end
