(* ===== verification/Exec.thy ===== *)
theory Exec
  imports Life
begin

text \<open>
  Loading a program (\<^verbatim>\<open>exec.c\<close>, and \<open>loaduvm\<close> of \<^verbatim>\<open>vm.c\<close>). The ELF headers are read from the
  bytes of the file at the offsets of \<^verbatim>\<open>struct elfhdr\<close> and \<^verbatim>\<open>struct proghdr\<close>. Every \<^verbatim>\<open>goto bad\<close> is a
  call of \<open>exec_bad\<close>, which frees the new address space and releases the inode.
\<close>

definition MAXARG :: nat where "MAXARG = 32"
definition ELF_MAGIC :: u32 where "ELF_MAGIC = 0x464C457F"
definition ELF_PROG_LOAD :: u32 where "ELF_PROG_LOAD = 1"

record elfhdr =
  elf_magic :: u32
  elf_entry :: u32
  elf_phoff :: u32
  elf_phnum :: u16

record proghdr =
  ph_type :: u32
  ph_off :: u32
  ph_vaddr :: u32
  ph_filesz :: u32
  ph_memsz :: u32

definition elfhdr_of :: "u8 list \<Rightarrow> elfhdr" where
  "elfhdr_of d = \<lparr>elf_magic = word_at d 0, elf_entry = word_at d 24, elf_phoff = word_at d 28,
     elf_phnum = half_at d 44\<rparr>"

definition proghdr_of :: "u8 list \<Rightarrow> proghdr" where
  "proghdr_of d = \<lparr>ph_type = word_at d 0, ph_off = word_at d 4, ph_vaddr = word_at d 8,
     ph_filesz = word_at d 16, ph_memsz = word_at d 20\<rparr>"

text \<open>The loop of \<^verbatim>\<open>loaduvm\<close>. A negative result is -1. The size is below \<open>KERNBASE\<close>.\<close>

function loaduvm_loop :: "u32 \<Rightarrow> u32 \<Rightarrow> nat \<Rightarrow> u32 \<Rightarrow> nat \<Rightarrow> nat \<Rightarrow> 'z kfile_scheme
    \<Rightarrow> (int \<times> 'z kfile_scheme) res" where
  "loaduvm_loop pgdir addr ip off sz i s =
     (if i < sz
      then bnd (walkpgdir pgdir (addr + of_nat i) False s) (\<lambda>(pte, s).
             if pte = 0 then Inl (Panic ''loaduvm: address should exist'')
             else
               let pa = PTE_ADDR (mget s pte); n = min (sz - i) PGSIZE
               in bnd (readi ip (off + of_nat i) (of_nat n) s) (\<lambda>(r, s).
                    case r of
                      None \<Rightarrow> Inr (-1, s)
                    | Some d \<Rightarrow>
                        let s = s\<lparr>pmem := store_bytes (pmem s) (unat (P2V pa)) d\<rparr>
                        in if length d \<noteq> n then Inr (-1, s)
                           else loaduvm_loop pgdir addr ip off sz (i + PGSIZE) s))
      else Inr (0, s))"
  by pat_completeness auto
termination by (relation "measure (\<lambda>(_, _, _, _, sz, i, _). sz - i)") (simp_all add: PGSIZE_def)

declare loaduvm_loop.simps [simp del]

definition loaduvm :: "u32 \<Rightarrow> u32 \<Rightarrow> nat \<Rightarrow> u32 \<Rightarrow> u32 \<Rightarrow> 'z kfile_scheme \<Rightarrow> (int \<times> 'z kfile_scheme) res" where
  "loaduvm pgdir addr ip off sz s =
     (if addr mod of_nat PGSIZE \<noteq> 0 then Inl (Panic ''loaduvm: addr must be page aligned'')
      else loaduvm_loop pgdir addr ip off (unat sz) 0 s)"

section \<open>Loading the image\<close>

definition exec_bad :: "u32 \<Rightarrow> nat option \<Rightarrow> 'z kfile_scheme \<Rightarrow> (int \<times> 'z kfile_scheme) res" where
  "exec_bad pgdir ip s =
     bnd (if pgdir \<noteq> 0 then freevm pgdir s else Inr s) (\<lambda>s.
     bnd (case ip of None \<Rightarrow> Inr s | Some i \<Rightarrow> bnd (iunlockput i s) end_op) (\<lambda>s.
     Inr (-1, s)))"

text \<open>The loop over the program headers: the size reached, or \<open>None\<close> for \<^verbatim>\<open>goto bad\<close>.\<close>

fun exec_load :: "nat \<Rightarrow> u32 \<Rightarrow> nat \<Rightarrow> u32 \<Rightarrow> u32 \<Rightarrow> 'z kfile_scheme \<Rightarrow> (u32 option \<times> 'z kfile_scheme) res" where
  "exec_load 0 pgdir ip off sz s = Inr (Some sz, s)"
| "exec_load (Suc k) pgdir ip off sz s =
     bnd (readi ip off 32 s) (\<lambda>(r, s).
       case r of
         None \<Rightarrow> Inr (None, s)
       | Some d \<Rightarrow>
           let ph = proghdr_of d
           in if length d \<noteq> 32 then Inr (None, s)
              else if ph_type ph \<noteq> ELF_PROG_LOAD then exec_load k pgdir ip (off + 32) sz s
              else if ph_memsz ph < ph_filesz ph then Inr (None, s)
              else if ph_vaddr ph + ph_memsz ph < ph_vaddr ph then Inr (None, s)
              else bnd (allocuvm pgdir sz (ph_vaddr ph + ph_memsz ph) s) (\<lambda>(sz, s).
                if sz = 0 then Inr (None, s)
                else if ph_vaddr ph mod of_nat PGSIZE \<noteq> 0 then Inr (None, s)
                else bnd (loaduvm pgdir (ph_vaddr ph) ip (ph_off ph) (ph_filesz ph) s) (\<lambda>(r, s).
                  if r < 0 then Inr (None, s)
                  else exec_load k pgdir ip (off + 32) sz s)))"

section \<open>The user stack\<close>

text \<open>The loop that pushes the argument strings, \<open>argc\<close> of them so far: the stack pointer and the
  addresses of the strings, or \<open>None\<close> for \<^verbatim>\<open>goto bad\<close>.\<close>

fun exec_push :: "u32 \<Rightarrow> nat \<Rightarrow> string list \<Rightarrow> u32 \<Rightarrow> u32 list \<Rightarrow> 'z kfile_scheme
    \<Rightarrow> ((u32 \<times> u32 list) option \<times> 'z kfile_scheme) res" where
  "exec_push pgdir argc [] sp us s = Inr (Some (sp, us), s)"
| "exec_push pgdir argc (a # as) sp us s =
     (if argc \<ge> MAXARG then Inr (None, s)
      else
        let sp = (sp - (of_nat (strlen a) + 1)) AND NOT 3
        in bnd (copyout pgdir sp (str_bytes (cstr a @ [NUL])) s) (\<lambda>(r, s).
             if r < 0 then Inr (None, s)
             else exec_push pgdir (argc + 1) as sp (us @ [sp]) s))"

definition ustack_bytes :: "u32 \<Rightarrow> u32 list \<Rightarrow> u8 list" where
  "ustack_bytes sp us =
     concat (map bytes32 ([0xFFFFFFFF, of_nat (length us), sp - (of_nat (length us) + 1) * 4] @ us @ [0]))"

text \<open>The part of the path behind the last slash.\<close>

definition last_elem :: "string \<Rightarrow> string" where
  "last_elem path = rev (takeWhile (\<lambda>c. c \<noteq> SLASH) (rev (cstr path)))"

definition exec_commit :: "string \<Rightarrow> u32 \<Rightarrow> u32 \<Rightarrow> u32 \<Rightarrow> u32 \<Rightarrow> 'z kfile_scheme \<Rightarrow> (int \<times> 'z kfile_scheme) res" where
  "exec_commit path pgdir sz entry sp s =
     bnd (my_proc s) (\<lambda>me.
     bnd (my_upd (\<lambda>p. p\<lparr>p_name := safestrcpy (last_elem path) 16, p_pgdir := pgdir, p_sz := sz,
            p_tf := (p_tf p)\<lparr>tf_eip := entry, tf_esp := sp\<rparr>\<rparr>) s) (\<lambda>s.
     bnd (switchuvm (myproc s) s) (\<lambda>s.
     bnd (freevm (p_pgdir me) s) (\<lambda>s. Inr (0, s)))))"

definition exec_stack :: "string \<Rightarrow> string list \<Rightarrow> u32 \<Rightarrow> u32 \<Rightarrow> u32 \<Rightarrow> 'z kfile_scheme
    \<Rightarrow> (int \<times> 'z kfile_scheme) res" where
  "exec_stack path argv pgdir entry sz s =
     (let sz = PGROUNDUP sz
      in bnd (allocuvm pgdir sz (sz + 2 * of_nat PGSIZE) s) (\<lambda>(sz, s).
           if sz = 0 then exec_bad pgdir None s
           else
             bnd (clearpteu pgdir (sz - 2 * of_nat PGSIZE) s) (\<lambda>s.
             bnd (exec_push pgdir 0 argv sz [] s) (\<lambda>(r, s).
               case r of
                 None \<Rightarrow> exec_bad pgdir None s
               | Some (sp, us) \<Rightarrow>
                   let sp' = sp - (4 + of_nat (length us)) * 4
                   in bnd (copyout pgdir sp' (ustack_bytes sp us) s) (\<lambda>(r, s).
                        if r < 0 then exec_bad pgdir None s
                        else exec_commit path pgdir sz entry sp' s)))))"

definition exec :: "string \<Rightarrow> string list \<Rightarrow> 'z kfile_scheme \<Rightarrow> (int \<times> 'z kfile_scheme) res" where
  "exec path argv s =
     bnd (begin_op s) (\<lambda>s.
     bnd (namei path s) (\<lambda>(ip, s).
       case ip of
         None \<Rightarrow> bnd (end_op s) (\<lambda>s. Inr (-1, s))
       | Some i \<Rightarrow>
           bnd (ilock i s) (\<lambda>s.
           bnd (readi i 0 52 s) (\<lambda>(r, s).
             case r of
               None \<Rightarrow> exec_bad 0 (Some i) s
             | Some d \<Rightarrow>
                 let elf = elfhdr_of d
                 in if length d \<noteq> 52 \<or> elf_magic elf \<noteq> ELF_MAGIC then exec_bad 0 (Some i) s
                    else bnd (setupkvm s) (\<lambda>(pgdir, s).
                      if pgdir = 0 then exec_bad 0 (Some i) s
                      else bnd (exec_load (unat (elf_phnum elf)) pgdir i (elf_phoff elf) 0 s) (\<lambda>(sz, s).
                        case sz of
                          None \<Rightarrow> exec_bad pgdir (Some i) s
                        | Some sz \<Rightarrow>
                            bnd (iunlockput i s) (\<lambda>s.
                            bnd (end_op s) (\<lambda>s.
                              exec_stack path argv pgdir (elf_entry elf) sz s))))))))"

end
