(* ===== verification/Syscall.thy ===== *)
theory Syscall
  imports Vm
begin

text \<open>
  System call arguments (\<^verbatim>\<open>syscall.c\<close>). The kernel runs on the page table of the current process
  and reads user addresses directly; \<open>utrans\<close> is the translation the processor does, and an
  address that is not mapped is a fault. \<open>None\<close> stands for the result -1 of a fetch. A string
  is returned with its address.
\<close>

section \<open>User memory\<close>

definition utrans :: "u32 \<Rightarrow> u32 \<Rightarrow> 'z kmem_scheme \<Rightarrow> u32 option" where
  "utrans pgdir va s =
     (let pde = mget s (pgdir + 4 * PDX va);
          pte = mget s (P2V (PTE_ADDR pde) + 4 * PTX va)
      in if pde AND PTE_P = 0 \<or> pte AND PTE_P = 0 then None
         else Some (P2V (PTE_ADDR pte) + (va AND 0xFFF)))"

definition uread :: "u32 \<Rightarrow> 'z kmem_scheme \<Rightarrow> u8 res" where
  "uread va s =
     bnd (my_proc s) (\<lambda>me.
       case utrans (p_pgdir me) va s of
         None \<Rightarrow> Inl (Fault ''page'') | Some a \<Rightarrow> Inr (pmem s (unat a)))"

definition uwrite :: "u32 \<Rightarrow> u8 \<Rightarrow> 'z kmem_scheme \<Rightarrow> 'z kmem_scheme res" where
  "uwrite va v s =
     bnd (my_proc s) (\<lambda>me.
       case utrans (p_pgdir me) va s of
         None \<Rightarrow> Inl (Fault ''page'') | Some a \<Rightarrow> Inr (s\<lparr>pmem := (pmem s)(unat a := v)\<rparr>))"

definition uload :: "u32 \<Rightarrow> nat \<Rightarrow> 'z kmem_scheme \<Rightarrow> u8 list res" where
  "uload va n s = mapR (\<lambda>k. uread (va + of_nat k) s) [0 ..< n]"

fun ustore :: "u32 \<Rightarrow> u8 list \<Rightarrow> 'z kmem_scheme \<Rightarrow> 'z kmem_scheme res" where
  "ustore va [] s = Inr s"
| "ustore va (v # vs) s = bnd (uwrite va v s) (ustore (va + 1) vs)"

section \<open>Fetching arguments\<close>

definition fetchint :: "u32 \<Rightarrow> 'z kmem_scheme \<Rightarrow> u32 option res" where
  "fetchint addr s =
     bnd (my_proc s) (\<lambda>me.
       if addr \<ge> p_sz me \<or> addr + 4 > p_sz me then Inr None
       else bnd (uload addr 4 s) (\<lambda>d. Inr (Some (word_at d 0))))"

text \<open>The loop of \<^verbatim>\<open>fetchstr\<close> up to \<open>ep\<close>, the end of the process.\<close>

function fetchstr_loop :: "nat \<Rightarrow> nat \<Rightarrow> 'z kmem_scheme \<Rightarrow> string option res" where
  "fetchstr_loop a ep s =
     (if a < ep
      then bnd (uread (of_nat a) s) (\<lambda>c.
             if c = 0 then Inr (Some [])
             else bnd (fetchstr_loop (a + 1) ep s) (\<lambda>r. Inr (map_option (\<lambda>cs. char_of (unat c) # cs) r)))
      else Inr None)"
  by pat_completeness auto
termination by (relation "measure (\<lambda>(a, ep, _). ep - a)") simp_all

declare fetchstr_loop.simps [simp del]

definition fetchstr :: "u32 \<Rightarrow> 'z kmem_scheme \<Rightarrow> (u32 \<times> string) option res" where
  "fetchstr addr s =
     bnd (my_proc s) (\<lambda>me.
       if addr \<ge> p_sz me then Inr None
       else bnd (fetchstr_loop (unat addr) (unat (p_sz me)) s) (\<lambda>r. Inr (map_option (Pair addr) r)))"

definition argint :: "nat \<Rightarrow> 'z kmem_scheme \<Rightarrow> u32 option res" where
  "argint n s = bnd (my_proc s) (\<lambda>me. fetchint (tf_esp (p_tf me) + 4 + 4 * of_nat n) s)"

definition argptr :: "nat \<Rightarrow> int \<Rightarrow> 'z kmem_scheme \<Rightarrow> u32 option res" where
  "argptr n sz s =
     bnd (my_proc s) (\<lambda>me.
     bnd (argint n s) (\<lambda>i.
       case i of
         None \<Rightarrow> Inr None
       | Some i \<Rightarrow>
           if sz < 0 \<or> i \<ge> p_sz me \<or> i + word_of_int sz > p_sz me then Inr None else Inr (Some i)))"

definition argstr :: "nat \<Rightarrow> 'z kmem_scheme \<Rightarrow> (u32 \<times> string) option res" where
  "argstr n s = bnd (argint n s) (\<lambda>addr. case addr of None \<Rightarrow> Inr None | Some a \<Rightarrow> fetchstr a s)"

text \<open>For the calls that go on when a fetch fails, with a local variable that was never set.\<close>

definition arg_or_fault :: "'a option res \<Rightarrow> 'a res" where
  "arg_or_fault r = bnd r (\<lambda>v. case v of None \<Rightarrow> Inl (Fault ''uninitialised'') | Some x \<Rightarrow> Inr x)"


section \<open>Arguments stay inside the process\<close>

lemma argptr_inside:
  assumes "my_proc s = Inr me" and "p_sz me \<le> KERNBASE" and "argptr n sz s = Inr (Some p)" and "sz \<le> 0x7FFFFFFF"
  shows "0 \<le> sz \<and> unat p < unat (p_sz me) \<and> unat p + nat sz \<le> unat (p_sz me)"
proof -
  have p: "0 \<le> sz" "p < p_sz me" "p + word_of_int sz \<le> p_sz me"
    using assms(1,3) by (auto simp: argptr_def not_le not_less split: option.splits if_splits elim!: bnd_InrE)
  have lt: "unat p < unat (p_sz me)" using p(2) by (simp add: word_less_nat_alt)
  have kb: "unat (p_sz me) \<le> 0x80000000" using assms(2) by (simp add: KERNBASE_def word_le_nat_alt)
  have w: "unat (word_of_int sz :: u32) = nat sz"
    using p(1) assms(4) by (simp add: unat_eq_nat_uint uint_word_of_int)
  then have "unat (p + word_of_int sz) = unat p + nat sz"
    using lt kb p(1) assms(4) by (subst unat_add_lem [THEN iffD1]) (simp_all add: nat_le_iff)
  then show ?thesis using p lt by (simp add: word_le_nat_alt)
qed

end
