(* ===== verification/Sysfile.thy ===== *)
theory Sysfile
  imports Exec Syscall
begin

text \<open>
  The system calls on files (\<^verbatim>\<open>sysfile.c\<close>). Each call fetches its arguments from the user stack,
  calls into the lower layers, and moves data between user memory and the files.
\<close>

section \<open>File descriptors\<close>

definition O_RDONLY :: u32 where "O_RDONLY = 0x000"
definition O_WRONLY :: u32 where "O_WRONLY = 0x001"
definition O_RDWR :: u32 where "O_RDWR = 0x002"
definition O_CREATE :: u32 where "O_CREATE = 0x200"

definition argfd :: "nat \<Rightarrow> 'z kfile_scheme \<Rightarrow> (nat \<times> nat) option res" where
  "argfd n s =
     bnd (argint n s) (\<lambda>fd.
       case fd of
         None \<Rightarrow> Inr None
       | Some fd \<Rightarrow>
           if sint fd < 0 \<or> sint fd \<ge> int NOFILE then Inr None
           else bnd (my_proc s) (\<lambda>me.
             case p_ofile me ! unat fd of None \<Rightarrow> Inr None | Some f \<Rightarrow> Inr (Some (unat fd, f))))"

definition fd_free :: "nat option \<Rightarrow> bool" where
  "fd_free f \<longleftrightarrow> f = None"

text \<open>The scan of \<^verbatim>\<open>fdalloc\<close> on the descriptors of the process.\<close>

definition ofile_alloc :: "nat \<Rightarrow> nat option list \<Rightarrow> (nat \<times> nat option list) option" where
  "ofile_alloc f tab = (case first_idx fd_free tab of None \<Rightarrow> None | Some fd \<Rightarrow> Some (fd, tab[fd := Some f]))"

definition fdalloc :: "nat \<Rightarrow> 'z kfile_scheme \<Rightarrow> (int \<times> 'z kfile_scheme) res" where
  "fdalloc f s =
     bnd (my_proc s) (\<lambda>me.
       case ofile_alloc f (p_ofile me) of
         None \<Rightarrow> Inr (-1, s)
       | Some (fd, tab) \<Rightarrow> bnd (my_upd (\<lambda>p. p\<lparr>p_ofile := tab\<rparr>) s) (\<lambda>s. Inr (int fd, s)))"

definition sys_dup :: "'z kfile_scheme \<Rightarrow> (int \<times> 'z kfile_scheme) res" where
  "sys_dup s =
     bnd (argfd 0 s) (\<lambda>a.
       case a of
         None \<Rightarrow> Inr (-1, s)
       | Some (_, f) \<Rightarrow>
           bnd (fdalloc f s) (\<lambda>(fd, s).
             if fd < 0 then Inr (-1, s) else bnd (filedup f s) (\<lambda>s. Inr (fd, s))))"

section \<open>Reading and writing\<close>

text \<open>The arguments common to \<^verbatim>\<open>sys_read\<close> and \<^verbatim>\<open>sys_write\<close>: file, address and count.\<close>

definition rw_args :: "'z kfile_scheme \<Rightarrow> (nat \<times> u32 \<times> int) option res" where
  "rw_args s =
     bnd (argfd 0 s) (\<lambda>a.
       case a of None \<Rightarrow> Inr None
       | Some (_, f) \<Rightarrow> bnd (argint 2 s) (\<lambda>n.
           case n of None \<Rightarrow> Inr None
           | Some n \<Rightarrow> bnd (argptr 1 (sint n) s) (\<lambda>p.
               case p of None \<Rightarrow> Inr None | Some p \<Rightarrow> Inr (Some (f, p, sint n)))))"

definition sys_read :: "'z kfile_scheme \<Rightarrow> (int \<times> 'z kfile_scheme) res" where
  "sys_read s =
     bnd (rw_args s) (\<lambda>a.
       case a of
         None \<Rightarrow> Inr (-1, s)
       | Some (f, p, n) \<Rightarrow>
           bnd (fileread f n s) (\<lambda>(r, s).
             case r of
               None \<Rightarrow> Inr (-1, s)
             | Some d \<Rightarrow> bnd (ustore p d s) (\<lambda>s. Inr (int (length d), s))))"

definition sys_write :: "'z kfile_scheme \<Rightarrow> (int \<times> 'z kfile_scheme) res" where
  "sys_write s =
     bnd (rw_args s) (\<lambda>a.
       case a of
         None \<Rightarrow> Inr (-1, s)
       | Some (f, p, n) \<Rightarrow> bnd (uload p (nat n) s) (\<lambda>d. filewrite f d s))"

definition sys_close :: "'z kfile_scheme \<Rightarrow> (int \<times> 'z kfile_scheme) res" where
  "sys_close s =
     bnd (argfd 0 s) (\<lambda>a.
       case a of
         None \<Rightarrow> Inr (-1, s)
       | Some (fd, f) \<Rightarrow>
           bnd (my_upd (\<lambda>p. p\<lparr>p_ofile := (p_ofile p)[fd := None]\<rparr>) s) (\<lambda>s.
           bnd (fileclose f s) (\<lambda>s. Inr (0, s))))"

text \<open>\<^verbatim>\<open>struct stat\<close> with the padding the compiler inserts; padding bytes keep their value.\<close>

definition store_stat :: "u32 \<Rightarrow> stat \<Rightarrow> 'z kfile_scheme \<Rightarrow> 'z kfile_scheme res" where
  "store_stat p st s =
     bnd (ustore p (bytes16 (st_type st)) s) (\<lambda>s.
     bnd (ustore (p + 4) (bytes32 (st_dev st)) s) (\<lambda>s.
     bnd (ustore (p + 8) (bytes32 (st_ino st)) s) (\<lambda>s.
     bnd (ustore (p + 12) (bytes16 (st_nlink st)) s) (\<lambda>s.
     ustore (p + 16) (bytes32 (st_size st)) s))))"

definition sys_fstat :: "'z kfile_scheme \<Rightarrow> (int \<times> 'z kfile_scheme) res" where
  "sys_fstat s =
     bnd (argfd 0 s) (\<lambda>a.
       case a of
         None \<Rightarrow> Inr (-1, s)
       | Some (_, f) \<Rightarrow>
           bnd (argptr 1 20 s) (\<lambda>p.
             case p of
               None \<Rightarrow> Inr (-1, s)
             | Some p \<Rightarrow> bnd (filestat f s) (\<lambda>(st, s).
                 case st of None \<Rightarrow> Inr (-1, s) | Some st \<Rightarrow> bnd (store_stat p st s) (\<lambda>s. Inr (0, s)))))"

section \<open>Links\<close>

definition link_bad :: "nat \<Rightarrow> 'z kfile_scheme \<Rightarrow> (int \<times> 'z kfile_scheme) res" where
  "link_bad ip s =
     bnd (ilock ip s) (\<lambda>s.
     bnd (iupdate ip (inode_upd ip (\<lambda>i. i\<lparr>i_nlink := i_nlink i - 1\<rparr>) s)) (\<lambda>s.
     bnd (iunlockput ip s) (\<lambda>s.
     bnd (end_op s) (\<lambda>s. Inr (-1, s)))))"

definition link_at :: "nat \<Rightarrow> string \<Rightarrow> 'z kfile_scheme \<Rightarrow> (int \<times> 'z kfile_scheme) res" where
  "link_at ip new s =
     bnd (nameiparent new s) (\<lambda>((dp, name), s).
       case dp of
         None \<Rightarrow> link_bad ip s
       | Some dp \<Rightarrow>
           bnd (ilock dp s) (\<lambda>s.
           bnd (if i_dev (icache s ! dp) \<noteq> i_dev (icache s ! ip) then Inr (-1, s)
                else dirlink dp name (i_inum (icache s ! ip)) s) (\<lambda>(r, s).
           bnd (iunlockput dp s) (\<lambda>s.
             if r < 0 then link_bad ip s
             else bnd (iput ip s) (\<lambda>s. bnd (end_op s) (\<lambda>s. Inr (0, s)))))))"

definition sys_link :: "'z kfile_scheme \<Rightarrow> (int \<times> 'z kfile_scheme) res" where
  "sys_link s =
     bnd (argstr 0 s) (\<lambda>old.
       case old of
         None \<Rightarrow> Inr (-1, s)
       | Some (_, old) \<Rightarrow>
           bnd (argstr 1 s) (\<lambda>new.
             case new of
               None \<Rightarrow> Inr (-1, s)
             | Some (_, new) \<Rightarrow>
                 bnd (begin_op s) (\<lambda>s.
                 bnd (namei old s) (\<lambda>(ip, s).
                   case ip of
                     None \<Rightarrow> bnd (end_op s) (\<lambda>s. Inr (-1, s))
                   | Some ip \<Rightarrow>
                       bnd (ilock ip s) (\<lambda>s.
                         if i_type (icache s ! ip) = T_DIR
                         then bnd (iunlockput ip s) (\<lambda>s. bnd (end_op s) (\<lambda>s. Inr (-1, s)))
                         else
                           bnd (iupdate ip (inode_upd ip (\<lambda>i. i\<lparr>i_nlink := i_nlink i + 1\<rparr>) s)) (\<lambda>s.
                           bnd (iunlock ip s) (\<lambda>s.
                           link_at ip new s)))))))"

function isdirempty_loop :: "nat \<Rightarrow> nat \<Rightarrow> nat \<Rightarrow> 'z kfile_scheme \<Rightarrow> (bool \<times> 'z kfile_scheme) res" where
  "isdirempty_loop dp n off s =
     (if off < n
      then bnd (readi dp (of_nat off) 16 s) (\<lambda>(r, s).
             case r of
               None \<Rightarrow> Inl (Panic ''isdirempty: readi'')
             | Some de \<Rightarrow>
                 if length de \<noteq> 16 then Inl (Panic ''isdirempty: readi'')
                 else if de_inum de \<noteq> 0 then Inr (False, s)
                 else isdirempty_loop dp n (off + 16) s)
      else Inr (True, s))"
  by pat_completeness auto
termination by (relation "measure (\<lambda>(_, n, off, _). n - off)") simp_all

declare isdirempty_loop.simps [simp del]

definition isdirempty :: "nat \<Rightarrow> 'z kfile_scheme \<Rightarrow> (bool \<times> 'z kfile_scheme) res" where
  "isdirempty dp s = isdirempty_loop dp (unat (i_size (icache s ! dp))) 32 s"

definition unlink_bad :: "nat \<Rightarrow> 'z kfile_scheme \<Rightarrow> (int \<times> 'z kfile_scheme) res" where
  "unlink_bad dp s = bnd (iunlockput dp s) (\<lambda>s. bnd (end_op s) (\<lambda>s. Inr (-1, s)))"

text \<open>The end of \<^verbatim>\<open>sys_unlink\<close>, from the write of the empty entry on: the size of the file is given
  back to the container.\<close>

definition unlink_entry :: "nat \<Rightarrow> nat \<Rightarrow> nat \<Rightarrow> 'z kfile_scheme \<Rightarrow> (int \<times> 'z kfile_scheme) res" where
  "unlink_entry dp ip off s =
     bnd (writei dp (replicate 16 0) (of_nat off) s) (\<lambda>(z, s).
       if z \<noteq> 16 then Inl (Panic ''unlink: writei'')
       else
         bnd (my_proc s) (\<lambda>me.
         bnd (cont_deref (p_cont me) s) (\<lambda>c.
           let sz = sint (- i_size (icache s ! ip))
           in bnd (set_curr_disk sz (find_c (c_name c) s) (set_os sz s)) (\<lambda>s.
              bnd (if i_type (icache s ! ip) = T_DIR
                   then iupdate dp (inode_upd dp (\<lambda>i. i\<lparr>i_nlink := i_nlink i - 1\<rparr>) s)
                   else Inr s) (\<lambda>s.
              bnd (iunlockput dp s) (\<lambda>s.
              bnd (iupdate ip (inode_upd ip (\<lambda>i. i\<lparr>i_nlink := i_nlink i - 1\<rparr>) s)) (\<lambda>s.
              bnd (iunlockput ip s) (\<lambda>s.
              bnd (end_op s) (\<lambda>s. Inr (0, s))))))))))"

definition sys_unlink :: "'z kfile_scheme \<Rightarrow> (int \<times> 'z kfile_scheme) res" where
  "sys_unlink s =
     bnd (argstr 0 s) (\<lambda>path.
       case path of
         None \<Rightarrow> Inr (-1, s)
       | Some (_, path) \<Rightarrow>
           bnd (begin_op s) (\<lambda>s.
           bnd (nameiparent path s) (\<lambda>((dp, name), s).
             case dp of
               None \<Rightarrow> bnd (end_op s) (\<lambda>s. Inr (-1, s))
             | Some dp \<Rightarrow>
                 bnd (ilock dp s) (\<lambda>s.
                   if namecmp name ''.'' = 0 \<or> namecmp name ''..'' = 0 then unlink_bad dp s
                   else bnd (dirlookup dp name s) (\<lambda>(r, s).
                     case r of
                       None \<Rightarrow> unlink_bad dp s
                     | Some (ip, off) \<Rightarrow>
                         bnd (ilock ip s) (\<lambda>s.
                           if sint (i_nlink (icache s ! ip)) < 1 then Inl (Panic ''unlink: nlink < 1'')
                           else bnd (if i_type (icache s ! ip) = T_DIR then isdirempty ip s else Inr (True, s))
                             (\<lambda>(empty, s).
                               if \<not> empty then bnd (iunlockput ip s) (\<lambda>s. unlink_bad dp s)
                               else unlink_entry dp ip off s)))))))"

section \<open>Creating and opening\<close>

text \<open>The new inode of \<^verbatim>\<open>create\<close>, in the locked directory \<open>dp\<close>.\<close>

definition create_new :: "nat \<Rightarrow> string \<Rightarrow> u16 \<Rightarrow> u16 \<Rightarrow> u16 \<Rightarrow> 'z kfile_scheme
    \<Rightarrow> (nat option \<times> 'z kfile_scheme) res" where
  "create_new dp name type major minor s =
     bnd (ialloc (i_dev (icache s ! dp)) type s) (\<lambda>(ip, s).
     bnd (ilock ip s) (\<lambda>s.
     bnd (iupdate ip (inode_upd ip (\<lambda>i. i\<lparr>i_major := major, i_minor := minor, i_nlink := 1\<rparr>) s)) (\<lambda>s.
     bnd (if type = T_DIR
          then bnd (iupdate dp (inode_upd dp (\<lambda>i. i\<lparr>i_nlink := i_nlink i + 1\<rparr>) s)) (\<lambda>s.
               bnd (dirlink ip ''.'' (i_inum (icache s ! ip)) s) (\<lambda>(r, s).
                 if r < 0 then Inl (Panic ''create dots'')
                 else bnd (dirlink ip ''..'' (i_inum (icache s ! dp)) s) (\<lambda>(r, s).
                   if r < 0 then Inl (Panic ''create dots'') else Inr s)))
          else Inr s) (\<lambda>s.
     bnd (dirlink dp name (i_inum (icache s ! ip)) s) (\<lambda>(r, s).
       if r < 0 then Inl (Panic ''create: dirlink'')
       else bnd (iunlockput dp s) (\<lambda>s. Inr (Some ip, s)))))))"

definition create :: "string \<Rightarrow> u16 \<Rightarrow> u16 \<Rightarrow> u16 \<Rightarrow> 'z kfile_scheme \<Rightarrow> (nat option \<times> 'z kfile_scheme) res" where
  "create path type major minor s =
     bnd (nameiparent path s) (\<lambda>((dp, name), s).
       case dp of
         None \<Rightarrow> Inr (None, s)
       | Some dp \<Rightarrow>
           bnd (ilock dp s) (\<lambda>s.
           bnd (dirlookup dp name s) (\<lambda>(r, s).
             case r of
               Some (ip, _) \<Rightarrow>
                 bnd (iunlockput dp s) (\<lambda>s.
                 bnd (ilock ip s) (\<lambda>s.
                   if type = T_FILE \<and> i_type (icache s ! ip) = T_FILE then Inr (Some ip, s)
                   else bnd (iunlockput ip s) (\<lambda>s. Inr (None, s))))
             | None \<Rightarrow> create_new dp name type major minor s)))"

text \<open>The inode that \<^verbatim>\<open>sys_open\<close> opens, locked, or \<open>None\<close>.\<close>

definition open_inode :: "string \<Rightarrow> u32 \<Rightarrow> 'z kfile_scheme \<Rightarrow> (nat option \<times> 'z kfile_scheme) res" where
  "open_inode path omode s =
     (if omode AND O_CREATE \<noteq> 0 then create path T_FILE 0 0 s
      else bnd (namei path s) (\<lambda>(ip, s).
        case ip of
          None \<Rightarrow> Inr (None, s)
        | Some ip \<Rightarrow>
            bnd (ilock ip s) (\<lambda>s.
              if i_type (icache s ! ip) = T_DIR \<and> omode \<noteq> O_RDONLY
              then bnd (iunlockput ip s) (\<lambda>s. Inr (None, s))
              else Inr (Some ip, s))))"

definition open_file :: "string \<Rightarrow> u32 \<Rightarrow> nat \<Rightarrow> 'z kfile_scheme \<Rightarrow> (int \<times> 'z kfile_scheme) res" where
  "open_file path omode ip s =
     (case filealloc s of
        (None, s) \<Rightarrow> bnd (iunlockput ip s) (\<lambda>s. bnd (end_op s) (\<lambda>s. Inr (-1, s)))
      | (Some f, s) \<Rightarrow>
          bnd (fdalloc f s) (\<lambda>(fd, s).
            if fd < 0
            then bnd (fileclose f s) (\<lambda>s. bnd (iunlockput ip s) (\<lambda>s. bnd (end_op s) (\<lambda>s. Inr (-1, s))))
            else
              bnd (iunlock ip s) (\<lambda>s.
              bnd (end_op s) (\<lambda>s.
                Inr (fd, file_upd f (\<lambda>fl. fl\<lparr>f_type := FD_INODE, f_ip := ip, f_off := 0,
                  f_readable := (omode AND O_WRONLY = 0),
                  f_writable := (omode AND O_WRONLY \<noteq> 0 \<or> omode AND O_RDWR \<noteq> 0),
                  f_path := path\<rparr>) s)))))"

definition sys_open :: "'z kfile_scheme \<Rightarrow> (int \<times> 'z kfile_scheme) res" where
  "sys_open s =
     bnd (argstr 0 s) (\<lambda>path.
       case path of
         None \<Rightarrow> Inr (-1, s)
       | Some (_, path) \<Rightarrow>
           bnd (argint 1 s) (\<lambda>omode.
             case omode of
               None \<Rightarrow> Inr (-1, s)
             | Some omode \<Rightarrow>
                 bnd (begin_op s) (\<lambda>s.
                 bnd (open_inode path omode s) (\<lambda>(ip, s).
                   case ip of
                     None \<Rightarrow> bnd (end_op s) (\<lambda>s. Inr (-1, s))
                   | Some ip \<Rightarrow> open_file path omode ip s))))"

text \<open>The common end of \<^verbatim>\<open>sys_mkdir\<close> and \<^verbatim>\<open>sys_mknod\<close>.\<close>

definition create_done :: "nat option \<Rightarrow> 'z kfile_scheme \<Rightarrow> (int \<times> 'z kfile_scheme) res" where
  "create_done ip s =
     (case ip of
        None \<Rightarrow> bnd (end_op s) (\<lambda>s. Inr (-1, s))
      | Some ip \<Rightarrow> bnd (iunlockput ip s) (\<lambda>s. bnd (end_op s) (\<lambda>s. Inr (0, s))))"

definition sys_mkdir :: "'z kfile_scheme \<Rightarrow> (int \<times> 'z kfile_scheme) res" where
  "sys_mkdir s =
     bnd (begin_op s) (\<lambda>s.
     bnd (argstr 0 s) (\<lambda>path.
       case path of
         None \<Rightarrow> create_done None s
       | Some (_, path) \<Rightarrow> bnd (create path T_DIR 0 0 s) (\<lambda>(ip, s). create_done ip s)))"

definition sys_mknod :: "'z kfile_scheme \<Rightarrow> (int \<times> 'z kfile_scheme) res" where
  "sys_mknod s =
     bnd (begin_op s) (\<lambda>s.
     bnd (argstr 0 s) (\<lambda>path.
     bnd (if path = None then Inr None else argint 1 s) (\<lambda>major.
     bnd (if major = None then Inr None else argint 2 s) (\<lambda>minor.
       case (path, major, minor) of
         (Some (_, path), Some major, Some minor) \<Rightarrow>
           bnd (create path T_DEV (ucast major) (ucast minor) s) (\<lambda>(ip, s). create_done ip s)
       | _ \<Rightarrow> create_done None s))))"

definition sys_chdir :: "'z kfile_scheme \<Rightarrow> (int \<times> 'z kfile_scheme) res" where
  "sys_chdir s =
     bnd (begin_op s) (\<lambda>s.
     bnd (argstr 0 s) (\<lambda>path.
     bnd (case path of None \<Rightarrow> Inr (None, s) | Some (_, path) \<Rightarrow> namei path s) (\<lambda>(ip, s).
       case ip of
         None \<Rightarrow> bnd (end_op s) (\<lambda>s. Inr (-1, s))
       | Some ip \<Rightarrow>
           bnd (ilock ip s) (\<lambda>s.
             if i_type (icache s ! ip) \<noteq> T_DIR
             then bnd (iunlockput ip s) (\<lambda>s. bnd (end_op s) (\<lambda>s. Inr (-1, s)))
             else
               bnd (iunlock ip s) (\<lambda>s.
               bnd (my_proc s) (\<lambda>me.
               bnd (case p_cwd me of None \<Rightarrow> Inl (Fault ''cwd'') | Some i \<Rightarrow> iput i s) (\<lambda>s.
               bnd (end_op s) (\<lambda>s.
               bnd (my_upd (\<lambda>p. p\<lparr>p_cwd := Some ip\<rparr>) s) (\<lambda>s. Inr (0, s))))))))))"

section \<open>Programs and pipes\<close>

text \<open>The loop of \<^verbatim>\<open>sys_exec\<close> over \<^verbatim>\<open>argv\<close>, from entry \<open>i\<close> on, with \<open>k\<close> entries left in the array.\<close>

fun fetch_argv :: "nat \<Rightarrow> u32 \<Rightarrow> nat \<Rightarrow> 'z kfile_scheme \<Rightarrow> string list option res" where
  "fetch_argv 0 uargv i s = Inr None"
| "fetch_argv (Suc k) uargv i s =
     bnd (fetchint (uargv + 4 * of_nat i) s) (\<lambda>uarg.
       case uarg of
         None \<Rightarrow> Inr None
       | Some uarg \<Rightarrow>
           if uarg = 0 then Inr (Some [])
           else bnd (fetchstr uarg s) (\<lambda>a.
             case a of
               None \<Rightarrow> Inr None
             | Some (_, a) \<Rightarrow> bnd (fetch_argv k uargv (i + 1) s) (\<lambda>as. Inr (map_option (Cons a) as))))"

definition sys_exec :: "'z kfile_scheme \<Rightarrow> (int \<times> 'z kfile_scheme) res" where
  "sys_exec s =
     bnd (argstr 0 s) (\<lambda>path.
       case path of
         None \<Rightarrow> Inr (-1, s)
       | Some (_, path) \<Rightarrow>
           bnd (argint 1 s) (\<lambda>uargv.
             case uargv of
               None \<Rightarrow> Inr (-1, s)
             | Some uargv \<Rightarrow>
                 bnd (fetch_argv MAXARG uargv 0 s) (\<lambda>argv.
                   case argv of None \<Rightarrow> Inr (-1, s) | Some argv \<Rightarrow> exec path argv s)))"

definition sys_pipe :: "'z kfile_scheme \<Rightarrow> (int \<times> 'z kfile_scheme) res" where
  "sys_pipe s =
     bnd (argptr 0 8 s) (\<lambda>fd.
       case fd of
         None \<Rightarrow> Inr (-1, s)
       | Some fd \<Rightarrow>
           bnd (pipealloc s) (\<lambda>(fs, s).
             case fs of
               None \<Rightarrow> Inr (-1, s)
             | Some (rf, wr) \<Rightarrow>
                 bnd (fdalloc rf s) (\<lambda>(fd0, s).
                 bnd (if fd0 < 0 then Inr (-1, s) else fdalloc wr s) (\<lambda>(fd1, s).
                   if fd0 < 0 \<or> fd1 < 0
                   then
                     bnd (if fd0 \<ge> 0 then my_upd (\<lambda>p. p\<lparr>p_ofile := (p_ofile p)[nat fd0 := None]\<rparr>) s else Inr s) (\<lambda>s.
                     bnd (fileclose rf s) (\<lambda>s.
                     bnd (fileclose wr s) (\<lambda>s. Inr (-1, s))))
                   else
                     bnd (ustore fd (bytes32 (word_of_int fd0)) s) (\<lambda>s.
                     bnd (ustore (fd + 4) (bytes32 (word_of_int fd1)) s) (\<lambda>s. Inr (0, s)))))))"


section \<open>What a read gives fits the buffer\<close>

lemma readi_loop_length: "readi_loop i off n s = Inr (d, t) \<Longrightarrow> length d \<le> n"
proof (induction n arbitrary: off s d t rule: less_induct)
  case (less n)
  show ?case
  proof (cases "n > 0")
    case True
    let ?m = "min n (BSIZE - off mod BSIZE)"
    have "0 < ?m" using True by (simp add: BSIZE_def)
    obtain u ds d0 where rest: "readi_loop i (off + ?m) (n - ?m) u = Inr (ds, t)" and d: "d = take ?m d0 @ ds"
      using less.prems True by (subst (asm) readi_loop.simps) (auto simp: Let_def elim!: bnd_InrE)
    have "length ds \<le> n - ?m" by (rule less.IH [OF _ rest]) (use True \<open>0 < ?m\<close> in linarith)
    then show ?thesis by (simp add: d)
  next
    case False
    with less.prems show ?thesis by (subst (asm) readi_loop.simps) simp
  qed
qed

lemma consoleread_loop_length: "consoleread_loop i n got s = Inr (Some d, t) \<Longrightarrow> length d \<le> length got + n"
proof (induction n arbitrary: got s)
  case (Suc n)
  then show ?case by (auto simp: Let_def split: if_splits elim!: bnd_InrE) force
qed simp

lemma nat_sint:
  assumes "0 \<le> sint (n :: u32)"
  shows "nat (sint n) = unat n"
proof -
  have "uint n = take_bit 32 (sint n)" "sint n < 2 ^ 31" using uint_sint [of n] sint_lt [of n] by simp_all
  with assms have "uint n = sint n" by (simp add: take_bit_int_eq_self)
  then show ?thesis by (simp add: unat_eq_nat_uint)
qed

lemma readi_length:
  fixes s :: "'a kcons_scheme"
  assumes "readi i off n s = Inr (Some d, t)" and "0 \<le> sint n"
  shows "length d \<le> unat n"
proof (cases "i_type (icache s ! i) = T_DEV")
  case True
  then obtain u v :: "'a kcons_scheme" where "consoleread_loop i (nat (sint n)) [] u = Inr (Some d, v)"
    using assms(1) by (auto simp: readi_def Let_def consoleread_def split: if_splits elim!: bnd_InrE)
  from consoleread_loop_length [OF this] show ?thesis using assms(2) by (simp add: nat_sint)
next
  case False
  let ?sz = "i_size (icache s ! i)"
  let ?n = "if off + n > ?sz then ?sz - off else n"
  have ok: "off \<le> ?sz" "off \<le> off + n" and loop: "readi_loop i (unat off) (unat ?n) s = Inr (d, t)"
    using assms(1) False by (auto simp: readi_def Let_def not_less split: if_splits elim!: bnd_InrE)
  have "?n \<le> n"
  proof (cases "off + n > ?sz")
    case True
    then have "unat ?sz < unat off + unat n" using ok(2)
      by (metis no_olen_add_nat unat_add_lem word_less_nat_alt)
    then show ?thesis using True ok(1) by (simp add: word_le_nat_alt unat_sub)
  qed simp
  then show ?thesis using readi_loop_length [OF loop] by (simp add: word_le_nat_alt)
qed

lemma piperead_copy_length: "length (fst (piperead_copy n p)) \<le> n"
  by (induction n p rule: piperead_copy.induct) (auto simp: pipe_pop_def Let_def split: prod.splits)

lemma fileread_length:
  fixes s :: "'a kfile_scheme"
  assumes "fileread f n s = Inr (Some d, t)" and "0 \<le> n" and "n \<le> 0x7FFFFFFF"
  shows "length d \<le> nat n"
proof (cases "f_type (ftable s ! f)")
  case FD_PIPE
  then show ?thesis
    using assms(1) piperead_copy_length [of "nat n"]
    by (auto simp: fileread_def piperead_def Let_def case_prod_beta split: if_splits elim!: bnd_InrE)
next
  case FD_INODE
  then obtain u v :: "'a kfile_scheme" where r: "readi (f_ip (ftable s ! f)) (f_off (ftable s ! f)) (word_of_int n) u = Inr (Some d, v)"
    using assms(1) by (auto simp: fileread_def Let_def split: if_splits elim!: bnd_InrE)
  have "sint (word_of_int n :: u32) = n" "unat (word_of_int n :: u32) = nat n"
    using assms(2,3) by (simp_all add: sint_sbintrunc' signed_take_bit_int_eq_self unat_eq_nat_uint uint_word_of_int)
  with readi_length [OF r] assms(2) show ?thesis by simp
qed (use assms(1) in \<open>simp add: fileread_def Let_def split: if_splits\<close>)

text \<open>C29: What \<^verbatim>\<open>read\<close> stores in the memory of the process stays inside the buffer that the call names and inside
  the process: the checks of the arguments do not wrap around, and the file, pipe or console that is
  read gives at most as many bytes as were asked for. The process is no larger than \<^verbatim>\<open>KERNBASE\<close>, as \<^verbatim>\<open>allocuvm\<close> keeps it.\<close>

theorem sys_read_in_bounds:
  assumes "my_proc s = Inr me" and "p_sz me \<le> KERNBASE" and "rw_args s = Inr (Some (f, p, n))"
    and "fileread f n s = Inr (Some d, t)"
  shows "length d \<le> nat n \<and> unat p + length d \<le> unat (p_sz me) \<and> unat (p_sz me) \<le> unat KERNBASE"
proof -
  obtain k where n: "n = sint (k :: u32)" and ptr: "argptr 1 n s = Inr (Some p)"
    using assms(3) by (auto simp: rw_args_def split: option.splits elim!: bnd_InrE)
  have "n \<le> 0x7FFFFFFF" unfolding n using sint_lt [of k] by simp
  then have p: "0 \<le> n" "unat p + nat n \<le> unat (p_sz me)" using argptr_inside [OF assms(1,2) ptr] by simp_all
  then have "length d \<le> nat n" using fileread_length [OF assms(4)] \<open>n \<le> _\<close> by simp
  then show ?thesis using p(2) assms(2) by (simp add: word_le_nat_alt)
qed

text \<open>A process whose memory is one page, seen at every address, in which every word is 1.\<close>

definition user_ex :: kfile where
  "user_ex = (kfile_ex [file0\<lparr>f_type := FD_PIPE, f_ref := 1, f_readable := True, f_pipe := 4096\<rparr>]
       [4096 \<mapsto> pipe_push 7 pipe_ex])
     \<lparr>ptable := [proc0\<lparr>p_state := RUNNING, p_sz := 4096, p_ofile := None # Some 0 # replicate 14 None\<rparr>],
      pmem := (\<lambda>a. if a mod 4 = 0 then 1 else 0)\<rparr>"

lemma user_ex_simps [simp]:
  "cur user_ex = Some 0" "ptable user_ex = [proc0\<lparr>p_state := RUNNING, p_sz := 4096, p_ofile := None # Some 0 # replicate 14 None\<rparr>]"
  "pmem user_ex = (\<lambda>a. if a mod 4 = 0 then 1 else 0)"
  "ftable user_ex = [file0\<lparr>f_type := FD_PIPE, f_ref := 1, f_readable := True, f_pipe := 4096\<rparr>]"
  "pipes user_ex = [4096 \<mapsto> pipe_push 7 pipe_ex]"
  by (simp_all add: user_ex_def)

lemma my_proc_user_ex: "my_proc user_ex = Inr (proc0\<lparr>p_state := RUNNING, p_sz := 4096, p_ofile := None # Some 0 # replicate 14 None\<rparr>)"
  by (simp add: my_proc_def myproc_def fetch_def in_range_def)

lemma mget_user_ex:
  assumes "unat a mod 4 = 0"
  shows "mget user_ex a = 1"
proof -
  have "(unat a + 1) mod 4 \<noteq> 0" "(unat a + 2) mod 4 \<noteq> 0" "(unat a + 3) mod 4 \<noteq> 0" using assms by presburger+
  then show ?thesis using assms by (simp add: mget_def get32_def join32_def)
qed

lemma uread_user_ex:
  assumes "PDX va = 0" and "PTX va = 0"
  shows "uread va user_ex = Inr (if unat (KERNBASE + (va AND 0xFFF)) mod 4 = 0 then 1 else 0)"
  using assms
  by (simp add: uread_def my_proc_user_ex utrans_def Let_def mget_user_ex PTE_ADDR_def PTE_P_def P2V_def KERNBASE_def proc0_def)

lemma args_user_ex: "argint 0 user_ex = Inr (Some 1)" "argint (Suc 0) user_ex = Inr (Some 1)" "argint 2 user_ex = Inr (Some 1)"
  by (simp_all add: argint_def fetchint_def my_proc_user_ex proc0_def uload_def uread_user_ex PDX_def PTX_def KERNBASE_def
      word_at_def byte_at_def join32_def upt_rec)

theorem sys_read_in_bounds_witness:
  "\<exists>t. rw_args user_ex = Inr (Some (0, 1, 1)) \<and> fileread 0 1 user_ex = Inr (Some [7], t) \<and> unat (1 :: u32) + 1 \<le> unat (4096 :: u32)"
proof -
  have r: "rw_args user_ex = Inr (Some (0, 1, 1))"
    by (simp add: rw_args_def argfd_def argptr_def args_user_ex my_proc_user_ex NOFILE_def word_le_nat_alt)
  obtain t where t: "fileread 0 1 user_ex = Inr (Some [7], t)"
    by (simp add: fileread_def piperead_def pipe_get_def pipe_pop_def pipe_push_def pipe_ex_def PIPESIZE_def)
  show ?thesis
    using sys_read_in_bounds [OF my_proc_user_ex _ r t] r t by (auto simp: KERNBASE_def)
qed

end
