(* ===== verification/Sysproc.thy ===== *)
theory Sysproc
  imports Sysfile
begin

text \<open>
  The system calls on processes and containers (\<^verbatim>\<open>sysproc.c\<close>), and the dispatch of
  \<^verbatim>\<open>syscall.c\<close>. A call returns an integer, or nothing where the C routine is \<^verbatim>\<open>void\<close> (the register
  then keeps some value, the parameter \<open>junk\<close> of \<open>syscall\<close>), or does not return.

  The container calls use an argument that could not be fetched without noticing; this is a
  \<open>Fault\<close> of the model, as is an index outside the table of containers.
\<close>

datatype sysret = Ret int | Void | Exited

section \<open>Processes\<close>

definition sys_fork :: "'z kfile_scheme \<Rightarrow> (sysret \<times> 'z kfile_scheme) res" where
  "sys_fork s =
     bnd (my_proc s) (\<lambda>me.
     bnd (cont_deref (p_cont me) s) (\<lambda>c.
       let x = find_c (c_name c) s
       in bnd (if x \<ge> 0
               then bnd (get_curr_proc x s) (\<lambda>before.
                    bnd (set_curr_proc 1 x s) (\<lambda>s.
                    bnd (get_curr_proc x s) (\<lambda>after. Inr (after = before, s))))
               else Inr (False, s)) (\<lambda>(full, s).
            if full then bnd (cstop_container_helper (p_cont me) s) (\<lambda>s. Inr (Ret (-1), s))
            else bnd (fork s) (\<lambda>(r, s). Inr (Ret r, s)))))"

definition sys_exit :: "'z kfile_scheme \<Rightarrow> (sysret \<times> 'z kfile_scheme) res" where
  "sys_exit s =
     bnd (my_proc s) (\<lambda>me.
     bnd (cont_deref (p_cont me) s) (\<lambda>c.
       let x = find_c (c_name c) s
       in bnd (if x \<ge> 0 then set_curr_proc (-1) x s else Inr s) (\<lambda>s.
          bnd (exit s) (\<lambda>s. Inr (Exited, s)))))"

definition sys_wait :: "'z kfile_scheme \<Rightarrow> (sysret \<times> 'z kfile_scheme) res" where
  "sys_wait s = bnd (wait s) (\<lambda>(r, s). Inr (Ret r, s))"

definition sys_kill :: "'z kfile_scheme \<Rightarrow> (sysret \<times> 'z kfile_scheme) res" where
  "sys_kill s =
     bnd (argint 0 s) (\<lambda>pid.
       case pid of
         None \<Rightarrow> Inr (Ret (-1), s)
       | Some pid \<Rightarrow> bnd (kill (sint pid) s) (\<lambda>(r, s). Inr (Ret r, s)))"

definition sys_getpid :: "'z kfile_scheme \<Rightarrow> (sysret \<times> 'z kfile_scheme) res" where
  "sys_getpid s = bnd (my_proc s) (\<lambda>me. Inr (Ret (p_pid me), s))"

definition sys_sbrk :: "'z kfile_scheme \<Rightarrow> (sysret \<times> 'z kfile_scheme) res" where
  "sys_sbrk s =
     bnd (argint 0 s) (\<lambda>n.
       case n of
         None \<Rightarrow> Inr (Ret (-1), s)
       | Some n \<Rightarrow>
           bnd (my_proc s) (\<lambda>me.
           bnd (growproc (sint n) s) (\<lambda>(r, s).
             Inr (Ret (if r < 0 then -1 else sint (p_sz me)), s))))"

text \<open>The test \<^verbatim>\<open>ticks - ticks0 < n\<close> is unsigned, and \<open>ticks0\<close> is the time of the call.\<close>

definition sys_sleep :: "'z kfile_scheme \<Rightarrow> (sysret \<times> 'z kfile_scheme) res" where
  "sys_sleep s =
     bnd (argint 0 s) (\<lambda>n.
       case n of
         None \<Rightarrow> Inr (Ret (-1), s)
       | Some n \<Rightarrow>
           if ticks s - ticks s < n
           then bnd (my_proc s) (\<lambda>me. if p_killed me then Inr (Ret (-1), s) else Inl (Blocked ''ticks''))
           else Inr (Ret 0, s))"

definition sys_uptime :: "'z kfile_scheme \<Rightarrow> (sysret \<times> 'z kfile_scheme) res" where
  "sys_uptime s = Inr (Ret (sint (ticks s)), s)"

definition sys_getticks :: "'z kfile_scheme \<Rightarrow> (sysret \<times> 'z kfile_scheme) res" where
  "sys_getticks s = bnd (my_proc s) (\<lambda>me. Inr (Ret (sint (p_ticks me)), s))"

section \<open>Arguments of the container calls\<close>

definition int_arg :: "nat \<Rightarrow> 'z kfile_scheme \<Rightarrow> int res" where
  "int_arg n s = bnd (arg_or_fault (argint n s)) (\<lambda>v. Inr (sint v))"

definition str_arg :: "nat \<Rightarrow> 'z kfile_scheme \<Rightarrow> string res" where
  "str_arg n s = bnd (arg_or_fault (argstr n s)) (\<lambda>(_, a). Inr a)"

definition ret_get :: "(int \<Rightarrow> 'z kfile_scheme \<Rightarrow> int res) \<Rightarrow> 'z kfile_scheme \<Rightarrow> (sysret \<times> 'z kfile_scheme) res" where
  "ret_get f s = bnd (int_arg 0 s) (\<lambda>vc_num. bnd (f vc_num s) (\<lambda>r. Inr (Ret r, s)))"

definition void_set :: "(int \<Rightarrow> int \<Rightarrow> 'z kfile_scheme \<Rightarrow> 'z kfile_scheme res) \<Rightarrow> 'z kfile_scheme
    \<Rightarrow> (sysret \<times> 'z kfile_scheme) res" where
  "void_set f s =
     bnd (int_arg 0 s) (\<lambda>v. bnd (int_arg 1 s) (\<lambda>vc_num. bnd (f v vc_num s) (\<lambda>s. Inr (Void, s))))"

definition void_name :: "(string \<Rightarrow> 'z kfile_scheme \<Rightarrow> 'z kfile_scheme res) \<Rightarrow> 'z kfile_scheme
    \<Rightarrow> (sysret \<times> 'z kfile_scheme) res" where
  "void_name f s = bnd (str_arg 0 s) (\<lambda>name. bnd (f name s) (\<lambda>s. Inr (Void, s)))"

section \<open>Containers\<close>

definition sys_cstop :: "'z kfile_scheme \<Rightarrow> (sysret \<times> 'z kfile_scheme) res" where
  "sys_cstop s =
     bnd (str_arg 0 s) (\<lambda>name.
     bnd (my_proc s) (\<lambda>me.
       if p_cont me \<noteq> None
       then bnd (cont_deref (p_cont me) s) (\<lambda>c.
              if strlen name = strlen (c_name c) \<and> strncmp name (c_name c) (strlen name) = 0
              then bnd (cstop_container_helper (p_cont me) s) (\<lambda>s. Inr (Void, s))
              else Inr (Void, s))
       else bnd (cstop_helper name s) (\<lambda>s. Inr (Void, s))))"

definition sys_set_root_inode :: "'z kfile_scheme \<Rightarrow> (sysret \<times> 'z kfile_scheme) res" where
  "sys_set_root_inode = void_name set_root_inode"

definition sys_container_init :: "'z kfile_scheme \<Rightarrow> (sysret \<times> 'z kfile_scheme) res" where
  "sys_container_init s = Inr (Void, container_init s)"

definition sys_is_full :: "'z kfile_scheme \<Rightarrow> (sysret \<times> 'z kfile_scheme) res" where
  "sys_is_full s = Inr (Ret (is_full s), s)"

definition sys_find :: "'z kfile_scheme \<Rightarrow> (sysret \<times> 'z kfile_scheme) res" where
  "sys_find s = bnd (str_arg 0 s) (\<lambda>name. Inr (Ret (find_c name s), s))"

text \<open>\<^verbatim>\<open>get_name\<close> writes the name and its terminator through the user's pointer.\<close>

definition sys_get_name :: "'z kfile_scheme \<Rightarrow> (sysret \<times> 'z kfile_scheme) res" where
  "sys_get_name s =
     bnd (int_arg 0 s) (\<lambda>vc_num.
     bnd (arg_or_fault (argstr 1 s)) (\<lambda>(p, _).
     bnd (g_name vc_num s) (\<lambda>name.
     bnd (ustore p (str_bytes (cstr name @ [NUL])) s) (\<lambda>s. Inr (Void, s)))))"

definition sys_get_max_proc :: "'z kfile_scheme \<Rightarrow> (sysret \<times> 'z kfile_scheme) res" where
  "sys_get_max_proc = ret_get get_max_proc"

definition sys_get_os :: "'z kfile_scheme \<Rightarrow> (sysret \<times> 'z kfile_scheme) res" where
  "sys_get_os s = Inr (Ret (get_os s), s)"

definition sys_get_max_mem :: "'z kfile_scheme \<Rightarrow> (sysret \<times> 'z kfile_scheme) res" where
  "sys_get_max_mem = ret_get get_max_mem"

definition sys_get_max_disk :: "'z kfile_scheme \<Rightarrow> (sysret \<times> 'z kfile_scheme) res" where
  "sys_get_max_disk = ret_get get_max_disk"

definition sys_get_curr_proc :: "'z kfile_scheme \<Rightarrow> (sysret \<times> 'z kfile_scheme) res" where
  "sys_get_curr_proc = ret_get get_curr_proc"

definition sys_get_curr_mem :: "'z kfile_scheme \<Rightarrow> (sysret \<times> 'z kfile_scheme) res" where
  "sys_get_curr_mem = ret_get get_curr_mem"

definition sys_get_curr_disk :: "'z kfile_scheme \<Rightarrow> (sysret \<times> 'z kfile_scheme) res" where
  "sys_get_curr_disk = ret_get get_curr_disk"

definition sys_set_name :: "'z kfile_scheme \<Rightarrow> (sysret \<times> 'z kfile_scheme) res" where
  "sys_set_name s =
     bnd (str_arg 0 s) (\<lambda>name. bnd (int_arg 1 s) (\<lambda>vc_num. bnd (set_name name vc_num s) (\<lambda>s. Inr (Void, s))))"

definition sys_cont_proc_set :: "'z kfile_scheme \<Rightarrow> (sysret \<times> 'z kfile_scheme) res" where
  "sys_cont_proc_set s =
     bnd (int_arg 0 s) (\<lambda>vc_num. bnd (my_upd (\<lambda>p. p\<lparr>p_cont := get_container vc_num\<rparr>) s) (\<lambda>s. Inr (Void, s)))"

definition sys_set_max_mem :: "'z kfile_scheme \<Rightarrow> (sysret \<times> 'z kfile_scheme) res" where
  "sys_set_max_mem = void_set set_max_mem"

definition sys_set_os :: "'z kfile_scheme \<Rightarrow> (sysret \<times> 'z kfile_scheme) res" where
  "sys_set_os s = bnd (int_arg 0 s) (\<lambda>os. Inr (Void, set_os os s))"

definition sys_set_max_disk :: "'z kfile_scheme \<Rightarrow> (sysret \<times> 'z kfile_scheme) res" where
  "sys_set_max_disk = void_set set_max_disk"

definition sys_set_max_proc :: "'z kfile_scheme \<Rightarrow> (sysret \<times> 'z kfile_scheme) res" where
  "sys_set_max_proc = void_set set_max_proc"

definition sys_set_curr_mem :: "'z kfile_scheme \<Rightarrow> (sysret \<times> 'z kfile_scheme) res" where
  "sys_set_curr_mem = void_set set_curr_mem"

definition sys_reduce_curr_mem :: "'z kfile_scheme \<Rightarrow> (sysret \<times> 'z kfile_scheme) res" where
  "sys_reduce_curr_mem = void_set set_curr_mem"

definition sys_set_curr_disk :: "'z kfile_scheme \<Rightarrow> (sysret \<times> 'z kfile_scheme) res" where
  "sys_set_curr_disk = void_set set_curr_disk"

definition sys_set_curr_proc :: "'z kfile_scheme \<Rightarrow> (sysret \<times> 'z kfile_scheme) res" where
  "sys_set_curr_proc = void_set set_curr_proc"

definition sys_container_reset :: "'z kfile_scheme \<Rightarrow> (sysret \<times> 'z kfile_scheme) res" where
  "sys_container_reset s =
     bnd (int_arg 1 s) (\<lambda>vc_num. bnd (container_reset vc_num s) (\<lambda>s. Inr (Void, s)))"

definition sys_max_containers :: "'z kfile_scheme \<Rightarrow> (sysret \<times> 'z kfile_scheme) res" where
  "sys_max_containers s = Inr (Ret max_containers, s)"

definition sys_pause :: "'z kfile_scheme \<Rightarrow> (sysret \<times> 'z kfile_scheme) res" where
  "sys_pause = void_name pause"

definition sys_resume :: "'z kfile_scheme \<Rightarrow> (sysret \<times> 'z kfile_scheme) res" where
  "sys_resume = void_name resume"

definition cont_or_all :: "int \<Rightarrow> (int \<Rightarrow> 'z kfile_scheme \<Rightarrow> int res) \<Rightarrow> 'z kfile_scheme
    \<Rightarrow> (sysret \<times> 'z kfile_scheme) res" where
  "cont_or_all v f s =
     bnd (my_proc s) (\<lambda>me.
       if p_cont me = None then Inr (Ret v, s)
       else bnd (cont_deref (p_cont me) s) (\<lambda>c. bnd (f (find_c (c_name c) s) s) (\<lambda>r. Inr (Ret r, s))))"

definition sys_tmem :: "'z kfile_scheme \<Rightarrow> (sysret \<times> 'z kfile_scheme) res" where
  "sys_tmem s = cont_or_all (mem_usage s) get_curr_mem s"

definition sys_amem :: "'z kfile_scheme \<Rightarrow> (sysret \<times> 'z kfile_scheme) res" where
  "sys_amem s = cont_or_all (mem_avail s) get_max_mem s"

definition sys_get_used :: "'z kfile_scheme \<Rightarrow> (sysret \<times> 'z kfile_scheme) res" where
  "sys_get_used s = Inr (Ret (get_used s), s)"

definition sys_get_cticks :: "'z kfile_scheme \<Rightarrow> (sysret \<times> 'z kfile_scheme) res" where
  "sys_get_cticks s = (let (r, s) = get_cticks s in Inr (Ret r, s))"

definition sys_tick_reset2 :: "'z kfile_scheme \<Rightarrow> (sysret \<times> 'z kfile_scheme) res" where
  "sys_tick_reset2 s = Inr (Void, tick_reset2 s)"

section \<open>Listings\<close>

text \<open>The calls that print: what they compute, and whether they fault while they do.\<close>

definition sys_ps :: "'z kfile_scheme \<Rightarrow> (sysret \<times> 'z kfile_scheme) res" where
  "sys_ps s =
     bnd (my_proc s) (\<lambda>me.
     bnd (if p_cont me = None then bnd (procdump s) (\<lambda>_. Inr ())
          else bnd (cont_deref (p_cont me) s) (\<lambda>c. bnd (c_procdump (c_name c) s) (\<lambda>_. Inr ()))) (\<lambda>_.
     Inr (Void, s)))"

definition sys_c_ps :: "'z kfile_scheme \<Rightarrow> (sysret \<times> 'z kfile_scheme) res" where
  "sys_c_ps = void_name (\<lambda>name s. bnd (c_proc_data name s) (\<lambda>_. Inr s))"

text \<open>The two numbers that \<^verbatim>\<open>sys_df\<close> prints.\<close>

definition df_numbers :: "'z kfile_scheme \<Rightarrow> ((int \<times> int) \<times> 'z kfile_scheme) res" where
  "df_numbers s =
     bnd (my_proc s) (\<lambda>me.
     bnd (readsb 1 s) (\<lambda>(sb, s).
       if p_cont me = None
       then bnd (mapR (\<lambda>i. get_curr_disk (int i) s) [0 ..< MAX_CONTAINERS]) (\<lambda>ds.
              Inr ((i32 (sum_list (map (\<lambda>d. d sdiv 1024) ds) + get_os s sdiv 1024), sint (sb_nblocks sb)), s))
       else bnd (cont_deref (p_cont me) s) (\<lambda>c.
              let x = find_c (c_name c) s
              in bnd (get_curr_disk x s) (\<lambda>d. bnd (get_max_disk x s) (\<lambda>m. Inr ((d sdiv 1024, m), s))))))"

definition sys_df :: "'z kfile_scheme \<Rightarrow> (sysret \<times> 'z kfile_scheme) res" where
  "sys_df s = bnd (df_numbers s) (\<lambda>(_, s). Inr (Void, s))"

end
