(* ===== verification/Trap.thy ===== *)
theory Trap
  imports Sysproc
begin

text \<open>
  The system call table of \<^verbatim>\<open>syscall.c\<close> and the handler of \<^verbatim>\<open>trap.c\<close>. A trap returns to the
  interrupted code, ends the process, or gives up the CPU: then the process is runnable and
  \<open>trap_resume\<close> is what runs when it is scheduled again. What the devices deliver is a
  parameter: the number of the CPU and the characters typed.
\<close>

section \<open>System calls\<close>

definition ret_int :: "('z kfile_scheme \<Rightarrow> (int \<times> 'z kfile_scheme) res) \<Rightarrow> 'z kfile_scheme
    \<Rightarrow> (sysret \<times> 'z kfile_scheme) res" where
  "ret_int f s = bnd (f s) (\<lambda>(r, s). Inr (Ret r, s))"

text \<open>\<^verbatim>\<open>syscalls\<close>, from entry 1 on.\<close>

definition syscalls :: "('z kfile_scheme \<Rightarrow> (sysret \<times> 'z kfile_scheme) res) list" where
  "syscalls =
     [sys_fork, sys_exit, sys_wait, ret_int sys_pipe, ret_int sys_read, sys_kill, ret_int sys_exec,
      ret_int sys_fstat, ret_int sys_chdir, ret_int sys_dup, sys_getpid, sys_sbrk, sys_sleep,
      sys_uptime, ret_int sys_open, ret_int sys_write, ret_int sys_mknod, ret_int sys_unlink,
      ret_int sys_link, ret_int sys_mkdir, ret_int sys_close, sys_getticks, sys_get_name,
      sys_get_max_proc, sys_get_max_mem, sys_get_max_disk, sys_get_curr_proc, sys_get_curr_mem,
      sys_get_curr_disk, sys_set_name, sys_set_max_mem, sys_set_max_disk, sys_set_max_proc,
      sys_set_curr_mem, sys_set_curr_disk, sys_set_curr_proc, sys_find, sys_is_full,
      sys_container_init, sys_cont_proc_set, sys_ps, sys_reduce_curr_mem, sys_set_root_inode,
      sys_cstop, sys_df, sys_max_containers, sys_container_reset, sys_pause, sys_resume, sys_tmem,
      sys_amem, sys_c_ps, sys_get_used, sys_get_os, sys_set_os, sys_get_cticks, sys_tick_reset2]"

definition set_eax :: "u32 \<Rightarrow> 'z kfile_scheme \<Rightarrow> 'z kfile_scheme res" where
  "set_eax v s = my_upd (\<lambda>p. p\<lparr>p_tf := (p_tf p)\<lparr>tf_eax := v\<rparr>\<rparr>) s"

text \<open>The result tells whether the process still runs.\<close>

definition syscall :: "u32 \<Rightarrow> 'z kfile_scheme \<Rightarrow> (bool \<times> 'z kfile_scheme) res" where
  "syscall junk s =
     bnd (my_proc s) (\<lambda>me.
       let num = sint (tf_eax (p_tf me))
       in if num > 0 \<and> num < int (length (syscalls :: ('z kfile_scheme \<Rightarrow> _) list)) + 1
          then bnd ((syscalls ! nat (num - 1)) s) (\<lambda>(r, s).
                 case r of
                   Ret v \<Rightarrow> bnd (set_eax (word_of_int v) s) (\<lambda>s. Inr (True, s))
                 | Void \<Rightarrow> bnd (set_eax junk s) (\<lambda>s. Inr (True, s))
                 | Exited \<Rightarrow> Inr (False, s))
          else bnd (set_eax (-1) s) (\<lambda>s. Inr (True, s)))"

section \<open>Traps\<close>

definition T_SYSCALL :: u32 where "T_SYSCALL = 64"
definition T_IRQ0 :: u32 where "T_IRQ0 = 32"
definition IRQ_TIMER :: u32 where "IRQ_TIMER = 0"
definition IRQ_KBD :: u32 where "IRQ_KBD = 1"
definition IRQ_COM1 :: u32 where "IRQ_COM1 = 4"
definition IRQ_IDE :: u32 where "IRQ_IDE = 14"
definition IRQ_SPURIOUS :: u32 where "IRQ_SPURIOUS = 31"

datatype trapres = Returned | Ended | Yielded

definition killed_now :: "'z kproc_scheme \<Rightarrow> bool res" where
  "killed_now s = (case myproc s of None \<Rightarrow> Inr False | Some i \<Rightarrow> bnd (my_proc s) (\<lambda>p. Inr (p_killed p)))"

text \<open>\<^verbatim>\<open>p->ticks++; p->cont->ticks++\<close>: with \<open>cont\<close> NULL the second increment hits address 64 of the user.\<close>

definition tick_proc :: "'z kproc_scheme \<Rightarrow> 'z kproc_scheme res" where
  "tick_proc s =
     (case myproc s of
        None \<Rightarrow> Inr s
      | Some _ \<Rightarrow>
          bnd (my_upd (\<lambda>p. p\<lparr>p_ticks := p_ticks p + 1\<rparr>) s) (\<lambda>s.
          bnd (my_proc s) (\<lambda>p.
            case p_cont p of
              None \<Rightarrow> Inr (s\<lparr>null_cont := (null_cont s)\<lparr>c_ticks := i32 (c_ticks (null_cont s) + 1)\<rparr>\<rparr>)
            | Some vc \<Rightarrow> cont_upd vc (\<lambda>c. c\<lparr>c_ticks := i32 (c_ticks c + 1)\<rparr>) s)))"

definition timer_tick :: "bool \<Rightarrow> 'z kproc_scheme \<Rightarrow> 'z kproc_scheme res" where
  "timer_tick cpu0 s = tick_proc (if cpu0 then wakeup (Some ChTicks) (s\<lparr>ticks := ticks s + 1\<rparr>) else s)"

text \<open>The last test of \<^verbatim>\<open>trap\<close>, which also runs when a process that yielded is resumed.\<close>

definition trap_resume :: "trapframe \<Rightarrow> 'z kfile_scheme \<Rightarrow> (trapres \<times> 'z kfile_scheme) res" where
  "trap_resume tf s =
     bnd (killed_now s) (\<lambda>k.
       if k \<and> tf_cs tf AND 3 = DPL_USER then bnd (exit s) (\<lambda>s. Inr (Ended, s)) else Inr (Returned, s))"

definition trap_syscall :: "u32 \<Rightarrow> trapframe \<Rightarrow> 'z kfile_scheme \<Rightarrow> (trapres \<times> 'z kfile_scheme) res" where
  "trap_syscall junk tf s =
     bnd (my_proc s) (\<lambda>me.
       if p_killed me then bnd (exit s) (\<lambda>s. Inr (Ended, s))
       else
         bnd (my_upd (\<lambda>p. p\<lparr>p_tf := tf\<rparr>) s) (\<lambda>s.
         bnd (syscall junk s) (\<lambda>(runs, s).
           if \<not> runs then Inr (Ended, s)
           else bnd (my_proc s) (\<lambda>me.
             if p_killed me then bnd (exit s) (\<lambda>s. Inr (Ended, s)) else Inr (Returned, s)))))"

text \<open>The kernel here is the one with the memory disk, whose \<^verbatim>\<open>ideintr\<close> is \<open>memide_intr\<close>; that of \<^verbatim>\<open>ide.c\<close> is
  in the theory \<open>Ide\<close>. The messages that \<^verbatim>\<open>trap\<close> prints about spurious interrupts and faults are left out.\<close>

definition trap_device :: "bool \<Rightarrow> int list \<Rightarrow> trapframe \<Rightarrow> 'z kfile_scheme \<Rightarrow> 'z kfile_scheme res" where
  "trap_device cpu0 keys tf s =
     (let n = tf_trapno tf
      in if n = T_IRQ0 + IRQ_TIMER then timer_tick cpu0 s
         else if n = T_IRQ0 + IRQ_IDE then Inr (memide_intr s)
         else if n = T_IRQ0 + IRQ_IDE + 1 then Inr s
         else if n = T_IRQ0 + IRQ_KBD \<or> n = T_IRQ0 + IRQ_COM1 then consoleintr keys s
         else if n = T_IRQ0 + 7 \<or> n = T_IRQ0 + IRQ_SPURIOUS then Inr s
         else if myproc s = None \<or> tf_cs tf AND 3 = 0 then Inl (Panic ''trap'')
         else my_upd (\<lambda>p. p\<lparr>p_killed := True\<rparr>) s)"

definition trap :: "bool \<Rightarrow> int list \<Rightarrow> u32 \<Rightarrow> trapframe \<Rightarrow> 'z kfile_scheme \<Rightarrow> (trapres \<times> 'z kfile_scheme) res" where
  "trap cpu0 keys junk tf s =
     (if tf_trapno tf = T_SYSCALL then trap_syscall junk tf s
      else
        bnd (trap_device cpu0 keys tf s) (\<lambda>s.
        bnd (killed_now s) (\<lambda>k.
          if k \<and> tf_cs tf AND 3 = DPL_USER then bnd (exit s) (\<lambda>s. Inr (Ended, s))
          else case myproc s of
            None \<Rightarrow> trap_resume tf s
          | Some i \<Rightarrow>
              if p_state (ptable s ! i) = RUNNING \<and> tf_trapno tf = T_IRQ0 + IRQ_TIMER
              then bnd (my_upd (\<lambda>p. p\<lparr>p_state := RUNNABLE\<rparr>) s) (\<lambda>s. Inr (Yielded, s))
              else trap_resume tf s)))"


section \<open>Errors of user programs\<close>

lemma my_proc_cur: "cur s = Some me \<Longrightarrow> me < length (ptable s) \<Longrightarrow> my_proc s = Inr (ptable s ! me)"
  by (simp add: my_proc_def myproc_def fetch_def in_range_def)

text \<open>C30: A system call with a number that the table does not have, from a process that has not been killed, gives -1 to the caller and changes nothing else
  of the kernel's state than the saved registers of the caller.\<close>

theorem unknown_syscall_fails:
  assumes "cur s = Some me" and "me < length (ptable s)" and "\<not> p_killed (ptable s ! me)"
    and "tf_trapno tf = T_SYSCALL" and "sint (tf_eax tf) \<le> 0 \<or> sint (tf_eax tf) > 57"
  shows "trap cpu0 keys junk tf s = Inr (Returned, proc_upd me (\<lambda>p. p\<lparr>p_tf := tf\<lparr>tf_eax := -1\<rparr>\<rparr>) s)"
proof -
  let ?s = "proc_upd me (\<lambda>p. p\<lparr>p_tf := tf\<rparr>) s"
  have s1: "cur ?s = Some me" "me < length (ptable ?s)" "p_tf (ptable ?s ! me) = tf" "\<not> p_killed (ptable ?s ! me)"
    using assms by (simp_all add: proc_upd_def)
  have bad: "\<not> (0 < sint (tf_eax tf) \<and> sint (tf_eax tf) < 58)" using assms(5) by linarith
  have "length (syscalls :: ('a kfile_scheme \<Rightarrow> _) list) = 57" by (simp add: syscalls_def)
  then have call: "syscall junk ?s = Inr (True, proc_upd me (\<lambda>p. p\<lparr>p_tf := (p_tf p)\<lparr>tf_eax := -1\<rparr>\<rparr>) ?s)"
    using bad assms(1) s1(3) unfolding syscall_def my_proc_cur [OF s1(1,2)]
    by (simp add: Let_def set_eax_def my_upd_def myproc_def) blast
  let ?t = "proc_upd me (\<lambda>p. p\<lparr>p_tf := (p_tf p)\<lparr>tf_eax := -1\<rparr>\<rparr>) ?s"
  have t: "?t = proc_upd me (\<lambda>p. p\<lparr>p_tf := tf\<lparr>tf_eax := -1\<rparr>\<rparr>) s" using assms(2) by (simp add: proc_upd_def)
  have "cur ?t = Some me" "me < length (ptable ?t)" "\<not> p_killed (ptable ?t ! me)"
    using assms(1-3) by (simp_all add: proc_upd_def)
  note t1 = my_proc_cur [OF this(1,2)] this(3)
  show ?thesis
    unfolding t [symmetric]
    using t1 call assms(1,3,4) my_proc_cur [OF assms(1,2)] by (simp add: trap_def trap_syscall_def my_upd_def myproc_def)
qed

text \<open>C31: A process that faults in user mode ends: whatever the exception is, the kernel marks the process as killed and
  calls \<open>exit\<close> for it, and control never goes back to its code. For the process \<^verbatim>\<open>init\<close> that call is the
  panic of \<open>exit\<close>. The same exceptions raised by the kernel itself are the panic of \<^verbatim>\<open>trap\<close>.\<close>

theorem user_fault_ends:
  assumes "cur s = Some me" and "me < length (ptable s)" and "tf_trapno tf < T_IRQ0"
  shows "(tf_cs tf AND 3 = DPL_USER \<longrightarrow> trap cpu0 keys junk tf s
      = (if initproc s = Some me then Inl (Panic ''init exiting'')
         else bnd (exit (proc_upd me (\<lambda>p. p\<lparr>p_killed := True\<rparr>) s)) (\<lambda>t. Inr (Ended, t))))
    \<and> (tf_cs tf AND 3 = 0 \<longrightarrow> trap cpu0 keys junk tf s = Inl (Panic ''trap''))"
proof -
  let ?s = "proc_upd me (\<lambda>p. p\<lparr>p_killed := True\<rparr>) s"
  have s1: "cur ?s = Some me" "me < length (ptable ?s)" "p_killed (ptable ?s ! me)" "initproc ?s = initproc s"
    using assms by (simp_all add: proc_upd_def)
  have "tf_trapno tf \<noteq> n" if "T_IRQ0 \<le> n" for n using assms(3) that by auto
  note ne = this [unfolded T_IRQ0_def]
  have no: "tf_trapno tf \<noteq> T_SYSCALL" "tf_trapno tf \<noteq> T_IRQ0 + IRQ_TIMER" "tf_trapno tf \<noteq> T_IRQ0 + IRQ_IDE"
    "tf_trapno tf \<noteq> T_IRQ0 + IRQ_IDE + 1" "tf_trapno tf \<noteq> T_IRQ0 + IRQ_KBD" "tf_trapno tf \<noteq> T_IRQ0 + IRQ_COM1"
    "tf_trapno tf \<noteq> T_IRQ0 + 7" "tf_trapno tf \<noteq> T_IRQ0 + IRQ_SPURIOUS"
    by (rule ne, simp add: T_SYSCALL_def T_IRQ0_def IRQ_TIMER_def IRQ_IDE_def IRQ_KBD_def IRQ_COM1_def IRQ_SPURIOUS_def
        word_le_nat_alt)+
  then have dev: "trap_device cpu0 keys tf s = (if tf_cs tf AND 3 = 0 then Inl (Panic ''trap'') else Inr ?s)"
    using assms(1) by (simp add: trap_device_def Let_def myproc_def my_upd_def)
  have "exit ?s = Inl (Panic ''init exiting'')" if "initproc s = Some me"
    using that s1(1,4) by (simp add: exit_def myproc_def)
  then show ?thesis
    using no s1 dev by (auto simp: trap_def killed_now_def myproc_def my_proc_cur DPL_USER_def)
qed

text \<open>A process that is not \<^verbatim>\<open>init\<close>, with a current directory that other processes use too.\<close>

definition fault_ex :: kfile where
  "fault_ex = (kfile_ex [] Map.empty)\<lparr>ptable := [procs_ex ! 0, (procs_ex ! 1)\<lparr>p_cwd := Some 0\<rparr>], cur := Some 1,
     icache := [inode0\<lparr>i_ref := 2\<rparr>]\<rparr>"

theorem unknown_syscall_fails_witness:
  "trap True [] 0 (tf_user\<lparr>tf_trapno := 64, tf_eax := 99\<rparr>) (kfile_ex [] Map.empty)
     = Inr (Returned, proc_upd 0 (\<lambda>p. p\<lparr>p_tf := tf_user\<lparr>tf_trapno := 64, tf_eax := -1\<rparr>\<rparr>) (kfile_ex [] Map.empty))"
  using unknown_syscall_fails [of "kfile_ex [] Map.empty" 0 "tf_user\<lparr>tf_trapno := 64, tf_eax := 99\<rparr>" True "[]" 0]
  by (simp add: procs_ex_def proc0_def T_SYSCALL_def)

theorem user_fault_ends_witness:
  "\<exists>t. trap True [] 0 (tf_user\<lparr>tf_trapno := 14\<rparr>) fault_ex = Inr (Ended, t) \<and> p_state (ptable t ! 1) = ZOMBIE"
proof -
  have "cur fault_ex = Some 1" "1 < length (ptable fault_ex)" by (simp_all add: fault_ex_def proc_upd_def procs_ex_def)
  moreover have "initproc fault_ex \<noteq> Some 1"
    by (simp add: fault_ex_def kfile_ex_def kcons_ex_def kfs_ex_def klog_ex_def kbio_ex_def kmem_ex_def kproc_ex_def conts.defs
        kproc.defs kmem.defs kbio.defs klog.defs kfs.defs kcons.defs kfile.defs)
  moreover have "tf_trapno (tf_user\<lparr>tf_trapno := 14\<rparr>) < T_IRQ0" "tf_cs (tf_user\<lparr>tf_trapno := 14\<rparr>) AND 3 = DPL_USER"
    by (simp_all add: tf_user_def Let_def SEG_UCODE_def DPL_USER_def T_IRQ0_def word_less_nat_alt)
  moreover have "case exit (proc_upd 1 (\<lambda>p. p\<lparr>p_killed := True\<rparr>) fault_ex) of Inl _ \<Rightarrow> False | Inr t \<Rightarrow> p_state (ptable t ! 1) = ZOMBIE"
    by code_simp
  then obtain t where "exit (proc_upd 1 (\<lambda>p. p\<lparr>p_killed := True\<rparr>) fault_ex) = Inr t" "p_state (ptable t ! 1) = ZOMBIE"
    by (auto split: sum.splits)
  ultimately show ?thesis using user_fault_ends [of fault_ex 1 "tf_user\<lparr>tf_trapno := 14\<rparr>" True "[]" 0] by simp
qed

end
