(* ===== verification/Contain.thy ===== *)
theory Contain
  imports Trap
begin

text \<open>
  The whole kernel keeps processes in their containers.

  \<open>cv\<close> lists, for every slot of the process table, whether it is free and the container it names, with the
  process that runs. Each routine, from the locks up to the system
  calls, has a rule in the collection \<open>wp\<close> that says what it keeps of \<open>cv\<close>; a routine's rule is
  proved from those of the routines it calls.
\<close>


section \<open>Postconditions\<close>

definition post :: "('a \<Rightarrow> bool) \<Rightarrow> 'e + 'a \<Rightarrow> bool" where
  "post Q m = (case m of Inl _ \<Rightarrow> True | Inr x \<Rightarrow> Q x)"

named_theorems wp \<open>what a routine keeps, as introduction rules for its postcondition\<close>

lemma post_simps [simp]: "post Q (Inr x) = Q x" "post Q (Inl e)"
  by (simp_all add: post_def)

lemma post_if [simp]: "post Q (if c then a else b) \<longleftrightarrow> (c \<longrightarrow> post Q a) \<and> (\<not> c \<longrightarrow> post Q b)"
  by simp

lemma post_bnd [wp]: "post (\<lambda>x. post Q (f x)) m \<Longrightarrow> post Q (bnd m f)"
  by (cases m) simp_all

lemma postD: "post Q m \<Longrightarrow> m = Inr x \<Longrightarrow> Q x"
  by simp

lemma post_mapR: "(\<And>x. post (\<lambda>_. True) (f x)) \<Longrightarrow> post (\<lambda>_. True) (mapR f xs)"
  by (induction xs) (auto simp: post_def split: sum.splits)

section \<open>Membership\<close>

text \<open>Whether each slot of the process table is free, the container of each process, and which one runs.\<close>

definition pv :: "proc \<Rightarrow> bool \<times> int option" where
  "pv p = (p_state p = UNUSED, p_cont p)"

definition cv :: "'z kproc_scheme \<Rightarrow> (bool \<times> int option) list \<times> nat option" where
  "cv s = (map pv (ptable s), cur s)"

lemma pv_simps [simp]:
  "pv (p\<lparr>p_sz := a\<rparr>) = pv p" "pv (p\<lparr>p_pgdir := a\<rparr>) = pv p" "pv (p\<lparr>p_kstack := a\<rparr>) = pv p" "pv (p\<lparr>p_pid := b\<rparr>) = pv p"
  "pv (p\<lparr>p_parent := c\<rparr>) = pv p" "pv (p\<lparr>p_tf := d\<rparr>) = pv p" "pv (p\<lparr>p_chan := e\<rparr>) = pv p" "pv (p\<lparr>p_killed := f\<rparr>) = pv p"
  "pv (p\<lparr>p_ofile := g\<rparr>) = pv p" "pv (p\<lparr>p_cwd := c\<rparr>) = pv p" "pv (p\<lparr>p_name := h\<rparr>) = pv p" "pv (p\<lparr>p_ticks := a\<rparr>) = pv p"
  "pv (p\<lparr>p_usage := b\<rparr>) = pv p"
  by (simp_all add: pv_def)

lemma post1: "post (\<lambda>t. cv t = cv s) m \<Longrightarrow> (\<And>t. cv t = cv s \<Longrightarrow> Q t) \<Longrightarrow> post Q m"
  and post2: "post (\<lambda>(x, t). cv t = cv s) n \<Longrightarrow> (\<And>x t. cv t = cv s \<Longrightarrow> R (x, t)) \<Longrightarrow> post R n"
  by (auto simp: post_def split: sum.splits)

lemma post_any: "(\<And>x. Q x) \<Longrightarrow> post Q m"
  by (cases m) simp_all

lemma post_same: "(\<And>x. m = Inr x \<Longrightarrow> Q x) \<Longrightarrow> post Q m"
  by (cases m) simp_all

lemma foldR_cv:
  assumes "\<And>x t. x \<in> set xs \<Longrightarrow> post (\<lambda>u. cv u = cv t) (f x t)"
  shows "post (\<lambda>t. cv t = cv s) (foldR f xs s)"
proof (rule post_same)
  fix t
  assume "foldR f xs s = Inr t"
  then show "cv t = cv s"
    by (rule foldR_invariant [where P = "\<lambda>u. cv u = cv s"]) (use postD [OF assms] in auto)
qed

lemma fold_cv:
  assumes "\<And>x t. x \<in> set xs \<Longrightarrow> cv (f x t) = cv t"
  shows "cv (fold f xs s) = cv s"
  using assms by (induction xs arbitrary: s) auto

lemma cv_conts [simp]:
  "cv (s\<lparr>containers := a\<rparr>) = cv s" "cv (s\<lparr>ptable := p\<rparr>) = (map pv p, cur s)" "cv (s\<lparr>nextpid := n\<rparr>) = cv s"
  "cv (s\<lparr>initproc := i\<rparr>) = cv s" "cv (s\<lparr>null_cont := c\<rparr>) = cv s" "cv (s\<lparr>ticks := tk\<rparr>) = cv s"
  "cv (s\<lparr>cur := c'\<rparr>) = (map pv (ptable s), c')"
  by (simp_all add: cv_def)

lemma map_upd_same: "pv (f (xs ! i)) = pv (xs ! i) \<Longrightarrow> map pv (xs[i := f (xs ! i)]) = map pv xs"
  by (metis list_update_id map_update)

lemma cv_proc_upd: "(\<And>p. pv (f p) = pv p) \<Longrightarrow> cv (proc_upd i f s) = cv s"
  by (simp add: proc_upd_def cv_def map_upd_same)

lemma cv_wakeup [simp]: "cv (wakeup ch s) = cv s" "cv (wakeup1 ch s) = cv s"
  by (auto simp: wakeup_def wakeup1_def cv_def wakeup_one_def pv_def)

lemma my_upd_cv [wp]: "(\<And>p. pv (f p) = pv p) \<Longrightarrow> (\<And>t. cv t = cv s \<Longrightarrow> Q t) \<Longrightarrow> post Q (my_upd f s)"
  by (auto simp: my_upd_def cv_proc_upd split: option.splits)

text \<open>Routines that only read give any value.\<close>

lemmas readers [wp] =
  post_any [where m = "my_proc s" for s]
  post_any [where m = "fetch e xs i" for e xs i]
  post_any [where m = "cont_get vc s" for vc s]
  post_any [where m = "cont_deref c s" for c s]
  post_any [where m = "get_curr_proc x s" for x s]
  post_any [where m = "get_curr_mem x s" for x s]
  post_any [where m = "get_curr_disk x s" for x s]
  post_any [where m = "get_max_disk x s" for x s]
  post_any [where m = "get_name x b s" for x b s]
  post_any [where m = "g_name x s" for x s]
  post_any [where m = "kill_allowed me p s" for me p s]
  post_any [where m = "mapR f xs" for f xs]
  post_any [where m = "acquiresleep lk s" for lk s]

lemma cv_conts_more [simp]: "cv (s\<lparr>disk_used := d\<rparr>) = cv s" "cv (s\<lparr>next_rand := d\<rparr>) = cv s"
  by (simp_all add: cv_def)

lemma cont_upd_cv [wp]: "(\<And>t. cv t = cv s \<Longrightarrow> Q t) \<Longrightarrow> post Q (cont_upd vc f s)"
  by (rule post_same) (auto simp: cont_upd_def bnd_Inr_iff)

lemma set_conts_cv [wp]:
  "(\<And>t. cv t = cv s \<Longrightarrow> Q t) \<Longrightarrow> post Q (set_name nm vc s)"
  "(\<And>t. cv t = cv s \<Longrightarrow> Q t) \<Longrightarrow> post Q (set_max_mem v vc s)"
  "(\<And>t. cv t = cv s \<Longrightarrow> Q t) \<Longrightarrow> post Q (set_max_disk v vc s)"
  "(\<And>t. cv t = cv s \<Longrightarrow> Q t) \<Longrightarrow> post Q (set_max_proc v vc s)"
  "(\<And>t. cv t = cv s \<Longrightarrow> Q t) \<Longrightarrow> post Q (set_curr_mem v vc s)"
  "(\<And>t. cv t = cv s \<Longrightarrow> Q t) \<Longrightarrow> post Q (reduce_curr_mem v vc s)"
  "(\<And>t. cv t = cv s \<Longrightarrow> Q t) \<Longrightarrow> post Q (set_curr_disk v vc s)"
  "(\<And>t. cv t = cv s \<Longrightarrow> Q t) \<Longrightarrow> post Q (set_curr_proc v vc s)"
  "(\<And>t. cv t = cv s \<Longrightarrow> Q t) \<Longrightarrow> post Q (container_reset vc s)"
  unfolding set_name_def set_max_mem_def set_max_disk_def set_max_proc_def set_curr_mem_def reduce_curr_mem_def
    set_curr_disk_def set_curr_proc_def container_reset_def post_if
  by (auto intro: cont_upd_cv)

lemma conts_fun_cv [simp]:
  "cv (set_os v s) = cv s" "cv (container_init s) = cv s" "cv (tick_reset2 s) = cv s" "cv (snd (get_cticks s)) = cv s"
  by (simp_all add: set_os_def container_init_def tick_reset2_def get_cticks_def rand_def Let_def)

section \<open>Processes and locks\<close>

lemma kill_cv [wp]: "(\<And>r t. cv t = cv s \<Longrightarrow> Q (r, t)) \<Longrightarrow> post Q (kill pid s)"
  by (auto simp: kill_def cv_proc_upd set_killed_def pv_def Let_def intro!: wp split: option.splits)

lemma cstop_visit_cv [THEN post1, wp]: "post (\<lambda>t. cv t = cv s) (cstop_visit name i s)"
  by (auto simp: cstop_visit_def intro!: wp)

lemma cstop_container_visit_cv [THEN post1, wp]: "post (\<lambda>t. cv t = cv s) (cstop_container_visit c i s)"
  by (auto simp: cstop_container_visit_def intro!: wp)

lemma cstop_helper_cv [THEN post1, wp]: "post (\<lambda>t. cv t = cv s) (cstop_helper name s)"
  by (auto simp: cstop_helper_def intro!: wp foldR_cv [THEN post1])

lemma cstop_container_helper_cv [THEN post1, wp]: "post (\<lambda>t. cv t = cv s) (cstop_container_helper c s)"
  by (auto simp: cstop_container_helper_def intro!: wp foldR_cv [THEN post1])

lemma mapR_cont:
  assumes "\<And>p. p \<in> set ps \<Longrightarrow> post (\<lambda>q. pv q = pv p) (f p)"
  shows "post (\<lambda>qs. map pv qs = map pv ps) (mapR f ps)"
proof (rule post_same)
  fix qs
  assume "mapR f ps = Inr qs"
  then have "length qs = length ps" "\<And>i. i < length ps \<Longrightarrow> f (ps ! i) = Inr (qs ! i)"
    by (auto dest: mapR_InrD)
  moreover have "pv (qs ! i) = pv (ps ! i)" if "i < length ps" for i
    using postD [OF assms [OF nth_mem [OF that]]] calculation(2) [OF that] .
  ultimately show "map pv qs = map pv ps" by (auto intro!: nth_equalityI)
qed

lemma pause_cv [THEN post1, wp]: "post (\<lambda>t. cv t = cv s) (pause name s)"
proof -
  have "post (\<lambda>qs. map pv qs = map pv (ptable s)) (mapR (pause_one name s) (ptable s))"
    by (rule mapR_cont) (auto simp: pause_one_def pv_def intro!: wp)
  then show ?thesis by (auto simp: pause_def cv_def post_def split: sum.splits)
qed

lemma resume_cv [THEN post1, wp]: "post (\<lambda>t. cv t = cv s) (resume name s)"
proof -
  have "post (\<lambda>qs. map pv qs = map pv (ptable s)) (mapR (resume_one name s) (ptable s))"
    by (rule mapR_cont) (auto simp: resume_one_def pv_def intro!: wp)
  then show ?thesis by (auto simp: resume_def cv_def post_def split: sum.splits)
qed

lemma releasesleep_cv [simp]: "cv (snd (releasesleep ch lk s)) = cv s"
  by (simp add: releasesleep_def)

section \<open>Memory\<close>

lemma cv_kmem [simp]:
  "cv (s\<lparr>pmem := a\<rparr>) = cv s" "cv (s\<lparr>freelist := b\<rparr>) = cv s" "cv (s\<lparr>kmem_i := c\<rparr>) = cv s"
  "cv (s\<lparr>kpgdir := d\<rparr>) = cv s" "cv (s\<lparr>cr3 := e\<rparr>) = cv s" "cv (s\<lparr>ts_esp0 := f\<rparr>) = cv s" "cv (s\<lparr>use_lock := g\<rparr>) = cv s"
  by (simp_all add: cv_def)

lemma cv_mem [simp]: "cv (mput a v s) = cv s" "cv (mclear p s) = cv s" "cv (switchkvm s) = cv s"
  by (simp_all add: mput_def mclear_def switchkvm_def)

lemma kalloc_charge_cv [THEN post1, wp]: "post (\<lambda>t. cv t = cv s) (kalloc_charge s)"
  by (auto simp: kalloc_charge_def Let_def intro!: wp split: option.splits)

lemma kfree_uncharge_cv [THEN post1, wp]: "post (\<lambda>t. cv t = cv s) (kfree_uncharge s)"
  by (auto simp: kfree_uncharge_def Let_def intro!: wp split: option.splits)

lemma kalloc_cv [THEN post2, wp]: "post (\<lambda>(r, t). cv t = cv s) (kalloc s)"
  by (auto simp: kalloc_def Let_def intro!: wp)

lemma kfree_cv [THEN post1, wp]: "post (\<lambda>t. cv t = cv s) (kfree p s)"
  by (auto simp: kfree_def Let_def intro!: wp)

section \<open>Buffers and the log\<close>

lemma cv_kbio [simp]:
  "cv (s\<lparr>bufs := a\<rparr>) = cv s" "cv (s\<lparr>mru := b\<rparr>) = cv s" "cv (s\<lparr>disk := c\<rparr>) = cv s" "cv (s\<lparr>disk_writes := d\<rparr>) = cv s"
  "cv (s\<lparr>disk := c, disk_writes := d\<rparr>) = cv s"
  by (simp_all add: cv_def)

lemma cv_klog [simp]:
  "cv (s\<lparr>lg_start := a\<rparr>) = cv s" "cv (s\<lparr>lg_size := b\<rparr>) = cv s" "cv (s\<lparr>lg_outstanding := c\<rparr>) = cv s"
  "cv (s\<lparr>lg_committing := d\<rparr>) = cv s" "cv (s\<lparr>lg_dev := e\<rparr>) = cv s" "cv (s\<lparr>lg_n := f\<rparr>) = cv s"
  "cv (s\<lparr>lg_block := g\<rparr>) = cv s"
  by (simp_all add: cv_def)

lemma cv_bufs [simp]: "cv (buf_upd i f s) = cv s" "cv (bdata_put i off xs s) = cv s"
  by (simp_all add: buf_upd_def bdata_put_def)

lemma buf_acquire_cv [THEN post2, wp]: "post (\<lambda>(x, t). cv t = cv s) (buf_acquire i s)"
  by (auto simp: buf_acquire_def intro!: wp)

lemma bget_cv [THEN post2, wp]: "post (\<lambda>(x, t). cv t = cv s) (bget dev b s)"
  by (auto simp: bget_def intro!: wp split: option.splits)

lemma iderw_cv [THEN post1, wp]: "post (\<lambda>t. cv t = cv s) (iderw i s)"
  by (simp add: iderw_def Let_def)

lemma bread_cv [THEN post2, wp]: "post (\<lambda>(x, t). cv t = cv s) (bread dev b s)"
  by (auto simp: bread_def intro!: wp)

lemma bwrite_cv [THEN post1, wp]: "post (\<lambda>t. cv t = cv s) (bwrite i s)"
  by (auto simp: bwrite_def intro!: wp)

lemma brelse_cv [THEN post1, wp]: "post (\<lambda>t. cv t = cv s) (brelse i s)"
  by (simp add: brelse_def Let_def releasesleep_def)

lemma readsb_cv [THEN post2, wp]: "post (\<lambda>(x, t). cv t = cv s) (readsb dev s)"
  by (auto simp: readsb_def Let_def intro!: wp)

lemma install_trans_cv [THEN post1, wp]: "post (\<lambda>t. cv t = cv s) (install_trans s)"
  unfolding install_trans_def by (rule foldR_cv) (auto simp: install_one_def intro!: wp)

lemma write_log_cv [THEN post1, wp]: "post (\<lambda>t. cv t = cv s) (write_log s)"
  unfolding write_log_def by (rule foldR_cv) (auto simp: write_log_one_def intro!: wp)

lemma write_head_cv [THEN post1, wp]: "post (\<lambda>t. cv t = cv s) (write_head s)"
  by (auto simp: write_head_def intro!: wp)

lemma read_head_cv [THEN post1, wp]: "post (\<lambda>t. cv t = cv s) (read_head s)"
  by (auto simp: read_head_def Let_def intro!: wp)

lemma recover_from_log_cv [THEN post1, wp]: "post (\<lambda>t. cv t = cv s) (recover_from_log s)"
  by (auto simp: recover_from_log_def intro!: wp)

lemma initlog_cv [THEN post1, wp]: "post (\<lambda>t. cv t = cv s) (initlog dev s)"
  by (auto simp: initlog_def intro!: wp)

lemma commit_cv [THEN post1, wp]: "post (\<lambda>t. cv t = cv s) (commit s)"
  by (auto simp: commit_def intro!: wp)

lemma begin_op_cv [THEN post1, wp]: "post (\<lambda>t. cv t = cv s) (begin_op s)"
  by (simp add: begin_op_def)

lemma end_op_cv [THEN post1, wp]: "post (\<lambda>t. cv t = cv s) (end_op s)"
  by (auto simp: end_op_def Let_def intro!: wp)

lemma log_write_cv [THEN post1, wp]: "post (\<lambda>t. cv t = cv s) (log_write b s)"
  by (simp add: log_write_def Let_def)

section \<open>Inodes and files\<close>

lemma cv_kfs [simp]: "cv (s\<lparr>gsb := a\<rparr>) = cv s" "cv (s\<lparr>icache := b\<rparr>) = cv s"
  by (simp_all add: cv_def)

lemma cv_inodes [simp]: "cv (inode_upd i f s) = cv s" "cv (inode_release i s) = cv s" "cv (idup i s) = cv s"
  by (simp_all add: inode_upd_def inode_release_def idup_def releasesleep_def)

lemma bzero_cv [THEN post1, wp]: "post (\<lambda>t. cv t = cv s) (bzero dev b s)"
  by (auto simp: bzero_def intro!: wp)

lemma balloc_loop_cv: "post (\<lambda>(x, t). cv t = cv s) (balloc_loop dev n b s)"
proof (induction "n - b" arbitrary: b s rule: less_induct)
  case less
  show ?case
    by (subst balloc_loop.simps) (auto simp: BPB_def BSIZE_def intro!: wp less [THEN post2] split: option.splits)
qed

lemma balloc_cv [THEN post2, wp]: "post (\<lambda>(x, t). cv t = cv s) (balloc dev s)"
  unfolding balloc_def by (rule balloc_loop_cv)

lemma bfree_cv [THEN post1, wp]: "post (\<lambda>t. cv t = cv s) (bfree dev b s)"
  by (auto simp: bfree_def Let_def intro!: wp)

lemma iinit_cv [THEN post1, wp]: "post (\<lambda>t. cv t = cv s) (iinit dev s)"
  by (auto simp: iinit_def intro!: wp)

lemma iget_cv [THEN post2, wp]: "post (\<lambda>(x, t). cv t = cv s) (iget dev inum s)"
  by (simp add: iget_def split: option.splits)

lemma ialloc_loop_cv [THEN post2, wp]: "post (\<lambda>(x, t). cv t = cv s) (ialloc_loop dev type inums s)"
proof (induction inums arbitrary: s)
  case (Cons inum inums)
  show ?case by (auto simp: Let_def intro!: wp Cons [THEN post2])
qed simp

lemma ialloc_cv [THEN post2, wp]: "post (\<lambda>(x, t). cv t = cv s) (ialloc dev type s)"
  by (auto simp: ialloc_def intro!: wp)

lemma iupdate_cv [THEN post1, wp]: "post (\<lambda>t. cv t = cv s) (iupdate i s)"
  by (auto simp: iupdate_def Let_def intro!: wp)

lemma ilock_cv [THEN post1, wp]: "post (\<lambda>t. cv t = cv s) (ilock i s)"
  by (auto simp: ilock_def Let_def intro!: wp)

lemma iunlock_cv [THEN post1, wp]: "post (\<lambda>t. cv t = cv s) (iunlock i s)"
  by (simp add: iunlock_def Let_def)

lemma bmap_cv [THEN post2, wp]: "post (\<lambda>(x, t). cv t = cv s) (bmap i bn s)"
  by (auto simp: bmap_def Let_def intro!: wp)

lemma itrunc_direct_cv: "post (\<lambda>t. cv t = cv s) (foldR (itrunc_direct i) ks s)"
  by (rule foldR_cv) (auto simp: itrunc_direct_def Let_def intro!: wp)

lemma itrunc_indirect_cv: "post (\<lambda>t. cv t = cv s) (foldR (itrunc_indirect i bp) ks s)"
  by (rule foldR_cv) (auto simp: itrunc_indirect_def Let_def intro!: wp)

lemma itrunc_cv [THEN post1, wp]: "post (\<lambda>t. cv t = cv s) (itrunc i s)"
  by (auto simp: itrunc_def Let_def intro!: wp itrunc_direct_cv [THEN post1] itrunc_indirect_cv [THEN post1])

lemma iput_cv [THEN post1, wp]: "post (\<lambda>t. cv t = cv s) (iput i s)"
  by (auto simp: iput_def Let_def intro!: wp)

lemma iunlockput_cv [THEN post1, wp]: "post (\<lambda>t. cv t = cv s) (iunlockput i s)"
  by (auto simp: iunlockput_def intro!: wp)

section \<open>The console, files and paths\<close>

lemma cv_kcons [simp]:
  "cv (s\<lparr>input := a\<rparr>) = cv s" "cv (s\<lparr>active := b\<rparr>) = cv s" "cv (s\<lparr>buf1 := a\<rparr>) = cv s" "cv (s\<lparr>buf2 := a\<rparr>) = cv s"
  "cv (s\<lparr>buf3 := a\<rparr>) = cv s" "cv (s\<lparr>buf4 := a\<rparr>) = cv s" "cv (s\<lparr>con_out := c\<rparr>) = cv s"
  by (simp_all add: cv_def)

lemma cv_consputc [simp]: "cv (consputc c s) = cv s" "cv (fold (\<lambda>c. consputc (uint c)) cs s) = cv s"
  by (auto simp: consputc_def intro: fold_cv)

lemma cv_kill_line [simp]: "cv (kill_line s) = cv s"
proof (induction s rule: kill_line.induct)
  case (1 s)
  then show ?case by (subst kill_line.simps) simp
qed

lemma cv_consoleintr_char: "cv (consoleintr_char c s) = cv s"
  by (simp add: consoleintr_char_def switch_console_def backspace_def put_input_def Let_def)

lemma con_print_cv [THEN post1, wp]: "post (\<lambda>t. cv t = cv s) (con_print fmt args s)"
  unfolding con_print_def by (rule post_bnd [OF post_any]) (auto simp: consputc_def intro: fold_cv)

lemma con_procdump_cv [THEN post1, wp]: "post (\<lambda>t. cv t = cv s) (con_procdump s)"
  unfolding con_procdump_def
  by (rule post_bnd [OF post_any], rule foldR_cv) (auto intro!: wp)

lemma consoleintr_cv [THEN post1, wp]: "post (\<lambda>t. cv t = cv s) (consoleintr cs s)"
proof -
  have "cv (fold consoleintr_char ks s) = cv s" for ks by (rule fold_cv) (rule cv_consoleintr_char)
  then show ?thesis unfolding consoleintr_def by (auto simp: Let_def intro!: wp)
qed

lemma consoleread_loop_cv [THEN post2, wp]: "post (\<lambda>(x, t). cv t = cv s) (consoleread_loop i n got s)"
proof (induction n arbitrary: got s)
  case (Suc n)
  show ?case by (auto simp: Let_def intro!: wp Suc [THEN post2])
qed simp

lemma consoleread_cv [THEN post2, wp]: "post (\<lambda>(x, t). cv t = cv s) (consoleread i n s)"
  by (auto simp: consoleread_def intro!: wp)

lemma consolewrite_cv [THEN post2, wp]: "post (\<lambda>(x, t). cv t = cv s) (consolewrite i buf s)"
  by (auto simp: consolewrite_def intro!: wp)

lemma readi_loop_cv [THEN post2, wp]: "post (\<lambda>(x, t). cv t = cv s) (readi_loop i off n s)"
proof (induction n arbitrary: off s rule: less_induct)
  case (less n)
  show ?case
    by (subst readi_loop.simps) (auto simp: BSIZE_def Let_def intro!: wp less [THEN post2])
qed

lemma readi_cv [THEN post2, wp]: "post (\<lambda>(x, t). cv t = cv s) (readi i off n s)"
  by (auto simp: readi_def Let_def intro!: wp)

lemma writei_loop_cv [THEN post1, wp]: "post (\<lambda>t. cv t = cv s) (writei_loop i off src s)"
proof (induction "length src" arbitrary: off src s rule: less_induct)
  case less
  show ?case
    by (subst writei_loop.simps) (auto simp: BSIZE_def Let_def intro!: wp less [THEN post1])
qed

lemma writei_charge_cv [THEN post2, wp]: "post (\<lambda>(x, t). cv t = cv s) (writei_charge tot x s)"
  by (auto simp: writei_charge_def Let_def intro!: wp)

lemma writei_cv [THEN post2, wp]: "post (\<lambda>(x, t). cv t = cv s) (writei i src off s)"
  by (auto simp: writei_def Let_def intro!: wp)

lemma dirlookup_loop_cv [THEN post2, wp]: "post (\<lambda>(x, t). cv t = cv s) (dirlookup_loop dp name n off s)"
proof (induction "n - off" arbitrary: off s rule: less_induct)
  case less
  show ?case
    by (subst dirlookup_loop.simps) (auto intro!: wp less [THEN post2] split: option.splits)
qed

lemma dirlookup_cv [THEN post2, wp]: "post (\<lambda>(x, t). cv t = cv s) (dirlookup dp name s)"
  by (auto simp: dirlookup_def intro!: wp)

lemma dirlink_loop_cv [THEN post2, wp]: "post (\<lambda>(x, t). cv t = cv s) (dirlink_loop dp n off s)"
proof (induction "n - off" arbitrary: off s rule: less_induct)
  case less
  show ?case
    by (subst dirlink_loop.simps) (auto intro!: wp less [THEN post2] split: option.splits)
qed

lemma dirlink_cv [THEN post2, wp]: "post (\<lambda>(x, t). cv t = cv s) (dirlink dp name inum s)"
  by (auto simp: dirlink_def intro!: wp split: option.splits prod.splits)

lemmas at_cont_root_any [wp] = post_any [where m = "at_cont_root path c i s" for path c i s]

lemma namex_loop_cv [THEN post2, wp]: "post (\<lambda>(x, t). cv t = cv s) (namex_loop path par name cont i s)"
proof (induction "length path" arbitrary: path par name cont i s rule: less_induct)
  case less
  show ?case
    by (subst namex_loop.simps) (auto simp: skipelem_shorter intro!: wp less [THEN post2] split: option.splits prod.splits)
qed

lemma namex_cv [THEN post2, wp]: "post (\<lambda>(x, t). cv t = cv s) (namex path par s)"
  by (auto simp: namex_def intro!: wp split: option.splits)

lemma namei_cv [THEN post2, wp]: "post (\<lambda>(x, t). cv t = cv s) (namei path s)"
  by (auto simp: namei_def intro!: wp)

lemma nameiparent_cv [THEN post2, wp]: "post (\<lambda>(x, t). cv t = cv s) (nameiparent path s)"
  by (auto simp: nameiparent_def intro!: wp)

lemma set_root_inode_cv [THEN post1, wp]: "post (\<lambda>t. cv t = cv s) (set_root_inode name s)"
  by (auto simp: set_root_inode_def intro!: wp)

section \<open>Pipes and open files\<close>

lemma cv_kfile [simp]: "cv (s\<lparr>ftable := a\<rparr>) = cv s" "cv (s\<lparr>pipes := b\<rparr>) = cv s"
  by (simp_all add: cv_def)

lemma cv_files [simp]:
  "cv (file_upd i f s) = cv s" "cv (pipe_put a p s) = cv s" "filealloc s = (r, t) \<Longrightarrow> cv t = cv s"
  by (auto simp: file_upd_def pipe_put_def filealloc_def split: option.splits)

lemmas file_readers [wp] =
  post_any [where m = "pipe_get a s" for a s]
  post_any [where m = "uva2ka pgdir va s" for pgdir va s]
  post_any [where m = "uload va n s" for va n s]
  post_any [where m = "argint n s" for n s]
  post_any [where m = "argptr n k s" for n k s]
  post_any [where m = "argstr n s" for n s]
  post_any [where m = "arg_or_fault r" for r]
  post_any [where m = "int_arg n s" for n s]
  post_any [where m = "str_arg n s" for n s]
  post_any [where m = "argfd n s" for n s]
  post_any [where m = "rw_args s" for s]
  post_any [where m = "fetch_argv k u i s" for k u i s]
  post_any [where m = "procdump s" for s]
  post_any [where m = "c_procdump name s" for name s]
  post_any [where m = "c_proc_data name s" for name s]
  post_any [where m = "killed_now s" for s]

lemma filealloc_cv: "filealloc s = (r, t) \<Longrightarrow> cv t = cv s"
  by simp

lemma pipewrite_cv [THEN post2, wp]: "post (\<lambda>(x, t). cv t = cv s) (pipewrite a addr s)"
  by (auto simp: pipewrite_def intro!: wp split: prod.splits pwres.splits)

lemma piperead_cv [THEN post2, wp]: "post (\<lambda>(x, t). cv t = cv s) (piperead a n s)"
  by (auto simp: piperead_def Let_def intro!: wp split: prod.splits)

lemma pipeclose_cv [THEN post1, wp]: "post (\<lambda>t. cv t = cv s) (pipeclose a w s)"
  by (auto simp: pipeclose_def Let_def intro!: wp)

lemma filedup_cv [THEN post1, wp]: "post (\<lambda>t. cv t = cv s) (filedup f s)"
  by (simp add: filedup_def)

lemma fileclose_cv [THEN post1, wp]: "post (\<lambda>t. cv t = cv s) (fileclose f s)"
  by (auto simp: fileclose_def Let_def intro!: wp split: fdtype.splits)

lemma filestat_cv [THEN post2, wp]: "post (\<lambda>(x, t). cv t = cv s) (filestat f s)"
  by (auto simp: filestat_def Let_def intro!: wp)

lemma fileread_cv [THEN post2, wp]: "post (\<lambda>(x, t). cv t = cv s) (fileread f n s)"
  by (auto simp: fileread_def Let_def intro!: wp split: fdtype.splits option.splits)

lemma filewrite_loop_cv [THEN post2, wp]: "post (\<lambda>(x, t). cv t = cv s) (filewrite_loop f addr i s)"
proof (induction "length addr - i" arbitrary: i s rule: less_induct)
  case less
  show ?case
    by (subst filewrite_loop.simps) (auto simp: FILEWRITE_MAX_def LOGSIZE_def Let_def intro!: wp less [THEN post2])
qed

lemma filewrite_cv [THEN post2, wp]: "post (\<lambda>(x, t). cv t = cv s) (filewrite f addr s)"
  by (auto simp: filewrite_def Let_def intro!: wp split: fdtype.splits)

lemma close_opt_cv [THEN post1, wp]: "post (\<lambda>t. cv t = cv s) (close_opt f s)"
  by (auto simp: close_opt_def intro!: wp split: option.splits)

lemma pipealloc_cv [THEN post2, wp]: "post (\<lambda>(x, t). cv t = cv s) (pipealloc s)"
  by (auto simp: pipealloc_def intro!: wp dest!: filealloc_cv split: option.splits prod.splits)

section \<open>Address spaces\<close>

lemma walkpgdir_cv [THEN post2, wp]: "post (\<lambda>(x, t). cv t = cv s) (walkpgdir pgdir va a s)"
  by (auto simp: walkpgdir_def Let_def intro!: wp)

lemma page_step: "a < n \<Longrightarrow> n - (a + PGSIZE) < n - a"
  by (simp add: PGSIZE_def)

declare mappages_loop.simps [simp del]

lemma mappages_loop_cv [THEN post2, wp]: "post (\<lambda>(x, t). cv t = cv s) (mappages_loop n pgdir a pa perm s)"
proof (induction n arbitrary: a pa s)
  case (Suc n)
  show ?case by (subst mappages_loop.simps) (auto simp: Let_def intro!: wp Suc [THEN post2])
qed (subst mappages_loop.simps, auto simp: Let_def intro!: wp)

lemma mappages_cv [THEN post2, wp]: "post (\<lambda>(x, t). cv t = cv s) (mappages pgdir va sz pa perm s)"
  by (auto simp: mappages_def Let_def intro!: wp)

lemma deallocuvm_loop_cv [THEN post1, wp]: "post (\<lambda>t. cv t = cv s) (deallocuvm_loop pgdir a oldsz s)"
proof (induction "oldsz - a" arbitrary: a s rule: less_induct)
  case less
  have far: "oldsz - (a div 0x400000 + 1) * 0x400000 < oldsz - a" if "a < oldsz"
    using that dividend_less_div_times [of "0x400000" a] by (intro diff_less_mono2) simp_all
  show ?case
    by (subst deallocuvm_loop.simps) (auto simp: Let_def page_step far intro!: wp less [THEN post1])
qed

lemma deallocuvm_cv [THEN post2, wp]: "post (\<lambda>(x, t). cv t = cv s) (deallocuvm pgdir oldsz newsz s)"
  by (auto simp: deallocuvm_def intro!: wp)

lemma freevm_cv [THEN post1, wp]: "post (\<lambda>t. cv t = cv s) (freevm pgdir s)"
proof -
  have "post (\<lambda>t. cv t = cv u) (foldR (freevm_one pgdir) is u)" for "is" u
    by (rule foldR_cv) (auto simp: freevm_one_def Let_def intro!: wp)
  note loop = this [THEN post1]
  show ?thesis by (auto simp: freevm_def intro!: wp loop)
qed

lemma setupkvm_loop_cv [THEN post2, wp]: "post (\<lambda>(x, t). cv t = cv s) (setupkvm_loop pgdir ks s)"
proof (induction ks arbitrary: s)
  case (Cons k ks)
  obtain v a b perm where k: "k = (v, a, b, perm)" by (cases k)
  show ?case unfolding k by (auto intro!: wp Cons [THEN post2])
qed simp

lemma setupkvm_cv [THEN post2, wp]: "post (\<lambda>(x, t). cv t = cv s) (setupkvm s)"
  by (auto simp: setupkvm_def Let_def intro!: wp)

lemma switchuvm_cv [THEN post1, wp]: "post (\<lambda>t. cv t = cv s) (switchuvm p s)"
  by (auto simp: switchuvm_def intro!: wp split: option.splits)

lemma allocuvm_loop_cv [THEN post2, wp]: "post (\<lambda>(x, t). cv t = cv s) (allocuvm_loop pgdir oldsz a newsz s)"
proof (induction "newsz - a" arbitrary: a s rule: less_induct)
  case less
  show ?case
    by (subst allocuvm_loop.simps) (auto simp: page_step intro!: wp less [THEN post2])
qed

lemma allocuvm_cv [THEN post2, wp]: "post (\<lambda>(x, t). cv t = cv s) (allocuvm pgdir oldsz newsz s)"
  by (auto simp: allocuvm_def intro!: wp)

lemma clearpteu_cv [THEN post1, wp]: "post (\<lambda>t. cv t = cv s) (clearpteu pgdir uva s)"
  by (auto simp: clearpteu_def intro!: wp)

lemma copyuvm_loop_cv [THEN post2, wp]: "post (\<lambda>(x, t). cv t = cv s) (copyuvm_loop pgdir d i sz s)"
proof (induction "sz - i" arbitrary: i s rule: less_induct)
  case less
  show ?case
    by (subst copyuvm_loop.simps) (auto simp: page_step Let_def intro!: wp less [THEN post2])
qed

lemma copyuvm_cv [THEN post2, wp]: "post (\<lambda>(x, t). cv t = cv s) (copyuvm pgdir sz s)"
  by (auto simp: copyuvm_def intro!: wp)

lemma copyout_cv [THEN post2, wp]: "post (\<lambda>(x, t). cv t = cv s) (copyout pgdir va p s)"
proof (induction "length p" arbitrary: va p s rule: less_induct)
  case less
  have "unat (va - PGROUNDDOWN va) < PGSIZE" using sub_pgrounddown [of va] by (simp add: PGSIZE_def)
  then show ?case
    by (subst copyout.simps) (auto simp: Let_def intro!: wp less [THEN post2])
qed

section \<open>System calls that keep every process where it is\<close>

lemma loaduvm_loop_cv [THEN post2, wp]: "post (\<lambda>(x, t). cv t = cv s) (loaduvm_loop pgdir addr ip off sz i s)"
proof (induction "sz - i" arbitrary: i s rule: less_induct)
  case less
  show ?case
    by (subst loaduvm_loop.simps) (auto simp: page_step Let_def intro!: wp less [THEN post2] split: option.splits)
qed

lemma loaduvm_cv [THEN post2, wp]: "post (\<lambda>(x, t). cv t = cv s) (loaduvm pgdir addr ip off sz s)"
  by (auto simp: loaduvm_def intro!: wp)

lemma exec_bad_cv [THEN post2, wp]: "post (\<lambda>(x, t). cv t = cv s) (exec_bad pgdir ip s)"
  by (auto simp: exec_bad_def intro!: wp split: option.splits)

lemma exec_load_cv [THEN post2, wp]: "post (\<lambda>(x, t). cv t = cv s) (exec_load k pgdir ip off sz s)"
proof (induction k arbitrary: off sz s)
  case (Suc k)
  show ?case by (auto simp: Let_def intro!: wp Suc [THEN post2] split: option.splits)
qed simp

lemma exec_push_cv [THEN post2, wp]: "post (\<lambda>(x, t). cv t = cv s) (exec_push pgdir argc as sp us s)"
proof (induction as arbitrary: argc sp us s)
  case (Cons a as)
  show ?case by (auto simp: Let_def intro!: wp Cons [THEN post2])
qed simp

lemma exec_commit_cv [THEN post2, wp]: "post (\<lambda>(x, t). cv t = cv s) (exec_commit path pgdir sz entry sp s)"
  by (auto simp: exec_commit_def intro!: wp)

lemma exec_stack_cv [THEN post2, wp]: "post (\<lambda>(x, t). cv t = cv s) (exec_stack path argv pgdir entry sz s)"
  by (auto simp: exec_stack_def Let_def intro!: wp split: option.splits)

lemma exec_cv [THEN post2, wp]: "post (\<lambda>(x, t). cv t = cv s) (exec path argv s)"
  by (auto simp: exec_def Let_def intro!: wp split: option.splits)

lemma uwrite_cv [THEN post1, wp]: "post (\<lambda>t. cv t = cv s) (uwrite va v s)"
  by (auto simp: uwrite_def intro!: wp split: option.splits)

lemma ustore_cv [THEN post1, wp]: "post (\<lambda>t. cv t = cv s) (ustore va vs s)"
proof (induction vs arbitrary: va s)
  case (Cons v vs)
  show ?case by (auto intro!: wp Cons [THEN post1])
qed simp

lemma fdalloc_cv [THEN post2, wp]: "post (\<lambda>(x, t). cv t = cv s) (fdalloc f s)"
  by (auto simp: fdalloc_def intro!: wp split: option.splits)

lemma store_stat_cv [THEN post1, wp]: "post (\<lambda>t. cv t = cv s) (store_stat p st s)"
  by (auto simp: store_stat_def intro!: wp)

lemma link_bad_cv [THEN post2, wp]: "post (\<lambda>(x, t). cv t = cv s) (link_bad ip s)"
  by (auto simp: link_bad_def intro!: wp)

lemma link_at_cv [THEN post2, wp]: "post (\<lambda>(x, t). cv t = cv s) (link_at ip new s)"
  by (auto simp: link_at_def intro!: wp split: option.splits prod.splits)

lemma isdirempty_loop_cv [THEN post2, wp]: "post (\<lambda>(x, t). cv t = cv s) (isdirempty_loop dp n off s)"
proof (induction "n - off" arbitrary: off s rule: less_induct)
  case less
  show ?case
    by (subst isdirempty_loop.simps) (auto intro!: wp less [THEN post2] split: option.splits)
qed

lemma isdirempty_cv [THEN post2, wp]: "post (\<lambda>(x, t). cv t = cv s) (isdirempty dp s)"
  by (auto simp: isdirempty_def intro!: wp)

lemma unlink_bad_cv [THEN post2, wp]: "post (\<lambda>(x, t). cv t = cv s) (unlink_bad dp s)"
  by (auto simp: unlink_bad_def intro!: wp)

lemma unlink_entry_cv [THEN post2, wp]: "post (\<lambda>(x, t). cv t = cv s) (unlink_entry dp ip off s)"
  by (auto simp: unlink_entry_def Let_def intro!: wp)

lemma create_new_cv [THEN post2, wp]: "post (\<lambda>(x, t). cv t = cv s) (create_new dp name type major minor s)"
  by (auto simp: create_new_def intro!: wp)

lemma create_cv [THEN post2, wp]: "post (\<lambda>(x, t). cv t = cv s) (create path type major minor s)"
  by (auto simp: create_def intro!: wp split: option.splits prod.splits)

lemma open_inode_cv [THEN post2, wp]: "post (\<lambda>(x, t). cv t = cv s) (open_inode path omode s)"
  by (auto simp: open_inode_def intro!: wp split: option.splits)

lemma open_file_cv [THEN post2, wp]: "post (\<lambda>(x, t). cv t = cv s) (open_file path omode ip s)"
  by (auto simp: open_file_def intro!: wp dest!: filealloc_cv split: option.splits prod.splits)

lemma create_done_cv [THEN post2, wp]: "post (\<lambda>(x, t). cv t = cv s) (create_done ip s)"
  by (auto simp: create_done_def intro!: wp split: option.splits)

lemma sys_file_cv:
  "post (\<lambda>(x, t). cv t = cv s) (sys_dup s)" "post (\<lambda>(x, t). cv t = cv s) (sys_read s)"
  "post (\<lambda>(x, t). cv t = cv s) (sys_write s)" "post (\<lambda>(x, t). cv t = cv s) (sys_close s)"
  "post (\<lambda>(x, t). cv t = cv s) (sys_fstat s)" "post (\<lambda>(x, t). cv t = cv s) (sys_open s)"
  "post (\<lambda>(x, t). cv t = cv s) (sys_mkdir s)" "post (\<lambda>(x, t). cv t = cv s) (sys_exec s)"
  "post (\<lambda>(x, t). cv t = cv s) (sys_link s)" "post (\<lambda>(x, t). cv t = cv s) (sys_unlink s)"
  unfolding sys_dup_def sys_read_def sys_write_def sys_close_def sys_fstat_def sys_open_def sys_mkdir_def sys_exec_def
    sys_link_def sys_unlink_def
  by (auto intro!: wp split: option.splits prod.splits)

lemma sys_mknod_cv: "post (\<lambda>(x, t). cv t = cv s) (sys_mknod s)"
  by (auto simp: sys_mknod_def intro!: wp split: option.splits prod.splits)

lemma sys_chdir_cv: "post (\<lambda>(x, t). cv t = cv s) (sys_chdir s)"
  by (auto simp: sys_chdir_def intro!: wp split: option.splits prod.splits)

lemma sys_pipe_cv: "post (\<lambda>(x, t). cv t = cv s) (sys_pipe s)"
  by (auto simp: sys_pipe_def intro!: wp split: option.splits prod.splits)

lemma growproc_cv [THEN post2, wp]: "post (\<lambda>(x, t). cv t = cv s) (growproc n s)"
  by (auto simp: growproc_def Let_def intro!: wp)

lemma df_numbers_cv [THEN post2, wp]: "post (\<lambda>(x, t). cv t = cv s) (df_numbers s)"
  by (auto simp: df_numbers_def Let_def intro!: wp)

lemma sys_kill_cv: "post (\<lambda>(x, t). cv t = cv s) (sys_kill s)"
  by (auto simp: sys_kill_def intro!: wp split: option.splits prod.splits)

lemma sys_getpid_cv: "post (\<lambda>(x, t). cv t = cv s) (sys_getpid s)"
  by (auto simp: sys_getpid_def intro!: wp split: option.splits prod.splits)

lemma sys_sbrk_cv: "post (\<lambda>(x, t). cv t = cv s) (sys_sbrk s)"
  by (auto simp: sys_sbrk_def intro!: wp split: option.splits prod.splits)

lemma sys_sleep_cv: "post (\<lambda>(x, t). cv t = cv s) (sys_sleep s)"
  by (auto simp: sys_sleep_def intro!: wp split: option.splits prod.splits)

lemma sys_uptime_cv: "post (\<lambda>(x, t). cv t = cv s) (sys_uptime s)"
  by (auto simp: sys_uptime_def intro!: wp split: option.splits prod.splits)

lemma sys_getticks_cv: "post (\<lambda>(x, t). cv t = cv s) (sys_getticks s)"
  by (auto simp: sys_getticks_def intro!: wp split: option.splits prod.splits)

lemma sys_cstop_cv: "post (\<lambda>(x, t). cv t = cv s) (sys_cstop s)"
  by (auto simp: sys_cstop_def intro!: wp split: option.splits prod.splits)

lemma sys_container_init_cv: "post (\<lambda>(x, t). cv t = cv s) (sys_container_init s)"
  by (auto simp: sys_container_init_def intro!: wp split: option.splits prod.splits)

lemma sys_is_full_cv: "post (\<lambda>(x, t). cv t = cv s) (sys_is_full s)"
  by (auto simp: sys_is_full_def intro!: wp split: option.splits prod.splits)

lemma sys_find_cv: "post (\<lambda>(x, t). cv t = cv s) (sys_find s)"
  by (auto simp: sys_find_def intro!: wp split: option.splits prod.splits)

lemma sys_get_name_cv: "post (\<lambda>(x, t). cv t = cv s) (sys_get_name s)"
  by (auto simp: sys_get_name_def intro!: wp split: option.splits prod.splits)

lemma sys_get_os_cv: "post (\<lambda>(x, t). cv t = cv s) (sys_get_os s)"
  by (auto simp: sys_get_os_def intro!: wp split: option.splits prod.splits)

lemma sys_set_name_cv: "post (\<lambda>(x, t). cv t = cv s) (sys_set_name s)"
  by (auto simp: sys_set_name_def intro!: wp split: option.splits prod.splits)

lemma sys_set_os_cv: "post (\<lambda>(x, t). cv t = cv s) (sys_set_os s)"
  by (auto simp: sys_set_os_def intro!: wp split: option.splits prod.splits)

lemma sys_container_reset_cv: "post (\<lambda>(x, t). cv t = cv s) (sys_container_reset s)"
  by (auto simp: sys_container_reset_def intro!: wp split: option.splits prod.splits)

lemma sys_max_containers_cv: "post (\<lambda>(x, t). cv t = cv s) (sys_max_containers s)"
  by (auto simp: sys_max_containers_def intro!: wp split: option.splits prod.splits)

lemma sys_get_used_cv: "post (\<lambda>(x, t). cv t = cv s) (sys_get_used s)"
  by (auto simp: sys_get_used_def intro!: wp split: option.splits prod.splits)

lemma sys_tick_reset2_cv: "post (\<lambda>(x, t). cv t = cv s) (sys_tick_reset2 s)"
  by (auto simp: sys_tick_reset2_def intro!: wp split: option.splits prod.splits)

lemma sys_ps_cv: "post (\<lambda>(x, t). cv t = cv s) (sys_ps s)"
  by (auto simp: sys_ps_def intro!: wp split: option.splits prod.splits)

lemma sys_df_cv: "post (\<lambda>(x, t). cv t = cv s) (sys_df s)"
  by (auto simp: sys_df_def intro!: wp split: option.splits prod.splits)

lemma sys_get_cticks_cv: "post (\<lambda>(x, t). cv t = cv s) (sys_get_cticks s)"
  using conts_fun_cv(4) [of s] by (simp add: sys_get_cticks_def case_prod_beta)

lemma ret_get_cv: "post (\<lambda>(x, t). cv t = cv s) (ret_get f s)"
  by (auto simp: ret_get_def intro!: wp post_any [of _ "f v s" for v])

lemma void_set_cv:
  assumes "\<And>v vc. post (\<lambda>t. cv t = cv s) (f v vc s)"
  shows "post (\<lambda>(x, t). cv t = cv s) (void_set f s)"
  by (auto simp: void_set_def intro!: wp assms [THEN post1])

lemma void_name_cv:
  assumes "\<And>name. post (\<lambda>t. cv t = cv s) (f name s)"
  shows "post (\<lambda>(x, t). cv t = cv s) (void_name f s)"
  by (auto simp: void_name_def intro!: wp assms [THEN post1])

lemma cont_or_all_cv: "post (\<lambda>(x, t). cv t = cv s) (cont_or_all v f s)"
  by (auto simp: cont_or_all_def intro!: wp post_any [of _ "f v s" for v])

lemma sys_table_cv:
  "post (\<lambda>(x, t). cv t = cv s) (sys_get_max_proc s)" "post (\<lambda>(x, t). cv t = cv s) (sys_get_max_mem s)"
  "post (\<lambda>(x, t). cv t = cv s) (sys_get_max_disk s)" "post (\<lambda>(x, t). cv t = cv s) (sys_get_curr_proc s)"
  "post (\<lambda>(x, t). cv t = cv s) (sys_get_curr_mem s)" "post (\<lambda>(x, t). cv t = cv s) (sys_get_curr_disk s)"
  "post (\<lambda>(x, t). cv t = cv s) (sys_set_max_mem s)" "post (\<lambda>(x, t). cv t = cv s) (sys_set_max_disk s)"
  "post (\<lambda>(x, t). cv t = cv s) (sys_set_max_proc s)" "post (\<lambda>(x, t). cv t = cv s) (sys_set_curr_mem s)"
  "post (\<lambda>(x, t). cv t = cv s) (sys_reduce_curr_mem s)" "post (\<lambda>(x, t). cv t = cv s) (sys_set_curr_disk s)"
  "post (\<lambda>(x, t). cv t = cv s) (sys_set_curr_proc s)" "post (\<lambda>(x, t). cv t = cv s) (sys_set_root_inode s)"
  "post (\<lambda>(x, t). cv t = cv s) (sys_pause s)" "post (\<lambda>(x, t). cv t = cv s) (sys_resume s)"
  "post (\<lambda>(x, t). cv t = cv s) (sys_c_ps s)" "post (\<lambda>(x, t). cv t = cv s) (sys_tmem s)"
  "post (\<lambda>(x, t). cv t = cv s) (sys_amem s)"
  unfolding sys_get_max_proc_def sys_get_max_mem_def sys_get_max_disk_def sys_get_curr_proc_def sys_get_curr_mem_def
    sys_get_curr_disk_def sys_set_max_mem_def sys_set_max_disk_def sys_set_max_proc_def sys_set_curr_mem_def
    sys_reduce_curr_mem_def sys_set_curr_disk_def sys_set_curr_proc_def sys_set_root_inode_def sys_pause_def sys_resume_def
    sys_c_ps_def sys_tmem_def sys_amem_def
  by (auto intro!: wp ret_get_cv void_set_cv void_name_cv cont_or_all_cv)

lemma ret_int_cv: "post (\<lambda>(x, t). cv t = cv s) (f s) \<Longrightarrow> post (\<lambda>(x, t). cv t = cv s) (ret_int f s)"
  unfolding ret_int_def by (rule post_bnd) (erule post2, simp)

section \<open>Creating and ending processes\<close>

text \<open>Every process in use and the one that runs stay in their containers, and one that appears is in the
  container of the process that runs.\<close>

definition kept_in :: "'z kproc_scheme \<Rightarrow> 'y kproc_scheme \<Rightarrow> bool" where
  "kept_in s t \<longleftrightarrow> cur t = cur s \<and> length (ptable t) = length (ptable s)
     \<and> (\<forall>i < length (ptable s). p_state (ptable t ! i) \<noteq> UNUSED \<or> cur s = Some i \<longrightarrow>
          p_cont (ptable t ! i) =
            p_cont (ptable s ! (if p_state (ptable s ! i) \<noteq> UNUSED then i else the (cur s))))"

definition runs :: "nat \<Rightarrow> 'z kproc_scheme \<Rightarrow> bool" where
  "runs me s \<longleftrightarrow> cur s = Some me \<and> me < length (ptable s) \<and> p_state (ptable s ! me) \<noteq> UNUSED"

lemma cv_eqD:
  assumes "cv t = cv s"
  shows "cur t = cur s" "length (ptable t) = length (ptable s)"
    "i < length (ptable s) \<Longrightarrow> p_state (ptable t ! i) = UNUSED \<longleftrightarrow> p_state (ptable s ! i) = UNUSED"
    "i < length (ptable s) \<Longrightarrow> p_cont (ptable t ! i) = p_cont (ptable s ! i)"
proof -
  have m: "map pv (ptable t) = map pv (ptable s)" and "cur t = cur s" using assms by (simp_all add: cv_def)
  then show "cur t = cur s" "length (ptable t) = length (ptable s)" by (auto dest: map_eq_imp_length_eq)
  assume i: "i < length (ptable s)"
  then have "pv (ptable t ! i) = pv (ptable s ! i)" using m by (metis length_map nth_map)
  then show "p_state (ptable t ! i) = UNUSED \<longleftrightarrow> p_state (ptable s ! i) = UNUSED" "p_cont (ptable t ! i) = p_cont (ptable s ! i)"
    by (simp_all add: pv_def)
qed

lemma kept_in_cv:
  assumes "cv t = cv s"
  shows "kept_in s t"
  using cv_eqD [OF assms] by (auto simp: kept_in_def)

lemma runs_cv:
  assumes "cv t = cv s"
  shows "runs me t \<longleftrightarrow> runs me s"
  using cv_eqD [OF assms] by (auto simp: runs_def)

lemma kept_in_trans_cv:
  assumes "kept_in s t" and "cv u = cv t"
  shows "kept_in s u"
  using assms(1) cv_eqD [OF assms(2)] by (simp add: kept_in_def)

lemma kept_in_from:
  assumes "runs me s" and "cv u = cv s" and "kept_in u t"
  shows "kept_in s t"
proof -
  note u = cv_eqD [OF assms(2)]
  have "p_cont (ptable t ! k) = p_cont (ptable s ! (if p_state (ptable s ! k) \<noteq> UNUSED then k else the (cur s)))"
    if "k < length (ptable s)" "p_state (ptable t ! k) \<noteq> UNUSED \<or> cur s = Some k" for k
    using assms(1,3) that u(1,2) u(3,4) [of k] u(4) [of me] by (simp add: kept_in_def runs_def split: if_splits)
  then show ?thesis using assms(3) u(1,2) by (simp add: kept_in_def)
qed

lemma cv_upd: "cv (proc_upd i f s) = ((fst (cv s))[i := pv (f (ptable s ! i))], snd (cv s))"
  by (simp add: cv_def proc_upd_def map_update)

lemma pv_nth: "i < length (ptable s) \<Longrightarrow> pv (ptable s ! i) = fst (cv s) ! i"
  by (simp add: cv_def)

lemma len_cv: "length (ptable s) = length (fst (cv s))"
  by (simp add: cv_def)

lemma p_cont_nth: "i < length (ptable s) \<Longrightarrow> p_cont (ptable s ! i) = snd (fst (cv s) ! i)"
  by (simp add: cv_def pv_def)

lemma pv_state: "pv (p\<lparr>p_state := st\<rparr>) = (st = UNUSED, p_cont p)" "pv (p\<lparr>p_cont := c\<rparr>) = (fst (pv p), c)"
  by (simp_all add: pv_def)

text \<open>The slot \<open>i\<close>, which was free, is taken.\<close>

definition took :: "nat \<Rightarrow> bool \<times> int option \<Rightarrow> 'z kproc_scheme \<Rightarrow> 'y kproc_scheme \<Rightarrow> bool" where
  "took i v s t \<longleftrightarrow> i < length (ptable s) \<and> p_state (ptable s ! i) = UNUSED
     \<and> cv t = ((map pv (ptable s))[i := v], cur s)"

lemma took_upd:
  assumes "took i v s t"
  shows "took i (pv (f (ptable t ! i))) s (proc_upd i f t)"
  using assms by (simp add: took_def cv_upd)

lemma took_cv: "took i v s t \<Longrightarrow> cv u = cv t \<Longrightarrow> took i v s u"
  by (simp add: took_def)

lemma took_at:
  assumes "took i v s t"
  shows "pv (ptable t ! i) = v" "p_cont (ptable t ! i) = snd v"
proof -
  have "length (ptable t) = length (ptable s)" using assms by (simp add: took_def len_cv [of t])
  then show "pv (ptable t ! i) = v" using assms by (simp add: took_def pv_nth)
  then show "p_cont (ptable t ! i) = snd v" by (auto simp: pv_def)
qed

lemma took_other:
  assumes "took i v s t" and "runs me s"
  shows "p_cont (ptable t ! me) = p_cont (ptable s ! me)" "me \<noteq> i"
proof -
  show ne: "me \<noteq> i" using assms by (auto simp: took_def runs_def)
  have "length (ptable t) = length (ptable s)" using assms by (simp add: took_def len_cv [of t])
  then show "p_cont (ptable t ! me) = p_cont (ptable s ! me)"
    using assms ne by (simp add: took_def runs_def p_cont_nth cv_def)
qed

lemma slot_kept_in:
  assumes "cv t = ((map pv (ptable s))[i := v], cur s)"
    and "fst v \<and> cur s \<noteq> Some i \<or> snd v = p_cont (ptable s ! (if p_state (ptable s ! i) \<noteq> UNUSED then i else the (cur s)))"
  shows "kept_in s t"
proof -
  have len: "length (ptable t) = length (ptable s)" and cur: "cur t = cur s"
    using assms(1) by (simp_all add: len_cv [of t] cv_def)
  have at: "(p_state (ptable t ! k) = UNUSED, p_cont (ptable t ! k)) = (if k = i then v else pv (ptable s ! k))"
    if "k < length (ptable s)" for k
    using assms(1) that len pv_nth [of k t] by (simp add: pv_def [of "ptable t ! k"])
  have "p_cont (ptable t ! k) = p_cont (ptable s ! (if p_state (ptable s ! k) \<noteq> UNUSED then k else the (cur s)))"
    if "k < length (ptable s)" "p_state (ptable t ! k) \<noteq> UNUSED \<or> cur s = Some k" for k
    using at [OF that(1)] that(2) assms(2) by (cases "k = i"; cases v) (auto simp: pv_def)
  with len cur show ?thesis by (simp add: kept_in_def)
qed

lemma took_kept_in:
  assumes "took i v s t" and "fst v \<or> snd v = p_cont (ptable s ! me)" and "runs me s"
  shows "kept_in s t"
  by (rule slot_kept_in [of _ _ i v]) (use assms took_other(2) [OF assms(1,3)] in \<open>simp_all add: took_def runs_def\<close>)

lemma allocproc_took:
  "post (\<lambda>(r, t). case r of None \<Rightarrow> cv t = cv s | Some i \<Rightarrow> took i (False, None) s t) (allocproc s)"
proof (cases "ptable_alloc (nextpid s) (ptable s)")
  case None
  then show ?thesis by (simp add: allocproc_def)
next
  case (Some r)
  then obtain i tab where r: "ptable_alloc (nextpid s) (ptable s) = Some (i, tab)" by (cases r) simp
  then have i: "i < length (ptable s)" "p_state (ptable s ! i) = UNUSED"
    and tab: "tab = (ptable s)[i := (ptable s ! i)\<lparr>p_state := EMBRYO, p_pid := nextpid s\<rparr>]"
    by (auto simp: ptable_alloc_def proc_free_def first_idx_Some_iff split: option.splits)
  let ?s = "s\<lparr>ptable := tab, nextpid := i32 (nextpid s + 1)\<rparr>"
  have t0: "took i (False, p_cont (ptable s ! i)) s u" if "cv u = (map pv tab, cur s)" for u :: "'a kmem_scheme"
    using that i by (simp add: took_def tab map_update pv_state)
  have same: "cv u = cv s" if "took i (True, p_cont (ptable s ! i)) s u" for u :: "'a kmem_scheme"
    using that i by (simp add: took_def cv_def pv_def list_update_same_conv)
  have "took i (True, p_cont (ptable s ! i)) s (proc_upd i (\<lambda>p. p\<lparr>p_state := UNUSED\<rparr>) (proc_upd i (\<lambda>p. p\<lparr>p_kstack := k\<rparr>) u))"
    "took i (False, None) s (proc_upd i (\<lambda>p. p\<lparr>p_cont := None\<rparr>) (proc_upd i (\<lambda>p. p\<lparr>p_kstack := k\<rparr>) u))"
    if u: "cv u = (map pv tab, cur s)" for k and u :: "'a kmem_scheme"
    using took_upd [OF took_upd [OF t0 [OF u]], of "\<lambda>p. p\<lparr>p_state := UNUSED\<rparr>" "\<lambda>p. p\<lparr>p_kstack := k\<rparr>"]
      took_upd [OF took_upd [OF t0 [OF u]], of "\<lambda>p. p\<lparr>p_cont := None\<rparr>" "\<lambda>p. p\<lparr>p_kstack := k\<rparr>"]
      took_at [OF took_upd [OF t0 [OF u], of "\<lambda>p. p\<lparr>p_kstack := k\<rparr>"]] took_at [OF t0 [OF u]]
    by (simp_all add: pv_state)
  then show ?thesis
    unfolding allocproc_def r by (auto simp: Let_def intro!: wp same)
qed

lemma fork_files_cv: "post (\<lambda>t. cv t = cv s) (foldR (fork_file me np) fds s)"
  by (rule foldR_cv) (auto simp: fork_file_def cv_proc_upd intro!: wp split: option.splits)

lemma post_weak: "post P m \<Longrightarrow> (\<And>x. P x \<Longrightarrow> Q x) \<Longrightarrow> post Q m"
  by (cases m) auto

lemma took_pv:
  assumes "took i v s t" and "\<And>p. pv (f p) = pv p"
  shows "took i v s (proc_upd i f t)"
  using took_cv [OF assms(1) cv_proc_upd [of f i, OF assms(2)]] .

lemma fork_kept_in:
  assumes "runs me s"
  shows "post (\<lambda>(r, t). kept_in s t) (fork s)"
proof -
  have fin: "kept_in s (proc_upd np (\<lambda>p. p\<lparr>p_state := RUNNABLE, p_ticks := 0, p_cont := p_cont (ptable t ! me)\<rparr>) u)"
    if "took np v s b" "cv u = cv b" "cv t = cv b" for np v and t u b :: "'a kfile_scheme"
    by (rule took_kept_in [OF took_upd [OF took_cv [OF that(1,2)]] _ assms])
      (simp add: pv_state pv_def took_other(1) [OF took_cv [OF that(1,3)] assms])
  have fail: "kept_in s (proc_upd np (\<lambda>p. p\<lparr>p_kstack := 0, p_state := UNUSED\<rparr>) u)"
    if "took np v s b" "cv u = cv b" for np v and u b :: "'a kfile_scheme"
    by (rule took_kept_in [OF took_upd [OF took_cv [OF that]] _ assms]) (simp add: pv_def)
  have "cur s = Some me" using assms by (simp add: runs_def)
  then show ?thesis
    unfolding fork_def myproc_def
    by (auto simp: Let_def cv_proc_upd intro!: post_bnd post_weak [OF allocproc_took] copyuvm_cv kfree_cv fork_files_cv [THEN post1]
        elim!: kept_in_cv fail fin split: option.splits)
qed

lemma reap_cv:
  assumes "i < length (ptable s)"
  shows "post (\<lambda>(r, t). cv t = ((map pv (ptable s))[i := (True, p_cont (ptable s ! i))], cur s)) (reap i s)"
proof -
  have upd: "cv (proc_upd i (\<lambda>p. p\<lparr>p_pid := 0, p_parent := None, p_name := [], p_killed := False, p_state := UNUSED\<rparr>) t)
      = ((map pv (ptable s))[i := (True, p_cont (ptable s ! i))], cur s)" if "cv t = cv s" for t :: "'a kmem_scheme"
    using that assms cv_eqD(4) [OF that assms] by (simp add: cv_upd pv_def) (simp add: cv_def pv_def)
  show ?thesis
    unfolding reap_def by (auto simp: Let_def cv_proc_upd upd intro!: wp)
qed

lemma wait_kept_in: "post (\<lambda>(r, t). kept_in s t) (wait s)"
proof -
  have "post (\<lambda>(r, t). kept_in s t) (reap i s)" if "i < length (ptable s)" for i
    by (rule post_weak [OF reap_cv [OF that]]) (auto elim!: slot_kept_in split: if_splits)
  then show ?thesis
    by (auto simp: wait_def kept_in_cv dest!: first_idx_SomeD split: option.splits)
qed

lemma exit_slot:
  assumes "cur s = Some me"
  shows "post (\<lambda>t. cv t = ((map pv (ptable s))[me := (False, p_cont (ptable s ! me))], cur s)) (exit s)"
proof -
  have files: "post (\<lambda>t. cv t = cv u) (foldR (exit_file me) fds u)" for fds and u :: "'a kfile_scheme"
    by (rule foldR_cv) (auto simp: exit_file_def cv_proc_upd intro!: wp split: option.splits)
  have child: "cv (fold (exit_child me) is u) = cv u" for "is" and u :: "'a kfile_scheme"
    by (rule fold_cv) (auto simp: exit_child_def Let_def cv_proc_upd)
  have zombie: "cv (proc_upd me (\<lambda>p. p\<lparr>p_state := ZOMBIE\<rparr>) t) = ((map pv (ptable s))[me := (False, p_cont (ptable s ! me))], Some me)"
    if t: "cv t = cv s" for t :: "'a kfile_scheme"
    using cv_eqD(2) [OF t] cv_eqD(4) [OF t, of me] assms
    by (cases "me < length (ptable s)") (simp_all add: cv_upd t pv_state, simp_all add: cv_def list_update_beyond)
  show ?thesis
    unfolding exit_def myproc_def
    by (auto simp: assms Let_def cv_proc_upd child intro!: wp zombie files [THEN post1] split: option.splits)
qed

lemma exit_kept_in:
  fixes t :: "'a kfile_scheme"
  assumes "kept_in s t" and "cur s = Some me"
  shows "post (kept_in s) (exit t)"
proof (rule post_weak)
  show "post (\<lambda>u. cv u = ((map pv (ptable t))[me := (False, p_cont (ptable t ! me))], cur t)) (exit t)"
    by (rule exit_slot) (use assms in \<open>simp add: kept_in_def\<close>)
next
  fix u :: "'a kfile_scheme"
  assume u: "cv u = ((map pv (ptable t))[me := (False, p_cont (ptable t ! me))], cur t)"
  have same: "p_cont (ptable u ! k) = p_cont (ptable t ! k)"
    "k \<noteq> me \<Longrightarrow> p_state (ptable u ! k) = UNUSED \<longleftrightarrow> p_state (ptable t ! k) = UNUSED" if "k < length (ptable t)" for k
  proof -
    have "pv (ptable u ! k) = (map pv (ptable t))[me := (False, p_cont (ptable t ! me))] ! k"
      using u that by (simp add: pv_nth len_cv [of u])
    then show "p_cont (ptable u ! k) = p_cont (ptable t ! k)"
      "k \<noteq> me \<Longrightarrow> p_state (ptable u ! k) = UNUSED \<longleftrightarrow> p_state (ptable t ! k) = UNUSED"
      using that by (cases "k = me"; simp add: pv_def)+
  qed
  have "length (ptable u) = length (ptable t)" "cur u = cur t" using u by (simp_all add: len_cv [of u]) (simp add: cv_def)
  then show "kept_in s u" using assms same unfolding kept_in_def by (metis option.inject)
qed

section \<open>Traps\<close>

definition SYS_cont_proc_set :: int where "SYS_cont_proc_set = 40"

lemma sys_fork_kept_in:
  assumes "runs me s"
  shows "post (\<lambda>(r, t). kept_in s t) (sys_fork s)"
proof -
  have fork: "post (\<lambda>(r, t). kept_in s t) (fork u)" if "cv u = cv s" for u :: "'a kfile_scheme"
    by (rule post_weak [OF fork_kept_in]) (use assms runs_cv [OF that] kept_in_from [OF assms that] in auto)
  have "post (\<lambda>(r, t). kept_in s t) (bnd (fork u) (\<lambda>(r, t). Inr (Ret r, t)))" if "cv u = cv s" for u :: "'a kfile_scheme"
    by (rule post_bnd, rule post_weak [OF fork [OF that]]) auto
  then show ?thesis
    unfolding sys_fork_def by (auto simp: Let_def intro!: wp kept_in_cv simp del: post_bnd)
qed

lemma sys_exit_kept_in:
  assumes "runs me s"
  shows "post (\<lambda>(r, t). kept_in s t) (sys_exit s)"
proof -
  have me: "cur s = Some me" using assms by (simp add: runs_def)
  have "post (\<lambda>t. kept_in s t) (exit u)" if "cv u = cv s" for u :: "'a kfile_scheme"
    using exit_kept_in [OF kept_in_cv [OF that] me] .
  then show ?thesis
    unfolding sys_exit_def by (auto simp: Let_def intro!: wp)
qed

lemma sys_wait_kept_in: "post (\<lambda>(r, t). kept_in s t) (sys_wait s)"
  unfolding sys_wait_def by (rule post_bnd, rule post_weak [OF wait_kept_in]) auto

lemma call_kept_in: "post (\<lambda>(x, t). cv t = cv s) m \<Longrightarrow> post (\<lambda>(r, t). kept_in s t) m"
  by (erule post_weak) (auto intro: kept_in_cv)

lemmas calls_cv = sys_file_cv sys_mknod_cv sys_chdir_cv sys_pipe_cv

lemmas proc_calls_cv = sys_kill_cv sys_getpid_cv sys_sbrk_cv sys_sleep_cv sys_uptime_cv sys_getticks_cv sys_cstop_cv
  sys_container_init_cv sys_is_full_cv sys_find_cv sys_get_name_cv sys_get_os_cv sys_set_name_cv sys_set_os_cv
  sys_container_reset_cv sys_max_containers_cv sys_get_used_cv sys_tick_reset2_cv sys_ps_cv sys_df_cv sys_get_cticks_cv
  sys_table_cv

lemma syscalls_split: "syscalls = take 39 syscalls @ sys_cont_proc_set # drop 40 syscalls"
  by (simp add: syscalls_def)

lemma calls_kept_in:
  assumes "runs me s"
  shows "\<forall>f \<in> set (take 39 syscalls). post (\<lambda>(r, t). kept_in s t) (f s)"
    "\<forall>f \<in> set (drop 40 syscalls). post (\<lambda>(r, t). kept_in s t) (f s)"
  unfolding syscalls_def
  by (simp_all add: sys_fork_kept_in [OF assms] sys_exit_kept_in [OF assms] sys_wait_kept_in call_kept_in proc_calls_cv
      ret_int_cv calls_cv)

lemma syscall_kept_in:
  assumes "runs me s" and "sint (tf_eax (p_tf (ptable s ! me))) \<noteq> SYS_cont_proc_set"
  shows "post (\<lambda>(r, t). kept_in s t) (syscall junk s)"
proof -
  let ?num = "sint (tf_eax (p_tf (ptable s ! me)))"
  have me: "my_proc s = Inr (ptable s ! me)"
    using assms(1) by (simp add: runs_def my_proc_def myproc_def fetch_def)
  have call: "post (\<lambda>(r, t). kept_in s t) ((syscalls ! k) s)" if "k < length (syscalls :: ('a kfile_scheme \<Rightarrow> _) list)" "k \<noteq> 39" for k
  proof (cases "k < 39")
    case True
    then have "(syscalls :: ('a kfile_scheme \<Rightarrow> _) list) ! k \<in> set (take 39 syscalls)"
      using that(1) by (metis in_set_conv_nth length_take min_less_iff_conj nth_take)
    then show ?thesis using calls_kept_in(1) [OF assms(1)] by blast
  next
    case False
    then have k: "40 \<le> k" using that(2) by simp
    then have "(syscalls :: ('a kfile_scheme \<Rightarrow> _) list) ! k \<in> set (drop 40 syscalls)"
      using that(1) by (auto simp: in_set_conv_nth intro!: exI [of _ "k - 40"])
    then show ?thesis using calls_kept_in(2) [OF assms(1)] by blast
  qed
  have eax: "post (\<lambda>t. kept_in s t) (set_eax v u)" if "kept_in s u" for v and u :: "'a kfile_scheme"
    unfolding set_eax_def by (auto intro!: wp kept_in_trans_cv [OF that])
  have eax': "post (\<lambda>(r, t). kept_in s t) (bnd (set_eax v u) (\<lambda>t. Inr (b, t)))" if "kept_in s u" for v b and u :: "'a kfile_scheme"
    by (rule post_bnd, rule post_weak [OF eax [OF that]]) simp
  have "post (\<lambda>(r, t). kept_in s t) (bnd ((syscalls ! nat (?num - 1)) s) (\<lambda>(r, s). case r of
          Ret v \<Rightarrow> bnd (set_eax (word_of_int v) s) (\<lambda>s. Inr (True, s))
        | Void \<Rightarrow> bnd (set_eax junk s) (\<lambda>s. Inr (True, s)) | Exited \<Rightarrow> Inr (False, s)))"
    if "0 < ?num" "?num < int (length (syscalls :: ('a kfile_scheme \<Rightarrow> _) list)) + 1"
    by (rule post_bnd, rule post_weak [OF call])
      (use that assms(2) in \<open>auto simp: SYS_cont_proc_set_def eax' split: sysret.splits\<close>)
  then show ?thesis
    unfolding syscall_def by (auto simp: me Let_def intro!: eax' kept_in_cv)
qed

lemma trap_syscall_kept_in:
  assumes "runs me s" and "sint (tf_eax tf) \<noteq> SYS_cont_proc_set"
  shows "post (\<lambda>(r, t). kept_in s t) (trap_syscall junk tf s)"
proof -
  have me: "my_proc s = Inr (ptable s ! me)" and cur: "cur s = Some me" and bound: "me < length (ptable s)"
    using assms(1) by (simp_all add: runs_def my_proc_def myproc_def fetch_def)
  let ?s = "proc_upd me (\<lambda>p. p\<lparr>p_tf := tf\<rparr>) s"
  have same: "cv ?s = cv s" by (simp add: cv_proc_upd)
  have "runs me ?s" using runs_cv [OF same] assms(1) by blast
  then have "post (\<lambda>(r, t). kept_in ?s t) (syscall junk ?s)"
    by (rule syscall_kept_in) (use assms(2) bound in \<open>simp add: proc_upd_def\<close>)
  then have call: "post (\<lambda>(r, t). kept_in s t) (syscall junk ?s)"
    by (rule post_weak) (use kept_in_from [OF assms(1) same] in auto)
  have "post (\<lambda>(r, t). kept_in s t) (bnd (syscall junk ?s) (\<lambda>(runs, s).
      if \<not> runs then Inr (Ended, s)
      else bnd (my_proc s) (\<lambda>me. if p_killed me then bnd (exit s) (\<lambda>s. Inr (Ended, s)) else Inr (Returned, s))))"
    by (rule post_bnd, rule post_weak [OF call]) (auto intro!: wp exit_kept_in [OF _ cur])
  then show ?thesis
    unfolding trap_syscall_def
    by (auto simp: me my_upd_def myproc_def cur intro!: post_bnd exit_kept_in [OF _ cur] kept_in_cv)
qed

lemma trap_device_cv [THEN post1, wp]: "post (\<lambda>t. cv t = cv s) (trap_device cpu0 keys tf s)"
proof -
  have tick: "post (\<lambda>t. cv t = cv u) (tick_proc u)" for u :: "'a kfile_scheme"
    unfolding tick_proc_def by (auto intro!: wp split: option.splits)
  show ?thesis
    unfolding trap_device_def timer_tick_def memide_intr_def by (auto simp: Let_def intro!: wp tick [THEN post1])
qed

lemma trap_resume_kept_in:
  fixes t :: "'a kfile_scheme"
  assumes "kept_in s t" and "cur s = Some me"
  shows "post (\<lambda>(r, u). kept_in s u) (trap_resume tf t)"
  unfolding trap_resume_def using assms(1) by (auto intro!: wp exit_kept_in [OF _ assms(2)])

text \<open>C1: No trap that is handled to its end, be it a system call, an interrupt or a fault, moves a process to another container:
  the processes in use stay where they were and a new one starts in the container of the process
  that runs. The one exception is the call \<^verbatim>\<open>cont_proc_set\<close>. The theorem is about the paths on which the kernel
  returns to the process, ends it or gives its processor away at the end of its time slice. A path that puts
  the process to sleep inside the call (result \<open>Blocked\<close>), a panic, and an access outside an array (\<open>Fault\<close>) have no state after
  them here, and nothing is said of them.\<close>

theorem trap_keeps_containers:
  assumes "cur s = Some me" and "me < length (ptable s)" and "p_state (ptable s ! me) \<noteq> UNUSED"
    and "tf_trapno tf = T_SYSCALL \<Longrightarrow> sint (tf_eax tf) \<noteq> SYS_cont_proc_set"
    and "trap cpu0 keys junk tf s = Inr (r, t)"
    and "i < length (ptable s)" and "p_state (ptable t ! i) \<noteq> UNUSED"
  shows "p_cont (ptable t ! i) = p_cont (ptable s ! (if p_state (ptable s ! i) \<noteq> UNUSED then i else me))"
proof -
  have run: "runs me s" using assms by (simp add: runs_def)
  have yield: "kept_in s (proc_upd me (\<lambda>p. p\<lparr>p_state := RUNNABLE\<rparr>) u)" if u: "cv u = cv s" for u
  proof (rule slot_kept_in)
    show "cv (proc_upd me (\<lambda>p. p\<lparr>p_state := RUNNABLE\<rparr>) u) = ((map pv (ptable s))[me := (False, p_cont (ptable s ! me))], cur s)"
      using cv_eqD(4) [OF u assms(2)] by (simp add: cv_upd u pv_state) (simp add: cv_def)
  qed (simp add: assms(3))
  have "post (\<lambda>(r, t). kept_in s t) (bnd (killed_now u) (\<lambda>k.
      if k \<and> tf_cs tf AND 3 = DPL_USER then bnd (exit u) (\<lambda>s. Inr (Ended, s))
      else case myproc u of None \<Rightarrow> trap_resume tf u
        | Some i \<Rightarrow> if p_state (ptable u ! i) = RUNNING \<and> tf_trapno tf = T_IRQ0 + IRQ_TIMER
            then bnd (my_upd (\<lambda>p. p\<lparr>p_state := RUNNABLE\<rparr>) u) (\<lambda>s. Inr (Yielded, s)) else trap_resume tf u))"
    if u: "cv u = cv s" for u
    using kept_in_cv [OF u] cv_eqD(1) [OF u] yield [OF u] assms(1)
    by (auto simp: my_upd_def myproc_def intro!: post_bnd readers file_readers exit_kept_in [OF _ assms(1)]
        trap_resume_kept_in [OF _ assms(1)])
  then have "post (\<lambda>(r, t). kept_in s t) (trap cpu0 keys junk tf s)"
    unfolding trap_def using trap_syscall_kept_in [OF run] assms(4) by (auto intro!: post_bnd [OF trap_device_cv])
  with assms show ?thesis by (auto simp: kept_in_def)
qed

theorem trap_keeps_containers_witness:
  "\<exists>t. trap True [] 0 (tf_user\<lparr>tf_trapno := 64, tf_eax := 11\<rparr>) (kfile_ex [] (\<lambda>_. None)) = Inr (Returned, t)
     \<and> p_cont (ptable t ! 1) = p_cont (procs_ex ! 1)"
proof -
  let ?tf = "tf_user\<lparr>tf_trapno := 64, tf_eax := 11\<rparr>" and ?s = "kfile_ex [] (\<lambda>_. None)"
  have run: "cur ?s = Some 0" "ptable ?s = procs_ex" "0 < length procs_ex" "1 < length procs_ex"
    "p_state (procs_ex ! 0) \<noteq> UNUSED" "p_state (procs_ex ! Suc 0) \<noteq> UNUSED"
    by (simp_all add: procs_ex_def)
  have sys: "length (syscalls :: (kfile \<Rightarrow> _) list) = 57" "(syscalls :: (kfile \<Rightarrow> _) list) ! 10 = sys_getpid"
    by (simp_all add: syscalls_def)
  have p: "length procs_ex = 64" "\<not> p_killed (procs_ex ! 0)" by (simp_all add: procs_ex_def proc0_def)
  obtain t where t: "trap True [] 0 ?tf ?s = Inr (Returned, t)" "p_state (ptable t ! 1) \<noteq> UNUSED"
    by (simp add: trap_def T_SYSCALL_def trap_syscall_def my_proc_def fetch_def myproc_def my_upd_def proc_upd_def
        syscall_def sys sys_getpid_def set_eax_def in_range_def p run)
  show ?thesis
    using trap_keeps_containers [OF run(1) _ _ _ t(1), of 1] t run by (simp add: SYS_cont_proc_set_def T_SYSCALL_def)
qed

end
