(* ===== verification/Sh.thy ===== *)
theory Sh
  imports Sysfile
begin

text \<open>
  The parser of the shell (\<^verbatim>\<open>sh.c\<close>).

  The parser works on the line buffer itself. A pointer into the buffer is a position; a parsed
  command holds positions, and \<open>nulterminate\<close> stores a NUL behind every word at the end.
  A read outside the buffer is the error \<open>Sh_fault\<close>. The recursion of the parser is bounded by
  fuel; \<open>parsecmd_ends\<close> shows that the fuel \<open>parsecmd\<close> gives never runs out. \<^verbatim>\<open>malloc\<close> is taken to
  succeed: the constructors do not test its result.
\<close>

section \<open>Commands\<close>

definition MAXARGS :: nat where "MAXARGS = 10"

text \<open>\<open>EXEC\<close> lists the pairs of \<^verbatim>\<open>argv[i]\<close> and \<^verbatim>\<open>eargv[i]\<close> in front of the null pointer.\<close>

datatype cmd =
    EXEC "(nat \<times> nat) list"
  | REDIR cmd nat nat u32 nat
  | PIPE cmd cmd
  | LIST cmd cmd
  | BACK cmd

definition execcmd :: cmd where [simp]: "execcmd = EXEC []"
definition redircmd :: "cmd \<Rightarrow> nat \<Rightarrow> nat \<Rightarrow> u32 \<Rightarrow> nat \<Rightarrow> cmd" where
  [simp]: "redircmd subcmd file efile mode fd = REDIR subcmd file efile mode fd"
definition pipecmd :: "cmd \<Rightarrow> cmd \<Rightarrow> cmd" where [simp]: "pipecmd left right = PIPE left right"
definition listcmd :: "cmd \<Rightarrow> cmd \<Rightarrow> cmd" where [simp]: "listcmd left right = LIST left right"
definition backcmd :: "cmd \<Rightarrow> cmd" where [simp]: "backcmd subcmd = BACK subcmd"

text \<open>How a run of the parser can end without a command: by \<^verbatim>\<open>panic\<close>, after the message on the
  leftovers of the line, by a read outside the buffer, or for lack of fuel.\<close>

datatype sherr = Sh_panic string | Sh_leftovers string | Sh_fault | Sh_fuel

definition cget :: "string \<Rightarrow> nat \<Rightarrow> sherr + char" where
  "cget b s = (if s < length b then Inr (b ! s) else Inl Sh_fault)"

section \<open>Tokens\<close>

definition whitespace :: string where
  "whitespace = [CHR '' '', CHR 0x09, CHR 0x0D, CHR 0x0A, CHR 0x0B]"

definition symbols :: string where
  "symbols = ''<|>&;()''"

function skip_ws :: "string \<Rightarrow> nat \<Rightarrow> nat \<Rightarrow> sherr + nat" where
  "skip_ws b es s =
     (if s < es
      then bnd (cget b s) (\<lambda>c. if strchr whitespace c \<noteq> None then skip_ws b es (s + 1) else Inr s)
      else Inr s)"
  by pat_completeness auto
termination
  by (relation "measure (\<lambda>(b, es, s). es - s)") auto

function skip_word :: "string \<Rightarrow> nat \<Rightarrow> nat \<Rightarrow> sherr + nat" where
  "skip_word b es s =
     (if s < es
      then bnd (cget b s) (\<lambda>c.
             if strchr whitespace c = None \<and> strchr symbols c = None then skip_word b es (s + 1) else Inr s)
      else Inr s)"
  by pat_completeness auto
termination
  by (relation "measure (\<lambda>(b, es, s). es - s)") auto

declare skip_ws.simps [simp del] skip_word.simps [simp del]

text \<open>The switch of \<^verbatim>\<open>gettoken\<close> on the character at \<open>s\<close>: the kind of token and its end.\<close>

definition token_at :: "string \<Rightarrow> nat \<Rightarrow> nat \<Rightarrow> sherr + (char \<times> nat)" where
  "token_at b es s =
     bnd (cget b s) (\<lambda>c.
       if c = NUL then Inr (c, s)
       else if c \<in> {CHR ''|'', CHR ''('', CHR '')'', CHR '';'', CHR ''&'', CHR ''<''} then Inr (c, s + 1)
       else if c = CHR ''>''
       then bnd (cget b (s + 1)) (\<lambda>d. if d = CHR ''>'' then Inr (CHR ''+'', s + 2) else Inr (c, s + 1))
       else bnd (skip_word b es s) (\<lambda>e. Inr (CHR ''a'', e)))"

text \<open>The token, its first position, its end, and the new position.\<close>

definition gettoken :: "string \<Rightarrow> nat \<Rightarrow> nat \<Rightarrow> sherr + (char \<times> nat \<times> nat \<times> nat)" where
  "gettoken b es s =
     bnd (skip_ws b es s) (\<lambda>q.
     bnd (token_at b es q) (\<lambda>(ret, eq).
     bnd (skip_ws b es eq) (\<lambda>s. Inr (ret, q, eq, s))))"

definition peek :: "string \<Rightarrow> nat \<Rightarrow> string \<Rightarrow> nat \<Rightarrow> sherr + (bool \<times> nat)" where
  "peek b es toks s =
     bnd (skip_ws b es s) (\<lambda>s.
     bnd (cget b s) (\<lambda>c. Inr (c \<noteq> NUL \<and> strchr toks c \<noteq> None, s)))"

section \<open>The grammar\<close>

definition redir_of :: "char \<Rightarrow> cmd \<Rightarrow> nat \<Rightarrow> nat \<Rightarrow> cmd" where
  "redir_of tok cmd q eq =
     (if tok = CHR ''<'' then redircmd cmd q eq O_RDONLY 0
      else if tok = CHR ''>'' then redircmd cmd q eq (O_WRONLY OR O_CREATE) 1
      else if tok = CHR ''+'' then redircmd cmd q eq (O_WRONLY OR O_CREATE) 1
      else cmd)"

fun parseredirs :: "nat \<Rightarrow> string \<Rightarrow> nat \<Rightarrow> cmd \<Rightarrow> nat \<Rightarrow> sherr + (cmd \<times> nat)" where
  "parseredirs 0 b es cmd s = Inl Sh_fuel"
| "parseredirs (Suc n) b es cmd s =
     bnd (peek b es ''<>'' s) (\<lambda>(p, s).
       if \<not> p then Inr (cmd, s)
       else bnd (gettoken b es s) (\<lambda>(tok, _, _, s).
            bnd (gettoken b es s) (\<lambda>(t, q, eq, s).
              if t \<noteq> CHR ''a'' then Inl (Sh_panic ''missing file for redirection'')
              else parseredirs n b es (redir_of tok cmd q eq) s)))"

text \<open>\<^verbatim>\<open>cmd->argv[argc] = q; cmd->eargv[argc] = eq\<close>: \<^verbatim>\<open>cmd\<close> is the \<^verbatim>\<open>execcmd\<close> at the bottom of the
  redirections.\<close>

fun exec_arg :: "nat \<times> nat \<Rightarrow> cmd \<Rightarrow> cmd" where
  "exec_arg a (EXEC args) = EXEC (args @ [a])"
| "exec_arg a (REDIR c q eq mode fd) = REDIR (exec_arg a c) q eq mode fd"
| "exec_arg a c = c"

fun parseargs :: "nat \<Rightarrow> string \<Rightarrow> nat \<Rightarrow> nat \<Rightarrow> cmd \<Rightarrow> nat \<Rightarrow> sherr + (cmd \<times> nat)" where
  "parseargs 0 b es argc ret s = Inl Sh_fuel"
| "parseargs (Suc n) b es argc ret s =
     bnd (peek b es ''|)&;'' s) (\<lambda>(p, s).
       if p then Inr (ret, s)
       else bnd (gettoken b es s) (\<lambda>(tok, q, eq, s).
         if tok = NUL then Inr (ret, s)
         else if tok \<noteq> CHR ''a'' then Inl (Sh_panic ''syntax'')
         else if argc + 1 \<ge> MAXARGS then Inl (Sh_panic ''too many args'')
         else bnd (parseredirs n b es (exec_arg (q, eq) ret) s) (\<lambda>(ret, s).
              parseargs n b es (argc + 1) ret s)))"

text \<open>The loop of \<^verbatim>\<open>parseline\<close> over the ampersands.\<close>

fun parsebacks :: "nat \<Rightarrow> string \<Rightarrow> nat \<Rightarrow> cmd \<Rightarrow> nat \<Rightarrow> sherr + (cmd \<times> nat)" where
  "parsebacks 0 b es cmd s = Inl Sh_fuel"
| "parsebacks (Suc n) b es cmd s =
     bnd (peek b es ''&'' s) (\<lambda>(p, s).
       if p then bnd (gettoken b es s) (\<lambda>(_, _, _, s). parsebacks n b es (backcmd cmd) s)
       else Inr (cmd, s))"

fun parseline :: "nat \<Rightarrow> string \<Rightarrow> nat \<Rightarrow> nat \<Rightarrow> sherr + (cmd \<times> nat)"
  and parsepipe :: "nat \<Rightarrow> string \<Rightarrow> nat \<Rightarrow> nat \<Rightarrow> sherr + (cmd \<times> nat)"
  and parseexec :: "nat \<Rightarrow> string \<Rightarrow> nat \<Rightarrow> nat \<Rightarrow> sherr + (cmd \<times> nat)"
  and parseblock :: "nat \<Rightarrow> string \<Rightarrow> nat \<Rightarrow> nat \<Rightarrow> sherr + (cmd \<times> nat)" where
  "parseline 0 b es s = Inl Sh_fuel"
| "parseline (Suc n) b es s =
     bnd (parsepipe n b es s) (\<lambda>(cmd, s).
     bnd (parsebacks n b es cmd s) (\<lambda>(cmd, s).
     bnd (peek b es '';'' s) (\<lambda>(p, s).
       if p
       then bnd (gettoken b es s) (\<lambda>(_, _, _, s).
            bnd (parseline n b es s) (\<lambda>(right, s). Inr (listcmd cmd right, s)))
       else Inr (cmd, s))))"
| "parsepipe 0 b es s = Inl Sh_fuel"
| "parsepipe (Suc n) b es s =
     bnd (parseexec n b es s) (\<lambda>(cmd, s).
     bnd (peek b es ''|'' s) (\<lambda>(p, s).
       if p
       then bnd (gettoken b es s) (\<lambda>(_, _, _, s).
            bnd (parsepipe n b es s) (\<lambda>(right, s). Inr (pipecmd cmd right, s)))
       else Inr (cmd, s)))"
| "parseexec 0 b es s = Inl Sh_fuel"
| "parseexec (Suc n) b es s =
     bnd (peek b es ''('' s) (\<lambda>(p, s).
       if p then parseblock n b es s
       else bnd (parseredirs n b es execcmd s) (\<lambda>(ret, s). parseargs n b es 0 ret s))"
| "parseblock 0 b es s = Inl Sh_fuel"
| "parseblock (Suc n) b es s =
     bnd (peek b es ''('' s) (\<lambda>(p, s).
       if \<not> p then Inl (Sh_panic ''parseblock'')
       else bnd (gettoken b es s) (\<lambda>(_, _, _, s).
            bnd (parseline n b es s) (\<lambda>(cmd, s).
            bnd (peek b es '')'' s) (\<lambda>(p, s).
              if \<not> p then Inl (Sh_panic ''syntax - missing )'')
              else bnd (gettoken b es s) (\<lambda>(_, _, _, s). parseredirs n b es cmd s)))))"

fun nulterminate :: "cmd \<Rightarrow> string \<Rightarrow> string" where
  "nulterminate (EXEC args) b = foldl (\<lambda>b (q, eq). b[eq := NUL]) b args"
| "nulterminate (REDIR c q eq mode fd) b = (nulterminate c b)[eq := NUL]"
| "nulterminate (PIPE l r) b = nulterminate r (nulterminate l b)"
| "nulterminate (LIST l r) b = nulterminate r (nulterminate l b)"
| "nulterminate (BACK c) b = nulterminate c b"

text \<open>The result is the command and the buffer with its words terminated.\<close>

definition parsecmd :: "string \<Rightarrow> sherr + (cmd \<times> string)" where
  "parsecmd b =
     (let es = strlen b
      in bnd (parseline (4 * es + 4) b es 0) (\<lambda>(cmd, s).
         bnd (peek b es '''' s) (\<lambda>(_, s).
           if s \<noteq> es then Inl (Sh_leftovers (cstr (drop s b)))
           else Inr (cmd, nulterminate cmd b))))"


section \<open>The scanner on the rest of the line\<close>

lemma strchr_None [simp]: "strchr s c = None \<longleftrightarrow> c \<notin> set (cstr s)"
proof (induction s c rule: strchr.induct)
  case (1 s c)
  show ?case
  proof (cases s)
    case Nil
    then show ?thesis by (simp add: strchr.simps deref_def cstr_def)
  next
    case (Cons a t)
    with 1 show ?thesis by (subst strchr.simps) (auto simp: deref_def cstr_def)
  qed
qed

definition ws :: "char \<Rightarrow> bool" where
  "ws c \<longleftrightarrow> c \<in> set whitespace"

definition wordc :: "char \<Rightarrow> bool" where
  "wordc c \<longleftrightarrow> c \<noteq> NUL \<and> c \<notin> set whitespace \<and> c \<notin> set symbols"

lemma set_whitespace [simp]: "set (cstr whitespace) = set whitespace" "set (cstr symbols) = set symbols"
  by (simp_all add: whitespace_def symbols_def)

text \<open>A line ends at its terminator \<open>es\<close>. At position \<open>s\<close>, the characters \<open>r\<close> are left.\<close>

definition line_ok :: "string \<Rightarrow> nat \<Rightarrow> bool" where
  "line_ok b es \<longleftrightarrow> es < length b \<and> b ! es = NUL \<and> NUL \<notin> set (take es b)"

definition left_at :: "string \<Rightarrow> nat \<Rightarrow> nat \<Rightarrow> string \<Rightarrow> bool" where
  "left_at b es s r \<longleftrightarrow> line_ok b es \<and> s \<le> es \<and> r = drop s (take es b)"

lemma left_atD:
  assumes "left_at b es s r"
  shows "length r = es - s" "NUL \<notin> set r" "es < length b" "s + length r = es"
  using assms by (auto simp: left_at_def line_ok_def dest: in_set_dropD)

lemma left_at_Nil: "left_at b es s [] \<Longrightarrow> s = es \<and> cget b s = Inr NUL"
  by (auto simp: left_at_def line_ok_def cget_def)

lemma left_at_Cons:
  assumes "left_at b es s (c # r)"
  shows "s < es" "cget b s = Inr c" "left_at b es (Suc s) r" "c \<noteq> NUL"
proof -
  from assms have l: "s \<le> es" "es < length b" "c # r = drop s (take es b)" "line_ok b es"
    by (simp_all add: left_at_def line_ok_def)
  then show "s < es" by (cases "s < es") simp_all
  have "take es b ! s = c" using l(3) by (metis nth_via_drop)
  with l \<open>s < es\<close> show "cget b s = Inr c" by (simp add: cget_def)
  show "left_at b es (Suc s) r" using l \<open>s < es\<close> by (simp add: left_at_def) (metis drop_Suc list.sel(3) tl_drop)
  show "c \<noteq> NUL" using left_atD(2) [OF assms] by auto
qed

lemma left_at_append: "left_at b es s (u @ r) \<Longrightarrow> left_at b es (s + length u) r"
  by (induction u arbitrary: s) (simp, fastforce dest: left_at_Cons(3))

lemma skip_ws_left:
  "left_at b es s r \<Longrightarrow> \<exists>t. skip_ws b es s = Inr t \<and> left_at b es t (dropWhile ws r)"
proof (induction r arbitrary: s)
  case Nil
  from left_at_Nil [OF Nil] Nil show ?case by (subst skip_ws.simps) simp
next
  case (Cons c r)
  note c = left_at_Cons [OF Cons.prems]
  show ?case
  proof (cases "ws c")
    case True
    with Cons.IH [OF c(3)] c(1,2) show ?thesis by (subst skip_ws.simps) (simp add: ws_def [symmetric])
  next
    case False
    with Cons.prems c(1,2) show ?thesis by (subst skip_ws.simps) (simp add: ws_def [symmetric])
  qed
qed

lemma skip_word_left:
  "left_at b es s r \<Longrightarrow> skip_word b es s = Inr (s + length (takeWhile wordc r))
     \<and> left_at b es (s + length (takeWhile wordc r)) (dropWhile wordc r)"
proof (induction r arbitrary: s)
  case Nil
  from left_at_Nil [OF Nil] Nil show ?case by (subst skip_word.simps) simp
next
  case (Cons c r)
  note c = left_at_Cons [OF Cons.prems]
  have w: "c \<notin> set whitespace \<and> c \<notin> set symbols \<longleftrightarrow> wordc c" using c(4) by (simp add: wordc_def)
  show ?case
  proof (cases "wordc c")
    case True
    with Cons.IH [OF c(3)] c(1,2) show ?thesis by (subst skip_word.simps) (simp add: w)
  next
    case False
    with Cons.prems c(1,2) show ?thesis by (subst skip_word.simps) (simp add: w)
  qed
qed

text \<open>What \<open>peek\<close> and \<open>gettoken\<close> do, by the first character that is no white space.\<close>

lemma peek_left:
  assumes "left_at b es s r"
  shows "\<exists>t. peek b es toks s = Inr (case dropWhile ws r of [] \<Rightarrow> False | c # _ \<Rightarrow> c \<in> set (cstr toks), t)
    \<and> left_at b es t (dropWhile ws r)"
proof -
  obtain t where t: "skip_ws b es s = Inr t" "left_at b es t (dropWhile ws r)" using skip_ws_left [OF assms] by blast
  have "cget b t = Inr NUL \<and> dropWhile ws r = [] \<or> (\<exists>c r'. cget b t = Inr c \<and> c \<noteq> NUL \<and> dropWhile ws r = c # r')"
    using left_at_Nil [of b es t] left_at_Cons [of b es t] t(2) by (cases "dropWhile ws r") auto
  with t show ?thesis by (elim disjE exE conjE) (simp_all only: peek_def bnd_simps list.case, auto)
qed

lemma gettoken_end:
  assumes "left_at b es s r" and "dropWhile ws r = []"
  shows "\<exists>q. gettoken b es s = Inr (NUL, q, q, q) \<and> left_at b es q []"
proof -
  obtain q where q: "skip_ws b es s = Inr q" "left_at b es q []" using skip_ws_left [OF assms(1)] assms(2) by auto
  from skip_ws_left [OF q(2)] obtain t where t: "skip_ws b es q = Inr t" "left_at b es t []" by auto
  with left_at_Nil [OF q(2)] left_at_Nil [of b es t] q show ?thesis by (auto simp: gettoken_def token_at_def)
qed

definition punct :: "char \<Rightarrow> bool" where
  "punct c \<longleftrightarrow> c \<in> {CHR ''|'', CHR ''('', CHR '')'', CHR '';'', CHR ''&'', CHR ''<''}"

lemma gettoken_sym:
  assumes "left_at b es s r" and "dropWhile ws r = c # r'" and "punct c"
  shows "\<exists>q eq t. gettoken b es s = Inr (c, q, eq, t) \<and> left_at b es t (dropWhile ws r')"
proof -
  obtain q where q: "skip_ws b es s = Inr q" "left_at b es q (c # r')" using skip_ws_left [OF assms(1)] assms(2) by auto
  note c = left_at_Cons [OF q(2)]
  obtain t where "skip_ws b es (Suc q) = Inr t" "left_at b es t (dropWhile ws r')" using skip_ws_left [OF c(3)] by auto
  moreover have "token_at b es q = Inr (c, Suc q)" using assms(3) c(2,4) by (simp add: token_at_def punct_def)
  ultimately show ?thesis using q(1) by (simp add: gettoken_def)
qed

lemma gettoken_gt:
  assumes "left_at b es s r" and "dropWhile ws r = CHR ''>'' # r'"
  shows "\<exists>tok q eq t. gettoken b es s = Inr (tok, q, eq, t) \<and> tok \<in> {CHR ''>'', CHR ''+''}
    \<and> left_at b es t (dropWhile ws (if r' \<noteq> [] \<and> hd r' = CHR ''>'' then tl r' else r'))"
proof -
  obtain q where q: "skip_ws b es s = Inr q" "left_at b es q (CHR ''>'' # r')" using skip_ws_left [OF assms(1)] assms(2) by auto
  note c = left_at_Cons [OF q(2)]
  show ?thesis
  proof (cases "r' \<noteq> [] \<and> hd r' = CHR ''>''")
    case True
    then obtain r'' where r'': "r' = CHR ''>'' # r''" by (cases r') auto
    note d = left_at_Cons [OF c(3) [unfolded r'']]
    obtain t where "skip_ws b es (q + 2) = Inr t" "left_at b es t (dropWhile ws r'')" using skip_ws_left [OF d(3)] by auto
    with q(1) c(2) d(2) r'' show ?thesis by (simp add: gettoken_def token_at_def)
  next
    case False
    then obtain d where d: "cget b (Suc q) = Inr d" "d \<noteq> CHR ''>''"
      using left_at_Nil [of b es "Suc q"] left_at_Cons(2) [of b es "Suc q"] c(3) by (cases r') auto
    obtain t where "skip_ws b es (Suc q) = Inr t" "left_at b es t (dropWhile ws r')" using skip_ws_left [OF c(3)] by auto
    with q(1) c(2) d show ?thesis unfolding if_not_P [OF False] by (simp add: gettoken_def token_at_def)
  qed
qed

lemma gettoken_word:
  assumes "left_at b es s r" and "dropWhile ws r = c # r'" and "wordc c"
  shows "\<exists>q t. gettoken b es s = Inr (CHR ''a'', q, q + length (takeWhile wordc (c # r')), t)
    \<and> left_at b es q (c # r') \<and> left_at b es t (dropWhile ws (dropWhile wordc (c # r')))"
proof -
  obtain q where q: "skip_ws b es s = Inr q" "left_at b es q (c # r')" using skip_ws_left [OF assms(1)] assms(2) by auto
  note c = left_at_Cons [OF q(2)]
  note w = skip_word_left [OF q(2)]
  obtain t where "skip_ws b es (q + length (takeWhile wordc (c # r'))) = Inr t"
    "left_at b es t (dropWhile ws (dropWhile wordc (c # r')))" using skip_ws_left [OF conjunct2 [OF w]] by auto
  moreover have "token_at b es q = Inr (CHR ''a'', q + length (takeWhile wordc (c # r')))"
    using conjunct1 [OF w] c(2,4) assms(3) by (auto simp: token_at_def wordc_def symbols_def)
  ultimately show ?thesis using q by (simp add: gettoken_def)
qed

lemma char_kinds:
  "c \<noteq> NUL \<Longrightarrow> \<not> ws c \<Longrightarrow> punct c \<or> c = CHR ''>'' \<or> wordc c"
  by (auto simp: ws_def wordc_def symbols_def punct_def)

section \<open>The parser ends, inside the buffer\<close>

text \<open>A run that ends with a result in \<open>Q\<close> or by \<^verbatim>\<open>panic\<close>.\<close>

definition sh_post :: "('a \<Rightarrow> bool) \<Rightarrow> sherr + 'a \<Rightarrow> bool" where
  "sh_post Q m = (case m of Inl e \<Rightarrow> e \<noteq> Sh_fault \<and> e \<noteq> Sh_fuel | Inr x \<Rightarrow> Q x)"

lemma sh_post_simps [simp]: "sh_post Q (Inr x) = Q x" "sh_post Q (Inl (Sh_panic m))" "sh_post Q (Inl (Sh_leftovers m))"
  by (simp_all add: sh_post_def)

lemma sh_post_bnd:
  assumes "sh_post R m" and "\<And>x. R x \<Longrightarrow> sh_post Q (f x)"
  shows "sh_post Q (bnd m f)"
  using assms by (cases m) (auto simp: sh_post_def)

lemma sh_post_mono: "sh_post R m \<Longrightarrow> (\<And>x. R x \<Longrightarrow> Q x) \<Longrightarrow> sh_post Q m"
  by (cases m) (auto simp: sh_post_def)

text \<open>A word of the line, from its first character to its end.\<close>

definition tok_ok :: "string \<Rightarrow> nat \<times> nat \<Rightarrow> bool" where
  "tok_ok b = (\<lambda>(q, eq). q < eq \<and> eq < length b \<and> (\<forall>i. q \<le> i \<longrightarrow> i < eq \<longrightarrow> wordc (b ! i)) \<and> \<not> wordc (b ! eq))"

lemma left_at_nth: "left_at b es s r \<Longrightarrow> i < length r \<Longrightarrow> b ! (s + i) = r ! i"
  by (auto simp: left_at_def line_ok_def)

lemma left_at_next:
  assumes "left_at b es s (u @ r)" and "r = [] \<or> \<not> wordc (hd r)"
  shows "s + length u < length b \<and> \<not> wordc (b ! (s + length u))"
proof -
  from left_at_append [OF assms(1)] have l: "left_at b es (s + length u) r" .
  then have "s + length u < length b" by (auto simp: left_at_def line_ok_def)
  moreover have "\<not> wordc (b ! (s + length u))"
  proof (cases r)
    case Nil
    with left_at_Nil [of b es "s + length u"] l show ?thesis by (auto simp: cget_def wordc_def split: if_splits)
  next
    case (Cons d r')
    with left_at_nth [OF l, of 0] assms(2) show ?thesis by simp
  qed
  ultimately show ?thesis by simp
qed

lemma word_tok_ok:
  assumes "left_at b es q (u @ r)" and "u \<noteq> []" and "\<forall>c \<in> set u. wordc c" and "r = [] \<or> \<not> wordc (hd r)"
  shows "tok_ok b (q, q + length u)"
proof -
  have "wordc (b ! i)" if "q \<le> i" "i < q + length u" for i
    using left_at_nth [OF assms(1), of "i - q"] that assms(3) by (simp add: nth_append)
  with left_at_next [OF assms(1,4)] assms(2) show ?thesis by (simp add: tok_ok_def)
qed

lemma hd_dropWhile_False: "dropWhile P r = [] \<or> \<not> P (hd (dropWhile P r))"
  using hd_dropWhile [of P r] by auto

lemma peek_step:
  assumes "left_at b es s r"
  shows "sh_post (\<lambda>(p, t). left_at b es t (dropWhile ws r) \<and> (p \<longrightarrow> dropWhile ws r \<noteq> [])
     \<and> (p \<longrightarrow> hd (dropWhile ws r) \<in> set (cstr toks))) (peek b es toks s)"
  using peek_left [OF assms, of toks] by (auto simp del: dropWhile_eq_Nil_conv split: list.splits)

lemma gettoken_step:
  assumes "left_at b es s r"
  shows "sh_post (\<lambda>(tok, q, eq, t). \<exists>r'. left_at b es t r' \<and> length r' \<le> length r
     \<and> (dropWhile ws r \<noteq> [] \<longrightarrow> length r' < length r) \<and> (tok \<noteq> NUL \<longrightarrow> length r' < length r)
     \<and> (tok = CHR ''a'' \<longrightarrow> tok_ok b (q, eq))) (gettoken b es s)"
proof (cases "dropWhile ws r")
  case Nil
  with gettoken_end [OF assms] show ?thesis by (auto intro!: exI [of _ "[]"])
next
  case (Cons c r')
  have len: "length r' < length r" using Cons length_dropWhile_le [of ws r] by simp
  have drop: "length (dropWhile P r') < length r" for P using len length_dropWhile_le [of P r'] by linarith
  have "c \<in> set r" using Cons by (metis list.set_intros(1) set_dropWhileD)
  then have "c \<noteq> NUL" using left_atD(2) [OF assms] by auto
  moreover have "\<not> ws c" using Cons hd_dropWhile [of ws r] by simp
  ultimately have "punct c \<or> c = CHR ''>'' \<or> wordc c" by (rule char_kinds)
  then consider "punct c" | "c = CHR ''>''" | "wordc c" by blast
  then show ?thesis
  proof cases
    case 1
    from gettoken_sym [OF assms Cons 1] obtain q eq t
      where g: "gettoken b es s = Inr (c, q, eq, t)" "left_at b es t (dropWhile ws r')" by blast
    from 1 have "c \<noteq> CHR ''a''" by (auto simp: punct_def)
    with g drop [of ws] show ?thesis by (simp only: sh_post_simps prod.case) (auto intro!: exI [of _ "dropWhile ws r'"])
  next
    case 2
    have "length (dropWhile ws (tl r')) < length r" using len length_dropWhile_le [of ws "tl r'"] by simp
    with drop [of ws] have "length (dropWhile ws (if r' \<noteq> [] \<and> hd r' = CHR ''>'' then tl r' else r')) < length r" by simp
    moreover obtain tok q eq t where "gettoken b es s = Inr (tok, q, eq, t)" "tok \<in> {CHR ''>'', CHR ''+''}"
      "left_at b es t (dropWhile ws (if r' \<noteq> [] \<and> hd r' = CHR ''>'' then tl r' else r'))"
      using gettoken_gt [OF assms Cons [unfolded 2]] by blast
    ultimately show ?thesis by (simp only: sh_post_simps prod.case) (auto intro: less_imp_le)
  next
    case 3
    let ?u = "takeWhile wordc (c # r')" and ?v = "dropWhile wordc (c # r')"
    from gettoken_word [OF assms Cons 3] obtain q t where g: "gettoken b es s = Inr (CHR ''a'', q, q + length ?u, t)"
      "left_at b es q (c # r')" "left_at b es t (dropWhile ws ?v)" by blast
    have "tok_ok b (q, q + length ?u)"
      by (rule word_tok_ok [where r = ?v]) (use g(2) 3 hd_dropWhile_False [of wordc "c # r'"] in \<open>auto dest: set_takeWhileD\<close>)
    moreover have "length (dropWhile ws ?v) < length r"
      using 3 len length_dropWhile_le [of ws ?v] length_dropWhile_le [of wordc r'] by simp
    ultimately show ?thesis using g by (simp only: sh_post_simps prod.case) (auto intro: less_imp_le)
  qed
qed

text \<open>A well-formed command: few enough arguments, every word a word of the line.\<close>

fun cmd_ok :: "string \<Rightarrow> cmd \<Rightarrow> bool" where
  "cmd_ok b (EXEC args) \<longleftrightarrow> length args < MAXARGS \<and> list_all (tok_ok b) args"
| "cmd_ok b (REDIR c q eq mode fd) \<longleftrightarrow> cmd_ok b c \<and> tok_ok b (q, eq)
     \<and> (mode, fd) \<in> {(O_RDONLY, 0), (O_WRONLY OR O_CREATE, 1)}"
| "cmd_ok b (PIPE l r) \<longleftrightarrow> cmd_ok b l \<and> cmd_ok b r"
| "cmd_ok b (LIST l r) \<longleftrightarrow> cmd_ok b l \<and> cmd_ok b r"
| "cmd_ok b (BACK c) \<longleftrightarrow> cmd_ok b c"

fun argc_of :: "cmd \<Rightarrow> nat option" where
  "argc_of (EXEC args) = Some (length args)"
| "argc_of (REDIR c q eq mode fd) = argc_of c"
| "argc_of c = None"

text \<open>At position \<open>t\<close>, at most \<open>k\<close> characters are left; and there is a token in front.\<close>

definition pos :: "string \<Rightarrow> nat \<Rightarrow> nat \<Rightarrow> nat \<Rightarrow> bool" where
  "pos b es k t \<longleftrightarrow> line_ok b es \<and> t \<le> es \<and> es \<le> t + k"

definition ahead :: "string \<Rightarrow> nat \<Rightarrow> nat \<Rightarrow> bool" where
  "ahead b es t \<longleftrightarrow> t < es \<and> \<not> ws (b ! t)"

lemma pos_left_at: "pos b es k t \<longleftrightarrow> (\<exists>r. left_at b es t r \<and> length r \<le> k)"
  by (auto simp: pos_def left_at_def line_ok_def)

lemma pos_mono: "pos b es k t \<Longrightarrow> k \<le> k' \<Longrightarrow> pos b es k' t"
  by (simp add: pos_def)

lemma left_at_ahead:
  assumes "left_at b es t r"
  shows "ahead b es t \<longleftrightarrow> r \<noteq> [] \<and> \<not> ws (hd r)"
  using left_at_nth [OF assms, of 0] left_atD(4) [OF assms] by (cases r) (auto simp: ahead_def)

lemma peek_post:
  assumes "pos b es k s"
  shows "sh_post (\<lambda>(p, t). pos b es k t \<and> (p \<longrightarrow> ahead b es t)) (peek b es toks s)"
proof -
  obtain r where r: "left_at b es s r" "length r \<le> k" using assms by (auto simp: pos_left_at)
  have l: "length (dropWhile ws r) \<le> k" using r(2) length_dropWhile_le [of ws r] by simp
  have "pos b es k t \<and> (p \<longrightarrow> ahead b es t)"
    if "left_at b es t (dropWhile ws r)" "p \<longrightarrow> dropWhile ws r \<noteq> []" for p t
    using that l left_at_ahead [OF that(1)] hd_dropWhile_False [of ws r] by (auto simp: pos_left_at)
  then show ?thesis by (intro sh_post_mono [OF peek_step [OF r(1)]]) auto
qed

lemma gettoken_post:
  assumes "pos b es k s"
  shows "sh_post (\<lambda>(tok, q, eq, t). pos b es k t \<and> (ahead b es s \<or> tok \<noteq> NUL \<longrightarrow> k > 0 \<and> pos b es (k - 1) t)
     \<and> (tok = CHR ''a'' \<longrightarrow> tok_ok b (q, eq))) (gettoken b es s)"
proof -
  obtain r where r: "left_at b es s r" "length r \<le> k" using assms by (auto simp: pos_left_at)
  have "ahead b es s \<longrightarrow> dropWhile ws r \<noteq> []" using left_at_ahead [OF r(1)] by (cases r) auto
  moreover have "pos b es k t" "length r' < length r \<longrightarrow> k > 0 \<and> pos b es (k - 1) t"
    if "left_at b es t r'" "length r' \<le> length r" for t r'
    using that r(2) left_atD(4) [OF that(1)] by (auto simp: pos_def left_at_def)
  ultimately show ?thesis by (intro sh_post_mono [OF gettoken_step [OF r(1)]]) blast
qed

text \<open>The condition on the result of a parse: at most \<open>k\<close> characters left, and a well-formed command.\<close>

definition parsed :: "string \<Rightarrow> nat \<Rightarrow> nat \<Rightarrow> nat option \<Rightarrow> cmd \<times> nat \<Rightarrow> bool" where
  "parsed b es k a = (\<lambda>(c, t). pos b es k t \<and> cmd_ok b c \<and> (a \<noteq> None \<longrightarrow> argc_of c = a))"

lemma parsed_mono: "sh_post (parsed b es k a) m \<Longrightarrow> k \<le> k' \<Longrightarrow> sh_post (parsed b es k' a) m"
  by (erule sh_post_mono) (auto simp: parsed_def pos_def)

lemma redir_of_ok [simp]:
  "cmd_ok b c \<Longrightarrow> tok_ok b (q, eq) \<Longrightarrow> cmd_ok b (redir_of tok c q eq)" "argc_of (redir_of tok c q eq) = argc_of c"
  by (simp_all add: redir_of_def)

lemma exec_arg_ok:
  "cmd_ok b c \<Longrightarrow> tok_ok b a \<Longrightarrow> argc_of c = Some k \<Longrightarrow> Suc k < MAXARGS \<Longrightarrow>
     cmd_ok b (exec_arg a c) \<and> argc_of (exec_arg a c) = Some (Suc k)"
  by (induction c arbitrary: k) auto

lemma parseredirs_post:
  "pos b es k s \<Longrightarrow> k < n \<Longrightarrow> cmd_ok b c \<Longrightarrow> sh_post (parsed b es k (argc_of c)) (parseredirs n b es c s)"
proof (induction n arbitrary: s k c)
  case 0
  then show ?case by simp
next
  case (Suc n)
  have body: "sh_post (parsed b es k (argc_of c))
      (bnd (gettoken b es t) (\<lambda>(tok, _, _, s). bnd (gettoken b es s) (\<lambda>(w, q, eq, s).
         if w \<noteq> CHR ''a'' then Inl (Sh_panic ''missing file for redirection'')
         else parseredirs n b es (redir_of tok c q eq) s)))"
    if t: "pos b es k t" "ahead b es t" for t
  proof (rule sh_post_bnd [OF gettoken_post [OF t(1)]], clarify, rule sh_post_bnd [OF gettoken_post], assumption, clarify)
    fix tok s1 w q eq s2
    assume a: "ahead b es t \<or> tok \<noteq> NUL \<longrightarrow> k > 0 \<and> pos b es (k - 1) s1" "pos b es k s2" "w = CHR ''a'' \<longrightarrow> tok_ok b (q, eq)"
      "ahead b es s1 \<or> w \<noteq> NUL \<longrightarrow> k > 0 \<and> pos b es (k - 1) s2"
    show "sh_post (parsed b es k (argc_of c)) (if w \<noteq> CHR ''a'' then Inl (Sh_panic ''missing file for redirection'')
         else parseredirs n b es (redir_of tok c q eq) s2)"
    proof (cases "w = CHR ''a''")
      case True
      with a have "pos b es (k - 1) s2" "tok_ok b (q, eq)" "k > 0" by simp_all
      with Suc.IH [of "k - 1" s2 "redir_of tok c q eq"] Suc.prems(2,3)
      have "sh_post (parsed b es (k - 1) (argc_of c)) (parseredirs n b es (redir_of tok c q eq) s2)" by simp
      then show ?thesis using True parsed_mono [of b es "k - 1" _ _ k] by simp
    qed simp
  qed
  show ?case
    unfolding parseredirs.simps
    by (rule sh_post_bnd [OF peek_post [OF Suc.prems(1)]]) (use body Suc.prems(3) in \<open>auto simp: parsed_def\<close>)
qed
text \<open>A symbol that was seen by \<open>peek\<close> is read, and what follows is parsed with one character less.\<close>

lemma gettoken_then:
  assumes "pos b es k t" and "ahead b es t" and "\<And>u. k > 0 \<Longrightarrow> pos b es (k - 1) u \<Longrightarrow> sh_post Q (f u)"
  shows "sh_post Q (bnd (gettoken b es t) (\<lambda>(_, _, _, s). f s))"
  by (rule sh_post_bnd [OF gettoken_post [OF assms(1)]]) (use assms(2,3) in auto)

lemma peek_then:
  assumes "pos b es k s" and "\<And>t. pos b es k t \<Longrightarrow> ahead b es t \<Longrightarrow> sh_post Q (f t)"
    and "\<And>t. pos b es k t \<Longrightarrow> sh_post Q (g t)"
  shows "sh_post Q (bnd (peek b es toks s) (\<lambda>(p, s). if p then f s else g s))"
  by (rule sh_post_bnd [OF peek_post [OF assms(1)]]) (use assms(2,3) in auto)

lemma peek_unless:
  assumes "pos b es k s" and "\<And>t. pos b es k t \<Longrightarrow> ahead b es t \<Longrightarrow> sh_post Q (f t)"
  shows "sh_post Q (bnd (peek b es toks s) (\<lambda>(p, s). if \<not> p then Inl (Sh_panic m) else f s))"
  by (rule sh_post_bnd [OF peek_post [OF assms(1)]]) (use assms(2) in auto)

lemma parsed_then:
  assumes "sh_post (parsed b es k a) m" and "\<And>c t. pos b es k t \<Longrightarrow> cmd_ok b c \<Longrightarrow> (a \<noteq> None \<longrightarrow> argc_of c = a) \<Longrightarrow> sh_post Q (f c t)"
  shows "sh_post Q (bnd m (\<lambda>(c, t). f c t))"
  by (rule sh_post_bnd [OF assms(1)]) (use assms(2) in \<open>auto simp: parsed_def\<close>)

lemma parsed_Inr: "pos b es k t \<Longrightarrow> cmd_ok b c \<Longrightarrow> sh_post (parsed b es k None) (Inr (c, t))"
  by (simp add: parsed_def)

lemma parseargs_post:
  "pos b es k s \<Longrightarrow> k < n \<Longrightarrow> cmd_ok b c \<Longrightarrow> argc_of c = Some argc \<Longrightarrow>
     sh_post (parsed b es k None) (parseargs n b es argc c s)"
proof (induction n arbitrary: s k c argc)
  case 0
  then show ?case by simp
next
  case (Suc n)
  have word: "sh_post (parsed b es k None) (bnd (parseredirs n b es (exec_arg (q, eq) c) s2)
      (\<lambda>(ret, s). parseargs n b es (argc + 1) ret s))"
    if a: "k > 0" "pos b es (k - 1) s2" "tok_ok b (q, eq)" "argc + 1 < MAXARGS" for q eq s2
  proof -
    have e: "cmd_ok b (exec_arg (q, eq) c)" "argc_of (exec_arg (q, eq) c) = Some (Suc argc)"
      using exec_arg_ok [OF Suc.prems(3) a(3) Suc.prems(4)] a(4) by simp_all
    have "sh_post (parsed b es (k - 1) (Some (Suc argc))) (parseredirs n b es (exec_arg (q, eq) c) s2)"
      using parseredirs_post [OF a(2) _ e(1), of n] e(2) Suc.prems(2) a(1) by simp
    then show ?thesis
    proof (rule sh_post_bnd, clarify)
      fix c' t
      assume p: "parsed b es (k - 1) (Some (Suc argc)) (c', t)"
      then have "sh_post (parsed b es (k - 1) None) (parseargs n b es (Suc argc) c' t)"
        using Suc.IH [of "k - 1" t c' "Suc argc"] Suc.prems(2) a(1) by (simp add: parsed_def)
      then show "sh_post (parsed b es k None) (parseargs n b es (argc + 1) c' t)"
        using parsed_mono [of b es "k - 1" None _ k] by simp
    qed
  qed
  have body: "sh_post (parsed b es k None) (bnd (gettoken b es t) (\<lambda>(tok, q, eq, s).
      if tok = NUL then Inr (c, s) else if tok \<noteq> CHR ''a'' then Inl (Sh_panic ''syntax'')
      else if argc + 1 \<ge> MAXARGS then Inl (Sh_panic ''too many args'')
      else bnd (parseredirs n b es (exec_arg (q, eq) c) s) (\<lambda>(ret, s). parseargs n b es (argc + 1) ret s)))"
    if t: "pos b es k t" for t
    by (rule sh_post_bnd [OF gettoken_post [OF t]]) (use word Suc.prems(3) in \<open>auto simp: parsed_def not_le\<close>)
  show ?case
    unfolding parseargs.simps
    by (rule sh_post_bnd [OF peek_post [OF Suc.prems(1)]]) (use body Suc.prems(3) in \<open>auto simp: parsed_def\<close>)
qed

lemma parsebacks_post:
  "pos b es k s \<Longrightarrow> k < n \<Longrightarrow> cmd_ok b c \<Longrightarrow> sh_post (parsed b es k None) (parsebacks n b es c s)"
proof (induction n arbitrary: s k c)
  case 0
  then show ?case by simp
next
  case (Suc n)
  show ?case
    unfolding parsebacks.simps
  proof (rule peek_then [OF Suc.prems(1)], erule (1) gettoken_then)
    fix u
    assume "k > 0" and "pos b es (k - 1) u"
    with Suc.IH [of "k - 1" u "BACK c"] Suc.prems(2,3) have "sh_post (parsed b es (k - 1) None) (parsebacks n b es (backcmd c) u)"
      by simp
    then show "sh_post (parsed b es k None) (parsebacks n b es (backcmd c) u)" by (rule parsed_mono) simp
  qed (use Suc.prems(3) in \<open>simp add: parsed_def\<close>)
qed

lemma infix_post:
  assumes t: "pos b es k t" and c: "cmd_ok b c" and K: "\<And>r. cmd_ok b r \<Longrightarrow> cmd_ok b (K c r)"
    and g: "\<And>u. k > 0 \<Longrightarrow> pos b es (k - 1) u \<Longrightarrow> sh_post (parsed b es (k - 1) None) (g u)"
  shows "sh_post (parsed b es k None) (bnd (peek b es toks t) (\<lambda>(p, s).
    if p then bnd (gettoken b es s) (\<lambda>(_, _, _, s). bnd (g s) (\<lambda>(right, s). Inr (K c right, s))) else Inr (c, s)))"
proof (rule peek_then [OF t])
  fix t
  assume "pos b es k t" and "ahead b es t"
  then show "sh_post (parsed b es k None) (bnd (gettoken b es t) (\<lambda>(_, _, _, s). bnd (g s) (\<lambda>(right, s). Inr (K c right, s))))"
  proof (rule gettoken_then)
    fix u
    assume "k > 0" and "pos b es (k - 1) u"
    then show "sh_post (parsed b es k None) (bnd (g u) (\<lambda>(right, s). Inr (K c right, s)))"
      by (intro parsed_then [OF g] parsed_Inr K) (auto intro: pos_mono)
  qed
qed (use c in \<open>simp add: parsed_def\<close>)

lemma parse_post:
  shows "pos b es k s \<Longrightarrow> 4 * k + 3 < n \<Longrightarrow> sh_post (parsed b es k None) (parseline n b es s)"
    and "pos b es k s \<Longrightarrow> 4 * k + 2 < n \<Longrightarrow> sh_post (parsed b es k None) (parsepipe n b es s)"
    and "pos b es k s \<Longrightarrow> 4 * k + 1 < n \<Longrightarrow> sh_post (parsed b es k None) (parseexec n b es s)"
    and "pos b es k s \<Longrightarrow> 4 * k < n \<Longrightarrow> sh_post (parsed b es k None) (parseblock n b es s)"
proof (induction n arbitrary: k s)
  case (Suc n)
  have line: "sh_post (parsed b es (k - 1) None) (parseline n b es u)"
    if "k > 0" "pos b es (k - 1) u" "4 * k < Suc n" for k u
    using Suc.IH(1) [OF that(2)] that(1,3) by simp
  {
    case 1
    then have pipe: "sh_post (parsed b es k None) (parsepipe n b es s)" by (intro Suc.IH(2)) simp_all
    show ?case
      unfolding parseline.simps
      by (rule parsed_then [OF pipe], rule parsed_then [OF parsebacks_post], assumption)
        (use 1 line in \<open>auto intro!: infix_post\<close>)
  next
    case 2
    then have exec: "sh_post (parsed b es k None) (parseexec n b es s)" by (intro Suc.IH(3)) simp_all
    show ?case
      unfolding parsepipe.simps
      by (rule parsed_then [OF exec]) (use 2 in \<open>auto intro!: infix_post Suc.IH(2)\<close>)
  next
    case 3
    show ?case
      unfolding parseexec.simps
    proof (rule peek_then [OF 3(1)])
      fix t
      assume t: "pos b es k t"
      show "sh_post (parsed b es k None) (parseblock n b es t)" by (rule Suc.IH(4) [OF t]) (use 3 in simp)
      have "sh_post (parsed b es k (argc_of execcmd)) (parseredirs n b es execcmd t)"
        by (rule parseredirs_post [OF t]) (use 3 in \<open>simp_all add: MAXARGS_def\<close>)
      then show "sh_post (parsed b es k None) (bnd (parseredirs n b es execcmd t) (\<lambda>(ret, s). parseargs n b es 0 ret s))"
        by (rule parsed_then) (rule parseargs_post, use 3 in auto)
    qed
  next
    case 4
    have rest: "sh_post (parsed b es k None) (bnd (parseline n b es u) (\<lambda>(cmd, s). bnd (peek b es '')'' s) (\<lambda>(p, s).
        if \<not> p then Inl (Sh_panic ''syntax - missing )'')
        else bnd (gettoken b es s) (\<lambda>(_, _, _, s). parseredirs n b es cmd s))))"
      if k: "k > 0" "pos b es (k - 1) u" for u
    proof (rule parsed_then [OF line [OF k]])
      fix c t
      assume c: "cmd_ok b c" and t: "pos b es (k - 1) t"
      have "sh_post (parsed b es k None) (parseredirs n b es c v)" if "pos b es (k - 1 - 1) v" for v
        by (rule sh_post_mono [OF parseredirs_post [OF that _ c]]) (use 4(2) k(1) in \<open>auto simp: parsed_def pos_def\<close>)
      then show "sh_post (parsed b es k None) (bnd (peek b es '')'' t) (\<lambda>(p, s).
          if \<not> p then Inl (Sh_panic ''syntax - missing )'')
          else bnd (gettoken b es s) (\<lambda>(_, _, _, s). parseredirs n b es c s)))"
        by (intro peek_unless [OF t] gettoken_then)
    qed (use 4 in simp)
    show ?case
      unfolding parseblock.simps
      by (intro peek_unless [OF 4(1)] gettoken_then rest)
  }
qed simp_all

lemma line_ok_strlen: "NUL \<in> set b \<Longrightarrow> line_ok b (strlen b)"
proof -
  assume n: "NUL \<in> set b"
  have "length (takeWhile (\<lambda>c. c \<noteq> NUL) b) < length b" using n by (induction b) auto
  moreover from nth_length_takeWhile [OF this] have "b ! length (takeWhile (\<lambda>c. c \<noteq> NUL) b) = NUL" by simp
  moreover have "NUL \<notin> set (take (length (takeWhile (\<lambda>c. c \<noteq> NUL) b)) b)"
    by (auto simp: takeWhile_eq_take [symmetric] dest: set_takeWhileD)
  ultimately show ?thesis by (simp add: line_ok_def cstr_def)
qed

lemma parsecmd_post:
  assumes "NUL \<in> set b"
  shows "sh_post (\<lambda>(c, b'). cmd_ok b c \<and> b' = nulterminate c b) (parsecmd b)"
proof -
  have p: "pos b (strlen b) (strlen b) 0" using line_ok_strlen [OF assms] by (simp add: pos_def)
  show ?thesis
    unfolding parsecmd_def Let_def
    by (rule parsed_then [OF parse_post(1) [OF p]], simp, rule sh_post_bnd [OF peek_post], assumption) auto
qed

text \<open>C37: the parser of the shell always comes to an end. On any line with a terminator it either
  gives a command or reports an error by \<^verbatim>\<open>panic\<close>; it never reads outside the buffer, and the
  fuel that \<open>parsecmd\<close> gives to its recursion, four times the length of the line and four more, does not run out.\<close>

theorem parsecmd_ends:
  assumes "NUL \<in> set b"
  shows "(\<exists>c b'. parsecmd b = Inr (c, b')) \<or> (\<exists>m. parsecmd b \<in> {Inl (Sh_panic m), Inl (Sh_leftovers m)})"
proof (cases "parsecmd b")
  case (Inl e)
  with parsecmd_post [OF assms] show ?thesis by (cases e) (simp_all add: sh_post_def)
qed (use surj_pair in auto)

theorem parsecmd_ends_witness:
  "(\<exists>c b'. parsecmd (''ls > f'' @ [NUL]) = Inr (c, b'))
     \<or> (\<exists>m. parsecmd (''ls > f'' @ [NUL]) \<in> {Inl (Sh_panic m), Inl (Sh_leftovers m)})"
  by (rule parsecmd_ends) simp

section \<open>The words of a command\<close>

fun toks :: "cmd \<Rightarrow> (nat \<times> nat) list" where
  "toks (EXEC args) = args"
| "toks (REDIR c q eq mode fd) = toks c @ [(q, eq)]"
| "toks (PIPE l r) = toks l @ toks r"
| "toks (LIST l r) = toks l @ toks r"
| "toks (BACK c) = toks c"

definition word_of :: "string \<Rightarrow> nat \<times> nat \<Rightarrow> string" where
  "word_of b = (\<lambda>(q, eq). take (eq - q) (drop q b))"

lemma nulterminate_foldl: "nulterminate c b = foldl (\<lambda>b (q, eq). b[eq := NUL]) b (toks c)"
  by (induction c arbitrary: b) auto

lemma foldl_NUL:
  "length (foldl (\<lambda>b (q, eq). b[eq := NUL]) b ts) = length b"
  "i < length b \<Longrightarrow> foldl (\<lambda>b (q, eq). b[eq := NUL]) b ts ! i = (if i \<in> snd ` set ts then NUL else b ! i)"
  by (induction ts arbitrary: b) (auto simp: nth_list_update split: prod.splits)

lemma cmd_ok_toks: "cmd_ok b c \<Longrightarrow> list_all (tok_ok b) (toks c)"
  by (induction c) auto

lemma nulterminate_word:
  assumes "cmd_ok b c" and "(q, eq) \<in> set (toks c)"
  shows "cstr (drop q (nulterminate c b)) = word_of b (q, eq)"
proof -
  let ?b = "nulterminate c b"
  have ok: "tok_ok b t" if "t \<in> set (toks c)" for t using cmd_ok_toks [OF assms(1)] that by (auto simp: list_all_iff)
  from ok [OF assms(2)] have t: "q < eq" "eq < length b" "\<And>i. q \<le> i \<Longrightarrow> i < eq \<Longrightarrow> wordc (b ! i)"
    by (auto simp: tok_ok_def)
  have len: "length ?b = length b" by (simp add: nulterminate_foldl foldl_NUL)
  have in_word: "?b ! i = b ! i" if "q \<le> i" "i < eq" for i
  proof -
    have "i \<notin> snd ` set (toks c)" using t(3) [OF that] ok by (fastforce simp: tok_ok_def)
    then show ?thesis using that t(2) by (simp add: nulterminate_foldl foldl_NUL)
  qed
  have at_end: "?b ! eq = NUL" using t(2) assms(2) by (force simp: nulterminate_foldl foldl_NUL)
  have split: "drop q ?b = take (eq - q) (drop q ?b) @ NUL # drop (Suc eq) ?b"
    using t(1,2) len at_end id_take_nth_drop [of "eq - q" "drop q ?b"] by simp
  have same: "take (eq - q) (drop q ?b) = word_of b (q, eq)"
    using t(1,2) len in_word by (intro nth_equalityI) (auto simp: word_of_def)
  have "c \<noteq> NUL" if "c \<in> set (word_of b (q, eq))" for c
  proof -
    from that obtain i where "i < eq - q" "c = b ! (q + i)" by (auto simp: word_of_def in_set_conv_nth)
    with t(3) [of "q + i"] show ?thesis by (auto simp: wordc_def)
  qed
  then show ?thesis unfolding cstr_def by (subst split) (simp add: same)
qed

text \<open>C38: what the shell hands to \<^verbatim>\<open>exec\<close> and \<^verbatim>\<open>open\<close>. In every command the parser gives, an argument
  vector has room for its null pointer, a redirection is one of the two modes, and after
  \<open>nulterminate\<close> each argument and file name is exactly the word that stood in the line: the terminators
  of the other words cut nothing off.\<close>

theorem parsecmd_words:
  assumes "NUL \<in> set b" and "parsecmd b = Inr (c, b')"
  shows "cmd_ok b c \<and> length b' = length b \<and> (\<forall>t \<in> set (toks c). cstr (drop (fst t) b') = word_of b t)"
proof -
  have "cmd_ok b c" "b' = nulterminate c b" using parsecmd_post [OF assms(1)] assms(2) by simp_all
  then show ?thesis using nulterminate_word by (auto simp: nulterminate_foldl foldl_NUL)
qed

theorem parsecmd_words_witness:
  "parsecmd (''cat < a|wc&'' @ [NUL]) = Inr (BACK (PIPE (REDIR (EXEC [(0, 3)]) 6 7 O_RDONLY 0) (EXEC [(8, 10)])),
     [CHR ''c'', CHR ''a'', CHR ''t'', NUL, CHR ''<'', CHR '' '', CHR ''a'', NUL, CHR ''w'', CHR ''c'', NUL, NUL])
   \<and> cstr (drop 6 [CHR ''c'', CHR ''a'', CHR ''t'', NUL, CHR ''<'', CHR '' '', CHR ''a'', NUL, CHR ''w'', CHR ''c'', NUL, NUL]) = ''a''"
proof -
  let ?b = "''cat < a|wc&'' @ [NUL]" and ?c = "BACK (PIPE (REDIR (EXEC [(0, 3)]) 6 7 O_RDONLY 0) (EXEC [(8, 10)]))"
  let ?b' = "[CHR ''c'', CHR ''a'', CHR ''t'', NUL, CHR ''<'', CHR '' '', CHR ''a'', NUL, CHR ''w'', CHR ''c'', NUL, NUL]"
  have p: "parsecmd ?b = Inr (?c, ?b')" by code_simp
  have "NUL \<in> set ?b" by simp
  from parsecmd_words [OF this p] have "cstr (drop 6 ?b') = word_of ?b (6, 7)" by simp
  with p show ?thesis by (simp add: word_of_def)
qed

section \<open>Printing and parsing\<close>

text \<open>A command with its words as strings, and how it is typed: with the parentheses that the
  grammar needs at level \<open>l\<close> (0 a line, 1 a line without a semicolon, 2 a pipeline, 3 a simple command
  or block).\<close>

datatype scmd =
    SExec "string list"
  | SRedir scmd u32 nat string
  | SPipe scmd scmd
  | SList scmd scmd
  | SBack scmd

fun cmd_str :: "(nat \<times> nat \<Rightarrow> string) \<Rightarrow> cmd \<Rightarrow> scmd" where
  "cmd_str f (EXEC args) = SExec (map f args)"
| "cmd_str f (REDIR c q eq mode fd) = SRedir (cmd_str f c) mode fd (f (q, eq))"
| "cmd_str f (PIPE l r) = SPipe (cmd_str f l) (cmd_str f r)"
| "cmd_str f (LIST l r) = SList (cmd_str f l) (cmd_str f r)"
| "cmd_str f (BACK c) = SBack (cmd_str f c)"

definition word_ok :: "string \<Rightarrow> bool" where
  "word_ok w \<longleftrightarrow> w \<noteq> [] \<and> list_all wordc w"

fun scmd_ok :: "scmd \<Rightarrow> bool" where
  "scmd_ok (SExec args) \<longleftrightarrow> length args < MAXARGS \<and> list_all word_ok args"
| "scmd_ok (SRedir c mode fd w) \<longleftrightarrow> scmd_ok c \<and> word_ok w \<and> (mode, fd) \<in> {(O_RDONLY, 0), (O_WRONLY OR O_CREATE, 1)}"
| "scmd_ok (SPipe l r) \<longleftrightarrow> scmd_ok l \<and> scmd_ok r"
| "scmd_ok (SList l r) \<longleftrightarrow> scmd_ok l \<and> scmd_ok r"
| "scmd_ok (SBack c) \<longleftrightarrow> scmd_ok c"

definition paren :: "bool \<Rightarrow> string \<Rightarrow> string" where
  "paren p s = (if p then ''('' @ s @ '')'' else s)"

fun pr :: "nat \<Rightarrow> scmd \<Rightarrow> string" where
  "pr l (SExec args) = concat (map (\<lambda>w. w @ '' '') args)"
| "pr l (SRedir c mode fd w) = pr 3 c @ (if fd = 0 then ''<'' else ''>'') @ w @ '' ''"
| "pr l (SPipe a b) = paren (l > 2) (pr 3 a @ ''|'' @ pr 2 b)"
| "pr l (SBack a) = paren (l > 1) (pr 1 a @ ''&'')"
| "pr l (SList a b) = paren (l > 0) (pr 1 a @ '';'' @ pr 0 b)"

text \<open>The position is in front of \<open>r\<close>, up to white space.\<close>

definition upto_ws :: "string \<Rightarrow> nat \<Rightarrow> nat \<Rightarrow> string \<Rightarrow> bool" where
  "upto_ws b es s r \<longleftrightarrow> (\<exists>r0. left_at b es s r0 \<and> dropWhile ws r0 = dropWhile ws r)"

definition stops :: "string \<Rightarrow> string \<Rightarrow> bool" where
  "stops T r \<longleftrightarrow> (case dropWhile ws r of [] \<Rightarrow> True | c # _ \<Rightarrow> c \<in> set T)"

definition starts :: "string \<Rightarrow> string \<Rightarrow> bool" where
  "starts T r \<longleftrightarrow> (case dropWhile ws r of [] \<Rightarrow> False | c # _ \<Rightarrow> c \<in> set T)"

lemma dropWhile_ws_idem [simp]: "dropWhile ws (dropWhile ws r) = dropWhile ws r"
  by (induction r) auto

lemma peek_upto:
  assumes "upto_ws b es s r" and "NUL \<notin> set T"
  shows "\<exists>t. peek b es T s = Inr (starts T r, t) \<and> upto_ws b es t r"
proof -
  obtain r0 where r0: "left_at b es s r0" "dropWhile ws r0 = dropWhile ws r" using assms(1) by (auto simp: upto_ws_def)
  have T: "cstr T = T" using assms(2) by (auto simp: cstr_def)
  have "\<exists>t. peek b es T s = Inr (starts T r, t) \<and> left_at b es t (dropWhile ws r)"
    using peek_left [OF r0(1), of T] unfolding r0(2) T starts_def by blast
  then show ?thesis by (fastforce simp: upto_ws_def)
qed

lemma gettoken_upto:
  assumes "upto_ws b es s (c # r)" and "punct c"
  shows "\<exists>q eq t. gettoken b es s = Inr (c, q, eq, t) \<and> upto_ws b es t r"
proof -
  from assms(2) have "\<not> ws c" by (auto simp: punct_def ws_def whitespace_def)
  with assms(1) obtain r0 where "left_at b es s r0" "dropWhile ws r0 = c # r" by (auto simp: upto_ws_def)
  from gettoken_sym [OF this assms(2)] show ?thesis by (fastforce simp: upto_ws_def)
qed

lemma word_not_ws: "word_ok w \<Longrightarrow> \<exists>c w'. w = c # w' \<and> wordc c \<and> \<not> ws c \<and> list_all wordc w'"
  by (cases w) (auto simp: word_ok_def wordc_def ws_def)

lemma gettoken_upto_word:
  assumes "upto_ws b es s (w @ CHR '' '' # r)" and "word_ok w"
  shows "\<exists>q eq t. gettoken b es s = Inr (CHR ''a'', q, eq, t) \<and> word_of b (q, eq) = w \<and> upto_ws b es t r"
proof -
  obtain c w' where w: "w = c # w'" "wordc c" "\<not> ws c" "list_all wordc w'" using word_not_ws [OF assms(2)] by blast
  have sp: "\<not> wordc (CHR '' '')" "ws (CHR '' '')" by (simp_all add: wordc_def ws_def whitespace_def)
  have u: "takeWhile wordc (w @ CHR '' '' # r) = w" "dropWhile wordc (w @ CHR '' '' # r) = CHR '' '' # r"
    using assms(2) sp by (auto simp: word_ok_def list_all_iff takeWhile_append dropWhile_append)
  obtain r0 where "left_at b es s r0" "dropWhile ws r0 = c # w' @ CHR '' '' # r"
    using assms(1) w(1,3) by (auto simp: upto_ws_def)
  from gettoken_word [OF this w(2)] u w(1) obtain q t where g: "gettoken b es s = Inr (CHR ''a'', q, q + length w, t)"
    "left_at b es q (w @ CHR '' '' # r)" "left_at b es t (dropWhile ws r)" using sp(2) by auto
  have "word_of b (q, q + length w) = w"
    using left_at_nth [OF g(2)] left_atD(3,4) [OF g(2)] by (intro nth_equalityI) (auto simp: word_of_def nth_append)
  with g show ?thesis by (auto simp: upto_ws_def)
qed

declare dropWhile_eq_Nil_conv [simp del]

lemma starts_word: "word_ok w \<Longrightarrow> set T \<subseteq> set symbols \<Longrightarrow> \<not> starts T (w @ r)"
  by (drule word_not_ws) (auto simp: starts_def wordc_def)

lemma starts_Cons [simp]: "\<not> ws c \<Longrightarrow> starts T (c # r) \<longleftrightarrow> c \<in> set T"
  by (simp add: starts_def)

lemma stops_Cons [simp]: "\<not> ws c \<Longrightarrow> stops T (c # r) \<longleftrightarrow> c \<in> set T"
  by (simp add: stops_def)

lemma stops_not_starts: "stops T r \<Longrightarrow> set U \<inter> set T = {} \<Longrightarrow> \<not> starts U r"
  by (cases "dropWhile ws r") (auto simp: stops_def starts_def)

lemma stops_mono: "stops T r \<Longrightarrow> set T \<subseteq> set U \<Longrightarrow> stops U r"
  by (cases "dropWhile ws r") (auto simp: stops_def)

lemma not_ws_symbol [simp]:
  "\<not> ws (CHR ''<'')" "\<not> ws (CHR ''>'')" "\<not> ws (CHR ''|'')" "\<not> ws (CHR ''&'')" "\<not> ws (CHR '';'')" "\<not> ws (CHR ''('')" "\<not> ws (CHR '')'')"
  by (simp_all add: ws_def whitespace_def)

text \<open>At a stop, the loops of the parser end.\<close>

lemma parseredirs_stop:
  assumes "upto_ws b es s r" and "\<not> starts ''<>'' r" and "0 < n"
  shows "\<exists>t. parseredirs n b es c s = Inr (c, t) \<and> upto_ws b es t r"
  using peek_upto [OF assms(1), of "''<>''"] assms(2,3) by (cases n) auto

lemma parsebacks_stop:
  assumes "upto_ws b es s r" and "\<not> starts ''&'' r" and "0 < n"
  shows "\<exists>t. parsebacks n b es c s = Inr (c, t) \<and> upto_ws b es t r"
  using peek_upto [OF assms(1), of "''&''"] assms(2,3) by (cases n) auto

lemma parseargs_stop:
  assumes "upto_ws b es s r" and "stops ''|)&;'' r" and "0 < n"
  shows "\<exists>t. parseargs n b es k c s = Inr (c, t) \<and> upto_ws b es t r"
proof -
  obtain n' where n: "n = Suc n'" using assms(3) by (cases n) auto
  obtain t where t: "peek b es ''|)&;'' s = Inr (starts ''|)&;'' r, t)" "upto_ws b es t r"
    using peek_upto [OF assms(1), of "''|)&;''"] by auto
  show ?thesis
  proof (cases "starts ''|)&;'' r")
    case True
    with t n show ?thesis by simp
  next
    case False
    with assms(2) have d: "dropWhile ws r = []" by (cases "dropWhile ws r") (auto simp: stops_def starts_def)
    with t(2) obtain r0 where "left_at b es t r0" "dropWhile ws r0 = []" by (auto simp: upto_ws_def)
    from gettoken_end [OF this] obtain q where "gettoken b es t = Inr (NUL, q, q, q)" "left_at b es q []" by blast
    moreover from this(2) d have "upto_ws b es q r" by (auto simp: upto_ws_def intro!: exI [of _ "[]"])
    ultimately show ?thesis using False t(1) n by simp
  qed
qed

text \<open>One redirection, one argument.\<close>

definition sym_of :: "nat \<Rightarrow> char" where
  "sym_of fd = (if fd = 0 then CHR ''<'' else CHR ''>'')"

lemma gettoken_redir:
  assumes "upto_ws b es s (sym_of fd # w @ r)" and "word_ok w"
  shows "\<exists>tok q eq t. gettoken b es s = Inr (tok, q, eq, t) \<and> upto_ws b es t (w @ r)
    \<and> tok \<in> (if fd = 0 then {CHR ''<''} else {CHR ''>'', CHR ''+''})"
proof (cases "fd = 0")
  case True
  with gettoken_upto [of b es s "CHR ''<''" "w @ r"] assms(1) show ?thesis by (auto simp: sym_of_def punct_def)
next
  case False
  obtain c w' where w: "w = c # w'" "wordc c" using word_not_ws [OF assms(2)] by blast
  then have "c \<noteq> CHR ''>''" by (auto simp: wordc_def symbols_def)
  moreover obtain r0 where "left_at b es s r0" "dropWhile ws r0 = CHR ''>'' # w @ r"
    using assms(1) False by (auto simp: upto_ws_def sym_of_def)
  ultimately show ?thesis using gettoken_gt [of b es s r0 "w @ r"] w(1) False by (fastforce simp: upto_ws_def)
qed

lemma redir_of_str:
  assumes "tok \<in> (if fd = 0 then {CHR ''<''} else {CHR ''>'', CHR ''+''})"
    and "(mode, fd) \<in> {(O_RDONLY, 0), (O_WRONLY OR O_CREATE, 1)}"
  shows "redir_of tok d q eq = REDIR d q eq mode fd"
  using assms by (auto simp: redir_of_def split: if_splits)

lemma parseredirs_one:
  assumes "upto_ws b es s (sym_of fd # w @ CHR '' '' # r)" and "word_ok w"
    and "(mode, fd) \<in> {(O_RDONLY, 0), (O_WRONLY OR O_CREATE, 1)}"
  shows "\<exists>q eq t. parseredirs (Suc n) b es d s = parseredirs n b es (REDIR d q eq mode fd) t
    \<and> word_of b (q, eq) = w \<and> upto_ws b es t r"
proof -
  have "starts ''<>'' (sym_of fd # w @ CHR '' '' # r)" by (simp add: sym_of_def)
  then obtain t1 where 1: "peek b es ''<>'' s = Inr (True, t1)" "upto_ws b es t1 (sym_of fd # w @ CHR '' '' # r)"
    using peek_upto [OF assms(1), of "''<>''"] by auto
  obtain tok q1 e1 t2 where 2: "gettoken b es t1 = Inr (tok, q1, e1, t2)" "upto_ws b es t2 (w @ CHR '' '' # r)"
    "tok \<in> (if fd = 0 then {CHR ''<''} else {CHR ''>'', CHR ''+''})" using gettoken_redir [OF 1(2) assms(2)] by blast
  obtain q eq t3 where 3: "gettoken b es t2 = Inr (CHR ''a'', q, eq, t3)" "word_of b (q, eq) = w" "upto_ws b es t3 r"
    using gettoken_upto_word [OF 2(2) assms(2)] by blast
  from 1(1) 2(1) 3 redir_of_str [OF 2(3) assms(3)] show ?thesis by auto
qed

lemma parseargs_one:
  assumes "upto_ws b es s (w @ CHR '' '' # r)" and "word_ok w" and "Suc k < MAXARGS"
  shows "\<exists>q eq t. parseargs (Suc n) b es k d s = bnd (parseredirs n b es (exec_arg (q, eq) d) t) (\<lambda>(ret, s). parseargs n b es (Suc k) ret s)
    \<and> word_of b (q, eq) = w \<and> upto_ws b es t r"
proof -
  have "\<not> starts ''|)&;'' (w @ CHR '' '' # r)" by (rule starts_word [OF assms(2)]) (simp add: symbols_def)
  then obtain t1 where 1: "peek b es ''|)&;'' s = Inr (False, t1)" "upto_ws b es t1 (w @ CHR '' '' # r)"
    using peek_upto [OF assms(1), of "''|)&;''"] by auto
  obtain q eq t where 2: "gettoken b es t1 = Inr (CHR ''a'', q, eq, t)" "word_of b (q, eq) = w" "upto_ws b es t r"
    using gettoken_upto_word [OF 1(2) assms(2)] by blast
  with 1(1) assms(3) show ?thesis by (intro exI [of _ q] exI [of _ eq] exI [of _ t]) simp
qed

text \<open>What it means that a printed command is read back, at each level of the grammar. A simple command
  or block may be followed by redirections still to be read; \<open>base_args\<close> counts the words of a
  simple command.\<close>

fun base_args :: "scmd \<Rightarrow> nat option" where
  "base_args (SExec args) = Some (length args)"
| "base_args (SRedir c mode fd w) = base_args c"
| "base_args c = None"

definition exec_rest :: "string \<Rightarrow> nat \<Rightarrow> nat option \<Rightarrow> nat \<Rightarrow> nat \<Rightarrow> cmd \<Rightarrow> nat \<Rightarrow> sherr + (cmd \<times> nat)" where
  "exec_rest b es k m1 m2 d t = (case k of None \<Rightarrow> parseredirs m1 b es d t
     | Some k \<Rightarrow> bnd (parseredirs m1 b es d t) (\<lambda>(ret, s). parseargs m2 b es k ret s))"

definition rt_exec :: "string \<Rightarrow> nat \<Rightarrow> scmd \<Rightarrow> bool" where
  "rt_exec b es c \<longleftrightarrow> (\<forall>n s post. upto_ws b es s (pr 3 c @ post) \<longrightarrow> stops ''|&;)<>'' post \<longrightarrow>
     4 * length (pr 3 c @ post) + 1 < n \<longrightarrow>
     (\<exists>d t m1 m2. parseexec n b es s = exec_rest b es (base_args c) m1 m2 d t \<and> cmd_str (word_of b) d = c
        \<and> upto_ws b es t post \<and> length post < m1 \<and> length post < m2))"

definition rt_pipe :: "string \<Rightarrow> nat \<Rightarrow> scmd \<Rightarrow> bool" where
  "rt_pipe b es c \<longleftrightarrow> (\<forall>n s post. upto_ws b es s (pr 2 c @ post) \<longrightarrow> stops ''&;)'' post \<longrightarrow>
     4 * length (pr 2 c @ post) + 2 < n \<longrightarrow>
     (\<exists>d t. parsepipe n b es s = Inr (d, t) \<and> cmd_str (word_of b) d = c \<and> upto_ws b es t post))"

definition rt_back :: "string \<Rightarrow> nat \<Rightarrow> scmd \<Rightarrow> bool" where
  "rt_back b es c \<longleftrightarrow> (\<forall>n m s post. upto_ws b es s (pr 1 c @ post) \<longrightarrow> stops ''&;)'' post \<longrightarrow>
     4 * length (pr 1 c @ post) + 2 < n \<longrightarrow> length (pr 1 c @ post) < m \<longrightarrow>
     (\<exists>d t m'. bnd (parsepipe n b es s) (\<lambda>(c, s). parsebacks m b es c s) = parsebacks m' b es d t
        \<and> cmd_str (word_of b) d = c \<and> upto_ws b es t post \<and> length post < m'))"

definition rt_line :: "string \<Rightarrow> nat \<Rightarrow> scmd \<Rightarrow> bool" where
  "rt_line b es c \<longleftrightarrow> (\<forall>n s post. upto_ws b es s (pr 0 c @ post) \<longrightarrow> stops '')'' post \<longrightarrow>
     4 * length (pr 0 c @ post) + 3 < n \<longrightarrow>
     (\<exists>d t. parseline n b es s = Inr (d, t) \<and> cmd_str (word_of b) d = c \<and> upto_ws b es t post))"

text \<open>A simple command.\<close>

lemma args_rest:
  assumes "upto_ws b es t (concat (map (\<lambda>w. w @ '' '') args) @ post)" and "length as + length args < MAXARGS"
    and "list_all word_ok args" and "length (concat (map (\<lambda>w. w @ '' '') args) @ post) < m1"
    and "length (concat (map (\<lambda>w. w @ '' '') args) @ post) < m2"
  shows "\<exists>as' t' m1' m2'. exec_rest b es (Some (length as)) m1 m2 (EXEC as) t
      = exec_rest b es (Some (length as + length args)) m1' m2' (EXEC as') t'
    \<and> map (word_of b) as' = map (word_of b) as @ args \<and> upto_ws b es t' post \<and> length post < m1' \<and> length post < m2'"
  using assms
proof (induction args arbitrary: as t m1 m2)
  case Nil
  then show ?case by (intro exI [of _ as] exI [of _ t] exI [of _ m1] exI [of _ m2]) simp
next
  case (Cons w args)
  let ?r = "concat (map (\<lambda>w. w @ '' '') args) @ post"
  obtain n2 where m2: "m2 = Suc n2" using Cons.prems(5) by (cases m2) auto
  have u: "upto_ws b es t (w @ CHR '' '' # ?r)" and w: "word_ok w" using Cons.prems by simp_all
  have "\<not> starts ''<>'' (w @ CHR '' '' # ?r)" by (rule starts_word [OF w]) (simp add: symbols_def)
  from parseredirs_stop [OF u this, of m1 "EXEC as"] Cons.prems(4)
  obtain t1 where 1: "parseredirs m1 b es (EXEC as) t = Inr (EXEC as, t1)" "upto_ws b es t1 (w @ CHR '' '' # ?r)" by auto
  obtain q eq t2 where 2: "parseargs (Suc n2) b es (length as) (EXEC as) t1
      = bnd (parseredirs n2 b es (EXEC (as @ [(q, eq)])) t2) (\<lambda>(ret, s). parseargs n2 b es (Suc (length as)) ret s)"
    "word_of b (q, eq) = w" "upto_ws b es t2 ?r"
    using parseargs_one [OF 1(2) w, of "length as" n2 "EXEC as"] Cons.prems(2) by auto
  have "\<exists>as' t' m1' m2'. exec_rest b es (Some (length (as @ [(q, eq)]))) n2 n2 (EXEC (as @ [(q, eq)])) t2
      = exec_rest b es (Some (length (as @ [(q, eq)]) + length args)) m1' m2' (EXEC as') t'
    \<and> map (word_of b) as' = map (word_of b) (as @ [(q, eq)]) @ args \<and> upto_ws b es t' post \<and> length post < m1' \<and> length post < m2'"
    by (rule Cons.IH [OF 2(3)]) (use Cons.prems m2 w in \<open>auto simp: word_ok_def\<close>)
  moreover have "exec_rest b es (Some (length as)) m1 m2 (EXEC as) t
      = exec_rest b es (Some (length (as @ [(q, eq)]))) n2 n2 (EXEC (as @ [(q, eq)])) t2"
    using 1(1) 2(1) m2 by (simp add: exec_rest_def)
  ultimately show ?case using 2(2) by simp
qed

lemma starts_args: "list_all word_ok args \<Longrightarrow> stops T post \<Longrightarrow> CHR ''('' \<notin> set T \<Longrightarrow>
    \<not> starts ''('' (concat (map (\<lambda>w. w @ '' '') args) @ post)"
proof (cases args)
  case (Cons w ws)
  moreover assume "list_all word_ok args"
  ultimately have "\<not> starts ''('' (w @ CHR '' '' # concat (map (\<lambda>w. w @ '' '') ws) @ post)"
    by (intro starts_word) (simp_all add: symbols_def)
  with Cons show ?thesis by simp
qed (auto dest: stops_not_starts [where U = "''(''"])

lemma rt_exec_SExec: "scmd_ok (SExec args) \<Longrightarrow> rt_exec b es (SExec args)"
  unfolding rt_exec_def
proof (intro allI impI)
  fix n s post
  assume ok: "scmd_ok (SExec args)" and u: "upto_ws b es s (pr 3 (SExec args) @ post)"
    and st: "stops ''|&;)<>'' post" and n: "4 * length (pr 3 (SExec args) @ post) + 1 < n"
  obtain n' where n': "n = Suc n'" using n by (cases n) auto
  have "\<not> starts ''('' (pr 3 (SExec args) @ post)" using starts_args [of args _ post] ok st by simp
  with peek_upto [OF u, of "''(''"] obtain t
    where t: "peek b es ''('' s = Inr (False, t)" "upto_ws b es t (pr 3 (SExec args) @ post)" by auto
  then have "parseexec n b es s = exec_rest b es (Some (length [])) n' n' (EXEC []) t" by (simp add: n' exec_rest_def)
  moreover from args_rest [of b es t args post "[]" n' n'] t(2) ok n n'
  obtain as' t' m1 m2 where "exec_rest b es (Some (length [])) n' n' (EXEC []) t = exec_rest b es (Some (length args)) m1 m2 (EXEC as') t'"
    "map (word_of b) as' = args" "upto_ws b es t' post" "length post < m1" "length post < m2" by auto
  ultimately show "\<exists>d t m1 m2. parseexec n b es s = exec_rest b es (base_args (SExec args)) m1 m2 d t
      \<and> cmd_str (word_of b) d = SExec args \<and> upto_ws b es t post \<and> length post < m1 \<and> length post < m2"
    by (intro exI [of _ "EXEC as'"] exI [of _ t'] exI [of _ m1] exI [of _ m2]) simp
qed

text \<open>A redirection behind a simple command or block.\<close>

lemma rt_exec_SRedir:
  assumes "rt_exec b es c" and "scmd_ok (SRedir c mode fd w)"
  shows "rt_exec b es (SRedir c mode fd w)"
  unfolding rt_exec_def
proof (intro allI impI)
  fix n s post
  assume u: "upto_ws b es s (pr 3 (SRedir c mode fd w) @ post)" and n: "4 * length (pr 3 (SRedir c mode fd w) @ post) + 1 < n"
  let ?post = "sym_of fd # w @ CHR '' '' # post"
  have p: "pr 3 (SRedir c mode fd w) @ post = pr 3 c @ ?post" by (simp add: sym_of_def)
  have "stops ''|&;)<>'' ?post" by (simp add: sym_of_def)
  with assms(1) u n obtain d t m1 m2 where 1: "parseexec n b es s = exec_rest b es (base_args c) m1 m2 d t"
    "cmd_str (word_of b) d = c" "upto_ws b es t ?post" "length ?post < m1" "length ?post < m2"
    unfolding rt_exec_def p by blast
  obtain n1 where n1: "m1 = Suc n1" using 1(4) by (cases m1) auto
  have w: "word_ok w" "(mode, fd) \<in> {(O_RDONLY, 0), (O_WRONLY OR O_CREATE, 1)}" using assms(2) by simp_all
  obtain q eq t' where 2: "parseredirs (Suc n1) b es d t = parseredirs n1 b es (REDIR d q eq mode fd) t'"
    "word_of b (q, eq) = w" "upto_ws b es t' post" using parseredirs_one [OF 1(3) w] by blast
  from 1(1) 2(1) have "parseexec n b es s = exec_rest b es (base_args c) n1 m2 (REDIR d q eq mode fd) t'"
    by (simp add: n1 exec_rest_def split: option.splits)
  then show "\<exists>d t m1 m2. parseexec n b es s = exec_rest b es (base_args (SRedir c mode fd w)) m1 m2 d t
      \<and> cmd_str (word_of b) d = SRedir c mode fd w \<and> upto_ws b es t post \<and> length post < m1 \<and> length post < m2"
    using 1(2,4,5) 2(2,3) n1 by (intro exI [of _ "REDIR d q eq mode fd"] exI [of _ t'] exI [of _ n1] exI [of _ m2]) simp
qed

text \<open>A block, from the line inside it.\<close>

lemma rt_exec_block:
  assumes "rt_line b es c" and "base_args c = None" and p: "pr 3 c = ''('' @ pr 0 c @ '')''"
  shows "rt_exec b es c"
  unfolding rt_exec_def
proof (intro allI impI)
  fix n s post
  assume u: "upto_ws b es s (pr 3 c @ post)" and n: "4 * length (pr 3 c @ post) + 1 < n"
  obtain n' where n': "n = Suc (Suc n')" using n p by (cases n; cases "n - 1") auto
  let ?in = "pr 0 c @ CHR '')'' # post"
  have e: "pr 3 c @ post = CHR ''('' # ?in" by (simp add: p)
  have st: "starts ''('' (pr 3 c @ post)" by (simp add: e)
  obtain t1 where 1: "peek b es ''('' s = Inr (True, t1)" "upto_ws b es t1 (CHR ''('' # ?in)"
    using peek_upto [OF u, of "''(''"] st unfolding e by auto
  obtain t2 where 2: "peek b es ''('' t1 = Inr (True, t2)" "upto_ws b es t2 (CHR ''('' # ?in)"
    using peek_upto [OF 1(2), of "''(''"] by auto
  obtain q eq t3 where 3: "gettoken b es t2 = Inr (CHR ''('', q, eq, t3)" "upto_ws b es t3 ?in"
    using gettoken_upto [OF 2(2)] by (auto simp: punct_def)
  have "4 * length ?in + 3 < n'" using n n' by (simp add: p)
  moreover have "stops '')'' (CHR '')'' # post)" by simp
  ultimately obtain d t4 where 4: "parseline n' b es t3 = Inr (d, t4)" "cmd_str (word_of b) d = c"
    "upto_ws b es t4 (CHR '')'' # post)" using assms(1) 3(2) unfolding rt_line_def by blast
  obtain t5 where 5: "peek b es '')'' t4 = Inr (True, t5)" "upto_ws b es t5 (CHR '')'' # post)"
    using peek_upto [OF 4(3), of "'')''"] by auto
  obtain q' eq' t6 where 6: "gettoken b es t5 = Inr (CHR '')'', q', eq', t6)" "upto_ws b es t6 post"
    using gettoken_upto [OF 5(2)] by (auto simp: punct_def)
  have "parseexec n b es s = exec_rest b es (base_args c) n' n' d t6"
    using 1(1) 2(1) 3(1) 4(1) 5(1) 6(1) by (simp add: n' exec_rest_def assms(2))
  moreover have "length post < n'" using n n' by (simp add: p)
  ultimately show "\<exists>d t m1 m2. parseexec n b es s = exec_rest b es (base_args c) m1 m2 d t
      \<and> cmd_str (word_of b) d = c \<and> upto_ws b es t post \<and> length post < m1 \<and> length post < m2"
    using 4(2) 6(2) by blast
qed

lemma rt_exec_done:
  assumes "rt_exec b es c" and "upto_ws b es s (pr 3 c @ post)" and "stops ''|&;)'' post" and "4 * length (pr 3 c @ post) + 1 < n"
  shows "\<exists>d t. parseexec n b es s = Inr (d, t) \<and> cmd_str (word_of b) d = c \<and> upto_ws b es t post"
proof -
  have "stops ''|&;)<>'' post" by (rule stops_mono [OF assms(3)]) auto
  with assms obtain d t m1 m2 where 1: "parseexec n b es s = exec_rest b es (base_args c) m1 m2 d t"
    "cmd_str (word_of b) d = c" "upto_ws b es t post" "length post < m1" "length post < m2"
    unfolding rt_exec_def by blast
  have "\<not> starts ''<>'' post" by (rule stops_not_starts [OF assms(3)]) simp
  from parseredirs_stop [OF 1(3) this, of m1 d] 1(4)
  obtain t1 where 2: "parseredirs m1 b es d t = Inr (d, t1)" "upto_ws b es t1 post" by auto
  have "stops ''|)&;'' post" by (rule stops_mono [OF assms(3)]) auto
  then have 3: "\<exists>u. parseargs m2 b es k d t1 = Inr (d, u) \<and> upto_ws b es u post" for k
    using parseargs_stop [OF 2(2), of m2 k d] 1(5) by auto
  show ?thesis
  proof (cases "base_args c")
    case None
    with 1(1,2) 2 show ?thesis by (simp add: exec_rest_def)
  next
    case (Some k)
    with 1(1,2) 2(1) 3 [of k] show ?thesis by (auto simp: exec_rest_def)
  qed
qed

text \<open>Pipelines.\<close>

lemma rt_pipe_exec:
  assumes "rt_exec b es c" and p: "pr 2 c = pr 3 c"
  shows "rt_pipe b es c"
  unfolding rt_pipe_def
proof (intro allI impI)
  fix n s post
  assume u: "upto_ws b es s (pr 2 c @ post)" and st: "stops ''&;)'' post" and n: "4 * length (pr 2 c @ post) + 2 < n"
  obtain n' where n': "n = Suc n'" using n by (cases n) auto
  have "stops ''|&;)'' post" by (rule stops_mono [OF st]) auto
  then obtain d t where 1: "parseexec n' b es s = Inr (d, t)" "cmd_str (word_of b) d = c" "upto_ws b es t post"
    using rt_exec_done [OF assms(1) u [unfolded p], of n'] n n' p by auto
  have "\<not> starts ''|'' post" by (rule stops_not_starts [OF st]) simp
  with peek_upto [OF 1(3), of "''|''"] obtain t' where "peek b es ''|'' t = Inr (False, t')" "upto_ws b es t' post" by auto
  with 1 show "\<exists>d t. parsepipe n b es s = Inr (d, t) \<and> cmd_str (word_of b) d = c \<and> upto_ws b es t post"
    by (simp add: n')
qed

lemma rt_pipe_SPipe:
  assumes "rt_exec b es a" and "rt_pipe b es c"
  shows "rt_pipe b es (SPipe a c)"
  unfolding rt_pipe_def
proof (intro allI impI)
  fix n s post
  assume u: "upto_ws b es s (pr 2 (SPipe a c) @ post)" and st: "stops ''&;)'' post"
    and n: "4 * length (pr 2 (SPipe a c) @ post) + 2 < n"
  obtain n' where n': "n = Suc n'" using n by (cases n) auto
  let ?post = "CHR ''|'' # pr 2 c @ post"
  have e: "pr 2 (SPipe a c) @ post = pr 3 a @ ?post" by (simp add: paren_def)
  obtain d t where 1: "parseexec n' b es s = Inr (d, t)" "cmd_str (word_of b) d = a" "upto_ws b es t ?post"
    using rt_exec_done [OF assms(1) u [unfolded e], of n'] n n' e by auto
  obtain t1 where 2: "peek b es ''|'' t = Inr (True, t1)" "upto_ws b es t1 ?post" using peek_upto [OF 1(3), of "''|''"] by auto
  obtain q eq t2 where 3: "gettoken b es t1 = Inr (CHR ''|'', q, eq, t2)" "upto_ws b es t2 (pr 2 c @ post)"
    using gettoken_upto [OF 2(2)] by (auto simp: punct_def)
  have "4 * length (pr 2 c @ post) + 2 < n'" using n n' by (simp add: paren_def)
  with assms(2) 3(2) st obtain d' t3 where "parsepipe n' b es t2 = Inr (d', t3)" "cmd_str (word_of b) d' = c" "upto_ws b es t3 post"
    unfolding rt_pipe_def by blast
  with 1 2(1) 3(1) show "\<exists>d t. parsepipe n b es s = Inr (d, t) \<and> cmd_str (word_of b) d = SPipe a c \<and> upto_ws b es t post"
    by (simp add: n')
qed

text \<open>Commands in the background, lists.\<close>

lemma rt_back_pipe:
  assumes "rt_pipe b es c" and p: "pr 1 c = pr 2 c"
  shows "rt_back b es c"
  unfolding rt_back_def
proof (intro allI impI)
  fix n m s post
  assume a: "upto_ws b es s (pr 1 c @ post)" "stops ''&;)'' post" "4 * length (pr 1 c @ post) + 2 < n"
    and m: "length (pr 1 c @ post) < m"
  with assms obtain d t where "parsepipe n b es s = Inr (d, t)" "cmd_str (word_of b) d = c" "upto_ws b es t post"
    unfolding rt_pipe_def p by blast
  moreover have "length post < m" using m by simp
  ultimately show "\<exists>d t m'. bnd (parsepipe n b es s) (\<lambda>(c, s). parsebacks m b es c s) = parsebacks m' b es d t
      \<and> cmd_str (word_of b) d = c \<and> upto_ws b es t post \<and> length post < m'" by auto
qed

lemma rt_back_SBack:
  assumes "rt_back b es c"
  shows "rt_back b es (SBack c)"
  unfolding rt_back_def
proof (intro allI impI)
  fix n m s post
  assume u: "upto_ws b es s (pr 1 (SBack c) @ post)" and n: "4 * length (pr 1 (SBack c) @ post) + 2 < n"
    and m: "length (pr 1 (SBack c) @ post) < m"
  let ?post = "CHR ''&'' # post"
  have e: "pr 1 (SBack c) @ post = pr 1 c @ ?post" by (simp add: paren_def)
  have "stops ''&;)'' ?post" by simp
  with assms u n m obtain d t m' where
    1: "bnd (parsepipe n b es s) (\<lambda>(c, s). parsebacks m b es c s) = parsebacks m' b es d t"
    "cmd_str (word_of b) d = c" "upto_ws b es t ?post" "length ?post < m'"
    unfolding rt_back_def e by blast
  obtain k where k: "m' = Suc k" using 1(4) by (cases m') auto
  obtain t1 where 2: "peek b es ''&'' t = Inr (True, t1)" "upto_ws b es t1 ?post" using peek_upto [OF 1(3), of "''&''"] by auto
  obtain q eq t2 where 3: "gettoken b es t1 = Inr (CHR ''&'', q, eq, t2)" "upto_ws b es t2 post"
    using gettoken_upto [OF 2(2)] by (auto simp: punct_def)
  have "parsebacks m' b es d t = parsebacks k b es (BACK d) t2" using 2(1) 3(1) by (simp add: k)
  moreover have "cmd_str (word_of b) (BACK d) = SBack c" "length post < k" using 1(2,4) k by simp_all
  ultimately show "\<exists>d t m'. bnd (parsepipe n b es s) (\<lambda>(c, s). parsebacks m b es c s) = parsebacks m' b es d t
      \<and> cmd_str (word_of b) d = SBack c \<and> upto_ws b es t post \<and> length post < m'"
    using 1(1) 3(2) by metis
qed

lemma bnd_prod_assoc: "bnd (bnd m (\<lambda>(x, y). f x y)) g = bnd m (\<lambda>(x, y). bnd (f x y) g)"
  by (cases m) auto

lemma parseline_backs:
  assumes "rt_back b es c" and "upto_ws b es s (pr 1 c @ post)" and "stops '';)'' post" and "4 * length (pr 1 c @ post) + 2 < n"
  shows "\<exists>d t. cmd_str (word_of b) d = c \<and> upto_ws b es t post \<and>
    parseline (Suc n) b es s = bnd (peek b es '';'' t) (\<lambda>(p, s). if p
       then bnd (gettoken b es s) (\<lambda>(_, _, _, s). bnd (parseline n b es s) (\<lambda>(right, s). Inr (listcmd d right, s)))
       else Inr (d, s))"
proof -
  have "stops ''&;)'' post" by (rule stops_mono [OF assms(3)]) auto
  moreover have "length (pr 1 c @ post) < n" using assms(4) by simp
  ultimately obtain d t m' where
    1: "bnd (parsepipe n b es s) (\<lambda>(c, s). parsebacks n b es c s) = parsebacks m' b es d t"
    "cmd_str (word_of b) d = c" "upto_ws b es t post" "length post < m'"
    using assms(1,2,4) unfolding rt_back_def by blast
  have "\<not> starts ''&'' post" by (rule stops_not_starts [OF assms(3)]) simp
  from parsebacks_stop [OF 1(3) this, of m' d] 1(4)
  obtain t' where 2: "parsebacks m' b es d t = Inr (d, t')" "upto_ws b es t' post" by auto
  have "parseline (Suc n) b es s = bnd (bnd (parsepipe n b es s) (\<lambda>(c, s). parsebacks n b es c s)) (\<lambda>(cmd, s).
     bnd (peek b es '';'' s) (\<lambda>(p, s). if p
       then bnd (gettoken b es s) (\<lambda>(_, _, _, s). bnd (parseline n b es s) (\<lambda>(right, s). Inr (listcmd cmd right, s)))
       else Inr (cmd, s)))"
    by (simp only: parseline.simps bnd_prod_assoc)
  with 1(1) 2(1) have "parseline (Suc n) b es s = bnd (peek b es '';'' t') (\<lambda>(p, s). if p
       then bnd (gettoken b es s) (\<lambda>(_, _, _, s). bnd (parseline n b es s) (\<lambda>(right, s). Inr (listcmd d right, s)))
       else Inr (d, s))" by simp
  with 1(2) 2(2) show ?thesis by blast
qed

lemma rt_line_back:
  assumes "rt_back b es c" and p: "pr 0 c = pr 1 c"
  shows "rt_line b es c"
  unfolding rt_line_def
proof (intro allI impI)
  fix n s post
  assume u: "upto_ws b es s (pr 0 c @ post)" and st: "stops '')'' post" and n: "4 * length (pr 0 c @ post) + 3 < n"
  obtain n' where n': "n = Suc n'" using n by (cases n) auto
  have "stops '';)'' post" by (rule stops_mono [OF st]) auto
  moreover have "4 * length (pr 1 c @ post) + 2 < n'" using n n' p by simp
  ultimately obtain d t where 1: "cmd_str (word_of b) d = c" "upto_ws b es t post"
    "parseline (Suc n') b es s = bnd (peek b es '';'' t) (\<lambda>(p, s). if p
       then bnd (gettoken b es s) (\<lambda>(_, _, _, s). bnd (parseline n' b es s) (\<lambda>(right, s). Inr (listcmd d right, s)))
       else Inr (d, s))"
    using parseline_backs [OF assms(1) u [unfolded p]] by blast
  have "\<not> starts '';'' post" by (rule stops_not_starts [OF st]) simp
  with peek_upto [OF 1(2), of "'';''"] obtain t' where "peek b es '';'' t = Inr (False, t')" "upto_ws b es t' post" by auto
  with 1 show "\<exists>d t. parseline n b es s = Inr (d, t) \<and> cmd_str (word_of b) d = c \<and> upto_ws b es t post"
    unfolding n' by simp
qed

lemma rt_line_SList:
  assumes "rt_back b es a" and "rt_line b es c"
  shows "rt_line b es (SList a c)"
  unfolding rt_line_def
proof (intro allI impI)
  fix n s post
  assume u: "upto_ws b es s (pr 0 (SList a c) @ post)" and st: "stops '')'' post"
    and n: "4 * length (pr 0 (SList a c) @ post) + 3 < n"
  obtain n' where n': "n = Suc n'" using n by (cases n) auto
  let ?post = "CHR '';'' # pr 0 c @ post"
  have e: "pr 0 (SList a c) @ post = pr 1 a @ ?post" by (simp add: paren_def)
  have "stops '';)'' ?post" "4 * length (pr 1 a @ ?post) + 2 < n'" using n n' e by simp_all
  then obtain d t where 1: "cmd_str (word_of b) d = a" "upto_ws b es t ?post"
    "parseline (Suc n') b es s = bnd (peek b es '';'' t) (\<lambda>(p, s). if p
       then bnd (gettoken b es s) (\<lambda>(_, _, _, s). bnd (parseline n' b es s) (\<lambda>(right, s). Inr (listcmd d right, s)))
       else Inr (d, s))"
    using parseline_backs [OF assms(1) u [unfolded e]] by blast
  obtain t1 where 2: "peek b es '';'' t = Inr (True, t1)" "upto_ws b es t1 ?post" using peek_upto [OF 1(2), of "'';''"] by auto
  obtain q eq t2 where 3: "gettoken b es t1 = Inr (CHR '';'', q, eq, t2)" "upto_ws b es t2 (pr 0 c @ post)"
    using gettoken_upto [OF 2(2)] by (auto simp: punct_def)
  have "4 * length (pr 0 c @ post) + 3 < n'" using n n' by (simp add: paren_def)
  with assms(2) 3(2) st obtain d' t3 where "parseline n' b es t2 = Inr (d', t3)" "cmd_str (word_of b) d' = c" "upto_ws b es t3 post"
    unfolding rt_line_def by blast
  with 1(1) 2(1) 3(1) show "\<exists>d t. parseline n b es s = Inr (d, t) \<and> cmd_str (word_of b) d = SList a c \<and> upto_ws b es t post"
    unfolding n' 1(3) by simp
qed

lemma rt_all: "scmd_ok c \<Longrightarrow> rt_exec b es c \<and> rt_pipe b es c \<and> rt_back b es c \<and> rt_line b es c"
proof (induction c)
  case (SExec args)
  then have e: "rt_exec b es (SExec args)" by (rule rt_exec_SExec)
  then have p: "rt_pipe b es (SExec args)" by (rule rt_pipe_exec) simp
  then have "rt_back b es (SExec args)" by (rule rt_back_pipe) simp
  moreover from this have "rt_line b es (SExec args)" by (rule rt_line_back) simp
  ultimately show ?case using e p by blast
next
  case (SRedir c mode fd w)
  then have e: "rt_exec b es (SRedir c mode fd w)" by (intro rt_exec_SRedir) simp_all
  then have p: "rt_pipe b es (SRedir c mode fd w)" by (rule rt_pipe_exec) simp
  then have "rt_back b es (SRedir c mode fd w)" by (rule rt_back_pipe) simp
  moreover from this have "rt_line b es (SRedir c mode fd w)" by (rule rt_line_back) simp
  ultimately show ?case using e p by blast
next
  case (SPipe a c)
  then have p: "rt_pipe b es (SPipe a c)" by (intro rt_pipe_SPipe) simp_all
  then have k: "rt_back b es (SPipe a c)" by (rule rt_back_pipe) (simp add: paren_def)
  then have "rt_line b es (SPipe a c)" by (rule rt_line_back) (simp add: paren_def)
  moreover from this have "rt_exec b es (SPipe a c)" by (rule rt_exec_block) (simp_all add: paren_def)
  ultimately show ?case using p k by blast
next
  case (SList a c)
  then have l: "rt_line b es (SList a c)" by (intro rt_line_SList) simp_all
  then have e: "rt_exec b es (SList a c)" by (rule rt_exec_block) (simp_all add: paren_def)
  then have "rt_pipe b es (SList a c)" by (rule rt_pipe_exec) (simp add: paren_def)
  moreover from this have "rt_back b es (SList a c)" by (rule rt_back_pipe) (simp add: paren_def)
  ultimately show ?case using e l by blast
next
  case (SBack c)
  then have k: "rt_back b es (SBack c)" by (intro rt_back_SBack) simp_all
  then have "rt_line b es (SBack c)" by (rule rt_line_back) (simp add: paren_def)
  moreover from this have e: "rt_exec b es (SBack c)" by (rule rt_exec_block) (simp_all add: paren_def)
  moreover from e have "rt_pipe b es (SBack c)" by (rule rt_pipe_exec) (simp add: paren_def)
  ultimately show ?case using k by blast
qed

lemma pr_no_NUL: "scmd_ok c \<Longrightarrow> NUL \<notin> set (pr l c)"
  by (induction c arbitrary: l) (auto simp: paren_def word_ok_def list_all_iff wordc_def)

lemma cmd_str_cong: "(\<And>t. t \<in> set (toks c) \<Longrightarrow> f t = g t) \<Longrightarrow> cmd_str f c = cmd_str g c"
  by (induction c) auto

lemma strlen_append: "NUL \<notin> set u \<Longrightarrow> strlen (u @ NUL # junk) = length u"
  by (induction u) auto

lemma parsecmd_rt:
  assumes "rt_line (u @ NUL # junk) (length u) c" and u: "u = pr 0 c @ sp" and nul: "NUL \<notin> set u" and sp: "dropWhile ws sp = []"
  shows "\<exists>d. parsecmd (u @ NUL # junk) = Inr (d, nulterminate d (u @ NUL # junk)) \<and> cmd_str (word_of (u @ NUL # junk)) d = c"
proof -
  define b es where "b = u @ NUL # junk" and "es = length u"
  have es: "strlen b = es" unfolding b_def es_def by (rule strlen_append [OF nul])
  have "NUL \<in> set b" by (simp add: b_def)
  from line_ok_strlen [OF this] have ok: "line_ok b es" unfolding es .
  have "take es b = u" by (simp add: b_def es_def)
  with ok have "left_at b es 0 (pr 0 c @ sp)" by (simp add: left_at_def u)
  then have "upto_ws b es 0 (pr 0 c @ sp)" by (auto simp: upto_ws_def)
  moreover have "stops '')'' sp" "4 * length (pr 0 c @ sp) + 3 < 4 * es + 4" by (simp_all add: stops_def sp es_def u)
  ultimately obtain d t where p: "parseline (4 * es + 4) b es 0 = Inr (d, t)" "cmd_str (word_of b) d = c" "upto_ws b es t sp"
    using assms(1) unfolding rt_line_def b_def [symmetric] es_def [symmetric] by blast
  obtain r0 where "left_at b es t r0" "dropWhile ws r0 = []" using p(3) sp by (auto simp: upto_ws_def)
  from peek_left [OF this(1), of "[]"] this(2)
  obtain t' x where q: "peek b es [] t = Inr (x, t')" "left_at b es t' []" by auto
  have "parsecmd b = Inr (d, nulterminate d b)"
    unfolding parsecmd_def es Let_def p(1) using q(1) left_at_Nil [OF q(2)] by simp
  with p(2) show ?thesis unfolding b_def by blast
qed

text \<open>C35: every command can be typed, and is read back as it was meant. For every command with proper
  words and at most nine arguments, the parser applied to its text, with any white space behind it and anything after the
  terminator, gives a command of the same shape whose strings, as later read up to their
  terminators, are the words of the original.\<close>

theorem parsecmd_pr:
  assumes "scmd_ok c" and "list_all ws sp"
  shows "\<exists>d b'. parsecmd ((pr 0 c @ sp) @ NUL # junk) = Inr (d, b') \<and> cmd_str (\<lambda>t. cstr (drop (fst t) b')) d = c"
proof -
  have "ws NUL = False" by (simp add: ws_def whitespace_def)
  with assms(2) have "NUL \<notin> set sp" by (auto simp: list_all_iff)
  with pr_no_NUL [OF assms(1)] have nul: "NUL \<notin> set (pr 0 c @ sp)" by simp
  have sp: "dropWhile ws sp = []" using assms(2) by (simp add: dropWhile_eq_Nil_conv list_all_iff)
  have "rt_line ((pr 0 c @ sp) @ NUL # junk) (length (pr 0 c @ sp)) c" using rt_all [OF assms(1)] by blast
  from parsecmd_rt [OF this refl nul sp] obtain d where
    d: "parsecmd ((pr 0 c @ sp) @ NUL # junk) = Inr (d, nulterminate d ((pr 0 c @ sp) @ NUL # junk))"
    "cmd_str (word_of ((pr 0 c @ sp) @ NUL # junk)) d = c" by blast
  have "NUL \<in> set ((pr 0 c @ sp) @ NUL # junk)" by simp
  from parsecmd_post [OF this] have "cmd_ok ((pr 0 c @ sp) @ NUL # junk) d" unfolding d(1) by simp
  from nulterminate_word [OF this] have "cmd_str (\<lambda>t. cstr (drop (fst t) (nulterminate d ((pr 0 c @ sp) @ NUL # junk)))) d
      = cmd_str (word_of ((pr 0 c @ sp) @ NUL # junk)) d"
    by (intro cmd_str_cong) (simp only: split_paired_all fst_conv)
  with d show ?thesis by metis
qed

theorem parsecmd_pr_witness:
  "\<exists>d b'. parsecmd ((pr 0 (SList (SBack (SExec [''ls'', ''-l''])) (SRedir (SPipe (SExec [''a'']) (SExec [''b''])) O_RDONLY 0 ''f'')) @ [CHR 0x0A]) @ NUL # [])
       = Inr (d, b') \<and> cmd_str (\<lambda>t. cstr (drop (fst t) b')) d
       = SList (SBack (SExec [''ls'', ''-l''])) (SRedir (SPipe (SExec [''a'']) (SExec [''b''])) O_RDONLY 0 ''f'')"
  by (rule parsecmd_pr) (simp_all add: MAXARGS_def word_ok_def wordc_def symbols_def whitespace_def ws_def)

end
