(* ===== verification/User.thy ===== *)
theory User
  imports Fs
begin

text \<open>
  User programs: what a program does between its system calls, and the user library
  (\<^verbatim>\<open>ulib.c\<close>, \<^verbatim>\<open>printf.c\<close>).

  A program is a tree of system calls: \<open>UCall c k\<close> makes the call \<open>c\<close> and goes on with \<open>k\<close> applied to
  the kernel's reply, the value in \<^verbatim>\<open>eax\<close> and the bytes or structure the kernel stored in the program's buffer.
  The other leaves are the return of a value, \<^verbatim>\<open>exit\<close>, a memory fault, and the end of the fuel of
  a loop over input of unknown length. \<open>urun\<close> runs a program against a kernel, given as a state
  with a function that answers the calls.
\<close>

section \<open>System calls of a program\<close>

datatype ucall =
    UFork | UWait | UPipe | URead int nat | UWrite int string | UClose int | UKill int
  | UExec string "string list" | UOpen string u32 | UMknod string int int | UUnlink string
  | UFstat int | ULink string string | UMkdir string | UChdir string | UDup int | UGetpid
  | USbrk int | USleep int | UUptime
  | UGet_name int | UGet_max_proc int | UGet_max_mem int | UGet_max_disk int
  | UGet_curr_proc int | UGet_curr_mem int | UGet_curr_disk int
  | USet_name string int | USet_max_mem int int | USet_max_disk int int | USet_max_proc int int
  | USet_curr_mem int int | USet_curr_disk int int | USet_curr_proc int int
  | UFind string | UIs_full | UContainer_init | UCont_proc_set int | UPs | USet_root_inode string
  | UCstop string | UDf | UMax_containers | UContainer_reset int | UPause string | UResume string
  | UTmem | UAmem | UC_ps string | USet_os int

text \<open>What the kernel stores in the program's memory: nothing, bytes, a \<^verbatim>\<open>struct stat\<close>, the two
  descriptors of a pipe.\<close>

datatype udata = No_data | Bytes string | Stat stat | Fds int int

type_synonym reply = "int \<times> udata"

definition bytes_of :: "udata \<Rightarrow> string" where
  "bytes_of d = (case d of Bytes s \<Rightarrow> s | _ \<Rightarrow> [])"

datatype 'a uprog = URet 'a | UExit | UFault | UFuel | UCall ucall "reply \<Rightarrow> 'a uprog"

primrec ubnd :: "'a uprog \<Rightarrow> ('a \<Rightarrow> 'b uprog) \<Rightarrow> 'b uprog" where
  "ubnd (URet x) f = f x"
| "ubnd UExit f = UExit"
| "ubnd UFault f = UFault"
| "ubnd UFuel f = UFuel"
| "ubnd (UCall c k) f = UCall c (\<lambda>r. ubnd (k r) f)"

text \<open>A call whose value alone is used.\<close>

definition usys :: "ucall \<Rightarrow> int uprog" where
  "usys c = UCall c (\<lambda>r. URet (fst r))"

lemma ubnd_usys [simp]: "ubnd (usys c) f = UCall c (\<lambda>r. f (fst r))"
  by (simp add: usys_def)

lemma ubnd_assoc: "ubnd (ubnd p f) g = ubnd p (\<lambda>x. ubnd (f x) g)"
  by (induction p) auto

lemma ubnd_URet [simp]: "ubnd p URet = p"
  by (induction p) auto

text \<open>A run: the end and the state of the kernel. A \<^verbatim>\<open>fork\<close> is answered for one of the two processes.\<close>

datatype 'a uend = Done 'a | Exited | Faulted | NoFuel

primrec urun :: "(ucall \<Rightarrow> 'w \<Rightarrow> reply \<times> 'w) \<Rightarrow> 'a uprog \<Rightarrow> 'w \<Rightarrow> 'a uend \<times> 'w" where
  "urun sys (URet x) w = (Done x, w)"
| "urun sys UExit w = (Exited, w)"
| "urun sys UFault w = (Faulted, w)"
| "urun sys UFuel w = (NoFuel, w)"
| "urun sys (UCall c k) w = (let (r, w) = sys c w in urun sys (k r) w)"

lemma urun_ubnd:
  "urun sys (ubnd p f) w = (case urun sys p w of (Done x, w) \<Rightarrow> urun sys (f x) w
     | (Exited, w) \<Rightarrow> (Exited, w) | (Faulted, w) \<Rightarrow> (Faulted, w) | (NoFuel, w) \<Rightarrow> (NoFuel, w))"
  by (induction p arbitrary: w) (simp_all split: prod.splits)

section \<open>Formatted output\<close>

primrec putc_all :: "int \<Rightarrow> string \<Rightarrow> unit uprog" where
  "putc_all fd [] = URet ()"
| "putc_all fd (c # cs) = UCall (UWrite fd [c]) (\<lambda>_. putc_all fd cs)"

definition DIGITS :: string where "DIGITS = ''0123456789ABCDEF''"

text \<open>The loop of \<^verbatim>\<open>printint\<close> fills \<^verbatim>\<open>buf[16]\<close>; \<open>buf\<close> is what it has stored, last first.\<close>

function uprintint_loop :: "nat \<Rightarrow> nat \<Rightarrow> string \<Rightarrow> string res" where
  "uprintint_loop x base buf =
     (if length buf < 16 \<and> base \<noteq> 0
      then (let buf = DIGITS ! (x mod base) # buf
            in if x div base \<noteq> 0 then uprintint_loop (x div base) base buf else Inr buf)
      else Inl (Fault ''printint''))"
  by pat_completeness auto
termination
  by (relation "measure (\<lambda>(x, base, buf). 16 - length buf)") auto

declare uprintint_loop.simps [simp del]

definition uprintint :: "u32 \<Rightarrow> nat \<Rightarrow> bool \<Rightarrow> string res" where
  "uprintint xx base sign =
     (let neg = sign \<and> sint xx < 0; x = (if neg then - xx else xx)
      in bnd (uprintint_loop (unat x) base []) (\<lambda>buf.
           if neg then (if length buf < 16 then Inr (CHR ''-'' # buf) else Inl (Fault ''printint''))
           else Inr buf))"

text \<open>The characters that \<^verbatim>\<open>printf\<close> writes. A conversion without an argument, or with one of the other kind,
  is a fault.\<close>

function printf_out :: "string \<Rightarrow> parg list \<Rightarrow> string res" where
  "printf_out fmt args =
     (let c = deref fmt
      in if c = NUL then Inr []
         else if c \<noteq> CHR ''%'' then bnd (printf_out (tl fmt) args) (\<lambda>r. Inr (c # r))
         else
           let c = deref (tl fmt); rest = tl (tl fmt)
           in if c = NUL then Inr []
              else if c = CHR ''d'' then
                (case args of [] \<Rightarrow> Inl (Fault ''printf'')
                 | a # args \<Rightarrow> bnd (parg_int a) (\<lambda>w. bnd (uprintint w 10 True) (\<lambda>t.
                     bnd (printf_out rest args) (\<lambda>r. Inr (t @ r)))))
              else if c = CHR ''x'' \<or> c = CHR ''p'' then
                (case args of [] \<Rightarrow> Inl (Fault ''printf'')
                 | a # args \<Rightarrow> bnd (parg_int a) (\<lambda>w. bnd (uprintint w 16 False) (\<lambda>t.
                     bnd (printf_out rest args) (\<lambda>r. Inr (t @ r)))))
              else if c = CHR ''s'' then
                (case args of [] \<Rightarrow> Inl (Fault ''printf'')
                 | a # args \<Rightarrow> bnd (parg_str a) (\<lambda>t. bnd (printf_out rest args) (\<lambda>r. Inr (t @ r))))
              else if c = CHR ''c'' then
                (case args of [] \<Rightarrow> Inl (Fault ''printf'')
                 | a # args \<Rightarrow> bnd (parg_int a) (\<lambda>w. bnd (printf_out rest args) (\<lambda>r. Inr (char_of (unat w) # r))))
              else if c = CHR ''%'' then bnd (printf_out rest args) (\<lambda>r. Inr (CHR ''%'' # r))
              else bnd (printf_out rest args) (\<lambda>r. Inr (CHR ''%'' # c # r)))"
  by pat_completeness auto
termination
proof (relation "measure (\<lambda>(fmt, _). length fmt)", goal_cases)
  case 1
  then show ?case by simp
qed (auto simp: deref_def split: if_splits list.splits)

declare printf_out.simps [simp del]

definition printf :: "int \<Rightarrow> string \<Rightarrow> parg list \<Rightarrow> unit uprog" where
  "printf fd fmt args = (case printf_out fmt args of Inl _ \<Rightarrow> UFault | Inr s \<Rightarrow> putc_all fd s)"

abbreviation PStr1 :: "string \<Rightarrow> parg" where "PStr1 s \<equiv> PStr (Some s)"

abbreviation PNum :: "int \<Rightarrow> parg" where "PNum i \<equiv> PInt (word_of_int i)"

section \<open>Input and files\<close>

text \<open>\<open>gets_loop\<close> has room for \<open>n\<close> more characters; the result is what is stored in \<^verbatim>\<open>buf\<close>, with the
  terminator.\<close>

fun gets_loop :: "nat \<Rightarrow> string uprog" where
  "gets_loop 0 = URet [NUL]"
| "gets_loop (Suc n) = UCall (URead 0 1) (\<lambda>(cc, d).
     if cc < 1 then URet [NUL]
     else let c = deref (bytes_of d)
          in if c = CHR 0x0A \<or> c = CHR 0x0D then URet [c, NUL]
             else ubnd (gets_loop n) (\<lambda>r. URet (c # r)))"

definition gets :: "nat \<Rightarrow> string uprog" where
  "gets m = gets_loop (m - 1)"

text \<open>\<^verbatim>\<open>stat\<close>; the structure is there when the value is not negative.\<close>

definition ustat :: "string \<Rightarrow> reply uprog" where
  "ustat n =
     ubnd (usys (UOpen n 0)) (\<lambda>fd.
       if fd < 0 then URet (-1, No_data)
       else UCall (UFstat fd) (\<lambda>r. UCall (UClose fd) (\<lambda>_. URet r)))"

text \<open>\<^verbatim>\<open>strcat\<close> of the user programs: the bytes of \<open>s1\<close> afterwards, when its array is long enough.\<close>

definition strcat :: "string \<Rightarrow> string \<Rightarrow> string" where
  "strcat s1 s2 = cstr s1 @ cstr s2"

definition struct_stat :: "udata \<Rightarrow> stat option" where
  "struct_stat d = (case d of Stat st \<Rightarrow> Some st | _ \<Rightarrow> None)"

end
