(* ===== verification/ShRun.thy ===== *)
theory ShRun
  imports Sh User
begin

text \<open>
  The shell: running a parsed command, and the loop over the input lines (\<^verbatim>\<open>sh.c\<close>).

  \<open>runcmd\<close> is a tree of system calls. \<open>sem\<close> runs such a tree on file descriptor tables, with
  \<open>ofile_alloc\<close> of the kernel's \<^verbatim>\<open>fdalloc\<close> for the lowest free descriptor; it follows both
  processes of a \<^verbatim>\<open>fork\<close> and collects the programs that are executed and their descriptors.
\<close>

section \<open>Running a command\<close>

definition sh_panic :: "string \<Rightarrow> 'a uprog" where
  "sh_panic s = ubnd (printf 2 ''%s\<newline>'' [PStr1 s]) (\<lambda>_. UExit)"

definition fork1 :: "int uprog" where
  "fork1 = ubnd (usys UFork) (\<lambda>pid. if pid = -1 then sh_panic ''fork'' else URet pid)"

text \<open>One end of a pipeline: descriptor \<open>std\<close> becomes the end \<open>p\<close> of the pipe.\<close>

definition pipe_end :: "int \<Rightarrow> int \<Rightarrow> int \<Rightarrow> int \<Rightarrow> unit uprog \<Rightarrow> unit uprog" where
  "pipe_end std p p0 p1 body =
     UCall (UClose std) (\<lambda>_. UCall (UDup p) (\<lambda>_. UCall (UClose p0) (\<lambda>_. UCall (UClose p1) (\<lambda>_. body))))"

text \<open>\<open>b\<close> is the buffer that the words of the command lie in.\<close>

fun runcmd :: "string \<Rightarrow> cmd \<Rightarrow> unit uprog" where
  "runcmd b (EXEC args) =
     (case args of [] \<Rightarrow> UExit
      | (q, _) # _ \<Rightarrow> UCall (UExec (cstr (drop q b)) (map (\<lambda>(q, _). cstr (drop q b)) args)) (\<lambda>_.
          ubnd (printf 2 ''exec %s failed\<newline>'' [PStr1 (cstr (drop q b))]) (\<lambda>_. UExit)))"
| "runcmd b (REDIR c q eq mode fd) =
     UCall (UClose (int fd)) (\<lambda>_.
     ubnd (usys (UOpen (cstr (drop q b)) mode)) (\<lambda>r.
       if r < 0 then ubnd (printf 2 ''open %s failed\<newline>'' [PStr1 (cstr (drop q b))]) (\<lambda>_. UExit)
       else ubnd (runcmd b c) (\<lambda>_. UExit)))"
| "runcmd b (LIST l r) =
     ubnd fork1 (\<lambda>pid. ubnd (if pid = 0 then runcmd b l else URet ()) (\<lambda>_.
     UCall UWait (\<lambda>_. ubnd (runcmd b r) (\<lambda>_. UExit))))"
| "runcmd b (PIPE l r) =
     UCall UPipe (\<lambda>(v, d).
       if v < 0 then sh_panic ''pipe''
       else case d of
         Fds p0 p1 \<Rightarrow>
           ubnd fork1 (\<lambda>pid. ubnd (if pid = 0 then pipe_end 1 p1 p0 p1 (runcmd b l) else URet ()) (\<lambda>_.
           ubnd fork1 (\<lambda>pid. ubnd (if pid = 0 then pipe_end 0 p0 p0 p1 (runcmd b r) else URet ()) (\<lambda>_.
           UCall (UClose p0) (\<lambda>_. UCall (UClose p1) (\<lambda>_. UCall UWait (\<lambda>_. UCall UWait (\<lambda>_. UExit))))))))
       | _ \<Rightarrow> UFault)"
| "runcmd b (BACK c) =
     ubnd fork1 (\<lambda>pid. ubnd (if pid = 0 then runcmd b c else URet ()) (\<lambda>_. UExit))"

section \<open>The loop\<close>

definition getcmd :: "nat \<Rightarrow> (int \<times> string) uprog" where
  "getcmd nbuf =
     ubnd (printf 2 ''$ '' []) (\<lambda>_.
     ubnd (gets nbuf) (\<lambda>r.
       let buf = r @ replicate (nbuf - length r) NUL
       in URet (if deref buf = NUL then -1 else 0, buf)))"

definition sh_parse_run :: "string \<Rightarrow> unit uprog" where
  "sh_parse_run buf =
     (case parsecmd buf of
        Inr (c, b) \<Rightarrow> runcmd b c
      | Inl (Sh_panic m) \<Rightarrow> sh_panic m
      | Inl (Sh_leftovers m) \<Rightarrow> ubnd (printf 2 ''leftovers: %s\<newline>'' [PStr1 m]) (\<lambda>_. sh_panic ''syntax'')
      | Inl Sh_fault \<Rightarrow> UFault
      | Inl Sh_fuel \<Rightarrow> UFuel)"

text \<open>The first loop of \<^verbatim>\<open>main\<close>, which opens the console until three descriptors are in use.\<close>

fun sh_open :: "nat \<Rightarrow> unit uprog" where
  "sh_open 0 = UFuel"
| "sh_open (Suc n) = ubnd (usys (UOpen ''console'' O_RDWR)) (\<lambda>fd.
     if fd \<ge> 0 then (if fd \<ge> 3 then UCall (UClose fd) (\<lambda>_. URet ()) else sh_open n) else URet ())"

definition sh_cd :: "string \<Rightarrow> unit uprog" where
  "sh_cd buf =
     (let buf = buf[strlen buf - 1 := NUL]
      in ubnd (usys (UChdir (cstr (drop 3 buf)))) (\<lambda>r.
           if r < 0 then printf 2 ''cannot cd %s\<newline>'' [PStr1 (drop 3 buf)] else URet ()))"

fun sh_loop :: "nat \<Rightarrow> unit uprog" where
  "sh_loop 0 = UFuel"
| "sh_loop (Suc n) =
     ubnd (getcmd 100) (\<lambda>(r, buf).
       if r \<ge> 0
       then (if take 3 buf = ''cd '' then ubnd (sh_cd buf) (\<lambda>_. sh_loop n)
             else ubnd fork1 (\<lambda>pid. ubnd (if pid = 0 then sh_parse_run buf else URet ()) (\<lambda>_.
                  UCall UWait (\<lambda>_. sh_loop n))))
       else UExit)"

definition sh_main :: "nat \<Rightarrow> unit uprog" where
  "sh_main n = ubnd (sh_open n) (\<lambda>_. sh_loop n)"


section \<open>Descriptors of the programs that run\<close>

text \<open>\<open>files\<close> says what \<^verbatim>\<open>open\<close> gives, \<open>progs\<close> which programs exist; the open files are numbered, a new pipe has
  two numbers from \<open>n\<close> on. The result lists the programs executed, with their arguments and descriptors.\<close>

type_synonym fdtab = "nat option list"
type_synonym launched = "(string list \<times> fdtab) list"

definition fd_open :: "nat \<Rightarrow> fdtab \<Rightarrow> int \<times> fdtab" where
  "fd_open f t = (case ofile_alloc f t of None \<Rightarrow> (-1, t) | Some (fd, t) \<Rightarrow> (int fd, t))"

definition fd_file :: "int \<Rightarrow> fdtab \<Rightarrow> nat option" where
  "fd_file fd t = (if 0 \<le> fd \<and> nat fd < length t then t ! nat fd else None)"

definition fd_step :: "(string \<Rightarrow> u32 \<Rightarrow> nat option) \<Rightarrow> ucall \<Rightarrow> fdtab \<Rightarrow> nat \<Rightarrow> reply \<times> fdtab \<times> nat" where
  "fd_step files c t n =
     (case c of
        UClose fd \<Rightarrow> (case fd_file fd t of None \<Rightarrow> ((-1, No_data), t, n) | Some _ \<Rightarrow> ((0, No_data), t[nat fd := None], n))
      | UDup fd \<Rightarrow> (case fd_file fd t of None \<Rightarrow> ((-1, No_data), t, n)
                    | Some f \<Rightarrow> let (r, t) = fd_open f t in ((r, No_data), t, n))
      | UOpen path mode \<Rightarrow> (case files path mode of None \<Rightarrow> ((-1, No_data), t, n)
                    | Some f \<Rightarrow> let (r, t) = fd_open f t in ((r, No_data), t, n))
      | UPipe \<Rightarrow> (case ofile_alloc n t of None \<Rightarrow> ((-1, No_data), t, n)
                    | Some (p0, t0) \<Rightarrow> (case ofile_alloc (n + 1) t0 of None \<Rightarrow> ((-1, No_data), t, n)
                         | Some (p1, t1) \<Rightarrow> ((0, Fds (int p0) (int p1)), t1, n + 2)))
      | _ \<Rightarrow> ((0, No_data), t, n))"

primrec sem :: "(string \<Rightarrow> u32 \<Rightarrow> nat option) \<Rightarrow> (string \<Rightarrow> bool) \<Rightarrow> 'a uprog \<Rightarrow> fdtab \<Rightarrow> nat \<Rightarrow> launched \<times> nat" where
  "sem files progs (URet x) t n = ([], n)"
| "sem files progs UExit t n = ([], n)"
| "sem files progs UFault t n = ([], n)"
| "sem files progs UFuel t n = ([], n)"
| "sem files progs (UCall c k) t n =
     (if c = UFork
      then let (l0, n) = sem files progs (k (0, No_data)) t n; (l1, n) = sem files progs (k (1, No_data)) t n in (l0 @ l1, n)
      else case c of
        UExec path args \<Rightarrow> if progs path then ([(args, t)], n) else sem files progs (k (-1, No_data)) t n
      | _ \<Rightarrow> let (r, t, n) = fd_step files c t n in sem files progs (k r) t n)"

text \<open>The reference: what each part of a command is run with.\<close>

fun plumb :: "(string \<Rightarrow> u32 \<Rightarrow> nat option) \<Rightarrow> (string \<Rightarrow> bool) \<Rightarrow> scmd \<Rightarrow> fdtab \<Rightarrow> nat \<Rightarrow> launched \<times> nat" where
  "plumb files progs (SExec args) t n = (if args \<noteq> [] \<and> progs (hd args) then [(args, t)] else [], n)"
| "plumb files progs (SRedir c mode fd w) t n =
     (case files w mode of None \<Rightarrow> ([], n) | Some f \<Rightarrow> plumb files progs c (t[fd := Some f]) n)"
| "plumb files progs (SPipe a c) t n =
     (let (l0, n') = plumb files progs a (t[1 := Some (n + 1)]) (n + 2);
          (l1, n') = plumb files progs c (t[0 := Some n]) n'
      in (l0 @ l1, n'))"
| "plumb files progs (SList a c) t n =
     (let (l0, n) = plumb files progs a t n; (l1, n) = plumb files progs c t n in (l0 @ l1, n))"
| "plumb files progs (SBack c) t n = plumb files progs c t n"

definition words_in :: "string \<Rightarrow> nat \<times> nat \<Rightarrow> string" where
  "words_in b = (\<lambda>(q, _). cstr (drop q b))"

text \<open>The first three descriptors are open, two are free.\<close>

definition fds_ok :: "fdtab \<Rightarrow> bool" where
  "fds_ok t \<longleftrightarrow> 3 \<le> length t \<and> (\<forall>i < 3. t ! i \<noteq> None) \<and> 2 \<le> length (filter fd_free t)"

section \<open>Proof\<close>

lemma fd_step_simps [simp]:
  "fd_step files (UWrite fd s) t n = ((0, No_data), t, n)" "fd_step files UWait t n = ((0, No_data), t, n)"
  by (simp_all add: fd_step_def)

lemma sem_putc_all [simp]: "sem files progs (ubnd (putc_all fd s) f) t n = sem files progs (f ()) t n"
  by (induction s) (simp_all add: fd_step_def)

lemma printf_simp:
  "ubnd (printf 2 ''exec %s failed\<newline>'' [PStr1 w]) f = ubnd (putc_all 2 (''exec '' @ cstr w @ '' failed\<newline>'')) f"
  "ubnd (printf 2 ''open %s failed\<newline>'' [PStr1 w]) f = ubnd (putc_all 2 (''open '' @ cstr w @ '' failed\<newline>'')) f"
  "printf 2 ''%s\<newline>'' [PStr1 w] = putc_all 2 (cstr w @ ''\<newline>'')"
  by (simp_all add: printf_def printf_out.simps deref_def parg_str_def Let_def)

lemma sem_fork1: "sem files progs (ubnd fork1 f) t n
    = (let (l0, n) = sem files progs (f 0) t n; (l1, n) = sem files progs (f 1) t n in (l0 @ l1, n))"
  by (simp add: fork1_def)

text \<open>No command of the shell returns: what follows it is not run.\<close>

primrec no_ret :: "'a uprog \<Rightarrow> bool" where
  "no_ret (URet x) = False"
| "no_ret UExit = True"
| "no_ret UFault = True"
| "no_ret UFuel = True"
| "no_ret (UCall c k) = (\<forall>r. no_ret (k r))"

lemma no_ret_ubnd: "no_ret p \<Longrightarrow> sem files progs (ubnd p f) t n = sem files progs p t n"
  by (induction p arbitrary: t n) (auto split: ucall.splits prod.splits)

lemma no_ret_ubnd_intro: "(\<And>x. no_ret (f x)) \<Longrightarrow> no_ret (ubnd p f)"
  by (induction p) auto

lemma no_ret_runcmd: "no_ret (runcmd b c)"
  by (cases c) (auto simp: sh_panic_def split: list.splits prod.splits udata.splits intro!: no_ret_ubnd_intro)

lemma fds_ok_nth: "fds_ok t \<Longrightarrow> i < 3 \<Longrightarrow> \<exists>f. t ! i = Some f" and fds_ok_len: "fds_ok t \<Longrightarrow> i < 3 \<Longrightarrow> i < length t"
  by (auto simp: fds_ok_def)

lemma filter_update_Some: "i < length t \<Longrightarrow> t ! i \<noteq> None \<Longrightarrow> filter fd_free (t[i := Some f]) = filter fd_free t"
  by (induction t arbitrary: i) (auto simp: fd_free_def nth_Cons split: nat.splits)

lemma fds_ok_update: "fds_ok t \<Longrightarrow> i < 3 \<Longrightarrow> fds_ok (t[i := Some f])"
  using filter_update_Some [of i t f] by (auto simp: fds_ok_def nth_list_update)

text \<open>A descriptor that is closed is the next one to be given out when the ones below it are in use.\<close>

lemma alloc_closed:
  assumes "i < length t" and "\<And>j. j < i \<Longrightarrow> t ! j \<noteq> None"
  shows "ofile_alloc f (t[i := None]) = Some (i, t[i := Some f])"
proof -
  have "first_idx fd_free (t[i := None]) = Some i" using assms by (auto simp: first_idx_Some_iff fd_free_def)
  then show ?thesis by (simp add: ofile_alloc_def)
qed

lemma filter_update_taken: "i < length t \<Longrightarrow> t ! i = None \<Longrightarrow>
    length (filter fd_free t) = Suc (length (filter fd_free (t[i := Some f])))"
  by (induction t arbitrary: i) (auto simp: fd_free_def nth_Cons split: nat.splits)

lemma ofile_alloc_free:
  assumes "0 < length (filter fd_free t)"
  shows "\<exists>i. ofile_alloc f t = Some (i, t[i := Some f]) \<and> i < length t \<and> t ! i = None"
proof -
  obtain i where "first_idx fd_free t = Some i"
    using assms by (cases "first_idx fd_free t") (auto simp: first_idx_None_iff filter_empty_conv)
  moreover from this have "i < length t" "fd_free (t ! i)" by (simp_all add: first_idx_Some_iff)
  ultimately show ?thesis by (auto simp: ofile_alloc_def fd_free_def)
qed

lemma pipe_alloc:
  assumes "fds_ok t"
  shows "\<exists>p0 p1. fd_step files UPipe t n = ((0, Fds (int p0) (int p1)), t[p0 := Some n, p1 := Some (n + 1)], n + 2)
    \<and> 3 \<le> p0 \<and> 3 \<le> p1 \<and> p0 \<noteq> p1 \<and> p0 < length t \<and> p1 < length t \<and> t ! p0 = None \<and> t ! p1 = None"
proof -
  have low: "3 \<le> i" if "t ! i = None" for i using assms that by (force simp: fds_ok_def not_le [symmetric])
  have "0 < length (filter fd_free t)" using assms unfolding fds_ok_def by linarith
  from ofile_alloc_free [OF this, of n]
  obtain p0 where 0: "ofile_alloc n t = Some (p0, t[p0 := Some n])" "p0 < length t" "t ! p0 = None" by blast
  have "0 < length (filter fd_free (t[p0 := Some n]))"
    using filter_update_taken [OF 0(2,3), of n] assms unfolding fds_ok_def by linarith
  from ofile_alloc_free [OF this, of "n + 1"] obtain p1 where
    1: "ofile_alloc (n + 1) (t[p0 := Some n]) = Some (p1, t[p0 := Some n, p1 := Some (n + 1)])" "p1 < length t"
    "t[p0 := Some n] ! p1 = None" by auto
  from 1(3) 0(2) have "p1 \<noteq> p0" "t ! p1 = None" by (auto simp: nth_list_update split: if_splits)
  with 0 1 low show ?thesis by (auto simp: fd_step_def)
qed

lemma sem_close: "fd_file fd t = Some f \<Longrightarrow> sem files progs (UCall (UClose fd) k) t n = sem files progs (k (0, No_data)) (t[nat fd := None]) n"
  by (simp add: fd_step_def)

lemma sem_pipe_end:
  assumes ok: "fds_ok t" and p: "3 \<le> p0" "3 \<le> p1" "p0 \<noteq> p1" "p0 < length t" "p1 < length t" "t ! p0 = None" "t ! p1 = None"
    and i: "i < 3" and e: "(e = p0 \<and> f = n0) \<or> (e = p1 \<and> f = n1)"
  shows "sem files progs (pipe_end (int i) (int e) (int p0) (int p1) body) (t[p0 := Some n0, p1 := Some n1]) n
    = sem files progs body (t[i := Some f]) n"
proof -
  let ?t = "t[p0 := Some n0, p1 := Some n1]"
  have len: "i < length t" using fds_ok_len [OF ok i] .
  have 1: "fd_file (int i) ?t = t ! i" using i p len by (simp add: fd_file_def nth_list_update)
  have 2: "fd_file (int e) (?t[i := None]) = Some f" using e i p by (auto simp: fd_file_def nth_list_update)
  have 3: "ofile_alloc f (?t[i := None]) = Some (i, ?t[i := Some f])"
    by (rule alloc_closed) (use ok i p len in \<open>auto simp: fds_ok_def nth_list_update\<close>)
  have 4: "fd_file (int p0) (?t[i := Some f]) = Some n0" "fd_file (int p1) (?t[i := Some f, p0 := None]) = Some n1"
    using i p by (auto simp: fd_file_def nth_list_update)
  have 5: "?t[i := Some f, p0 := None, p1 := None] = t[i := Some f]"
    using i p by (auto intro!: nth_equalityI simp: nth_list_update)
  obtain g where "t ! i = Some g" using fds_ok_nth [OF ok i] by blast
  with 1 2 3 4 5 show ?thesis by (simp add: pipe_end_def fd_step_def fd_open_def)
qed

lemma sem_redir:
  assumes "fds_ok t" and "fd < 2"
  shows "sem files progs (UCall (UClose (int fd)) (\<lambda>_. ubnd (usys (UOpen w mode)) g)) t n
    = (case files w mode of None \<Rightarrow> sem files progs (g (-1)) (t[fd := None]) n
       | Some f \<Rightarrow> sem files progs (g (int fd)) (t[fd := Some f]) n)"
proof -
  have i: "fd < 3" using assms(2) by simp
  obtain h where "fd_file (int fd) t = Some h" using fds_ok_nth [OF assms(1) i] fds_ok_len [OF assms(1) i] by (auto simp: fd_file_def)
  moreover have "ofile_alloc f (t[fd := None]) = Some (fd, t[fd := Some f])" for f
    by (rule alloc_closed) (use assms i fds_ok_len [OF assms(1) i] in \<open>auto simp: fds_ok_def\<close>)
  ultimately show ?thesis by (simp add: fd_step_def fd_open_def split: option.splits)
qed

fun redirs_ok :: "cmd \<Rightarrow> bool" where
  "redirs_ok (EXEC args) = True"
| "redirs_ok (REDIR c q eq mode fd) \<longleftrightarrow> redirs_ok c \<and> fd < 2"
| "redirs_ok (PIPE l r) \<longleftrightarrow> redirs_ok l \<and> redirs_ok r"
| "redirs_ok (LIST l r) \<longleftrightarrow> redirs_ok l \<and> redirs_ok r"
| "redirs_ok (BACK c) \<longleftrightarrow> redirs_ok c"

lemma cmd_ok_redirs: "cmd_ok b c \<Longrightarrow> redirs_ok c"
  by (induction c) auto

lemma no_ret_pipe_end: "no_ret p \<Longrightarrow> no_ret (pipe_end i e p0 p1 p)"
  by (simp add: pipe_end_def)

lemma sem_then_exit:
  "no_ret p \<Longrightarrow> sem files progs (ubnd (if b then p else URet ()) f) t n = (if b then sem files progs p t n else sem files progs (f ()) t n)"
  by (simp add: no_ret_ubnd)

lemma runcmd_sem:
  "fds_ok t \<Longrightarrow> redirs_ok c \<Longrightarrow> sem files progs (runcmd b c) t n = plumb files progs (cmd_str (words_in b) c) t n"
proof (induction c arbitrary: t n)
  case (EXEC args)
  show ?case by (cases args) (auto simp: words_in_def printf_simp split: prod.splits)
next
  case (REDIR c q eq mode fd)
  have fd: "fd < 2" "fd < 3" using REDIR.prems(2) by simp_all
  have "plumb files progs (cmd_str (words_in b) (REDIR c q eq mode fd)) t n
      = (case files (cstr (drop q b)) mode of None \<Rightarrow> ([], n)
         | Some f \<Rightarrow> plumb files progs (cmd_str (words_in b) c) (t[fd := Some f]) n)" by simp (simp add: words_in_def)
  also have "\<dots> = sem files progs (runcmd b (REDIR c q eq mode fd)) t n"
    unfolding runcmd.simps sem_redir [OF REDIR.prems(1) fd(1)]
    using REDIR.IH [OF fds_ok_update [OF REDIR.prems(1) fd(2)]] REDIR.prems(2)
    by (simp add: no_ret_ubnd no_ret_runcmd printf_simp split: option.splits)
  finally show ?case ..
next
  case (PIPE l r)
  obtain p0 p1 where p: "fd_step files UPipe t n = ((0, Fds (int p0) (int p1)), t[p0 := Some n, p1 := Some (n + 1)], n + 2)"
    "3 \<le> p0" "3 \<le> p1" "p0 \<noteq> p1" "p0 < length t" "p1 < length t" "t ! p0 = None" "t ! p1 = None"
    using pipe_alloc [OF PIPE.prems(1)] by blast
  let ?t = "t[p0 := Some n, p1 := Some (n + 1)]"
  have l: "sem files progs (pipe_end 1 (int p1) (int p0) (int p1) (runcmd b l)) ?t m
      = plumb files progs (cmd_str (words_in b) l) (t[1 := Some (n + 1)]) m" for m
    using sem_pipe_end [OF PIPE.prems(1) p(2-8), where i = 1 and e = p1 and f = "n + 1"]
      PIPE.IH(1) [OF fds_ok_update [OF PIPE.prems(1), of 1 "n + 1"]] PIPE.prems(2) by simp
  have r: "sem files progs (pipe_end 0 (int p0) (int p0) (int p1) (runcmd b r)) ?t m
      = plumb files progs (cmd_str (words_in b) r) (t[0 := Some n]) m" for m
    using sem_pipe_end [OF PIPE.prems(1) p(2-8), where i = 0 and e = p0 and f = n]
      PIPE.IH(2) [OF fds_ok_update [OF PIPE.prems(1), of 0 n]] PIPE.prems(2) by simp
  define K :: "unit uprog" where "K = UCall (UClose (int p0)) (\<lambda>_. UCall (UClose (int p1)) (\<lambda>_. UCall UWait (\<lambda>_. UCall UWait (\<lambda>_. UExit))))"
  have k: "sem files progs K ?t m = ([], m)" for m by (simp add: K_def fd_step_def split: option.splits)
  have "sem files progs (runcmd b (PIPE l r)) t n = sem files progs
      (ubnd fork1 (\<lambda>pid. ubnd (if pid = 0 then pipe_end 1 (int p1) (int p0) (int p1) (runcmd b l) else URet ()) (\<lambda>_.
       ubnd fork1 (\<lambda>pid. ubnd (if pid = 0 then pipe_end 0 (int p0) (int p0) (int p1) (runcmd b r) else URet ()) (\<lambda>_. K))))) ?t (n + 2)"
    by (simp only: runcmd.simps sem.simps ucall.distinct if_False ucall.case p(1) Let_def prod.case udata.case K_def) simp
  also have "\<dots> = plumb files progs (cmd_str (words_in b) (PIPE l r)) t n"
    by (simp only: sem_fork1 sem_then_exit [OF no_ret_pipe_end [OF no_ret_runcmd]] l r k) (simp split: prod.splits)
  finally show ?case .
next
  case (LIST l r)
  then show ?case by (simp add: sem_fork1 sem_then_exit no_ret_ubnd no_ret_runcmd)
next
  case (BACK c)
  then show ?case by (simp add: sem_fork1 sem_then_exit no_ret_ubnd no_ret_runcmd)
qed

text \<open>C36: the shell runs a command line with the right plumbing. For every line that parses, the programs
  executed are those of the command, each with the descriptors it should have: a redirection
  replaces standard input or output by the file, a pipeline connects the output of its left side to
  the input of its right side, a command whose redirection cannot be opened is not run, and no
  program inherits any other end of a pipe.\<close>

theorem sh_plumbing:
  assumes "NUL \<in> set buf" and "parsecmd buf = Inr (c, b)" and "fds_ok t"
  shows "sem files progs (sh_parse_run buf) t n = plumb files progs (cmd_str (words_in b) c) t n"
proof -
  have "cmd_ok buf c" using parsecmd_post [OF assms(1)] assms(2) by simp
  with assms(2,3) show ?thesis by (simp add: sh_parse_run_def runcmd_sem cmd_ok_redirs)
qed

theorem sh_plumbing_witness:
  "sem (\<lambda>path mode. Some 7) (\<lambda>_. True) (sh_parse_run (''cat < a|wc&'' @ [NUL])) [Some 0, Some 1, Some 2, None, None] 8
   = ([([''cat''], [Some 7, Some 9, Some 2, None, None]), ([''wc''], [Some 8, Some 1, Some 2, None, None])], 10)"
proof -
  let ?b = "[CHR ''c'', CHR ''a'', CHR ''t'', NUL, CHR ''<'', CHR '' '', CHR ''a'', NUL, CHR ''w'', CHR ''c'', NUL, NUL]"
  have p: "parsecmd (''cat < a|wc&'' @ [NUL]) = Inr (BACK (PIPE (REDIR (EXEC [(0, 3)]) 6 7 O_RDONLY 0) (EXEC [(8, 10)])), ?b)"
    by code_simp
  have "fds_ok [Some 0, Some 1, Some 2, None, None]" by (auto simp: fds_ok_def fd_free_def less_Suc_eq numeral_3_eq_3)
  from sh_plumbing [OF _ p this, of "\<lambda>path mode. Some 7" "\<lambda>_. True" 8] show ?thesis by (simp add: words_in_def)
qed

end
