(* ===== verification/Grep.thy ===== *)
theory Grep
  imports User
begin

text \<open>
  The pattern search (\<^verbatim>\<open>grep.c\<close>): the matcher for the operators \<^verbatim>\<open>^ . * $\<close>, and the loop over the input.

  A pointer into a string is its suffix, as in \<open>CString\<close>. The two recursive routines of the matcher share
  one measure, so they are total.
\<close>

section \<open>The matcher\<close>

function matchhere :: "string \<Rightarrow> string \<Rightarrow> bool"
  and matchstar :: "char \<Rightarrow> string \<Rightarrow> string \<Rightarrow> bool" where
  "matchhere re text =
     (if deref re = NUL then True
      else if deref (tl re) = CHR ''*'' then matchstar (deref re) (tl (tl re)) text
      else if deref re = CHR ''$'' \<and> deref (tl re) = NUL then deref text = NUL
      else if deref text \<noteq> NUL \<and> (deref re = CHR ''.'' \<or> deref re = deref text)
      then matchhere (tl re) (tl text)
      else False)"
| "matchstar c re text =
     (if matchhere re text then True
      else if deref text \<noteq> NUL \<and> (deref text = c \<or> c = CHR ''.'') then matchstar c re (tl text)
      else False)"
  by pat_completeness auto
termination
  by (relation "measures [\<lambda>x. case x of Inl (re, text) \<Rightarrow> length re | Inr (c, re, text) \<Rightarrow> length re,
        \<lambda>x. case x of Inl (re, text) \<Rightarrow> 0 | Inr (c, re, text) \<Rightarrow> Suc (length text)]")
    (auto simp: deref_def split: list.splits)

declare matchhere.simps [simp del] matchstar.simps [simp del]

text \<open>The loop of \<^verbatim>\<open>match\<close> over the suffixes of the text, the empty one included.\<close>

function match_loop :: "string \<Rightarrow> string \<Rightarrow> bool" where
  "match_loop re text =
     (if matchhere re text then True
      else if deref text \<noteq> NUL then match_loop re (tl text)
      else False)"
  by pat_completeness auto
termination
  by (relation "measure (\<lambda>(re, text). length text)") (auto simp: deref_def split: list.splits)

declare match_loop.simps [simp del]

definition match :: "string \<Rightarrow> string \<Rightarrow> bool" where
  "match re text = (if deref re = CHR ''^'' then matchhere (tl re) text else match_loop re text)"

section \<open>The search\<close>

lemma strchr_length: "strchr p c = Some q \<Longrightarrow> length q \<le> length p \<and> q \<noteq> [] \<and> hd q = c"
proof (induction p c rule: strchr.induct)
  case (1 s c)
  then show ?case by (subst (asm) (2) strchr.simps) (auto simp: deref_def split: if_splits list.splits)
qed

lemma strchr_shorter: "strchr p c = Some q \<Longrightarrow> length (tl q) < length p"
  by (drule strchr_length) (cases q, auto)

text \<open>The inner loop of \<^verbatim>\<open>grep\<close> on the text from \<open>p\<close> on: the lines to be written, and the text behind the
  last newline. While a line is matched, its newline is replaced by a terminator.\<close>

function grep_lines :: "string \<Rightarrow> string \<Rightarrow> string list \<times> string" where
  "grep_lines pattern p =
     (case strchr p (CHR 0x0A) of
        None \<Rightarrow> ([], p)
      | Some q \<Rightarrow>
          (let line = take (length p - length q) p;
               (out, rest) = grep_lines pattern (tl q)
           in (if match pattern line then (line @ [CHR 0x0A]) # out else out, rest)))"
  by pat_completeness auto
termination
  by (relation "measure (\<lambda>(pattern, p). length p)") (auto dest: strchr_shorter)

declare grep_lines.simps [simp del]

primrec write_each :: "int \<Rightarrow> string list \<Rightarrow> unit uprog" where
  "write_each fd [] = URet ()"
| "write_each fd (l # ls) = UCall (UWrite fd l) (\<lambda>_. write_each fd ls)"

text \<open>The outer loop; \<open>held\<close> are the \<^verbatim>\<open>m\<close> characters kept at the start of \<^verbatim>\<open>buf[1024]\<close>. A text of which
  no line ends is dropped.\<close>

fun grep :: "nat \<Rightarrow> string \<Rightarrow> int \<Rightarrow> string \<Rightarrow> unit uprog" where
  "grep 0 pattern fd held = UFuel"
| "grep (Suc k) pattern fd held =
     UCall (URead fd (1024 - length held - 1)) (\<lambda>(n, d).
       if n > 0
       then (let text = held @ take (nat n) (bytes_of d); (out, rest) = grep_lines pattern text
             in ubnd (write_each 1 out) (\<lambda>_. grep k pattern fd (if length rest = length text then [] else rest)))
       else URet ())"

fun grep_files :: "nat \<Rightarrow> string \<Rightarrow> string list \<Rightarrow> unit uprog" where
  "grep_files k pattern [] = UExit"
| "grep_files k pattern (f # fs) =
     ubnd (usys (UOpen f 0)) (\<lambda>fd.
       if fd < 0 then ubnd (printf 1 ''grep: cannot open %s\<newline>'' [PStr1 f]) (\<lambda>_. UExit)
       else ubnd (grep k pattern fd []) (\<lambda>_. UCall (UClose fd) (\<lambda>_. grep_files k pattern fs)))"

definition grep_main :: "nat \<Rightarrow> string list \<Rightarrow> unit uprog" where
  "grep_main k argv =
     (if length argv \<le> 1 then ubnd (printf 2 ''usage: grep pattern [file ...]\<newline>'' []) (\<lambda>_. UExit)
      else if length argv \<le> 2 then ubnd (grep k (argv ! 1) 0 []) (\<lambda>_. UExit)
      else grep_files k (argv ! 1) (drop 2 argv))"


section \<open>The language of a pattern\<close>

text \<open>An item is one character of the pattern or a repetition; \<open>$\<close> at the end is the anchor.\<close>

datatype item = One char | Star char

fun items :: "string \<Rightarrow> item list \<times> bool" where
  "items [] = ([], False)"
| "items [c] = (if c = CHR ''$'' then ([], True) else ([One c], False))"
| "items (c # d # re) =
     (if d = CHR ''*'' then (let (is, e) = items re in (Star c # is, e))
      else (let (is, e) = items (d # re) in (One c # is, e)))"

definition accepts :: "char \<Rightarrow> char \<Rightarrow> bool" where
  "accepts c x \<longleftrightarrow> c = CHR ''.'' \<or> c = x"

fun lang :: "item list \<Rightarrow> string set" where
  "lang [] = {[]}"
| "lang (One c # is) = {x # w | x w. accepts c x \<and> w \<in> lang is}"
| "lang (Star c # is) = {u @ w | u w. list_all (accepts c) u \<and> w \<in> lang is}"

text \<open>A pattern matches at the start of a text: a word of its language is a prefix, the whole text if
  the pattern is anchored.\<close>

definition here :: "string \<Rightarrow> string \<Rightarrow> bool" where
  "here re text \<longleftrightarrow> (\<exists>u v. text = u @ v \<and> u \<in> lang (fst (items re)) \<and> (snd (items re) \<longrightarrow> v = []))"

definition somewhere :: "string \<Rightarrow> string \<Rightarrow> bool" where
  "somewhere re text \<longleftrightarrow> (\<exists>s t. text = s @ t \<and> here re t)"

lemma here_Nil [simp]: "here [] text"
  by (auto simp: here_def)

lemma here_End [simp]: "here [CHR ''$''] text \<longleftrightarrow> text = []"
  by (auto simp: here_def)

lemma split_One:
  "(\<exists>u v. t = u @ v \<and> (\<exists>x w. u = x # w \<and> P x \<and> w \<in> L) \<and> (e \<longrightarrow> v = []))
     \<longleftrightarrow> (\<exists>x t'. t = x # t' \<and> P x \<and> (\<exists>u v. t' = u @ v \<and> u \<in> L \<and> (e \<longrightarrow> v = [])))" (is "?l = ?r")
proof
  assume ?l
  then obtain x w v u where "t = u @ v" "u = x # w" "P x" "w \<in> L" "e \<longrightarrow> v = []" by blast
  then have "t = x # w @ v" "P x" "w \<in> L" "e \<longrightarrow> v = []" by simp_all
  then show ?r by blast
next
  assume ?r
  then obtain x u v t' where "t = x # t'" "t' = u @ v" "P x" "u \<in> L" "e \<longrightarrow> v = []" by blast
  then have "t = (x # u) @ v" "P x" "u \<in> L" "e \<longrightarrow> v = []" by simp_all
  then show ?l by blast
qed

lemma split_Star:
  "(\<exists>u v. t = u @ v \<and> u \<in> {u @ w | u w. Q u \<and> w \<in> L} \<and> (e \<longrightarrow> v = []))
     \<longleftrightarrow> (\<exists>u' t'. t = u' @ t' \<and> Q u' \<and> (\<exists>u v. t' = u @ v \<and> u \<in> L \<and> (e \<longrightarrow> v = [])))" (is "?l = ?r")
proof
  assume ?l
  then obtain s u w v where "t = s @ v" "s = u @ w" "Q u" "w \<in> L" "e \<longrightarrow> v = []" by blast
  then have "t = u @ (w @ v)" "Q u" "w \<in> L" "e \<longrightarrow> v = []" by simp_all
  then show ?r by blast
next
  assume ?r
  then obtain u w v t' where "t = u @ t'" "t' = w @ v" "Q u" "w \<in> L" "e \<longrightarrow> v = []" by blast
  then have "t = (u @ w) @ v" "Q u" "w \<in> L" "e \<longrightarrow> v = []" by simp_all
  then show ?l by blast
qed

lemma here_One:
  assumes "re = [] \<longrightarrow> c \<noteq> CHR ''$''" and "re \<noteq> [] \<longrightarrow> hd re \<noteq> CHR ''*''"
  shows "here (c # re) text \<longleftrightarrow> (\<exists>x t. text = x # t \<and> accepts c x \<and> here re t)"
proof -
  have "items (c # re) = (One c # fst (items re), snd (items re))"
    using assms by (cases re) (auto split: prod.splits)
  then show ?thesis unfolding here_def by (simp add: split_One)
qed

lemma here_Star:
  "here (c # CHR ''*'' # re) text \<longleftrightarrow> (\<exists>u t. text = u @ t \<and> list_all (accepts c) u \<and> here re t)"
proof -
  have "items (c # CHR ''*'' # re) = (Star c # fst (items re), snd (items re))" by (simp split: prod.splits)
  then show ?thesis unfolding here_def by (simp only: fst_conv snd_conv lang.simps split_Star)
qed

lemma matchstar_step:
  assumes "\<And>text. NUL \<notin> set text \<Longrightarrow> matchhere re text \<longleftrightarrow> here re text"
  shows "NUL \<notin> set text \<Longrightarrow> matchstar c re text \<longleftrightarrow> (\<exists>u t. text = u @ t \<and> list_all (accepts c) u \<and> here re t)"
proof (induction "text")
  case Nil
  then show ?case by (subst matchstar.simps) (simp add: assms deref_def)
next
  case (Cons x tx)
  have split: "(\<exists>u t. x # tx = u @ t \<and> list_all (accepts c) u \<and> here re t)
      \<longleftrightarrow> here re (x # tx) \<or> accepts c x \<and> (\<exists>u t. tx = u @ t \<and> list_all (accepts c) u \<and> here re t)"
  proof
    assume "\<exists>u t. x # tx = u @ t \<and> list_all (accepts c) u \<and> here re t"
    then obtain u t where "x # tx = u @ t" "list_all (accepts c) u" "here re t" by blast
    then show "here re (x # tx) \<or> accepts c x \<and> (\<exists>u t. tx = u @ t \<and> list_all (accepts c) u \<and> here re t)"
      by (cases u) auto
  next
    assume "here re (x # tx) \<or> accepts c x \<and> (\<exists>u t. tx = u @ t \<and> list_all (accepts c) u \<and> here re t)"
    then show "\<exists>u t. x # tx = u @ t \<and> list_all (accepts c) u \<and> here re t"
    proof
      assume "here re (x # tx)"
      then show ?thesis by (intro exI [of _ "[]"] exI [of _ "x # tx"]) simp
    next
      assume "accepts c x \<and> (\<exists>u t. tx = u @ t \<and> list_all (accepts c) u \<and> here re t)"
      then obtain u t where "x # tx = (x # u) @ t" "list_all (accepts c) (x # u)" "here re t" by auto
      then show ?thesis by blast
    qed
  qed
  have n: "x \<noteq> NUL" "NUL \<notin> set tx" using Cons.prems by auto
  have "matchstar c re (x # tx) \<longleftrightarrow> here re (x # tx) \<or> accepts c x \<and> matchstar c re tx"
    using n(1) by (subst matchstar.simps) (auto simp: assms [OF Cons.prems] deref_def accepts_def)
  then show ?case unfolding Cons.IH [OF n(2)] split .
qed

lemma matchhere_here: "NUL \<notin> set re \<Longrightarrow> NUL \<notin> set text \<Longrightarrow> matchhere re text \<longleftrightarrow> here re text"
proof (induction "length re" arbitrary: re "text" rule: less_induct)
  case less
  show ?case
  proof (cases re)
    case Nil
    then show ?thesis by (subst matchhere.simps) (simp add: deref_def)
  next
    case re: (Cons c re')
    show ?thesis
    proof (cases "re' \<noteq> [] \<and> hd re' = CHR ''*''")
      case True
      then obtain re'' where re'': "re' = CHR ''*'' # re''" by (cases re') auto
      have "matchstar c re'' text \<longleftrightarrow> here re text"
        unfolding re re'' here_Star
        by (rule matchstar_step, rule less.hyps) (use less.prems re re'' in auto)
      moreover have "c \<noteq> NUL" using less.prems(1) re by auto
      ultimately show ?thesis by (subst matchhere.simps) (simp add: re re'' deref_def)
    next
      case star: False
      have n: "c \<noteq> NUL" "NUL \<notin> set re'" using less.prems(1) re by auto
      show ?thesis
      proof (cases "c = CHR ''$'' \<and> re' = []")
        case True
        then show ?thesis using less.prems(2) by (subst matchhere.simps) (auto simp: re deref_def split: list.splits)
      next
        case False
        have e: "here re text \<longleftrightarrow> (\<exists>x t. text = x # t \<and> accepts c x \<and> here re' t)"
          unfolding re by (rule here_One) (use star False in auto)
        have d: "deref re' \<noteq> CHR ''*''" "deref re' = NUL \<longleftrightarrow> re' = []"
          using star n(2) by (auto simp: deref_def split: list.splits)
        show ?thesis
        proof (cases "text")
          case Nil
          then show ?thesis unfolding e using False n(1) d by (subst matchhere.simps) (simp add: re deref_def [of "_ # _"] deref_def [of "[]"])
        next
          case (Cons x t)
          have "matchhere re' t \<longleftrightarrow> here re' t" by (rule less.hyps) (use less.prems Cons re in auto)
          moreover have "x \<noteq> NUL" using less.prems(2) Cons by auto
          ultimately show ?thesis
            unfolding e using Cons False n(1) d by (subst matchhere.simps) (auto simp: re deref_def [of "_ # _"] accepts_def)
        qed
      qed
    qed
  qed
qed

lemma match_loop_somewhere:
  "NUL \<notin> set re \<Longrightarrow> NUL \<notin> set text \<Longrightarrow> match_loop re text \<longleftrightarrow> somewhere re text"
proof (induction "text")
  case Nil
  then show ?case by (subst match_loop.simps) (simp add: matchhere_here somewhere_def deref_def)
next
  case (Cons x tx)
  have "somewhere re (x # tx) \<longleftrightarrow> here re (x # tx) \<or> somewhere re tx"
    by (auto simp: somewhere_def Cons_eq_append_conv)
  with Cons show ?case by (subst match_loop.simps) (auto simp: matchhere_here deref_def)
qed

text \<open>C39: the backtracking matcher of \<^verbatim>\<open>grep\<close> decides the language of the pattern. It always returns, and it
  answers yes exactly when some part of the text is a word of the pattern's regular language: a
  prefix if the pattern starts with \<^verbatim>\<open>^\<close>, a suffix if it ends with \<^verbatim>\<open>$\<close>.\<close>

theorem match_correct:
  assumes "NUL \<notin> set re" and "NUL \<notin> set text"
  shows "match re text \<longleftrightarrow> (if re \<noteq> [] \<and> hd re = CHR ''^'' then here (tl re) text else somewhere re text)"
proof (cases re)
  case (Cons c re')
  with assms show ?thesis by (simp add: match_def deref_def matchhere_here match_loop_somewhere)
qed (use assms in \<open>simp add: match_def deref_def match_loop_somewhere\<close>)

theorem match_correct_witness:
  "match ''ab*c$'' ''xxabbc'' \<and> somewhere ''ab*c$'' ''xxabbc'' \<and> \<not> match ''^ab*c$'' ''xxabbc'' \<and> \<not> here ''ab*c$'' ''xxabbc''"
proof -
  have m: "match ''ab*c$'' ''xxabbc''" "\<not> match ''^ab*c$'' ''xxabbc''" by code_simp+
  with match_correct [of "''ab*c$''" "''xxabbc''"] match_correct [of "''^ab*c$''" "''xxabbc''"] show ?thesis by simp
qed

end
