(* ===== verification/Progs.thy ===== *)
theory Progs
  imports User
begin

text \<open>
  The small user programs: \<^verbatim>\<open>cat\<close>, \<^verbatim>\<open>echo\<close>, \<^verbatim>\<open>wc\<close>, \<^verbatim>\<open>kill\<close>, \<^verbatim>\<open>ln\<close>, \<^verbatim>\<open>mkdir\<close>, \<^verbatim>\<open>rm\<close>, \<^verbatim>\<open>zombie\<close>, \<^verbatim>\<open>free\<close>, \<^verbatim>\<open>df\<close>, \<^verbatim>\<open>ps\<close> and \<^verbatim>\<open>ls\<close>, as trees
  of system calls. \<open>argv\<close> has the program's name first. Loops over input take fuel; \<open>cat_copies\<close> and
  \<open>wc_counts\<close> show that as much fuel as the file has blocks, and one more, is enough.
\<close>

section \<open>Copying and counting\<close>

fun cat :: "nat \<Rightarrow> int \<Rightarrow> unit uprog" where
  "cat 0 fd = UFuel"
| "cat (Suc k) fd =
     UCall (URead fd 512) (\<lambda>(n, d).
       if n > 0
       then ubnd (usys (UWrite 1 (take (nat n) (bytes_of d)))) (\<lambda>r.
              if r \<noteq> n then ubnd (printf 1 ''cat: write error\<newline>'' []) (\<lambda>_. UExit) else cat k fd)
       else if n < 0 then ubnd (printf 1 ''cat: read error\<newline>'' []) (\<lambda>_. UExit)
       else URet ())"

fun cat_files :: "nat \<Rightarrow> string list \<Rightarrow> unit uprog" where
  "cat_files k [] = UExit"
| "cat_files k (f # fs) =
     ubnd (usys (UOpen f 0)) (\<lambda>fd.
       if fd < 0 then ubnd (printf 1 ''cat: cannot open %s\<newline>'' [PStr1 f]) (\<lambda>_. UExit)
       else ubnd (cat k fd) (\<lambda>_. UCall (UClose fd) (\<lambda>_. cat_files k fs)))"

definition cat_main :: "nat \<Rightarrow> string list \<Rightarrow> unit uprog" where
  "cat_main k argv =
     (if length argv \<le> 1 then ubnd (cat k 0) (\<lambda>_. UExit) else cat_files k (drop 1 argv))"

fun echo_args :: "string list \<Rightarrow> unit uprog" where
  "echo_args [] = UExit"
| "echo_args (a # as) =
     ubnd (printf 1 ''%s%s'' [PStr1 a, PStr1 (if as \<noteq> [] then '' '' else ''\<newline>'')]) (\<lambda>_. echo_args as)"

definition echo_main :: "string list \<Rightarrow> unit uprog" where
  "echo_main argv = echo_args (drop 1 argv)"

text \<open>The counters of \<^verbatim>\<open>wc\<close>: lines, words and characters, and whether the last character was in a word.\<close>

type_synonym wcount = "int \<times> int \<times> int \<times> bool"

definition WC_SEP :: string where "WC_SEP = [CHR '' '', CHR 0x0D, CHR 0x09, CHR 0x0A, CHR 0x0B]"

definition wc_char :: "char \<Rightarrow> wcount \<Rightarrow> wcount" where
  "wc_char ch cnt =
     (let (l, w, c, inword) = cnt;
          c = i32 (c + 1);
          l = (if ch = CHR 0x0A then i32 (l + 1) else l)
      in if strchr WC_SEP ch \<noteq> None then (l, w, c, False)
         else if \<not> inword then (l, i32 (w + 1), c, True)
         else (l, w, c, inword))"

fun wc :: "nat \<Rightarrow> int \<Rightarrow> string \<Rightarrow> wcount \<Rightarrow> unit uprog" where
  "wc 0 fd name cnt = UFuel"
| "wc (Suc k) fd name cnt =
     UCall (URead fd 512) (\<lambda>(n, d).
       if n > 0 then wc k fd name (fold wc_char (take (nat n) (bytes_of d)) cnt)
       else if n < 0 then ubnd (printf 1 ''wc: read error\<newline>'' []) (\<lambda>_. UExit)
       else let (l, w, c, _) = cnt in printf 1 ''%d %d %d %s\<newline>'' [PNum l, PNum w, PNum c, PStr1 name])"

fun wc_files :: "nat \<Rightarrow> string list \<Rightarrow> unit uprog" where
  "wc_files k [] = UExit"
| "wc_files k (f # fs) =
     ubnd (usys (UOpen f 0)) (\<lambda>fd.
       if fd < 0 then ubnd (printf 1 ''wc: cannot open %s\<newline>'' [PStr1 f]) (\<lambda>_. UExit)
       else ubnd (wc k fd f (0, 0, 0, False)) (\<lambda>_. UCall (UClose fd) (\<lambda>_. wc_files k fs)))"

definition wc_main :: "nat \<Rightarrow> string list \<Rightarrow> unit uprog" where
  "wc_main k argv =
     (if length argv \<le> 1 then ubnd (wc k 0 [] (0, 0, 0, False)) (\<lambda>_. UExit) else wc_files k (drop 1 argv))"

section \<open>Single calls\<close>

fun kill_args :: "string list \<Rightarrow> unit uprog" where
  "kill_args [] = UExit"
| "kill_args (a # as) = UCall (UKill (atoi a)) (\<lambda>_. kill_args as)"

definition kill_main :: "string list \<Rightarrow> unit uprog" where
  "kill_main argv =
     (if length argv < 2 then ubnd (printf 2 ''usage: kill pid...\<newline>'' []) (\<lambda>_. UExit) else kill_args (drop 1 argv))"

definition ln_main :: "string list \<Rightarrow> unit uprog" where
  "ln_main argv =
     (if length argv \<noteq> 3 then ubnd (printf 2 ''Usage: ln old new\<newline>'' []) (\<lambda>_. UExit)
      else ubnd (usys (ULink (argv ! 1) (argv ! 2))) (\<lambda>r.
             if r < 0 then ubnd (printf 2 ''link %s %s: failed\<newline>'' [PStr1 (argv ! 1), PStr1 (argv ! 2)]) (\<lambda>_. UExit)
             else UExit))"

fun mkdir_args :: "string list \<Rightarrow> unit uprog" where
  "mkdir_args [] = UExit"
| "mkdir_args (a # as) =
     ubnd (usys (UMkdir a)) (\<lambda>r.
       if r < 0 then ubnd (printf 2 ''mkdir: %s failed to create\<newline>'' [PStr1 a]) (\<lambda>_. UExit) else mkdir_args as)"

definition mkdir_main :: "string list \<Rightarrow> unit uprog" where
  "mkdir_main argv =
     (if length argv < 2 then ubnd (printf 2 ''Usage: mkdir files...\<newline>'' []) (\<lambda>_. UExit) else mkdir_args (drop 1 argv))"

fun rm_args :: "string list \<Rightarrow> unit uprog" where
  "rm_args [] = UExit"
| "rm_args (a # as) =
     ubnd (usys (UUnlink a)) (\<lambda>r.
       if r < 0 then ubnd (printf 2 ''rm: %s failed to delete\<newline>'' [PStr1 a]) (\<lambda>_. UExit) else rm_args as)"

definition rm_main :: "string list \<Rightarrow> unit uprog" where
  "rm_main argv =
     (if length argv < 2 then ubnd (printf 2 ''Usage: rm files...\<newline>'' []) (\<lambda>_. UExit) else rm_args (drop 1 argv))"

definition zombie_main :: "unit uprog" where
  "zombie_main = ubnd (usys UFork) (\<lambda>pid. if pid > 0 then UCall (USleep 5) (\<lambda>_. UExit) else UExit)"

definition free_main :: "unit uprog" where
  "free_main =
     ubnd (usys UTmem) (\<lambda>used.
     ubnd (usys UAmem) (\<lambda>avail.
     ubnd (printf 1 ''%d (%d used) available pages out of %d total pages.\<newline>''
       [PNum (avail - used), PNum used, PNum avail]) (\<lambda>_. UExit)))"

definition df_main :: "unit uprog" where
  "df_main = UCall UDf (\<lambda>_. UExit)"

definition ps_main :: "unit uprog" where
  "ps_main = UCall UPs (\<lambda>_. UExit)"

section \<open>Listing directories\<close>

text \<open>The name behind the last slash, padded with blanks; a longer one is returned as it is.\<close>

definition fmtname :: "string \<Rightarrow> string" where
  "fmtname path =
     (let p = rev (takeWhile (\<lambda>c. c \<noteq> SLASH) (rev (cstr path)))
      in if length p \<ge> DIRSIZ then p else p @ replicate (DIRSIZ - length p) (CHR '' ''))"

text \<open>The two fields of a \<^verbatim>\<open>struct dirent\<close>.\<close>

definition dirent_inum :: "string \<Rightarrow> u16" where
  "dirent_inum d = de_inum (str_bytes d)"

definition dirent_name :: "string \<Rightarrow> string" where
  "dirent_name d = take DIRSIZ (drop 2 d)"

definition ls_print :: "string \<Rightarrow> stat \<Rightarrow> unit uprog" where
  "ls_print path st =
     printf 1 ''%s %d %d %d\<newline>''
       [PStr1 (fmtname path), PInt (scast (st_type st)), PInt (st_ino st), PInt (st_size st)]"

text \<open>The loop over the entries; \<open>buf\<close> is the path of the directory with a slash. A reply of \<^verbatim>\<open>stat\<close> that is not negative
  comes with the structure.\<close>

fun ls_entries :: "nat \<Rightarrow> int \<Rightarrow> string \<Rightarrow> unit uprog" where
  "ls_entries 0 fd buf = UFuel"
| "ls_entries (Suc k) fd buf =
     UCall (URead fd 16) (\<lambda>(n, d).
       if n \<noteq> 16 then URet ()
       else if dirent_inum (bytes_of d) = 0 then ls_entries k fd buf
       else
         let path = cstr (buf @ dirent_name (bytes_of d))
         in ubnd (ustat path) (\<lambda>(r, sd).
              if r < 0 then ubnd (printf 1 ''ls: cannot stat %s\<newline>'' [PStr1 path]) (\<lambda>_. ls_entries k fd buf)
              else case struct_stat sd of
                     None \<Rightarrow> UFault
                   | Some st \<Rightarrow> ubnd (ls_print path st) (\<lambda>_. ls_entries k fd buf)))"

definition ls :: "nat \<Rightarrow> string \<Rightarrow> unit uprog" where
  "ls k path =
     ubnd (usys (UOpen path 0)) (\<lambda>fd.
       if fd < 0 then printf 2 ''ls: cannot open %s\<newline>'' [PStr1 path]
       else UCall (UFstat fd) (\<lambda>(r, sd).
         if r < 0
         then ubnd (printf 2 ''ls: cannot stat %s\<newline>'' [PStr1 path]) (\<lambda>_. UCall (UClose fd) (\<lambda>_. URet ()))
         else case struct_stat sd of
           None \<Rightarrow> UFault
         | Some st \<Rightarrow>
             ubnd (if st_type st = T_FILE then ls_print path st
                   else if st_type st = T_DIR
                   then (if strlen path + 1 + DIRSIZ + 1 > 512 then printf 1 ''ls: path too long\<newline>'' []
                         else ls_entries k fd (cstr path @ [SLASH]))
                   else URet ()) (\<lambda>_. UCall (UClose fd) (\<lambda>_. URet ()))))"

fun ls_args :: "nat \<Rightarrow> string list \<Rightarrow> unit uprog" where
  "ls_args k [] = UExit"
| "ls_args k (a # as) = ubnd (ls k a) (\<lambda>_. ls_args k as)"

definition ls_main :: "nat \<Rightarrow> string list \<Rightarrow> unit uprog" where
  "ls_main k argv = (if length argv < 2 then ubnd (ls k ''.'') (\<lambda>_. UExit) else ls_args k (drop 1 argv))"


section \<open>Running on a stream\<close>

text \<open>A kernel that serves the pieces of \<open>st_in\<close> to the reads, as a file, a pipe or a console does: a read gives at most
  what was asked for and at most the next piece, and 0 at the end. What is written is collected.\<close>

record stream =
  st_in :: "string list"
  st_out :: string

definition stream_read :: "nat \<Rightarrow> stream \<Rightarrow> reply \<times> stream" where
  "stream_read n w =
     (case st_in w of
        [] \<Rightarrow> ((0, Bytes []), w)
      | c # cs \<Rightarrow> ((int (min n (length c)), Bytes (take n c)),
                 w\<lparr>st_in := (if length c \<le> n then cs else drop n c # cs)\<rparr>))"

definition stream_sys :: "ucall \<Rightarrow> stream \<Rightarrow> reply \<times> stream" where
  "stream_sys c w =
     (case c of
        URead fd n \<Rightarrow> stream_read n w
      | UWrite fd s \<Rightarrow> ((int (length s), No_data), w\<lparr>st_out := st_out w @ s\<rparr>)
      | _ \<Rightarrow> ((0, No_data), w))"

lemma stream_sys_simps [simp]:
  "stream_sys (URead fd n) w = stream_read n w"
  "stream_sys (UWrite fd s) w = ((int (length s), No_data), w\<lparr>st_out := st_out w @ s\<rparr>)"
  by (simp_all add: stream_sys_def)

lemma stream_read_some:
  assumes "st_in w \<noteq> []" and "[] \<notin> set (st_in w)" and "0 < n"
  shows "\<exists>d w'. stream_read n w = ((int (length d), Bytes d), w') \<and> d \<noteq> [] \<and> [] \<notin> set (st_in w')
    \<and> concat (st_in w) = d @ concat (st_in w') \<and> st_out w' = st_out w"
proof -
  obtain c cs where c: "st_in w = c # cs" using assms(1) by (cases "st_in w") auto
  let ?w = "w\<lparr>st_in := (if length c \<le> n then cs else drop n c # cs)\<rparr>"
  have "stream_read n w = ((int (length (take n c)), Bytes (take n c)), ?w)"
    by (simp add: stream_read_def c min.commute)
  moreover have "concat (st_in w) = take n c @ concat (st_in ?w)" by (simp add: c)
  moreover have "take n c \<noteq> []" "[] \<notin> set (st_in ?w)" using assms by (auto simp: c)
  ultimately show ?thesis by (intro exI [of _ "take n c"] exI [of _ ?w]) simp
qed

lemma urun_putc_all: "urun stream_sys (putc_all fd s) w = (Done (), w\<lparr>st_out := st_out w @ s\<rparr>)"
  by (induction s arbitrary: w) simp_all

lemma urun_printf:
  assumes "printf_out fmt args = Inr s"
  shows "urun stream_sys (printf fd fmt args) w = (Done (), w\<lparr>st_out := st_out w @ s\<rparr>)"
  using assms by (simp add: printf_def urun_putc_all)

text \<open>\<open>cat\<close> writes exactly the bytes of its input, however the kernel cuts them into pieces, and ends at the end of the input.\<close>

theorem cat_copies:
  assumes "[] \<notin> set (st_in w)" and "length (concat (st_in w)) < k"
  shows "urun stream_sys (cat k fd) w = (Done (), \<lparr>st_in = [], st_out = st_out w @ concat (st_in w)\<rparr>)"
  using assms
proof (induction k arbitrary: w)
  case (Suc k)
  show ?case
  proof (cases "st_in w")
    case Nil
    then show ?thesis by (cases w) (simp add: stream_read_def)
  next
    case (Cons c cs)
    then obtain d u where r: "stream_read 512 w = ((int (length d), Bytes d), u)" "d \<noteq> []" and u: "[] \<notin> set (st_in u)"
      "concat (st_in w) = d @ concat (st_in u)" "st_out u = st_out w"
      using stream_read_some [of w 512] Suc.prems(1) by fastforce
    let ?v = "u\<lparr>st_out := st_out w @ d\<rparr>"
    have "length (concat (st_in ?v)) < k" using Suc.prems(2) u(2) r(2) by (cases d) auto
    then have "urun stream_sys (cat k fd) ?v = (Done (), \<lparr>st_in = [], st_out = st_out w @ d @ concat (st_in u)\<rparr>)"
      using Suc.IH [of ?v] u(1) by simp
    then show ?thesis using r u by (simp add: bytes_of_def)
  qed
qed simp

theorem cat_copies_witness:
  "urun stream_sys (cat 6 0) \<lparr>st_in = [''ab'', ''c''], st_out = ''>''\<rparr> = (Done (), \<lparr>st_in = [], st_out = ''>abc''\<rparr>)"
  using cat_copies [of "\<lparr>st_in = [''ab'', ''c''], st_out = ''>''\<rparr>" 6 0] by simp

text \<open>A word starts at a character that is no separator and has none before it.\<close>

definition is_sep :: "char \<Rightarrow> bool" where
  "is_sep ch \<longleftrightarrow> ch \<in> set WC_SEP"

definition word_starts :: "string \<Rightarrow> nat set" where
  "word_starts t = {i. i < length t \<and> \<not> is_sep (t ! i) \<and> (i = 0 \<or> is_sep (t ! (i - 1)))}"

lemma strchr_sep: "strchr WC_SEP ch = None \<longleftrightarrow> \<not> is_sep ch"
  by (simp add: WC_SEP_def is_sep_def strchr.simps deref_def)

definition wc_ref :: "string \<Rightarrow> wcount" where
  "wc_ref t = (int (count_list t (CHR 0x0A)), int (card (word_starts t)), int (length t), t \<noteq> [] \<and> \<not> is_sep (last t))"

lemma finite_word_starts: "finite (word_starts t)"
  by (rule finite_subset [of _ "{..<length t}"]) (auto simp: word_starts_def)

lemma word_starts_snoc:
  "word_starts (t @ [c]) = (if \<not> is_sep c \<and> (t = [] \<or> is_sep (last t)) then insert (length t) (word_starts t) else word_starts t)"
proof -
  have "i \<in> word_starts (t @ [c]) \<longleftrightarrow> i \<in> word_starts t \<or> i = length t \<and> \<not> is_sep c \<and> (t = [] \<or> is_sep (last t))" for i
    by (cases "t = []"; cases "i < length t") (auto simp: word_starts_def nth_append last_conv_nth less_Suc_eq)
  then show ?thesis by auto
qed

lemma card_word_starts_snoc:
  "card (word_starts (t @ [c])) = card (word_starts t) + (if \<not> is_sep c \<and> (t = [] \<or> is_sep (last t)) then 1 else 0)"
proof -
  have "length t \<notin> word_starts t" by (simp add: word_starts_def)
  then show ?thesis by (simp add: word_starts_snoc finite_word_starts)
qed

lemma card_word_starts_le: "card (word_starts t) \<le> length t"
  using card_mono [of "{..<length t}" "word_starts t"] by (auto simp: word_starts_def)

lemma i32_small: "0 \<le> n \<Longrightarrow> n < 2 ^ 31 \<Longrightarrow> i32 n = n"
  by (simp add: i32_def)

lemma wc_char_snoc:
  assumes "length t < 2 ^ 31 - 1"
  shows "wc_char c (wc_ref t) = wc_ref (t @ [c])"
proof -
  have "count_list t (CHR 0x0A) \<le> length t" by (rule count_le_length)
  then have "i32 (int (length t) + 1) = int (length t) + 1"
    "i32 (int (card (word_starts t)) + 1) = int (card (word_starts t)) + 1"
    "i32 (int (count_list t (CHR 0x0A)) + 1) = int (count_list t (CHR 0x0A)) + 1"
    using assms card_word_starts_le [of t] by (simp_all add: i32_small)
  then show ?thesis by (auto simp: wc_char_def wc_ref_def Let_def strchr_sep card_word_starts_snoc)
qed

lemma wc_fold: "length (t @ s) < 2 ^ 31 \<Longrightarrow> fold wc_char s (wc_ref t) = wc_ref (t @ s)"
proof (induction s arbitrary: t)
  case (Cons c s)
  then have "wc_char c (wc_ref t) = wc_ref (t @ [c])" by (intro wc_char_snoc) simp
  with Cons show ?case by simp
qed simp

lemma uprintint_small:
  assumes "x < 10 ^ (16 - length buf)" and "length buf < 16"
  shows "\<exists>s. uprintint_loop x 10 buf = Inr s"
  using assms
proof (induction "16 - length buf" arbitrary: x buf)
  case (Suc n)
  show ?case
  proof (cases "x div 10 = 0")
    case True
    then show ?thesis using Suc.prems by (subst uprintint_loop.simps) (simp add: Let_def)
  next
    case False
    let ?b = "DIGITS ! (x mod 10) # buf"
    have "16 - length buf = Suc (16 - length ?b)" using Suc.prems(2) by simp
    then have "x div 10 < 10 ^ (16 - length ?b)" using Suc.prems(1) by (simp add: less_mult_imp_div_less mult.commute)
    moreover from this False have "length ?b < 16" by (cases "16 - length ?b") auto
    moreover have "n = 16 - length ?b" using Suc.hyps(2) by simp
    ultimately obtain s where "uprintint_loop (x div 10) 10 ?b = Inr s" using Suc.hyps(1) by blast
    then show ?thesis using Suc.prems False by (subst uprintint_loop.simps) (simp add: Let_def)
  qed
qed simp

lemma uprintint_nat:
  assumes "n < 2 ^ 31"
  shows "\<exists>s. uprintint (word_of_int (int n)) 10 True = Inr s"
proof -
  have u: "unat (word_of_int (int n) :: u32) = n" using assms by (simp add: unsigned_of_nat take_bit_nat_eq_self)
  then have "\<not> sint (word_of_int (int n) :: u32) < 0" using assms sint_uint_small [of "word_of_int (int n)"] by simp
  moreover obtain s where "uprintint_loop n 10 [] = Inr s" using uprintint_small [of n "[]"] assms by auto
  ultimately show ?thesis using u by (simp add: uprintint_def Let_def)
qed

lemma wc_run:
  assumes "[] \<notin> set (st_in w)" and "length (concat (st_in w)) < k" and "length (t @ concat (st_in w)) < 2 ^ 31"
  shows "\<exists>s. (let (l, n, c, _) = wc_ref (t @ concat (st_in w))
            in printf_out ''%d %d %d %s\<newline>'' [PNum l, PNum n, PNum c, PStr1 name] = Inr s)
       \<and> urun stream_sys (wc k fd name (wc_ref t)) w = (Done (), \<lparr>st_in = [], st_out = st_out w @ s\<rparr>)"
  using assms
proof (induction k arbitrary: w t)
  case (Suc k)
  show ?case
  proof (cases "st_in w")
    case Nil
    have "count_list t (CHR 0x0A) \<le> length t" by (rule count_le_length)
    then obtain a b c where n: "uprintint (word_of_int (int (count_list t (CHR 0x0A)))) 10 True = Inr a"
      "uprintint (word_of_int (int (card (word_starts t)))) 10 True = Inr b" "uprintint (word_of_int (int (length t))) 10 True = Inr c"
      using Suc.prems(3) card_word_starts_le [of t] uprintint_nat by (metis Nil append_Nil2 concat.simps(1) le_less_trans)
    then obtain s where "printf_out ''%d %d %d %s\<newline>'' [PNum (int (count_list t (CHR 0x0A))),
        PNum (int (card (word_starts t))), PNum (int (length t)), PStr1 name] = Inr s"
      by (simp add: printf_out.simps deref_def Let_def parg_int_def parg_str_def)
    with Nil show ?thesis by (cases w) (auto simp: stream_read_def wc_ref_def urun_printf)
  next
    case (Cons x xs)
    then obtain d u where r: "stream_read 512 w = ((int (length d), Bytes d), u)" "d \<noteq> []" and u: "[] \<notin> set (st_in u)"
      "concat (st_in w) = d @ concat (st_in u)" "st_out u = st_out w"
      using stream_read_some [of w 512] Suc.prems(1) by fastforce
    have "length (concat (st_in u)) < k" using Suc.prems(2) u(2) r(2) by (cases d) auto
    note Suc.IH [OF u(1) this, of "t @ d"]
    moreover have "fold wc_char d (wc_ref t) = wc_ref (t @ d)" using Suc.prems(3) u(2) by (intro wc_fold) simp
    ultimately show ?thesis using r u Suc.prems(3) by (simp add: bytes_of_def)
  qed
qed simp

text \<open>C40: \<open>wc\<close> prints the number of newlines, of words and of characters of its input. The input is counted in pieces, with a flag
  that carries a word over from one piece to the next; the result is that of the whole text: a word is counted where a
  character that is no separator follows a separator or starts the text.\<close>

theorem wc_counts:
  assumes "[] \<notin> set (st_in w)" and "length (concat (st_in w)) < k" and "length (concat (st_in w)) < 2 ^ 31"
  shows "\<exists>s. printf_out ''%d %d %d %s\<newline>''
              [PNum (int (count_list (concat (st_in w)) (CHR 0x0A))), PNum (int (card (word_starts (concat (st_in w))))),
               PNum (int (length (concat (st_in w)))), PStr1 name] = Inr s
       \<and> urun stream_sys (wc k fd name (0, 0, 0, False)) w = (Done (), \<lparr>st_in = [], st_out = st_out w @ s\<rparr>)"
  using wc_run [of w k "[]" name fd] assms by (simp add: wc_ref_def word_starts_def)

theorem wc_counts_witness:
  "urun stream_sys (wc 9 0 ''f'' (0, 0, 0, False)) \<lparr>st_in = [''a b'', ''b\<newline>''], st_out = []\<rparr>
     = (Done (), \<lparr>st_in = [], st_out = ''1 2 5 f\<newline>''\<rparr>)"
proof -
  have "word_starts ''a bb\<newline>'' = {0, 2}"
    by (auto simp: word_starts_def is_sep_def WC_SEP_def less_Suc_eq nth_Cons')
  then have "printf_out ''%d %d %d %s\<newline>'' [PNum (int (count_list ''a bb\<newline>'' (CHR 0x0A))),
      PNum (int (card (word_starts ''a bb\<newline>''))), PNum (int (length ''a bb\<newline>'')), PStr1 ''f''] = Inr ''1 2 5 f\<newline>''"
    by (simp add: printf_out.simps deref_def Let_def parg_int_def parg_str_def uprintint_def uprintint_loop.simps DIGITS_def cstr_def)
  then show ?thesis
    using wc_counts [of "\<lparr>st_in = [''a b'', ''b\<newline>''], st_out = []\<rparr>" 9 "''f''" 0] by simp
qed

end
