(* ===== verification/Ctool.thy ===== *)
theory Ctool
  imports Progs Sysfile
begin

text \<open>
  The container tool (\<^verbatim>\<open>ctool.c\<close>) and the first program (\<^verbatim>\<open>init.c\<close>), as trees of system calls.

  Both add up the sizes of the files below a directory with a recursion over the directories; each entry that is read
  takes one unit of fuel. Appending a slash to a name of 13 or 14 bytes with \<^verbatim>\<open>strcat\<close> runs out of the structure, which is a fault; the same holds of a name that does not fit a local array. \<^verbatim>\<open>strcat("/", dir)\<close> and the
  array \<^verbatim>\<open>dir[strlen(c_args[0])]\<close> are always too short by the length of what is appended; the model gives
  the string that is meant and leaves out what is overwritten behind it.
\<close>

section \<open>Sizes of files\<close>

text \<open>The same block stands in \<open>add_file_size_disk\<close> and twice in \<open>add_file_size\<close>: the size is charged to the container of
  that name, and when the count does not change the container is stopped.\<close>

definition charge_size :: "string \<Rightarrow> u32 \<Rightarrow> unit uprog" where
  "charge_size nm sz =
     (if strcmp nm [] \<noteq> 0
      then ubnd (usys (UFind nm)) (\<lambda>z.
             if z \<ge> 0
             then ubnd (usys (UGet_curr_disk z)) (\<lambda>before.
                  UCall (USet_curr_disk (sint sz) z) (\<lambda>_.
                  ubnd (usys (UGet_curr_disk z)) (\<lambda>after.
                    if before = after then UCall (UCstop nm) (\<lambda>_. URet ()) else URet ())))
             else URet ())
      else URet ())"

definition add_size :: "int \<Rightarrow> u32 \<Rightarrow> int" where
  "add_size holder sz = i32 (holder + uint sz)"

definition is_dots :: "string \<Rightarrow> bool" where
  "is_dots name \<longleftrightarrow> strcmp name ''..'' = 0 \<or> strcmp name ''.'' = 0"

fun add_file_size_disk :: "nat \<Rightarrow> string \<Rightarrow> string \<Rightarrow> int uprog"
  and size_disk_entries :: "nat \<Rightarrow> int \<Rightarrow> string \<Rightarrow> string \<Rightarrow> int \<Rightarrow> int uprog" where
  "add_file_size_disk 0 path nm = UFuel"
| "add_file_size_disk (Suc k) path nm =
     ubnd (usys (UOpen path 0)) (\<lambda>fd.
       if fd < 0 then ubnd (printf 2 ''df: cannot open %s\<newline>'' [PStr1 path]) (\<lambda>_. URet 0)
       else UCall (UFstat fd) (\<lambda>(r, sd).
         if r < 0
         then ubnd (printf 2 ''df: cannot stat %s\<newline>'' [PStr1 path]) (\<lambda>_. UCall (UClose fd) (\<lambda>_. URet 0))
         else case struct_stat sd of
           None \<Rightarrow> UFault
         | Some st \<Rightarrow>
             ubnd (if st_type st = T_FILE then URet (add_size 0 (st_size st))
                   else if st_type st = T_DIR \<and> \<not> strlen path + 1 + DIRSIZ + 1 > 512
                   then size_disk_entries k fd (cstr path @ [SLASH]) nm 0
                   else URet 0) (\<lambda>holder.
             UCall (UClose fd) (\<lambda>_. ubnd (printf 1 ''SIZE %d\<newline>'' [PNum holder]) (\<lambda>_. URet holder)))))"
| "size_disk_entries 0 fd buf nm holder = UFuel"
| "size_disk_entries (Suc k) fd buf nm holder =
     UCall (URead fd 16) (\<lambda>(n, d).
       let name = dirent_name (bytes_of d); path = cstr (buf @ name)
       in if n \<noteq> 16 then URet holder
          else if dirent_inum (bytes_of d) = 0 then size_disk_entries k fd buf nm holder
          else ubnd (ustat path) (\<lambda>(r, sd).
            if r < 0
            then ubnd (printf 1 ''df: cannot stat %s\<newline>'' [PStr1 path]) (\<lambda>_. size_disk_entries k fd buf nm holder)
            else case struct_stat sd of
              None \<Rightarrow> UFault
            | Some st \<Rightarrow>
                ubnd (if st_type st = 1 \<and> \<not> is_dots name
                      then (if length (cstr name) + 1 \<ge> DIRSIZ then UFault
                            else ubnd (add_file_size_disk k (strcat name ''/'') []) (\<lambda>v. URet (i32 (holder + v))))
                      else URet holder) (\<lambda>holder.
                ubnd (charge_size nm (st_size st)) (\<lambda>_.
                size_disk_entries k fd buf nm (add_size holder (st_size st))))))"

fun size_entries :: "nat \<Rightarrow> int \<Rightarrow> string \<Rightarrow> string \<Rightarrow> unit uprog" where
  "size_entries 0 fd buf nm = UFuel"
| "size_entries (Suc k) fd buf nm =
     UCall (URead fd 16) (\<lambda>(n, d).
       let path = cstr (buf @ dirent_name (bytes_of d))
       in if n \<noteq> 16 then URet ()
          else if dirent_inum (bytes_of d) = 0 then size_entries k fd buf nm
          else ubnd (ustat path) (\<lambda>(r, sd).
            if r < 0 then ubnd (printf 1 ''df: cannot stat %s\<newline>'' [PStr1 path]) (\<lambda>_. size_entries k fd buf nm)
            else case struct_stat sd of
              None \<Rightarrow> UFault
            | Some st \<Rightarrow> ubnd (charge_size nm (st_size st)) (\<lambda>_. size_entries k fd buf nm)))"

definition add_file_size :: "nat \<Rightarrow> string \<Rightarrow> string \<Rightarrow> unit uprog" where
  "add_file_size k path nm =
     ubnd (usys (UOpen path 0)) (\<lambda>fd.
       if fd < 0 then printf 2 ''df: cannot open %s\<newline>'' [PStr1 path]
       else UCall (UFstat fd) (\<lambda>(r, sd).
         if r < 0
         then ubnd (printf 2 ''df: cannot stat %s\<newline>'' [PStr1 path]) (\<lambda>_. UCall (UClose fd) (\<lambda>_. URet ()))
         else case struct_stat sd of
           None \<Rightarrow> UFault
         | Some st \<Rightarrow>
             ubnd (if st_type st = T_FILE
                   then ubnd (printf 1 ''%d \<newline>'' [PInt (st_size st)]) (\<lambda>_. charge_size nm (st_size st))
                   else if st_type st = T_DIR \<and> \<not> strlen path + 1 + DIRSIZ + 1 > 512
                   then size_entries k fd (cstr path @ [SLASH]) nm
                   else URet ()) (\<lambda>_.
             UCall (UClose fd) (\<lambda>_. URet ()))))"

section \<open>Creating a container\<close>

fun copy_loop :: "nat \<Rightarrow> int \<Rightarrow> int \<Rightarrow> unit uprog" where
  "copy_loop 0 fd_read fd_write = UFuel"
| "copy_loop (Suc k) fd_read fd_write =
     UCall (URead fd_read 512) (\<lambda>(n, d).
       if n > 0 then UCall (UWrite fd_write (take (nat n) (bytes_of d))) (\<lambda>_. copy_loop k fd_read fd_write)
       else URet ())"

definition copy_files :: "nat \<Rightarrow> string \<Rightarrow> string \<Rightarrow> unit uprog" where
  "copy_files k loc src =
     ubnd (usys (UOpen loc (O_CREATE OR O_RDWR))) (\<lambda>fd_write.
       if fd_write < 0 then printf 1 ''Invalid file location.\<newline>'' []
       else ubnd (usys (UOpen src O_RDONLY)) (\<lambda>fd_read.
         if fd_read < 0 then printf 1 ''Invalid file location.\<newline>'' []
         else ubnd (copy_loop k fd_read fd_write) (\<lambda>_.
              UCall (UClose fd_write) (\<lambda>_. UCall (UClose fd_read) (\<lambda>_. URet ())))))"

fun create_files :: "nat \<Rightarrow> string \<Rightarrow> string list \<Rightarrow> unit uprog" where
  "create_files k dir [] = URet ()"
| "create_files k dir (f # fs) =
     ubnd (copy_files k (strcat (strcat dir ''/'') f) f) (\<lambda>_. create_files k dir fs)"

definition ctool_create :: "nat \<Rightarrow> string list \<Rightarrow> unit uprog" where
  "ctool_create k c_args =
     (case c_args of [] \<Rightarrow> UFault | dir # fs \<Rightarrow> UCall (UMkdir dir) (\<lambda>_. create_files k dir fs))"

section \<open>Starting a container\<close>

definition attach_child :: "int \<Rightarrow> string list \<Rightarrow> unit uprog" where
  "attach_child fd file =
     UCall (UClose 0) (\<lambda>_. UCall (UClose 1) (\<lambda>_. UCall (UClose 2) (\<lambda>_.
     UCall (UDup fd) (\<lambda>_. UCall (UDup fd) (\<lambda>_. UCall (UDup fd) (\<lambda>_.
     ubnd (printf 1 ''FILE: %s\<newline>'' [PStr (case file of [] \<Rightarrow> None | f # _ \<Rightarrow> Some f)]) (\<lambda>_.
       case file of
         [] \<Rightarrow> UFault
       | f # _ \<Rightarrow> UCall (UExec f file) (\<lambda>_.
           ubnd (printf 1 ''Failure to attach VC.'' []) (\<lambda>_. UExit)))))))))"

definition attach_vc :: "nat \<Rightarrow> string \<Rightarrow> string \<Rightarrow> string list \<Rightarrow> int \<Rightarrow> unit uprog" where
  "attach_vc k vc dir file vc_num =
     ubnd (usys (UOpen vc O_RDWR)) (\<lambda>fd.
       if length (cstr dir) \<ge> 16 then UFault
       else UCall (UChdir dir) (\<lambda>_.
            ubnd (add_file_size k (strcat ''/'' dir) dir) (\<lambda>_.
            UCall (UCont_proc_set vc_num) (\<lambda>_.
            ubnd (usys UFork) (\<lambda>id. if id = 0 then attach_child fd file else URet ())))))"

text \<open>A limit that is given as 0 stays as it was.\<close>

definition set_limit :: "(int \<Rightarrow> int \<Rightarrow> ucall) \<Rightarrow> string \<Rightarrow> int \<Rightarrow> unit uprog" where
  "set_limit f a index = (if atoi a \<noteq> 0 then UCall (f (atoi a) index) (\<lambda>_. URet ()) else URet ())"

definition ctool_start :: "nat \<Rightarrow> string list \<Rightarrow> unit uprog" where
  "ctool_start k s_args =
     ubnd (usys UIs_full) (\<lambda>index.
       if index < 0 then printf 1 ''No Available Containers.\<newline>'' []
       else case s_args of
         vc # dir # p # m # d # file \<Rightarrow>
           ubnd (usys (UFind dir)) (\<lambda>z.
             if z = 0 then printf 1 ''Container already in use.\<newline>'' []
             else ubnd (set_limit USet_max_proc p index) (\<lambda>_.
                  ubnd (set_limit USet_max_mem m index) (\<lambda>_.
                  ubnd (set_limit USet_max_disk d index) (\<lambda>_.
                  UCall (USet_name dir index) (\<lambda>_.
                  UCall (USet_root_inode dir) (\<lambda>_.
                  attach_vc k vc dir file index))))))
       | _ \<Rightarrow> UFault)"

section \<open>The other commands\<close>

text \<open>The command has its argument, or follows a null pointer.\<close>

definition cpause :: "string list \<Rightarrow> unit uprog" where
  "cpause nm = (case nm of [] \<Rightarrow> UFault | c # _ \<Rightarrow> UCall (UPause c) (\<lambda>_. URet ()))"

definition cresume :: "string list \<Rightarrow> unit uprog" where
  "cresume nm = (case nm of [] \<Rightarrow> UFault | c # _ \<Rightarrow> UCall (UResume c) (\<lambda>_. URet ()))"

definition ctool_stop :: "string list \<Rightarrow> unit uprog" where
  "ctool_stop nm = (case nm of [] \<Rightarrow> UFault | c # _ \<Rightarrow> UCall (UCstop c) (\<lambda>_. URet ()))"

text \<open>\<^verbatim>\<open>get_name\<close> into an array of \<open>n\<close> characters.\<close>

definition get_name16 :: "nat \<Rightarrow> int \<Rightarrow> string uprog" where
  "get_name16 n i = UCall (UGet_name i) (\<lambda>(_, d).
     let s = cstr (bytes_of d) in if length s < n then URet s else UFault)"

definition ctool_name :: "unit uprog" where
  "ctool_name =
     ubnd (get_name16 16 0) (\<lambda>x. ubnd (get_name16 16 1) (\<lambda>y. ubnd (get_name16 16 2) (\<lambda>z. ubnd (get_name16 16 3) (\<lambda>a.
     ubnd (usys (UGet_curr_mem 0)) (\<lambda>b. ubnd (usys (UGet_curr_mem 1)) (\<lambda>c.
     ubnd (usys (UGet_curr_mem 2)) (\<lambda>d. ubnd (usys (UGet_curr_mem 3)) (\<lambda>e.
     ubnd (usys (UGet_curr_disk 0)) (\<lambda>s.
     printf 1 ''0: %s - %d SIZE: %d, 1: %s - %d, 2: %s - %d, 3: %s - %d\<newline>''
       [PStr1 x, PNum b, PNum s, PStr1 y, PNum c, PStr1 z, PNum d, PStr1 a, PNum e])))))))))"

definition info_one :: "int \<Rightarrow> unit uprog" where
  "info_one i =
     ubnd (get_name16 32 i) (\<lambda>name.
       if strcmp name [] = 0 then URet ()
       else
         ubnd (usys (UGet_curr_mem i)) (\<lambda>m_used. ubnd (usys (UGet_curr_disk i)) (\<lambda>d_used.
         ubnd (usys (UGet_curr_proc i)) (\<lambda>p_used. ubnd (usys (UGet_max_mem i)) (\<lambda>m_max.
         ubnd (usys (UGet_max_disk i)) (\<lambda>d_max. ubnd (usys (UGet_max_proc i)) (\<lambda>p_max.
         ubnd (printf 1 ''Container: %s  Associated Directory: /%s\<newline>'' [PStr1 name, PStr1 name]) (\<lambda>_.
         ubnd (printf 1 ''     Mem: %d used/%d available.\<newline>'' [PNum m_used, PNum m_max]) (\<lambda>_.
         ubnd (printf 1 ''     Disk: %d used/%d available.\<newline>'' [PNum d_used, PNum d_max]) (\<lambda>_.
         ubnd (printf 1 ''     Proc: %d used/%d available.\<newline>'' [PNum p_used, PNum p_max]) (\<lambda>_.
         ubnd (printf 1 ''%s Processes\<newline>'' [PStr1 name]) (\<lambda>_.
         UCall (UC_ps name) (\<lambda>_. URet ())))))))))))))"

fun info_loop :: "int list \<Rightarrow> unit uprog" where
  "info_loop [] = URet ()"
| "info_loop (i # is) = ubnd (info_one i) (\<lambda>_. info_loop is)"

definition ctool_info :: "unit uprog" where
  "ctool_info = ubnd (usys UMax_containers) (\<lambda>num_c. info_loop (map int [0 ..< nat num_c]))"

definition usage :: "string \<Rightarrow> unit uprog" where
  "usage s = ubnd (printf 1 s []) (\<lambda>_. UExit)"

definition ctool_main :: "nat \<Rightarrow> string list \<Rightarrow> unit uprog" where
  "ctool_main k argv =
     (if length argv \<le> 1 then UFault
      else
        let cmd = argv ! 1; args = drop 2 argv; argc = length argv; fin = (\<lambda>p. ubnd p (\<lambda>_. UExit))
        in if strcmp cmd ''create'' = 0
           then (if argc < 3 then usage ''ctool create <name> <prog1> [ ... progn]\<newline>'' else fin (ctool_create k args))
           else if strcmp cmd ''start'' = 0
           then (if argc < 7
                 then usage ''ctool start <vc> <name> <max_proc> <max_mem> <max_disk> <prog> [prog args]\<newline>''
                 else fin (ctool_start k args))
           else if strcmp cmd ''name'' = 0 then fin ctool_name
           else if strcmp cmd ''pause'' = 0 then (if argc < 2 then usage ''ctool pause <name>\<newline>'' else fin (cpause args))
           else if strcmp cmd ''resume'' = 0 then (if argc < 2 then usage ''ctool resume <name>\<newline>'' else fin (cresume args))
           else if strcmp cmd ''stop'' = 0 then (if argc < 2 then usage ''ctool stop <name>\<newline>'' else fin (ctool_stop args))
           else if strcmp cmd ''info'' = 0 then fin ctool_info
           else fin (printf 1 ''Improper usage; create, start, pause, resume, stop, info.\<newline>'' []))"

end
