(* ===== verification/Init.thy ===== *)
theory Init
  imports Ctool
begin

text \<open>
  The first user program (\<^verbatim>\<open>init.c\<close>): it opens the console, makes the device files of the virtual consoles,
  tells the kernel how much of the disk the installed files take, and then keeps one shell running and reaps every
  orphan that the kernel hands to it.
\<close>

section \<open>The program\<close>

fun init_size_disk :: "nat \<Rightarrow> string \<Rightarrow> int uprog"
  and init_entries :: "nat \<Rightarrow> int \<Rightarrow> string \<Rightarrow> int \<Rightarrow> int uprog" where
  "init_size_disk 0 path = UFuel"
| "init_size_disk (Suc k) path =
     ubnd (usys (UOpen path 0)) (\<lambda>fd.
       if fd < 0 then ubnd (printf 2 ''df: cannot open %s\<newline>'' [PStr1 path]) (\<lambda>_. URet 0)
       else UCall (UFstat fd) (\<lambda>(r, sd).
         if r < 0
         then ubnd (printf 2 ''df: cannot stat %s\<newline>'' [PStr1 path]) (\<lambda>_. UCall (UClose fd) (\<lambda>_. URet 0))
         else case struct_stat sd of
           None \<Rightarrow> UFault
         | Some st \<Rightarrow>
             ubnd (if st_type st = T_FILE then URet (add_size 0 (st_size st))
                   else if st_type st = T_DIR \<and> \<not> strlen path + 1 + DIRSIZ + 1 > 512
                   then init_entries k fd (cstr path @ [SLASH]) 0
                   else URet 0) (\<lambda>holder.
             UCall (UClose fd) (\<lambda>_. URet holder))))"
| "init_entries 0 fd buf holder = UFuel"
| "init_entries (Suc k) fd buf holder =
     UCall (URead fd 16) (\<lambda>(n, d).
       let name = dirent_name (bytes_of d); path = cstr (buf @ name)
       in if n \<noteq> 16 then URet holder
          else if dirent_inum (bytes_of d) = 0 then init_entries k fd buf holder
          else ubnd (ustat path) (\<lambda>(r, sd).
            if r < 0 then ubnd (printf 1 ''df: cannot stat %s\<newline>'' [PStr1 path]) (\<lambda>_. init_entries k fd buf holder)
            else case struct_stat sd of
              None \<Rightarrow> UFault
            | Some st \<Rightarrow>
                ubnd (if st_type st = 1 \<and> \<not> is_dots name
                      then (if length (cstr name) + 1 \<ge> DIRSIZ then UFault
                            else ubnd (init_size_disk k (strcat name ''/'')) (\<lambda>v. URet (i32 (holder + v))))
                      else URet holder) (\<lambda>holder.
                init_entries k fd buf (add_size holder (st_size st)))))"

definition init_add_file_size :: "nat \<Rightarrow> string \<Rightarrow> string \<Rightarrow> unit uprog" where
  "init_add_file_size k path nm =
     ubnd (usys (UOpen path 0)) (\<lambda>fd.
       if fd < 0 then printf 2 ''df: cannot open %s\<newline>'' [PStr1 path]
       else UCall (UFstat fd) (\<lambda>(r, sd).
         if r < 0
         then ubnd (printf 2 ''df: cannot stat %s\<newline>'' [PStr1 path]) (\<lambda>_. UCall (UClose fd) (\<lambda>_. URet ()))
         else case struct_stat sd of
           None \<Rightarrow> UFault
         | Some st \<Rightarrow>
             ubnd (if st_type st = T_FILE then URet (add_size 0 (st_size st))
                   else if st_type st = T_DIR \<and> \<not> strlen path + 1 + DIRSIZ + 1 > 512
                   then init_entries k fd (cstr path @ [SLASH]) 0
                   else URet 0) (\<lambda>holder.
             ubnd (if strcmp nm [] = 0 then UCall (USet_os holder) (\<lambda>_. URet ()) else URet ()) (\<lambda>_.
             UCall (UClose fd) (\<lambda>_. URet ())))))"

fun create_vcs :: "nat list \<Rightarrow> unit uprog" where
  "create_vcs [] = URet ()"
| "create_vcs (i # vs) =
     (let dname = ''vc'' @ [char_of (48 + i)]
      in ubnd (usys (UOpen dname O_RDWR)) (\<lambda>fd.
         if fd < 0 then UCall (UMknod dname 1 (int i + 2)) (\<lambda>_. create_vcs vs)
         else UCall (UClose fd) (\<lambda>_. create_vcs vs)))"

fun init_wait :: "nat \<Rightarrow> int \<Rightarrow> unit uprog" where
  "init_wait 0 pid = UFuel"
| "init_wait (Suc k) pid =
     ubnd (usys UWait) (\<lambda>wpid.
       if wpid \<ge> 0 \<and> wpid \<noteq> pid then ubnd (printf 1 ''zombie!\<newline>'' []) (\<lambda>_. init_wait k pid)
       else URet ())"

text \<open>One unit of fuel for each shell that is started.\<close>

fun init_loop :: "nat \<Rightarrow> nat \<Rightarrow> unit uprog" where
  "init_loop 0 k = UFuel"
| "init_loop (Suc j) k =
     ubnd (printf 1 ''init: starting sh\<newline>'' []) (\<lambda>_.
     ubnd (usys UFork) (\<lambda>pid.
       if pid < 0 then ubnd (printf 1 ''init: fork failed\<newline>'' []) (\<lambda>_. UExit)
       else if pid = 0
       then UCall (UExec ''sh'' [''sh'']) (\<lambda>_. ubnd (printf 1 ''init: exec sh failed\<newline>'' []) (\<lambda>_. UExit))
       else ubnd (init_wait k pid) (\<lambda>_. init_loop j k)))"

definition init_main :: "nat \<Rightarrow> nat \<Rightarrow> unit uprog" where
  "init_main j k =
     ubnd (usys (UOpen ''console'' O_RDWR)) (\<lambda>r.
     ubnd (if r < 0
           then UCall (UMknod ''console'' 1 1) (\<lambda>_. UCall (UOpen ''console'' O_RDWR) (\<lambda>_. URet ()))
           else URet ()) (\<lambda>_.
     UCall (UDup 0) (\<lambda>_. UCall (UDup 0) (\<lambda>_.
     ubnd (create_vcs [0 ..< 4]) (\<lambda>_.
     ubnd (init_add_file_size k [] []) (\<lambda>_.
     init_loop j k))))))"

end
