(* ===== verification/Ide.thy ===== *)
theory Ide
  imports Bio
begin

text \<open>
  The interrupt driven disk driver (\<^verbatim>\<open>ide.c\<close>), which takes the place of the memory disk \<^verbatim>\<open>memide.c\<close> when the
  kernel is built for a machine with an IDE disk.

  Port output is a trace \<open>io_trace\<close> of what the driver sends to the drive; port input is a stream of values for each
  port. A driver that polls a port whose stream ends would wait for ever, which is the value \<open>Blocked\<close>. The queue of requests
  \<^verbatim>\<open>idequeue\<close>, linked through the buffers, is the list of buffer indices in the order of the links.

  The drive is not part of the program. It is the parameter \<open>dr\<close>, which takes the port output of one command
  and the content of the disk, and gives its status, the bytes of the data port and the new content; \<open>drive_ok\<close> is what an
  ATA drive with block addresses of 28 bits promises for a block that it has, with a status that reports no error.
\<close>

section \<open>Ports\<close>

datatype io_out = Outb nat u8 | Outsl nat "u8 list" | Mmio u32 u32

type_synonym io_streams = "nat \<Rightarrow> u8 list"

definition inb :: "nat \<Rightarrow> io_streams \<Rightarrow> (u8 \<times> io_streams) res" where
  "inb p io = (case io p of [] \<Rightarrow> Inl (Blocked ''inb'') | v # vs \<Rightarrow> Inr (v, io(p := vs)))"

text \<open>\<^verbatim>\<open>insl\<close> reads \<open>n\<close> bytes, four at a time.\<close>

definition insl :: "nat \<Rightarrow> nat \<Rightarrow> io_streams \<Rightarrow> (u8 list \<times> io_streams) res" where
  "insl p n io = (if length (io p) < n then Inl (Blocked ''insl'') else Inr (take n (io p), io(p := drop n (io p))))"

section \<open>The driver\<close>

definition SECTOR_SIZE :: nat where "SECTOR_SIZE = 512"
definition IDE_BSY :: u8 where "IDE_BSY = 0x80"
definition IDE_DRDY :: u8 where "IDE_DRDY = 0x40"
definition IDE_DF :: u8 where "IDE_DF = 0x20"
definition IDE_ERR :: u8 where "IDE_ERR = 0x01"
definition IDE_CMD_READ :: u8 where "IDE_CMD_READ = 0x20"
definition IDE_CMD_WRITE :: u8 where "IDE_CMD_WRITE = 0x30"
definition IDE_CMD_RDMUL :: u8 where "IDE_CMD_RDMUL = 0xc4"
definition IDE_CMD_WRMUL :: u8 where "IDE_CMD_WRMUL = 0xc5"
definition FSSIZE :: nat where "FSSIZE = 20000"

record kide = kbio +
  idequeue :: "nat list"
  havedisk1 :: bool
  io_trace :: "io_out list"
  io_in :: io_streams

text \<open>The status that the loop of \<^verbatim>\<open>idewait\<close> ends with, and the values that are left.\<close>

fun idewait_loop :: "u8 list \<Rightarrow> (u8 \<times> u8 list) res" where
  "idewait_loop [] = Inl (Blocked ''idewait'')"
| "idewait_loop (r # rs) = (if r AND (IDE_BSY OR IDE_DRDY) \<noteq> IDE_DRDY then idewait_loop rs else Inr (r, rs))"

definition idewait :: "bool \<Rightarrow> 'z kide_scheme \<Rightarrow> (int \<times> 'z kide_scheme) res" where
  "idewait checkerr s =
     bnd (idewait_loop (io_in s 0x1f7)) (\<lambda>(r, rs).
       Inr (if checkerr \<and> r AND (IDE_DF OR IDE_ERR) \<noteq> 0 then -1 else 0, s\<lparr>io_in := (io_in s)(0x1f7 := rs)\<rparr>))"

definition outb :: "nat \<Rightarrow> u8 \<Rightarrow> 'z kide_scheme \<Rightarrow> 'z kide_scheme" where
  "outb p v s = s\<lparr>io_trace := io_trace s @ [Outb p v]\<rparr>"

definition outsl :: "nat \<Rightarrow> u8 list \<Rightarrow> 'z kide_scheme \<Rightarrow> 'z kide_scheme" where
  "outsl p xs s = s\<lparr>io_trace := io_trace s @ [Outsl p xs]\<rparr>"

fun find_disk1 :: "nat \<Rightarrow> 'z kide_scheme \<Rightarrow> 'z kide_scheme res" where
  "find_disk1 0 s = Inr s"
| "find_disk1 (Suc n) s =
     bnd (inb 0x1f7 (io_in s)) (\<lambda>(v, io).
       if v \<noteq> 0 then Inr (s\<lparr>io_in := io, havedisk1 := True\<rparr>) else find_disk1 n (s\<lparr>io_in := io\<rparr>))"

text \<open>\<^verbatim>\<open>ideinit\<close> behind the call of \<^verbatim>\<open>ioapicenable\<close>.\<close>

definition ideinit :: "'z kide_scheme \<Rightarrow> 'z kide_scheme res" where
  "ideinit s =
     bnd (idewait False s) (\<lambda>(_, s).
     bnd (find_disk1 1000 (outb 0x1f6 (0xe0 OR push_bit 4 1) s)) (\<lambda>s.
     Inr (outb 0x1f6 (0xe0 OR push_bit 4 0) s)))"

definition idestart :: "nat option \<Rightarrow> 'z kide_scheme \<Rightarrow> 'z kide_scheme res" where
  "idestart ob s =
     (case ob of None \<Rightarrow> Inl (Panic ''idestart'')
      | Some i \<Rightarrow>
        let b = bufs s ! i in
        if unat (b_blockno b) \<ge> FSSIZE then Inl (Panic ''incorrect blockno'')
        else
          let sector_per_block = BSIZE div SECTOR_SIZE;
              sector = b_blockno b * of_nat sector_per_block;
              read_cmd = (if sector_per_block = 1 then IDE_CMD_READ else IDE_CMD_RDMUL);
              write_cmd = (if sector_per_block = 1 then IDE_CMD_WRITE else IDE_CMD_WRMUL)
          in if sector_per_block > 7 then Inl (Panic ''idestart'')
             else
               bnd (idewait False s) (\<lambda>(_, s).
               let s = outb 0x3f6 0 s;
                   s = outb 0x1f2 (of_nat sector_per_block) s;
                   s = outb 0x1f3 (ucast (sector AND 0xff)) s;
                   s = outb 0x1f4 (ucast (drop_bit 8 sector AND 0xff)) s;
                   s = outb 0x1f5 (ucast (drop_bit 16 sector AND 0xff)) s;
                   s = outb 0x1f6 (ucast (0xe0 OR push_bit 4 (b_dev b AND 1) OR (drop_bit 24 sector AND 0x0f))) s
               in Inr (if b_dirty b then outsl 0x1f0 (b_data b) (outb 0x1f7 write_cmd s) else outb 0x1f7 read_cmd s)))"

definition ideintr :: "'z kide_scheme \<Rightarrow> 'z kide_scheme res" where
  "ideintr s =
     (case idequeue s of [] \<Rightarrow> Inr s
      | i # q \<Rightarrow>
        let s = s\<lparr>idequeue := q\<rparr> in
        bnd (if \<not> b_dirty (bufs s ! i)
             then bnd (idewait True s) (\<lambda>(r, s).
                    if r \<ge> 0
                    then bnd (insl 0x1f0 BSIZE (io_in s)) (\<lambda>(d, io).
                           Inr (buf_upd i (\<lambda>b. b\<lparr>b_data := d\<rparr>) (s\<lparr>io_in := io\<rparr>)))
                    else Inr s)
             else Inr s) (\<lambda>s.
        let s = buf_upd i (\<lambda>b. b\<lparr>b_valid := True, b_dirty := False\<rparr>) s;
            s = wakeup (Some (ChBuf i)) s
        in case q of [] \<Rightarrow> Inr s | j # _ \<Rightarrow> idestart (Some j) s))"

text \<open>\<^verbatim>\<open>iderw\<close> up to its loop, and the condition of the loop, under which the process goes to sleep.\<close>

definition iderw_request :: "nat \<Rightarrow> 'z kide_scheme \<Rightarrow> 'z kide_scheme res" where
  "iderw_request i s =
     (let b = bufs s ! i in
      if \<not> holdingsleep (b_lock b) then Inl (Panic ''iderw: buf not locked'')
      else if b_valid b \<and> \<not> b_dirty b then Inl (Panic ''iderw: nothing to do'')
      else if b_dev b \<noteq> 0 \<and> \<not> havedisk1 s then Inl (Panic ''iderw: ide disk 1 not present'')
      else
        let s = s\<lparr>idequeue := idequeue s @ [i]\<rparr>
        in if hd (idequeue s) = i then idestart (Some i) s else Inr s)"

definition iderw_waits :: "nat \<Rightarrow> 'z kide_scheme \<Rightarrow> bool" where
  "iderw_waits i s \<longleftrightarrow> \<not> (b_valid (bufs s ! i) \<and> \<not> b_dirty (bufs s ! i))"

section \<open>The drive\<close>

text \<open>The block address in the registers, and the drive that the driver talks to: the second one, addressed by
  blocks.\<close>

definition ide_lba :: "u8 \<Rightarrow> u8 \<Rightarrow> u8 \<Rightarrow> u8 \<Rightarrow> nat" where
  "ide_lba s0 s1 s2 h = unat s0 + 256 * unat s1 + 65536 * unat s2 + 2 ^ 24 * unat (h AND 0x0f)"

type_synonym drive = "io_out list \<Rightarrow> u8 list list \<Rightarrow> u8 \<times> u8 list \<times> u8 list list"

definition lba_regs :: "u8 \<Rightarrow> u8 \<Rightarrow> u8 \<Rightarrow> u8 \<Rightarrow> io_out list" where
  "lba_regs s0 s1 s2 h = [Outb 0x3f6 0, Outb 0x1f2 1, Outb 0x1f3 s0, Outb 0x1f4 s1, Outb 0x1f5 s2, Outb 0x1f6 h]"

definition drive_ok :: "drive \<Rightarrow> bool" where
  "drive_ok dr \<longleftrightarrow> (\<forall>s0 s1 s2 h d. h AND 0xf0 = 0xf0 \<longrightarrow> ide_lba s0 s1 s2 h < length d \<longrightarrow>
      dr (lba_regs s0 s1 s2 h @ [Outb 0x1f7 0x20]) d = (IDE_DRDY, d ! ide_lba s0 s1 s2 h, d)
      \<and> (\<forall>x. length x = 512 \<longrightarrow>
           dr (lba_regs s0 s1 s2 h @ [Outb 0x1f7 0x30, Outsl 0x1f0 x]) d = (IDE_DRDY, [], d[ide_lba s0 s1 s2 h := x])))"

text \<open>The drive carries out the command it was given, has its status and its data ready, and interrupts. The status is read by the
  handler and once more before the next command. When a request comes while no command is out, the drive is ready.\<close>

definition drive_step :: "drive \<Rightarrow> 'z kide_scheme \<Rightarrow> 'z kide_scheme" where
  "drive_step dr s =
     (if io_trace s = [] then s
      else let (st, x, d) = dr (io_trace s) (disk s)
           in s\<lparr>disk := d, io_trace := [], io_in := (io_in s)(0x1f0 := x, 0x1f7 := [st, st])\<rparr>)"

datatype ide_event = Req nat | Irq

fun ide_step :: "drive \<Rightarrow> ide_event \<Rightarrow> 'z kide_scheme \<Rightarrow> 'z kide_scheme res" where
  "ide_step dr (Req i) s = iderw_request i (s\<lparr>io_in := (io_in s)(0x1f7 := [IDE_DRDY])\<rparr>)"
| "ide_step dr Irq s = ideintr (drive_step dr s)"

text \<open>First in, first out: what is finished and what is waiting after some events.\<close>

fun ide_spec :: "ide_event \<Rightarrow> nat list \<times> nat list \<Rightarrow> nat list \<times> nat list" where
  "ide_spec (Req i) (fin, pend) = (fin, pend @ [i])"
| "ide_spec Irq (fin, pend) = (case pend of [] \<Rightarrow> (fin, []) | i # q \<Rightarrow> (fin @ [i], q))"

definition requests :: "ide_event list \<Rightarrow> nat list" where
  "requests es = concat (map (\<lambda>e. case e of Req i \<Rightarrow> [i] | Irq \<Rightarrow> []) es)"

lemma requests_snoc [simp]:
  "requests [] = []" "requests (es @ [Req i]) = requests es @ [i]" "requests (es @ [Irq]) = requests es"
  by (simp_all add: requests_def)

lemma ide_spec_requests: "fold ide_spec es ([], []) = (fin, pend) \<Longrightarrow> fin @ pend = requests es"
proof (induction es arbitrary: fin pend rule: rev_induct)
  case (snoc e es)
  then show ?case by (cases e; cases "fold ide_spec es ([], [])") (auto split: list.splits)
qed simp

section \<open>The commands\<close>

definition req_ok :: "'z kide_scheme \<Rightarrow> nat \<Rightarrow> bool" where
  "req_ok s i \<longleftrightarrow> i < length (bufs s) \<and> sl_locked (b_lock (bufs s ! i)) \<and> iderw_waits i s
     \<and> b_dev (bufs s ! i) = 1 \<and> unat (b_blockno (bufs s ! i)) < FSSIZE \<and> length (b_data (bufs s ! i)) = BSIZE"

definition ide_cmd :: "buf \<Rightarrow> io_out list" where
  "ide_cmd b =
     lba_regs (ucast (b_blockno b AND 0xff)) (ucast (drop_bit 8 (b_blockno b) AND 0xff)) (ucast (drop_bit 16 (b_blockno b) AND 0xff))
       (ucast (0xe0 OR push_bit 4 (b_dev b AND 1) OR (drop_bit 24 (b_blockno b) AND 0x0f)))
     @ (if b_dirty b then [Outb 0x1f7 0x30, Outsl 0x1f0 (b_data b)] else [Outb 0x1f7 0x20])"

lemma idewait_ready:
  "io_in s 0x1f7 = IDE_DRDY # rs \<Longrightarrow> idewait c s = Inr (0, s\<lparr>io_in := (io_in s)(0x1f7 := rs)\<rparr>)"
  by (simp add: idewait_def IDE_DRDY_def IDE_BSY_def IDE_DF_def IDE_ERR_def)

lemma idestart_ready:
  assumes "io_in s 0x1f7 = IDE_DRDY # rs" and "unat (b_blockno (bufs s ! i)) < FSSIZE"
  shows "idestart (Some i) s =
    Inr (s\<lparr>io_in := (io_in s)(0x1f7 := rs), io_trace := io_trace s @ ide_cmd (bufs s ! i)\<rparr>)"
  using assms(2)
  by (simp add: idestart_def idewait_ready [OF assms(1)] BSIZE_def SECTOR_SIZE_def outb_def outsl_def ide_cmd_def
      lba_regs_def IDE_CMD_READ_def IDE_CMD_WRITE_def Let_def)

lemma unat_drop_bit: "unat (drop_bit n (w :: u32)) = unat w div 2 ^ n"
proof -
  have "unat (drop_bit n w) = drop_bit n (unat w)" by (simp add: unat_drop_bit_eq)
  then show ?thesis by (simp only: drop_bit_eq_div)
qed

lemma unat_low_byte: "unat (ucast ((w :: u32) AND 0xff) :: u8) = unat w mod 256"
proof -
  have "(0xff :: u32) = mask 8" by (simp add: mask_eq_exp_minus_1)
  then have "w AND 0xff = take_bit 8 w" by (simp only: take_bit_eq_mask)
  moreover have "unat (ucast (take_bit 8 w) :: u8) = take_bit 8 (unat w)"
    by (simp add: unsigned_ucast_eq unsigned_take_bit_eq)
  ultimately show ?thesis by (simp only: take_bit_eq_mod) simp
qed

lemma three_bytes:
  assumes "(n :: nat) < 2 ^ 24"
  shows "n mod 256 + 256 * (n div 256 mod 256) + 65536 * (n div 65536 mod 256) = n"
proof -
  have "n div 65536 = n div 256 div 256" by (simp add: div_mult2_eq [symmetric])
  moreover have "n div 65536 mod 256 = n div 65536" using assms by (simp add: less_mult_imp_div_less)
  moreover have "256 * (n div 256 mod 256) + 65536 * (n div 256 div 256) = 256 * (n div 256)"
    using mult_div_mod_eq [of 256 "n div 256"] by linarith
  moreover have "n mod 256 + 256 * (n div 256) = n" by simp
  ultimately show ?thesis by linarith
qed

lemma ide_lba_block:
  assumes "unat (w :: u32) < FSSIZE"
  shows "ide_lba (ucast (w AND 0xff)) (ucast (drop_bit 8 w AND 0xff)) (ucast (drop_bit 16 w AND 0xff)) 0xf0 = unat w"
proof -
  have "unat w < 2 ^ 24" using assms by (simp add: FSSIZE_def)
  then show ?thesis using three_bytes [of "unat w"] by (simp add: ide_lba_def unat_low_byte unat_drop_bit)
qed

lemma drive_head:
  assumes "unat (w :: u32) < FSSIZE"
  shows "(ucast (0xe0 OR push_bit 4 ((1 :: u32) AND 1) OR (drop_bit 24 w AND 0x0f)) :: u8) = 0xf0"
proof -
  have "unat (drop_bit 24 w) = 0" using assms by (simp add: FSSIZE_def unat_drop_bit)
  then have "drop_bit 24 w = 0" by (simp only: unsigned_eq_0_iff)
  then show ?thesis by simp
qed

lemma drive_cmd:
  assumes "drive_ok dr" and "req_ok s i" and "length d = FSSIZE"
  shows "dr (ide_cmd (bufs s ! i)) d =
    (let b = bufs s ! i
     in if b_dirty b then (IDE_DRDY, [], d[unat (b_blockno b) := b_data b]) else (IDE_DRDY, d ! unat (b_blockno b), d))"
proof -
  let ?b = "bufs s ! i" and ?w = "b_blockno (bufs s ! i)"
  have b: "b_dev ?b = 1" "unat ?w < FSSIZE" "length (b_data ?b) = 512"
    using assms(2) by (auto simp: req_ok_def BSIZE_def)
  note lba = ide_lba_block [OF b(2)] and head = drive_head [OF b(2)]
  have h: "(0xf0 :: u8) AND 0xf0 = 0xf0" by simp
  show ?thesis
    using assms(1) [unfolded drive_ok_def, rule_format, OF h, of "ucast (?w AND 0xff)" "ucast (drop_bit 8 ?w AND 0xff)"
        "ucast (drop_bit 16 ?w AND 0xff)" d] b(2,3) assms(3)
    unfolding ide_cmd_def b(1) head lba by (simp add: Let_def)
qed

section \<open>One event\<close>

text \<open>What the driver has told the drive: the command of the first request.\<close>

definition ide_started :: "'z kide_scheme \<Rightarrow> bool" where
  "ide_started s \<longleftrightarrow> io_trace s = (case idequeue s of [] \<Rightarrow> [] | i # _ \<Rightarrow> ide_cmd (bufs s ! i))"

lemma ide_step_request:
  assumes "req_ok s i" and "i \<notin> set (idequeue s)" and "havedisk1 s" and "ide_started s"
  obtains t where "ide_step dr (Req i) s = Inr t" and "idequeue t = idequeue s @ [i]" and "ide_started t"
    and "bufs t = bufs s" and "disk t = disk s" and "havedisk1 t"
proof -
  let ?s = "s\<lparr>io_in := (io_in s)(0x1f7 := [IDE_DRDY])\<rparr>"
  let ?t = "?s\<lparr>idequeue := idequeue s @ [i]\<rparr>"
  have w: "b_valid (bufs s ! i) \<longrightarrow> b_dirty (bufs s ! i)" "unat (b_blockno (bufs s ! i)) < FSSIZE"
    "sl_locked (b_lock (bufs s ! i))"
    using assms(1) by (auto simp: req_ok_def iderw_waits_def)
  have r: "iderw_request i ?s = (if hd (idequeue s @ [i]) = i then idestart (Some i) ?t else Inr ?t)"
    using w assms(3) by (auto simp: iderw_request_def holdingsleep_def Let_def)
  show ?thesis
  proof (cases "idequeue s")
    case Nil
    have "ide_step dr (Req i) s = Inr (?t\<lparr>io_in := (io_in ?t)(0x1f7 := []), io_trace := io_trace ?t @ ide_cmd (bufs ?t ! i)\<rparr>)"
      using Nil r w(2) idestart_ready [of ?t "[]" i] by simp
    then show ?thesis by (rule that) (use Nil assms(3,4) in \<open>simp_all add: ide_started_def\<close>)
  next
    case (Cons j q)
    have "ide_step dr (Req i) s = Inr ?t" using Cons r assms(2) by simp
    then show ?thesis by (rule that) (use Cons assms(3,4) in \<open>simp_all add: ide_started_def\<close>)
  qed
qed

text \<open>The memory disk on the same buffers.\<close>

definition served :: "nat \<Rightarrow> buf list \<times> u8 list list \<Rightarrow> buf list \<times> u8 list list" where
  "served i bd = (case bd of (bs, d) \<Rightarrow>
     let b = bs ! i
     in if b_dirty b then (bs[i := b\<lparr>b_dirty := False, b_valid := True\<rparr>], d[unat (b_blockno b) := b_data b])
        else (bs[i := b\<lparr>b_data := d ! unat (b_blockno b), b_valid := True\<rparr>], d))"

lemma iderw_served:
  assumes "req_ok s i" and "bufs u = bufs s" and "length (disk u) = FSSIZE"
  shows "\<exists>v. iderw i u = Inr v \<and> (bufs v, disk v) = served i (bufs u, disk u)"
  using assms
  by (cases "b_dirty (bufs s ! i)")
    (auto simp: iderw_def served_def req_ok_def iderw_waits_def holdingsleep_def buf_upd_def Let_def)

lemma served_frame:
  "served i (bs, d) = (cs, e) \<Longrightarrow> length cs = length bs \<and> length e = length d \<and> (\<forall>j. j \<noteq> i \<longrightarrow> cs ! j = bs ! j)"
  by (auto simp: served_def Let_def split: if_splits)

lemma served_blocks:
  assumes "served i (bs, d) = (cs, e)" and "\<forall>x \<in> set d. length x = BSIZE" and "length (b_data (bs ! i)) = BSIZE"
  shows "\<forall>x \<in> set e. length x = BSIZE"
  using assms set_update_subset_insert [of d] by (fastforce simp: served_def Let_def split: if_splits)

lemma flags_commute: "b\<lparr>b_valid := x, b_dirty := y\<rparr> = (b :: buf)\<lparr>b_dirty := y, b_valid := x\<rparr>"
  by simp

lemma clean_stays: "\<not> b_dirty b \<Longrightarrow> (b :: buf)\<lparr>b_data := d, b_dirty := False, b_valid := v\<rparr> = b\<lparr>b_data := d, b_valid := v\<rparr>"
  by (cases b) simp

lemma ide_step_irq:
  assumes dr: "drive_ok dr" and q: "idequeue s = i # q" and ok: "\<forall>j \<in> set (i # q). req_ok s j" and "distinct (i # q)"
    and "ide_started s" and "havedisk1 s" and d: "length (disk s) = FSSIZE" "\<forall>x \<in> set (disk s). length x = BSIZE"
  shows "\<exists>t. ide_step dr Irq s = Inr t \<and> idequeue t = q \<and> ide_started t
    \<and> (bufs t, disk t) = served i (bufs s, disk s) \<and> havedisk1 t"
proof -
  let ?b = "bufs s ! i"
  have i: "req_ok s i" using ok by simp
  have b: "i < length (bufs s)" "unat (b_blockno ?b) < FSSIZE" using i by (auto simp: req_ok_def)
  have tr: "io_trace s = ide_cmd ?b" "ide_cmd ?b \<noteq> []"
    using assms(5) q by (auto simp: ide_started_def ide_cmd_def lba_regs_def)
  obtain st x e where xe: "dr (ide_cmd ?b) (disk s) = (st, x, e)" by (metis surj_pair)
  note dc = drive_cmd [OF dr i d(1), unfolded xe Let_def]
  have ready: "st = IDE_DRDY" using dc by (simp split: if_splits)
  let ?s = "s\<lparr>disk := e, io_trace := [], io_in := (io_in s)(0x1f0 := x, 0x1f7 := [IDE_DRDY, IDE_DRDY])\<rparr>"
  obtain u rs where u: "ideintr ?s = (case q of [] \<Rightarrow> Inr u | j # _ \<Rightarrow> idestart (Some j) u)"
    and v: "idequeue u = q" "io_trace u = []" "io_in u 0x1f7 = IDE_DRDY # rs" "havedisk1 u"
      "(bufs u, disk u) = served i (bufs s, disk s)"
  proof (cases "b_dirty ?b")
    case True
    show ?thesis
      by (rule that [of "wakeup (Some (ChBuf i)) (buf_upd i (\<lambda>b. b\<lparr>b_valid := True, b_dirty := False\<rparr>) (?s\<lparr>idequeue := q\<rparr>))"])
        (use True q dc b assms(6) in \<open>simp_all add: ideintr_def served_def buf_upd_def wakeup_def wakeup1_def Let_def
          flags_commute split: list.splits\<close>)
  next
    case False
    have "disk s ! unat (b_blockno ?b) \<in> set (disk s)" using b d by simp
    then have "length x = BSIZE" using False dc d by auto
    then show ?thesis
      by (intro that [of "wakeup (Some (ChBuf i)) (buf_upd i (\<lambda>b. b\<lparr>b_data := x, b_valid := True, b_dirty := False\<rparr>)
            (?s\<lparr>idequeue := q, io_in := (io_in ?s)(0x1f7 := [IDE_DRDY], 0x1f0 := [])\<rparr>))"])
        (use False q dc b assms(6) in \<open>simp_all add: ideintr_def served_def buf_upd_def wakeup_def wakeup1_def Let_def
          idewait_ready insl_def flags_commute clean_stays split: list.splits\<close>)
  qed
  have st: "ide_step dr Irq s = ideintr ?s" using tr xe ready by (simp add: drive_step_def)
  show ?thesis
  proof (cases q)
    case Nil
    then show ?thesis using st u v by (simp add: ide_started_def)
  next
    case (Cons j p)
    have "j \<noteq> i" "req_ok s j" using assms(4) ok Cons by auto
    then have "bufs u ! j = bufs s ! j" "unat (b_blockno (bufs u ! j)) < FSSIZE"
      using v(5) served_frame [of i "bufs s" "disk s" "bufs u" "disk u"] by (auto simp: req_ok_def)
    then show ?thesis using st u v Cons idestart_ready [OF v(3), of j] by (simp add: ide_started_def)
  qed
qed

section \<open>Refinement of the memory disk\<close>

definition ide_ready :: "nat list \<Rightarrow> 'z kide_scheme \<Rightarrow> bool" where
  "ide_ready rs s \<longleftrightarrow> idequeue s = [] \<and> io_trace s = [] \<and> havedisk1 s \<and> length (disk s) = FSSIZE
     \<and> (\<forall>x \<in> set (disk s). length x = BSIZE) \<and> distinct rs \<and> (\<forall>i \<in> set rs. req_ok s i)"

definition ide_sim :: "nat list \<Rightarrow> 'z kide_scheme \<Rightarrow> 'z kide_scheme \<Rightarrow> nat list \<Rightarrow> bool" where
  "ide_sim open t u pend \<longleftrightarrow> bufs t = bufs u \<and> disk t = disk u \<and> idequeue t = pend \<and> ide_started t \<and> havedisk1 t
     \<and> length (disk t) = FSSIZE \<and> (\<forall>x \<in> set (disk t). length x = BSIZE) \<and> (\<forall>i \<in> set open. req_ok t i)"

lemma req_ok_bufs: "bufs t ! i = bufs s ! i \<Longrightarrow> length (bufs t) = length (bufs s) \<Longrightarrow> req_ok t i = req_ok s i"
  by (simp add: req_ok_def iderw_waits_def)

lemma ide_sim_irq:
  assumes dr: "drive_ok dr" and sim: "ide_sim ((i # q) @ new) t u (i # q)" and dist: "distinct ((i # q) @ new)"
  obtains t' u' where "ide_step dr Irq t = Inr t'" and "iderw i u = Inr u'" and "ide_sim (q @ new) t' u' q"
proof -
  have ok: "\<forall>j \<in> set (i # q). req_ok t j" and "req_ok t i" using sim by (auto simp: ide_sim_def)
  obtain t' where t': "ide_step dr Irq t = Inr t'" "idequeue t' = q" "ide_started t'"
    "(bufs t', disk t') = served i (bufs t, disk t)" "havedisk1 t'"
    using ide_step_irq [OF dr _ ok] sim dist by (auto simp: ide_sim_def)
  obtain u' where u': "iderw i u = Inr u'" "(bufs u', disk u') = served i (bufs u, disk u)"
    using iderw_served [of t i u] \<open>req_ok t i\<close> sim by (auto simp: ide_sim_def)
  note fr = served_frame [OF t'(4) [symmetric]]
  have "req_ok t' j" if "j \<in> set (q @ new)" for j
  proof -
    have "j \<noteq> i" "req_ok t j" using that dist sim by (auto simp: ide_sim_def)
    then show ?thesis using fr req_ok_bufs [of t' j t] by simp
  qed
  moreover have "\<forall>x \<in> set (disk t'). length x = BSIZE"
    by (rule served_blocks [OF t'(4) [symmetric]]) (use sim \<open>req_ok t i\<close> in \<open>auto simp: ide_sim_def req_ok_def\<close>)
  moreover have "(bufs t', disk t') = (bufs u', disk u')" using t'(4) u'(2) sim by (simp add: ide_sim_def)
  ultimately have "ide_sim (q @ new) t' u' q" using t' fr sim by (auto simp: ide_sim_def)
  then show ?thesis using that t' u' by blast
qed

lemma ide_run_sim:
  assumes "drive_ok dr" and "ide_ready (requests es @ new) s" and "fold ide_spec es ([], []) = (fin, pend)"
  shows "\<exists>t u. foldR (ide_step dr) es s = Inr t \<and> foldR iderw fin s = Inr u \<and> ide_sim (pend @ new) t u pend"
  using assms(2,3)
proof (induction es arbitrary: fin pend new rule: rev_induct)
  case Nil
  then show ?case by (auto simp: ide_ready_def ide_sim_def ide_started_def)
next
  case (snoc e es)
  obtain f p where fp: "fold ide_spec es ([], []) = (f, p)" by fastforce
  note req = ide_spec_requests [OF fp]
  show ?case
  proof (cases e)
    case (Req i)
    have "ide_ready (requests es @ i # new) s" using snoc.prems(1) Req by simp
    from snoc.IH [OF this fp] obtain t u
      where tu: "foldR (ide_step dr) es s = Inr t" "foldR iderw f s = Inr u" "ide_sim (p @ i # new) t u p" by blast
    have "i \<notin> set p" using snoc.prems(1) Req req [symmetric] by (auto simp: ide_ready_def)
    then obtain t' where t': "ide_step dr (Req i) t = Inr t'" "idequeue t' = p @ [i]" "ide_started t'"
      "bufs t' = bufs t" "disk t' = disk t" "havedisk1 t'"
      using ide_step_request [of t i dr] tu(3) by (auto simp: ide_sim_def)
    have "\<forall>j \<in> set (p @ i # new). req_ok t' j" using tu(3) t'(4) req_ok_bufs [of t' _ t] by (simp add: ide_sim_def)
    then have "ide_sim ((p @ [i]) @ new) t' u (p @ [i])" using t' tu(3) by (auto simp: ide_sim_def)
    moreover have "fin = f" "pend = p @ [i]" using snoc.prems(2) Req fp by simp_all
    ultimately show ?thesis using tu(1,2) t'(1) Req by (simp add: foldR_append)
  next
    case Irq
    have "ide_ready (requests es @ new) s" using snoc.prems(1) Irq by simp
    from snoc.IH [OF this fp] obtain t u
      where tu: "foldR (ide_step dr) es s = Inr t" "foldR iderw f s = Inr u" "ide_sim (p @ new) t u p" by blast
    show ?thesis
    proof (cases p)
      case Nil
      then show ?thesis using tu snoc.prems(2) Irq fp
        by (auto simp: foldR_append ide_sim_def ide_started_def drive_step_def ideintr_def)
    next
      case (Cons i q)
      have "distinct (p @ new)" using snoc.prems(1) Irq req [symmetric] by (auto simp: ide_ready_def)
      then obtain t' u' where "ide_step dr Irq t = Inr t'" "iderw i u = Inr u'" "ide_sim (q @ new) t' u' q"
        using ide_sim_irq [OF assms(1), of i q new t u] tu(3) Cons by auto
      moreover have "fin = f @ [i]" "pend = q" using snoc.prems(2) Irq fp Cons by simp_all
      ultimately show ?thesis using tu(1,2) Irq by (simp add: foldR_append)
    qed
  qed
qed

text \<open>C20: on a drive that carries out its commands without an error the interrupt driven driver does what the memory disk does. Whatever the order in which processes hand in
  distinct buffers and the drive interrupts, no request panics or is lost: the requests are finished in the order in which
  they were made, those not finished wait in the queue in that order, and buffers and disk are those that
  \<^verbatim>\<open>memide.c\<close> gives for the finished requests, one after the other.\<close>

theorem ide_refines_memide:
  assumes "drive_ok dr" and "ide_ready (requests es) s"
  shows "\<exists>t u. foldR (ide_step dr) es s = Inr t \<and> foldR iderw (fst (fold ide_spec es ([], []))) s = Inr u
    \<and> bufs t = bufs u \<and> disk t = disk u \<and> idequeue t = snd (fold ide_spec es ([], []))"
proof -
  obtain fin pend where "fold ide_spec es ([], []) = (fin, pend)" by fastforce
  then show ?thesis using ide_run_sim [OF assms(1), of es "[]" s fin pend] assms(2) by (auto simp: ide_sim_def)
qed

definition ata_drive :: drive where
  "ata_drive out d =
     (case out of
        [Outb _ _, Outb _ _, Outb _ s0, Outb _ s1, Outb _ s2, Outb _ h, Outb _ _] \<Rightarrow> (IDE_DRDY, d ! ide_lba s0 s1 s2 h, d)
      | [Outb _ _, Outb _ _, Outb _ s0, Outb _ s1, Outb _ s2, Outb _ h, Outb _ _, Outsl _ x] \<Rightarrow> (IDE_DRDY, [], d[ide_lba s0 s1 s2 h := x])
      | _ \<Rightarrow> (IDE_DRDY OR IDE_ERR, [], d))"

lemma ata_drive_ok: "drive_ok ata_drive"
  by (simp add: drive_ok_def ata_drive_def lba_regs_def)

definition ide_buf :: "bool \<Rightarrow> u32 \<Rightarrow> u8 \<Rightarrow> buf" where
  "ide_buf w b v = \<lparr>b_valid = w, b_dirty = w, b_dev = 1, b_blockno = b, b_lock = \<lparr>sl_locked = True, sl_pid = 1\<rparr>,
     b_refcnt = 1, b_data = replicate BSIZE v\<rparr>"

definition kide_ex :: kide where
  "kide_ex = kbio.extend ((kbio_ex (replicate FSSIZE (replicate BSIZE 7)))\<lparr>bufs := [ide_buf True 3 1, ide_buf False 4 0]\<rparr>)
     (kide.fields [] True [] (\<lambda>_. []))"

lemma kide_ex_simps [simp]:
  "idequeue kide_ex = []" "havedisk1 kide_ex" "io_trace kide_ex = []" "disk kide_ex = replicate FSSIZE (replicate BSIZE 7)"
  "bufs kide_ex = [ide_buf True 3 1, ide_buf False 4 0]"
  by (simp_all add: kide_ex_def kbio_ex_def kmem_ex_def kproc_ex_def conts.defs kproc.defs kmem.defs kbio.defs kide.defs)

lemma kide_ex_ready: "ide_ready [0, 1] kide_ex"
  by (simp add: ide_ready_def req_ok_def iderw_waits_def ide_buf_def FSSIZE_def)

theorem ide_refines_memide_witness:
  "\<exists>t u. foldR (ide_step ata_drive) [Req 0, Req 1, Irq, Irq] kide_ex = Inr t \<and> foldR iderw [0, 1] kide_ex = Inr u
    \<and> bufs t = bufs u \<and> disk t = disk u \<and> idequeue t = []"
proof -
  have "requests [Req 0, Req 1, Irq, Irq] = [0, 1]" by (simp add: requests_def)
  then show ?thesis
    using ide_refines_memide [OF ata_drive_ok, of "[Req 0, Req 1, Irq, Irq]" kide_ex] kide_ex_ready by simp
qed

text \<open>A read that the drive reports as failed leaves the old bytes in the buffer and still marks it valid.\<close>

lemma ide_read_error_unnoticed:
  assumes "idequeue s = [i]" and "i < length (bufs s)" and "\<not> b_dirty (bufs s ! i)"
    and "io_trace s \<noteq> []" and "dr (io_trace s) (disk s) = (IDE_DRDY OR IDE_ERR, x, d)"
  shows "\<exists>t. ide_step dr Irq s = Inr t \<and> \<not> iderw_waits i t \<and> b_data (bufs t ! i) = b_data (bufs s ! i)"
  using assms
  by (simp add: drive_step_def ideintr_def idewait_def IDE_DRDY_def IDE_BSY_def IDE_DF_def IDE_ERR_def buf_upd_def wakeup_def
      wakeup1_def iderw_waits_def Let_def)

end
