(* ===== verification/Mkfs.thy ===== *)
theory Mkfs
  imports Fs Ide
begin

text \<open>
  The program that builds the file system image (\<^verbatim>\<open>mkfs.c\<close>), which runs on the host.

  The image file is the list of its blocks. A failed assertion is \<open>Panic\<close>, an exit with an error message is
  \<open>Fault\<close>. The files to be copied are given by their names and the blocks of bytes that the successive reads of them return;
  \<open>None\<close> is a file that cannot be opened. An inode on the disk is the kernel's record \<open>inode\<close>, of which only
  the stored fields count; the content of a file is the kernel's own \<open>file_content\<close>, so that what is shown here is what the
  kernel's \<open>readi\<close> finds.
\<close>

section \<open>The program\<close>

definition NINODES :: nat where "NINODES = 200"
definition nbitmap :: nat where "nbitmap = FSSIZE div (BSIZE * 8) + 1"
definition ninodeblocks :: nat where "ninodeblocks = NINODES div IPB + 1"
definition nlog :: nat where "nlog = LOGSIZE"

record mkfs =
  img :: "u8 list list"
  msb :: superblock
  freeinode :: u32
  freeblock :: u32

text \<open>\<^verbatim>\<open>xshort\<close> and \<^verbatim>\<open>xint\<close> store the bytes in the order of the target; the host has the same order.\<close>

definition xshort :: "u16 \<Rightarrow> u16" where
  "xshort x = half_at [ucast x, ucast (drop_bit 8 x)] 0"

definition xint :: "u32 \<Rightarrow> u32" where
  "xint x = word_at [ucast x, ucast (drop_bit 8 x), ucast (drop_bit 16 x), ucast (drop_bit 24 x)] 0"

text \<open>The block of the file at the offset \<^verbatim>\<open>sec * BSIZE\<close>. A block that is written behind the end makes the file longer.\<close>

definition sect :: "u32 \<Rightarrow> nat" where
  "sect sec = unat (sec * of_nat BSIZE) div BSIZE"

definition wsect :: "u32 \<Rightarrow> u8 list \<Rightarrow> mkfs \<Rightarrow> mkfs" where
  "wsect sec buf s =
     s\<lparr>img := (if sect sec < length (img s) then (img s)[sect sec := buf]
               else img s @ replicate (sect sec - length (img s)) (replicate BSIZE 0) @ [buf])\<rparr>"

definition rsect :: "u32 \<Rightarrow> mkfs \<Rightarrow> u8 list res" where
  "rsect sec s = (if sect sec < length (img s) then Inr (img s ! sect sec) else Inl (Fault ''read''))"

definition no_inode :: inode where
  "no_inode = \<lparr>i_dev = 0, i_inum = 0, i_ref = 0, i_lock = initsleeplock, i_valid = False, i_type = 0, i_major = 0,
     i_minor = 0, i_nlink = 0, i_size = 0, i_addrs = replicate (NDIRECT + 1) 0\<rparr>"

definition winode :: "u32 \<Rightarrow> inode \<Rightarrow> mkfs \<Rightarrow> mkfs res" where
  "winode inum ip s =
     (let bn = IBLOCK inum (msb s)
      in bnd (rsect bn s) (\<lambda>buf. Inr (wsect bn (splice buf (dip_off inum) (dinode_bytes ip)) s)))"

definition rinode :: "u32 \<Rightarrow> mkfs \<Rightarrow> inode res" where
  "rinode inum s =
     (let bn = IBLOCK inum (msb s)
      in bnd (rsect bn s) (\<lambda>buf. Inr (dinode_load buf (dip_off inum) no_inode)))"

definition mk_ialloc :: "u16 \<Rightarrow> mkfs \<Rightarrow> (u32 \<times> mkfs) res" where
  "mk_ialloc type s =
     (let inum = freeinode s; s = s\<lparr>freeinode := freeinode s + 1\<rparr>;
          din = no_inode\<lparr>i_type := xshort type, i_nlink := xshort 1, i_size := xint 0\<rparr>
      in bnd (winode inum din s) (\<lambda>s. Inr (inum, s)))"

definition mk_balloc :: "nat \<Rightarrow> mkfs \<Rightarrow> mkfs res" where
  "mk_balloc used s =
     (if \<not> used < BSIZE * 8 then Inl (Panic ''assert'')
      else
        let buf = fold (\<lambda>i buf. buf[i div 8 := buf ! (i div 8) OR push_bit (i mod 8) 1]) [0 ..< used] (replicate BSIZE 0)
        in Inr (wsect (sb_bmapstart (msb s)) buf s))"

text \<open>The block that holds block \<open>fbn\<close> of the file, allocated if needed.\<close>

definition iappend_block :: "nat \<Rightarrow> inode \<Rightarrow> mkfs \<Rightarrow> (u32 \<times> inode \<times> mkfs) res" where
  "iappend_block fbn din s =
     (if fbn < NDIRECT
      then
        let (din, s) = (if xint (i_addrs din ! fbn) = 0
                        then (din\<lparr>i_addrs := (i_addrs din)[fbn := xint (freeblock s)]\<rparr>, s\<lparr>freeblock := freeblock s + 1\<rparr>)
                        else (din, s))
        in Inr (xint (i_addrs din ! fbn), din, s)
      else
        let (din, s) = (if xint (i_addrs din ! NDIRECT) = 0
                        then (din\<lparr>i_addrs := (i_addrs din)[NDIRECT := xint (freeblock s)]\<rparr>, s\<lparr>freeblock := freeblock s + 1\<rparr>)
                        else (din, s));
            ind = xint (i_addrs din ! NDIRECT)
        in bnd (rsect ind s) (\<lambda>indirect.
             let (indirect, s) = (if word_at indirect (4 * (fbn - NDIRECT)) = 0
                   then let indirect = splice indirect (4 * (fbn - NDIRECT)) (bytes32 (xint (freeblock s)))
                        in (indirect, wsect ind indirect (s\<lparr>freeblock := freeblock s + 1\<rparr>))
                   else (indirect, s))
             in Inr (xint (word_at indirect (4 * (fbn - NDIRECT))), din, s)))"

function iappend_loop :: "u8 list \<Rightarrow> nat \<Rightarrow> inode \<Rightarrow> mkfs \<Rightarrow> (nat \<times> inode \<times> mkfs) res" where
  "iappend_loop p off din s =
     (if p = [] then Inr (off, din, s)
      else
        let fbn = off div BSIZE
        in if \<not> fbn < MAXFILE then Inl (Panic ''assert'')
           else bnd (iappend_block fbn din s) (\<lambda>(x, din, s).
             let n1 = min (length p) ((fbn + 1) * BSIZE - off)
             in bnd (rsect x s) (\<lambda>buf.
                  iappend_loop (drop n1 p) (off + n1) din (wsect x (splice buf (off - fbn * BSIZE) (take n1 p)) s))))"
  by pat_completeness auto
termination
proof (relation "measure (\<lambda>(p, _). length p)", goal_cases)
  case (2 p off din s)
  have "off < (off div BSIZE + 1) * BSIZE" using dividend_less_div_times [of BSIZE off] by (simp add: BSIZE_def)
  with 2 show ?case by (cases p) auto
qed simp

declare iappend_loop.simps [simp del]

definition iappend :: "u32 \<Rightarrow> u8 list \<Rightarrow> mkfs \<Rightarrow> mkfs res" where
  "iappend inum p s =
     bnd (rinode inum s) (\<lambda>din.
     bnd (iappend_loop p (unat (xint (i_size din))) din s) (\<lambda>(off, din, s).
     winode inum (din\<lparr>i_size := xint (of_nat off)\<rparr>) s))"

text \<open>A directory entry; \<^verbatim>\<open>strncpy\<close> cuts the name off or fills it up.\<close>

definition mk_dirent :: "u32 \<Rightarrow> string \<Rightarrow> u8 list" where
  "mk_dirent inum name =
     bytes16 (xshort (ucast inum)) @ str_bytes (take DIRSIZ (cstr name @ replicate DIRSIZ NUL))"

fun mkfs_files :: "u32 \<Rightarrow> (string \<times> u8 list list option) list \<Rightarrow> mkfs \<Rightarrow> mkfs res" where
  "mkfs_files rootino [] s = Inr s"
| "mkfs_files rootino ((name, content) # fs) s =
     (if SLASH \<in> set (cstr name) then Inl (Panic ''assert'')
      else case content of
        None \<Rightarrow> Inl (Fault name)
      | Some reads \<Rightarrow>
          let name = (if deref name = CHR ''_'' then tl name else name)
          in bnd (mk_ialloc T_FILE s) (\<lambda>(inum, s).
             bnd (iappend rootino (mk_dirent inum name) s) (\<lambda>s.
             bnd (foldR (iappend inum) reads s) (\<lambda>s.
             mkfs_files rootino fs s))))"

definition mkfs_sb :: superblock where
  "mkfs_sb =
     \<lparr>sb_size = xint (of_nat FSSIZE), sb_nblocks = xint (of_nat (FSSIZE - (2 + nlog + ninodeblocks + nbitmap))),
      sb_ninodes = xint (of_nat NINODES), sb_nlog = xint (of_nat nlog), sb_logstart = xint 2,
      sb_inodestart = xint (of_nat (2 + nlog)), sb_bmapstart = xint (of_nat (2 + nlog + ninodeblocks)),
      sb_size_bytes = 0, sb_size_avail = 0, sb_size_used = 0\<rparr>"

definition sb_bytes :: "superblock \<Rightarrow> u8 list" where
  "sb_bytes sb = concat (map bytes32 [sb_size sb, sb_nblocks sb, sb_ninodes sb, sb_nlog sb, sb_logstart sb,
     sb_inodestart sb, sb_bmapstart sb, sb_size_bytes sb, sb_size_avail sb, sb_size_used sb])"

definition mkfs_start :: mkfs where
  "mkfs_start = \<lparr>img = [], msb = mkfs_sb, freeinode = 1, freeblock = of_nat (2 + nlog + ninodeblocks + nbitmap)\<rparr>"

definition mkfs_main :: "(string \<times> u8 list list option) list \<Rightarrow> mkfs res" where
  "mkfs_main files =
     (let s = fold (\<lambda>i. wsect (of_nat i) (replicate BSIZE 0)) [0 ..< FSSIZE] mkfs_start;
          s = wsect 1 (splice (replicate BSIZE 0) 0 (sb_bytes (msb s))) s
      in bnd (mk_ialloc T_DIR s) (\<lambda>(rootino, s).
         if rootino \<noteq> ROOTINO then Inl (Panic ''assert'')
         else bnd (iappend rootino (mk_dirent rootino ''.'') s) (\<lambda>s.
              bnd (iappend rootino (mk_dirent rootino ''..'') s) (\<lambda>s.
              bnd (mkfs_files rootino files s) (\<lambda>s.
              bnd (rinode rootino s) (\<lambda>din.
              let off = xint (i_size din);
                  off = (off div of_nat BSIZE + 1) * of_nat BSIZE
              in bnd (winode rootino (din\<lparr>i_size := xint off\<rparr>) s) (\<lambda>s.
                 mk_balloc (unat (freeblock s)) s)))))))"

section \<open>Numbers and blocks\<close>

lemma xint_id [simp]: "xint x = x"
  by (simp add: xint_def word_at_def byte_at_def join32_bytes [unfolded bytes32_def])

lemma xshort_id [simp]: "xshort x = x"
  by (simp add: xshort_def half_at_def byte_at_def join16_bytes [unfolded bytes16_def])

definition nmeta :: nat where
  "nmeta = 2 + nlog + ninodeblocks + nbitmap"

definition iview :: "mkfs \<Rightarrow> u32 \<Rightarrow> u8 list" where
  "iview s b = img s ! unat b"

text \<open>The image while files are added: every block is there, and those from \<open>freeblock\<close> on were never written.\<close>

definition mk_inv :: "mkfs \<Rightarrow> bool" where
  "mk_inv s \<longleftrightarrow> msb s = mkfs_sb \<and> length (img s) = FSSIZE \<and> (\<forall>x \<in> set (img s). length x = BSIZE)
     \<and> nmeta \<le> unat (freeblock s) \<and> unat (freeblock s) \<le> FSSIZE
     \<and> (\<forall>b. unat (freeblock s) \<le> b \<and> b < FSSIZE \<longrightarrow> img s ! b = replicate BSIZE 0)"

abbreviation ind_block :: "inode \<Rightarrow> u32" where
  "ind_block din \<equiv> i_addrs din ! NDIRECT"

text \<open>The file of an inode has its first \<open>n\<close> blocks, each of its own; the addresses behind them are 0.\<close>

definition mk_file :: "mkfs \<Rightarrow> inode \<Rightarrow> nat \<Rightarrow> bool" where
  "mk_file s din n \<longleftrightarrow> length (i_addrs din) = NDIRECT + 1 \<and> n \<le> MAXFILE
     \<and> (\<forall>k < n. nmeta \<le> unat (file_block (iview s) din k) \<and> unat (file_block (iview s) din k) < unat (freeblock s)
          \<and> file_block (iview s) din k \<noteq> ind_block din)
     \<and> inj_on (file_block (iview s) din) {..< n}
     \<and> (\<forall>k. n \<le> k \<and> k < NDIRECT \<longrightarrow> i_addrs din ! k = 0)
     \<and> (if ind_block din = 0 then n \<le> NDIRECT
        else nmeta \<le> unat (ind_block din) \<and> unat (ind_block din) < unat (freeblock s)
          \<and> (\<forall>k. n \<le> k \<and> NDIRECT \<le> k \<and> k < MAXFILE \<longrightarrow> file_block (iview s) din k = 0))"

lemma nmeta_val: "nmeta = 63"
  by (simp add: nmeta_def nlog_def LOGSIZE_def MAXOPBLOCKS_def ninodeblocks_def NINODES_def IPB_def nbitmap_def FSSIZE_def BSIZE_def)

lemma sect_id: "unat b < FSSIZE \<Longrightarrow> sect b = unat b"
  by (simp add: sect_def FSSIZE_def BSIZE_def unat_word_ariths)

lemma rsect_ok: "mk_inv s \<Longrightarrow> unat b < FSSIZE \<Longrightarrow> rsect b s = Inr (iview s b)"
  by (simp add: rsect_def sect_id mk_inv_def iview_def)

lemma wsect_img: "mk_inv s \<Longrightarrow> unat b < FSSIZE \<Longrightarrow> wsect b buf s = s\<lparr>img := (img s)[unat b := buf]\<rparr>"
  by (simp add: wsect_def sect_id mk_inv_def)

lemma iview_length: "mk_inv s \<Longrightarrow> unat b < FSSIZE \<Longrightarrow> length (iview s b) = BSIZE"
  by (simp add: mk_inv_def iview_def)

lemma wsect_inv:
  assumes "mk_inv s" and "unat b < unat (freeblock s)" and "length buf = BSIZE"
  shows "mk_inv (wsect b buf s)"
proof -
  have b: "unat b < FSSIZE" using assms by (simp add: mk_inv_def)
  have "\<forall>x \<in> set ((img s)[unat b := buf]). length x = BSIZE"
    using assms(1,3) set_update_subset_insert [of "img s" "unat b" buf] by (auto simp: mk_inv_def)
  then show ?thesis using assms by (auto simp: wsect_img [OF assms(1) b] mk_inv_def)
qed

lemma iview_wsect:
  "mk_inv s \<Longrightarrow> unat b < FSSIZE \<Longrightarrow> iview (wsect b buf s) c = (if c = b then buf else iview s c)"
  using word_unat_eq_iff [of c b] by (auto simp: wsect_img iview_def mk_inv_def nth_list_update)

lemma wsect_simps [simp]:
  "freeblock (wsect b buf s) = freeblock s" "freeinode (wsect b buf s) = freeinode s" "msb (wsect b buf s) = msb s"
  by (simp_all add: wsect_def)

text \<open>Taking the next free block.\<close>

lemma take_free:
  assumes "mk_inv s" and "unat (freeblock s) < FSSIZE"
  shows "mk_inv (s\<lparr>freeblock := freeblock s + 1\<rparr>)" and "unat (freeblock s + 1) = unat (freeblock s) + 1"
    and "iview s (freeblock s) = replicate BSIZE 0"
proof -
  show u: "unat (freeblock s + 1) = unat (freeblock s) + 1" using assms(2) by (simp add: FSSIZE_def unat_word_ariths)
  show "mk_inv (s\<lparr>freeblock := freeblock s + 1\<rparr>)" using assms u by (simp add: mk_inv_def)
  show "iview s (freeblock s) = replicate BSIZE 0" using assms by (simp add: mk_inv_def iview_def)
qed

lemma word_at_zeros: "word_at (replicate n 0) k = 0"
  by (simp add: word_at_def byte_at_def join32_def)

section \<open>Finding and allocating a block\<close>

text \<open>What stays when a file grows: its old blocks, and every other block that was allocated before.\<close>

definition grows :: "mkfs \<Rightarrow> inode \<Rightarrow> nat \<Rightarrow> mkfs \<Rightarrow> inode \<Rightarrow> bool" where
  "grows s din n s' din' \<longleftrightarrow> (\<forall>k < n. file_block (iview s') din' k = file_block (iview s) din k)
     \<and> (\<forall>b. unat b < unat (freeblock s) \<and> b \<noteq> ind_block din \<longrightarrow> iview s' b = iview s b)
     \<and> unat (freeblock s) \<le> unat (freeblock s') \<and> freeinode s' = freeinode s
     \<and> (ind_block din \<noteq> 0 \<longrightarrow> ind_block din' = ind_block din)
     \<and> (ind_block din = 0 \<longrightarrow> ind_block din' = 0 \<or> unat (freeblock s) \<le> unat (ind_block din'))
     \<and> (\<exists>a. din' = din\<lparr>i_addrs := a\<rparr>)"

lemma grows_refl: "grows s din n s din"
  by (auto simp: grows_def intro: exI [of _ "i_addrs din"])

lemma file_block_nz: "mk_file s din n \<Longrightarrow> k < n \<Longrightarrow> file_block (iview s) din k \<noteq> 0"
  by (auto simp: mk_file_def nmeta_val)

lemma alloc_direct:
  assumes inv: "mk_inv s" and f: "mk_file s din n" and n: "n < NDIRECT" and room: "unat (freeblock s) < FSSIZE"
  defines "din' \<equiv> din\<lparr>i_addrs := (i_addrs din)[n := freeblock s]\<rparr>" and "s' \<equiv> s\<lparr>freeblock := freeblock s + 1\<rparr>"
  shows "mk_file s' din' (Suc n)" and "grows s din n s' din'" and "file_block (iview s') din' n = freeblock s"
proof -
  note u = take_free(2) [OF inv room]
  have l: "length (i_addrs din) = NDIRECT + 1" using f by (simp add: mk_file_def)
  have ind: "ind_block din' = ind_block din" using n by (simp add: din'_def)
  have v: "iview s' = iview s" by (simp add: s'_def iview_def fun_eq_iff)
  have b: "file_block (iview s') din' k = (if k = n then freeblock s else file_block (iview s) din k)" for k
    using n l v by (simp add: file_block_def din'_def)
  then show "file_block (iview s') din' n = freeblock s" by simp
  have lt: "unat (file_block (iview s) din k) < unat (freeblock s)" if "k < n" for k using f that by (simp add: mk_file_def)
  have ni: "ind_block din \<noteq> freeblock s"
    using f inv by (auto simp: mk_file_def mk_inv_def nmeta_val split: if_splits)
  have "inj_on (file_block (iview s') din') {..< Suc n}"
    using f lt by (fastforce simp: mk_file_def inj_on_def b less_Suc_eq)
  then show "mk_file s' din' (Suc n)"
    using f inv n l u ni lt unfolding mk_file_def b ind
    by (auto simp: s'_def din'_def mk_inv_def MAXFILE_def less_Suc_eq split: if_splits)
  show "grows s din n s' din'" using b v u n by (auto simp: grows_def ind s'_def) (auto simp: din'_def)
qed

lemma alloc_ind:
  assumes inv: "mk_inv s" and f: "mk_file s din n" and n: "NDIRECT \<le> n" and z: "ind_block din = 0" and room: "unat (freeblock s) < FSSIZE"
  defines "din' \<equiv> din\<lparr>i_addrs := (i_addrs din)[NDIRECT := freeblock s]\<rparr>" and "s' \<equiv> s\<lparr>freeblock := freeblock s + 1\<rparr>"
  shows "mk_file s' din' n" and "grows s din n s' din'" and "ind_block din' = freeblock s" and "ind_block din' \<noteq> 0"
proof -
  note u = take_free(2) [OF inv room]
  have l: "length (i_addrs din) = NDIRECT + 1" and n': "n = NDIRECT" using f n z by (auto simp: mk_file_def)
  show ind: "ind_block din' = freeblock s" using l by (simp add: din'_def)
  show nz: "ind_block din' \<noteq> 0" using ind inv by (auto simp: mk_inv_def nmeta_val)
  have v: "iview s' = iview s" by (simp add: s'_def iview_def fun_eq_iff)
  have b: "file_block (iview s') din' k = (if k < NDIRECT then file_block (iview s) din k else 0)" for k
    using v ind take_free(3) [OF inv room] by (simp add: file_block_def word_at_zeros) (simp add: din'_def)
  have lt: "unat (file_block (iview s) din k) < unat (freeblock s)" if "k < n" for k using f that by (simp add: mk_file_def)
  then have ne: "file_block (iview s) din k \<noteq> freeblock s" if "k < n" for k using that by fastforce
  have "inj_on (file_block (iview s') din') {..< n}" using f n' by (auto simp: mk_file_def inj_on_def b)
  then show "mk_file s' din' n"
    using f inv n' l u nz ne lt unfolding mk_file_def ind b
    by (auto simp: s'_def din'_def mk_inv_def less_Suc_eq)
  show "grows s din n s' din'" using b v u n' z ind by (auto simp: grows_def s'_def) (auto simp: din'_def)
qed

lemma alloc_word:
  assumes inv: "mk_inv s" and f: "mk_file s din n" and n: "NDIRECT \<le> n" "n < MAXFILE" and nz: "ind_block din \<noteq> 0"
    and room: "unat (freeblock s) < FSSIZE"
  defines "j \<equiv> 4 * (n - NDIRECT)"
  defines "buf \<equiv> splice (iview s (ind_block din)) j (bytes32 (freeblock s))"
  defines "s' \<equiv> wsect (ind_block din) buf (s\<lparr>freeblock := freeblock s + 1\<rparr>)"
  shows "mk_inv s'" and "mk_file s' din (Suc n)" and "grows s din n s' din" and "word_at buf j = freeblock s"
    and "file_block (iview s') din n = freeblock s"
proof -
  note u = take_free [OF inv room]
  have ind: "unat (ind_block din) < unat (freeblock s)" "unat (ind_block din) < FSSIZE"
    using f nz room by (auto simp: mk_file_def)
  have lb: "length (iview s (ind_block din)) = BSIZE" by (rule iview_length [OF inv ind(2)])
  have j: "j + 4 \<le> BSIZE" using n by (simp add: j_def MAXFILE_def NINDIRECT_def BSIZE_def)
  then show w: "word_at buf j = freeblock s" using lb by (simp add: buf_def word_at_splice)
  have lbuf: "length buf = BSIZE" using j lb by (simp add: buf_def)
  then show "mk_inv s'" unfolding s'_def by (intro wsect_inv) (use u ind in simp_all)
  have v: "iview s' c = (if c = ind_block din then buf else iview s c)" for c
    using iview_wsect [OF u(1) ind(2)] by (simp add: s'_def iview_def)
  have b: "file_block (iview s') din k = (if k = n then freeblock s else file_block (iview s) din k)" for k
  proof -
    have "word_at buf (4 * (k - NDIRECT)) = word_at (iview s (ind_block din)) (4 * (k - NDIRECT))" if "k \<noteq> n" "NDIRECT \<le> k"
      unfolding buf_def by (rule word_at_splice_other) (use that n lb j in \<open>auto simp: j_def\<close>)
    then show ?thesis using w n by (auto simp: file_block_def v j_def)
  qed
  then show "file_block (iview s') din n = freeblock s" by simp
  have lt: "unat (file_block (iview s) din k) < unat (freeblock s)" if "k < n" for k using f that by (simp add: mk_file_def)
  have "inj_on (file_block (iview s') din) {..< Suc n}"
    using f lt by (fastforce simp: mk_file_def inj_on_def b less_Suc_eq)
  moreover have "freeblock s \<noteq> ind_block din" using ind by auto
  moreover have "unat (freeblock s') = unat (freeblock s) + 1" using u(2) by (simp add: s'_def)
  ultimately show "mk_file s' din (Suc n)"
    using f inv n nz lt unfolding mk_file_def b by (auto simp: mk_inv_def less_Suc_eq split: if_splits)
  show "grows s din n s' din" using b v u(2) nz unfolding grows_def
    by (auto simp: s'_def intro: exI [of _ "i_addrs din"])
qed

lemma grows_trans:
  assumes "grows s din n s1 din1" and "grows s1 din1 n s2 din2" and "ind_block din1 \<noteq> 0"
  shows "grows s din n s2 din2"
proof -
  note g1 = assms(1) [unfolded grows_def] and g2 = assms(2) [unfolded grows_def]
  have i: "ind_block din2 = ind_block din1" using g2 assms(3) by blast
  have i1: "ind_block din1 = ind_block din \<or> unat (freeblock s) \<le> unat (ind_block din1)" using g1 assms(3) by metis
  have fr: "iview s2 b = iview s b" if "unat b < unat (freeblock s)" "b \<noteq> ind_block din" for b
  proof -
    have "b \<noteq> ind_block din1" "unat b < unat (freeblock s1)" using i1 that g1 by auto
    then show ?thesis using g1 g2 that by metis
  qed
  obtain a1 a where "din1 = din\<lparr>i_addrs := a1\<rparr>" "din2 = din1\<lparr>i_addrs := a\<rparr>" using g1 g2 by blast
  then have a: "din2 = din\<lparr>i_addrs := a\<rparr>" by simp
  have bl: "\<forall>k < n. file_block (iview s2) din2 k = file_block (iview s) din k" using g1 g2 by metis
  have fb: "unat (freeblock s) \<le> unat (freeblock s2)" "freeinode s2 = freeinode s" using g1 g2 by (metis le_trans, metis)
  have "ind_block din = 0 \<longrightarrow> ind_block din2 = 0 \<or> unat (freeblock s) \<le> unat (ind_block din2)" using i i1 assms(3) by metis
  moreover have "ind_block din \<noteq> 0 \<longrightarrow> ind_block din2 = ind_block din" using i g1 by metis
  ultimately show ?thesis unfolding grows_def using fr bl fb a by blast
qed

lemma iappend_block_word:
  assumes inv: "mk_inv s" and f: "mk_file s din n" and n: "NDIRECT \<le> n" "n < MAXFILE" and nz: "ind_block din \<noteq> 0"
    and free: "unat (freeblock s) < FSSIZE"
  shows "\<exists>s'. iappend_block n din s = Inr (file_block (iview s') din n, din, s')
    \<and> mk_inv s' \<and> mk_file s' din (Suc n) \<and> grows s din n s' din \<and> unat (freeblock s') = unat (freeblock s) + 1
    \<and> file_block (iview s') din n = freeblock s"
proof -
  let ?b = "splice (iview s (ind_block din)) (4 * (n - NDIRECT)) (bytes32 (freeblock s))"
  let ?s = "wsect (ind_block din) ?b (s\<lparr>freeblock := freeblock s + 1\<rparr>)"
  note a = alloc_word [OF inv f n nz free]
  have "file_block (iview s) din n = 0" "unat (ind_block din) < FSSIZE" using f n nz free by (auto simp: mk_file_def)
  then have "iappend_block n din s = Inr (freeblock s, din, ?s)"
    using n nz a(4) rsect_ok [OF inv] by (simp add: iappend_block_def file_block_def Let_def)
  then show ?thesis using a take_free(2) [OF inv free] by (intro exI [of _ ?s]) simp
qed

text \<open>The room that a file needs to grow by \<open>m\<close> blocks, with the indirect block.\<close>

definition room :: "mkfs \<Rightarrow> inode \<Rightarrow> nat \<Rightarrow> bool" where
  "room s din m \<longleftrightarrow> unat (freeblock s) + m + (if ind_block din = 0 then 1 else 0) \<le> FSSIZE"

lemma iappend_block_got:
  assumes inv: "mk_inv s" and f: "mk_file s din n" and fbn: "fbn = n \<or> Suc fbn = n" "fbn < MAXFILE"
    and r: "room s din (m + Suc fbn - n)"
  shows "\<exists>din' s'. iappend_block fbn din s = Inr (file_block (iview s') din' fbn, din', s')
    \<and> mk_inv s' \<and> mk_file s' din' (Suc fbn) \<and> grows s din n s' din' \<and> room s' din' m
    \<and> (fbn = n \<longrightarrow> unat (freeblock s) \<le> unat (file_block (iview s') din' fbn))"
proof (cases "fbn < n")
  case True
  then have n: "Suc fbn = n" using fbn(1) by auto
  have nz: "file_block (iview s) din fbn \<noteq> 0" by (rule file_block_nz [OF f True])
  have "iappend_block fbn din s = Inr (file_block (iview s) din fbn, din, s)"
  proof (cases "fbn < NDIRECT")
    case True
    then show ?thesis using nz by (simp add: iappend_block_def file_block_def)
  next
    case False
    then have "ind_block din \<noteq> 0" "unat (ind_block din) < FSSIZE"
      using f n inv by (auto simp: mk_file_def mk_inv_def split: if_splits)
    then show ?thesis using nz False rsect_ok [OF inv] by (simp add: iappend_block_def file_block_def Let_def)
  qed
  then show ?thesis using n inv f r grows_refl by (intro exI [of _ din] exI [of _ s]) auto
next
  case False
  then have n: "fbn = n" using fbn(1) by auto
  have free: "unat (freeblock s) < FSSIZE" using r n by (simp add: room_def)
  show ?thesis
  proof (cases "n < NDIRECT")
    case True
    let ?din = "din\<lparr>i_addrs := (i_addrs din)[n := freeblock s]\<rparr>" and ?s = "s\<lparr>freeblock := freeblock s + 1\<rparr>"
    note a = alloc_direct [OF inv f True free]
    have "i_addrs din ! n = 0" "length (i_addrs din) = NDIRECT + 1" using f True by (auto simp: mk_file_def)
    then have "iappend_block fbn din s = Inr (file_block (iview ?s) ?din fbn, ?din, ?s)"
      using True n a(3) by (simp add: iappend_block_def)
    moreover have "room ?s ?din m" using r n True take_free(2) [OF inv free] by (simp add: room_def)
    moreover have "unat (freeblock s) \<le> unat (file_block (iview ?s) ?din fbn)" using a(3) n by simp
    ultimately show ?thesis using a(1,2) take_free(1) [OF inv free] n by blast
  next
    case F: False
    then have ge: "NDIRECT \<le> n" by simp
    show ?thesis
    proof (cases "ind_block din = 0")
      case False
      then show ?thesis using iappend_block_word [OF inv f ge _ False free] fbn(2) n r by (auto simp: room_def)
    next
      case True
      let ?din = "din\<lparr>i_addrs := (i_addrs din)[NDIRECT := freeblock s]\<rparr>" and ?s = "s\<lparr>freeblock := freeblock s + 1\<rparr>"
      note a = alloc_ind [OF inv f ge True free] and t = take_free(1,2) [OF inv free]
      have e: "iappend_block n din s = iappend_block n ?din ?s" using F True a(4) by (simp add: iappend_block_def)
      have "unat (freeblock ?s) < FSSIZE" using r n True t(2) by (simp add: room_def)
      then obtain s' where s': "iappend_block n ?din ?s = Inr (file_block (iview s') ?din n, ?din, s')" "mk_inv s'"
        "mk_file s' ?din (Suc n)" "grows ?s ?din n s' ?din" "unat (freeblock s') = unat (freeblock ?s) + 1"
        "file_block (iview s') ?din n = freeblock ?s"
        using iappend_block_word [OF t(1) a(1) ge _ a(4)] fbn(2) n by auto
      have "room s' ?din m" using r n True t(2) s'(5) a(4) by (simp add: room_def)
      moreover have "unat (freeblock s) \<le> unat (file_block (iview s') ?din n)" using s'(6) t(2) by simp
      ultimately show ?thesis using e s' grows_trans [OF a(2) s'(4) a(4)] n by auto
    qed
  qed
qed

section \<open>Appending\<close>

lemma write_chunk:
  assumes inv: "mk_inv s" and f: "mk_file s din n" and k: "fbn < n" and c: "r + length c \<le> BSIZE"
  defines "x \<equiv> file_block (iview s) din fbn"
  defines "s' \<equiv> wsect x (splice (iview s x) r c) s"
  shows "rsect x s = Inr (iview s x)" and "mk_inv s'" and "mk_file s' din n"
    and "b \<noteq> x \<Longrightarrow> iview s' b = iview s b" and "j < n \<Longrightarrow> file_block (iview s') din j = file_block (iview s) din j"
    and "y < n * BSIZE \<Longrightarrow> file_byte (iview s') din y =
      (if fbn * BSIZE + r \<le> y \<and> y < fbn * BSIZE + r + length c then c ! (y - (fbn * BSIZE + r)) else file_byte (iview s) din y)"
proof -
  have x: "unat x < unat (freeblock s)" "x \<noteq> ind_block din" using f k by (auto simp: mk_file_def x_def)
  then have xF: "unat x < FSSIZE" using inv by (simp add: mk_inv_def)
  have lx: "length (iview s x) = BSIZE" by (rule iview_length [OF inv xF])
  show "rsect x s = Inr (iview s x)" by (rule rsect_ok [OF inv xF])
  show "mk_inv s'" unfolding s'_def by (rule wsect_inv [OF inv x(1)]) (use lx c in simp)
  have v: "iview s' b = (if b = x then splice (iview s x) r c else iview s b)" for b
    unfolding s'_def by (rule iview_wsect [OF inv xF])
  then show "b \<noteq> x \<Longrightarrow> iview s' b = iview s b" by simp
  have fb: "file_block (iview s') din j = file_block (iview s) din j" for j
    using x(2) by (simp add: file_block_def v)
  then show "j < n \<Longrightarrow> file_block (iview s') din j = file_block (iview s) din j" by simp
  have "freeblock s' = freeblock s" by (simp add: s'_def)
  then show "mk_file s' din n" using f unfolding mk_file_def inj_on_def fb by simp
  assume y: "y < n * BSIZE"
  have div: "y div BSIZE < n" using y by (simp add: less_mult_imp_div_less)
  have e: "file_block (iview s) din (y div BSIZE) = x \<longleftrightarrow> y div BSIZE = fbn"
    using f k div unfolding x_def mk_file_def inj_on_def by blast
  have d: "y = BSIZE * (y div BSIZE) + y mod BSIZE" by simp
  have m: "y mod BSIZE < BSIZE" by (simp add: BSIZE_def)
  show "file_byte (iview s') din y =
      (if fbn * BSIZE + r \<le> y \<and> y < fbn * BSIZE + r + length c then c ! (y - (fbn * BSIZE + r)) else file_byte (iview s) din y)"
  proof (cases "y div BSIZE = fbn")
    case True
    then have "y = fbn * BSIZE + y mod BSIZE" using d by (simp add: mult.commute)
    then have "fbn * BSIZE + r \<le> y \<longleftrightarrow> r \<le> y mod BSIZE" "y < fbn * BSIZE + r + length c \<longleftrightarrow> y mod BSIZE < r + length c"
      "y - (fbn * BSIZE + r) = y mod BSIZE - r" by linarith+
    then show ?thesis using True e lx c by (simp add: file_byte_def fb v splice_nth)
  next
    case False
    have "\<not> (fbn * BSIZE + r \<le> y \<and> y < fbn * BSIZE + r + length c)"
    proof
      assume h: "fbn * BSIZE + r \<le> y \<and> y < fbn * BSIZE + r + length c"
      then have "fbn * BSIZE \<le> y" "y < Suc fbn * BSIZE" using c by simp_all
      then have "y div BSIZE = fbn" by (simp add: div_nat_eqI mult.commute)
      with False show False by simp
    qed
    then show ?thesis using False e by (auto simp: file_byte_def fb v)
  qed
qed

definition nblocks_of :: "nat \<Rightarrow> nat" where
  "nblocks_of off = (off + BSIZE - 1) div BSIZE"

lemma nblocks_of_rem: "nblocks_of off = off div BSIZE + (if off mod BSIZE = 0 then 0 else 1)"
proof -
  have "off + BSIZE - 1 = (off mod BSIZE + (BSIZE - 1)) + off div BSIZE * BSIZE"
    using div_mult_mod_eq [of off BSIZE] by (simp add: BSIZE_def)
  moreover have "BSIZE \<noteq> 0" by (simp add: BSIZE_def)
  ultimately have "nblocks_of off = off div BSIZE + (off mod BSIZE + (BSIZE - 1)) div BSIZE"
    unfolding nblocks_of_def by (simp only: div_mult_self1 not_False_eq_True)
  moreover have "off mod BSIZE < BSIZE" by (simp add: BSIZE_def)
  then have "(off mod BSIZE + (BSIZE - 1)) div BSIZE = (if off mod BSIZE = 0 then 0 else 1)"
    by (auto simp: BSIZE_def intro!: div_nat_eqI)
  ultimately show ?thesis by simp
qed

lemma nblocks_of_cover: "off \<le> nblocks_of off * BSIZE"
proof -
  have "off = off div BSIZE * BSIZE + off mod BSIZE" by simp
  moreover have "off mod BSIZE < BSIZE" by (simp add: BSIZE_def)
  ultimately have "off \<le> off div BSIZE * BSIZE + BSIZE" "off mod BSIZE = 0 \<Longrightarrow> off \<le> off div BSIZE * BSIZE" by linarith+
  then show ?thesis unfolding nblocks_of_rem by (cases "off mod BSIZE = 0") (simp_all only: simp_thms if_True if_False mult_0 add_0_right add_mult_distrib mult_1)
qed

lemma nblocks_of_same:
  assumes "0 < n" and "off + n \<le> (off div BSIZE + 1) * BSIZE"
  shows "nblocks_of (off + n) = Suc (off div BSIZE)"
  unfolding nblocks_of_def
proof (rule div_nat_eqI)
  have "BSIZE * (off div BSIZE) \<le> off" by simp
  then show "BSIZE * Suc (off div BSIZE) \<le> off + n + BSIZE - 1" using assms(1) unfolding mult_Suc_right by linarith
  show "off + n + BSIZE - 1 < BSIZE * Suc (Suc (off div BSIZE))" using assms by (simp add: mult.commute BSIZE_def)
qed

lemma nblocks_of_mono: "off \<le> off' \<Longrightarrow> nblocks_of off \<le> nblocks_of off'"
  unfolding nblocks_of_def by (intro div_le_mono) simp

definition own :: "mkfs \<Rightarrow> inode \<Rightarrow> nat \<Rightarrow> u32 set" where
  "own s din n = insert (ind_block din) (file_block (iview s) din ` {..< n})"

definition appended :: "mkfs \<Rightarrow> inode \<Rightarrow> nat \<Rightarrow> u8 list \<Rightarrow> mkfs \<Rightarrow> inode \<Rightarrow> bool" where
  "appended s din off p s' din' \<longleftrightarrow> mk_inv s' \<and> mk_file s' din' (nblocks_of (off + length p))
     \<and> (\<forall>y < off. file_byte (iview s') din' y = file_byte (iview s) din y)
     \<and> (\<forall>y < length p. file_byte (iview s') din' (off + y) = p ! y)
     \<and> (\<forall>b. unat b < unat (freeblock s) \<and> b \<notin> own s din (nblocks_of off) \<longrightarrow> iview s' b = iview s b)
     \<and> unat (freeblock s) \<le> unat (freeblock s') \<and> freeinode s' = freeinode s \<and> (\<exists>a. din' = din\<lparr>i_addrs := a\<rparr>)"

text \<open>One turn of the loop.\<close>

lemma iappend_turn:
  assumes inv: "mk_inv s" and f: "mk_file s din (nblocks_of off)" and p: "p \<noteq> []" and mx: "off div BSIZE < MAXFILE"
    and r: "room s din (m + Suc (off div BSIZE) - nblocks_of off)"
  defines "n1 \<equiv> min (length p) ((off div BSIZE + 1) * BSIZE - off)"
  obtains din' s' where "iappend_loop p off din s = iappend_loop (drop n1 p) (off + n1) din' s'"
    and "appended s din off (take n1 p) s' din'" and "room s' din' m"
    and "\<And>b. unat b < unat (freeblock s) \<Longrightarrow> b \<notin> own s din (nblocks_of off) \<Longrightarrow> b \<notin> own s' din' (nblocks_of (off + n1))"
    and "0 < n1" and "nblocks_of (off + n1) = Suc (off div BSIZE)"
proof -
  let ?n = "nblocks_of off" and ?f = "off div BSIZE"
  have off: "?f * BSIZE \<le> off" "off < (?f + 1) * BSIZE"
    using dividend_less_div_times [of BSIZE off] by (simp_all add: BSIZE_def)
  then have n1: "0 < n1" "off + n1 \<le> (?f + 1) * BSIZE" "n1 \<le> length p" using p by (auto simp: n1_def)
  note bo = nblocks_of_same [OF n1(1,2)]
  have cn: "?f = ?n \<or> Suc ?f = ?n" by (auto simp: nblocks_of_rem)
  obtain din' s1 where g: "iappend_block ?f din s = Inr (file_block (iview s1) din' ?f, din', s1)" "mk_inv s1"
    "mk_file s1 din' (Suc ?f)" "grows s din ?n s1 din'" "room s1 din' m"
    "?f = ?n \<longrightarrow> unat (freeblock s) \<le> unat (file_block (iview s1) din' ?f)"
    using iappend_block_got [OF inv f cn mx r] by blast
  let ?x = "file_block (iview s1) din' ?f" and ?r = "off - ?f * BSIZE" and ?c = "take n1 p"
  have c: "?r + length ?c \<le> BSIZE" using off n1 by simp
  let ?s' = "wsect ?x (splice (iview s1 ?x) ?r ?c) s1"
  note w = write_chunk [OF g(2,3) lessI c]
  note gr = g(4) [unfolded grows_def]
  have loop: "iappend_loop p off din s = iappend_loop (drop n1 p) (off + n1) din' ?s'"
    using p mx g(1) w(1) by (simp add: iappend_loop.simps [of p] Let_def n1_def [symmetric, simplified])
  have mine: "b \<notin> insert ?x (own s1 din' (Suc ?f))" if b: "unat b < unat (freeblock s)" "b \<notin> own s din ?n" for b
  proof -
    have old: "b \<noteq> ind_block din" "\<forall>k < ?n. b \<noteq> file_block (iview s1) din' k" using b(2) gr by (auto simp: own_def)
    have "b \<noteq> ind_block din'" using gr old(1) b(1) by (metis not_le)
    moreover have "b \<noteq> ?x" using cn g(6) old(2) b(1) by (metis lessI not_le)
    moreover have "b \<noteq> file_block (iview s1) din' k" if "k < Suc ?f" for k
      using cn old(2) \<open>b \<noteq> ?x\<close> that by (metis less_Suc_eq less_SucE)
    ultimately show ?thesis by (auto simp: own_def)
  qed
  have fr: "iview ?s' b = iview s b" if b: "unat b < unat (freeblock s)" "b \<notin> own s din ?n" for b
    using mine [OF b] w(4) [of b] gr b by (auto simp: own_def)
  have ob: "file_byte (iview s1) din' y = file_byte (iview s) din y" if "y < off" for y
  proof -
    have "y div BSIZE < ?n" using that nblocks_of_cover [of off] by (simp add: less_mult_imp_div_less)
    then have "file_block (iview s1) din' (y div BSIZE) = file_block (iview s) din (y div BSIZE)"
      "unat (file_block (iview s) din (y div BSIZE)) < unat (freeblock s)" "file_block (iview s) din (y div BSIZE) \<noteq> ind_block din"
      using gr f by (auto simp: mk_file_def)
    then show ?thesis using gr by (simp add: file_byte_def)
  qed
  have by1: "file_byte (iview ?s') din' y = (if off \<le> y \<and> y < off + n1 then p ! (y - off) else file_byte (iview s1) din' y)"
    if "y < off + n1" for y
    using w(6) [of y] that n1 off by (auto simp: min_def)
  have lc: "length ?c = n1" using n1(3) by simp
  have "mk_file ?s' din' (nblocks_of (off + length ?c))" using w(3) by (simp only: lc bo)
  moreover have "\<forall>y < off. file_byte (iview ?s') din' y = file_byte (iview s) din y" using by1 ob by simp
  moreover have "\<forall>y < length ?c. file_byte (iview ?s') din' (off + y) = ?c ! y" using by1 by (simp add: lc)
  ultimately have "appended s din off ?c ?s' din'" unfolding appended_def using w(2) fr gr by simp
  moreover have "room ?s' din' m" using g(5) by (simp add: room_def)
  moreover have "b \<notin> own ?s' din' (nblocks_of (off + n1))" if b: "unat b < unat (freeblock s)" "b \<notin> own s din ?n" for b
    using mine [OF b] w(5) by (auto simp: own_def bo)
  ultimately show thesis using that loop n1(1) bo by blast
qed

lemma appended_refl: "mk_inv s \<Longrightarrow> mk_file s din (nblocks_of off) \<Longrightarrow> appended s din off [] s din"
  by (auto simp: appended_def intro: exI [of _ "i_addrs din"])

lemma appended_trans:
  assumes a: "appended s din off p s1 din1" and b: "appended s1 din1 (off + length p) q s2 din2"
    and own: "\<And>b. unat b < unat (freeblock s) \<Longrightarrow> b \<notin> own s din (nblocks_of off) \<Longrightarrow> b \<notin> own s1 din1 (nblocks_of (off + length p))"
  shows "appended s din off (p @ q) s2 din2"
proof -
  note a = a [unfolded appended_def] and b = b [unfolded appended_def]
  have "file_byte (iview s2) din2 y = file_byte (iview s) din y" if "y < off" for y using a b that by simp
  moreover have "file_byte (iview s2) din2 (off + y) = (p @ q) ! y" if "y < length (p @ q)" for y
  proof (cases "y < length p")
    case True
    then show ?thesis using a b by (simp add: nth_append)
  next
    case False
    then have e: "off + y = off + length p + (y - length p)" and "y - length p < length q" using that by auto
    then have "file_byte (iview s2) din2 (off + length p + (y - length p)) = q ! (y - length p)" using b by blast
    then show ?thesis using False unfolding e [symmetric] by (simp add: nth_append)
  qed
  moreover have "iview s2 b = iview s b" if "unat b < unat (freeblock s)" "b \<notin> own s din (nblocks_of off)" for b
  proof -
    have "unat b < unat (freeblock s1)" "b \<notin> own s1 din1 (nblocks_of (off + length p))" using a own that by auto
    then show ?thesis using a b that by metis
  qed
  moreover obtain u v where "din1 = din\<lparr>i_addrs := u\<rparr>" "din2 = din1\<lparr>i_addrs := v\<rparr>" using a b by blast
  then have "din2 = din\<lparr>i_addrs := v\<rparr>" by simp
  then have "\<exists>v. din2 = din\<lparr>i_addrs := v\<rparr>" by blast
  ultimately show ?thesis using a b unfolding appended_def by (simp add: add.assoc)
qed

lemma iappend_loop_appends:
  assumes "mk_inv s" and "mk_file s din (nblocks_of off)" and "off + length p \<le> MAXFILE * BSIZE"
    and "room s din (nblocks_of (off + length p) - nblocks_of off)"
  shows "\<exists>din' s'. iappend_loop p off din s = Inr (off + length p, din', s') \<and> appended s din off p s' din'"
  using assms
proof (induction "length p" arbitrary: p off din s rule: less_induct)
  case less
  show ?case
  proof (cases "p = []")
    case True
    then have "iappend_loop p off din s = Inr (off + length p, din, s)" by (simp add: iappend_loop.simps)
    then show ?thesis using True appended_refl [OF less.prems(1,2)] by blast
  next
    case False
    define n1 where "n1 = min (length p) ((off div BSIZE + 1) * BSIZE - off)"
    have n1: "n1 \<le> length p" by (simp add: n1_def)
    let ?m = "nblocks_of (off + length p) - Suc (off div BSIZE)"
    have "off < MAXFILE * BSIZE" using False less.prems(3) by (cases p) auto
    then have mx: "off div BSIZE < MAXFILE" by (simp add: less_mult_imp_div_less)
    have "Suc (off div BSIZE) \<le> nblocks_of (off + length p)"
    proof -
      have "off < (off div BSIZE + 1) * BSIZE" using dividend_less_div_times [of BSIZE off] by (simp add: BSIZE_def)
      then have "nblocks_of (off + 1) = Suc (off div BSIZE)" by (intro nblocks_of_same) simp_all
      moreover have "off + 1 \<le> off + length p" using False by (cases p) auto
      ultimately show ?thesis using nblocks_of_mono by metis
    qed
    then have "?m + Suc (off div BSIZE) - nblocks_of off = nblocks_of (off + length p) - nblocks_of off" by simp
    then have r: "room s din (?m + Suc (off div BSIZE) - nblocks_of off)" using less.prems(4) by simp
    obtain din1 s1 where t: "iappend_loop p off din s = iappend_loop (drop n1 p) (off + n1) din1 s1"
      "appended s din off (take n1 p) s1 din1" "room s1 din1 ?m"
      "\<And>b. unat b < unat (freeblock s) \<Longrightarrow> b \<notin> own s din (nblocks_of off) \<Longrightarrow> b \<notin> own s1 din1 (nblocks_of (off + n1))"
      "0 < n1" "nblocks_of (off + n1) = Suc (off div BSIZE)"
      unfolding n1_def by (rule iappend_turn [OF less.prems(1,2) False mx r]) blast
    have l: "length (take n1 p) = n1" "off + n1 + length (drop n1 p) = off + length p" using n1 by simp_all
    have "mk_inv s1" "mk_file s1 din1 (nblocks_of (off + n1))" using t(2) l(1) by (simp_all add: appended_def)
    then obtain din' s' where i: "iappend_loop (drop n1 p) (off + n1) din1 s1 = Inr (off + length p, din', s')"
      "appended s1 din1 (off + n1) (drop n1 p) s' din'"
      using less.hyps [of "drop n1 p" s1 din1 "off + n1"] t(3,5,6) less.prems(3) False l by (auto simp: l)
    have "appended s din off (take n1 p @ drop n1 p) s' din'"
      by (rule appended_trans [OF t(2)]) (use i(2) t(4) in \<open>simp_all only: l\<close>)
    then show ?thesis using t(1) i(1) by simp
  qed
qed

section \<open>Inodes on the image\<close>

lemma inode_block:
  assumes "unat inum < NINODES"
  shows "unat (IBLOCK inum mkfs_sb) = 32 + unat inum div IPB" and "unat (IBLOCK inum mkfs_sb) < nmeta"
proof -
  have "unat (inum div 8) = unat inum div 8" by (simp add: unat_div_distrib)
  moreover have "unat inum div 8 < 25" using assms by (simp add: NINODES_def)
  ultimately have "unat (inum div 8 + 32) = unat inum div 8 + 32" by (simp add: unat_word_ariths)
  then show "unat (IBLOCK inum mkfs_sb) = 32 + unat inum div IPB"
    by (simp add: IBLOCK_def mkfs_sb_def nlog_def LOGSIZE_def MAXOPBLOCKS_def IPB_def BSIZE_def)
  with assms show "unat (IBLOCK inum mkfs_sb) < nmeta" by (simp add: nmeta_val IPB_def BSIZE_def NINODES_def)
qed

lemma rinode_eq:
  assumes "mk_inv s" and "unat inum < NINODES"
  shows "rinode inum s = Inr (dinode_load (iview s (IBLOCK inum mkfs_sb)) (dip_off inum) no_inode)"
proof -
  have "unat (IBLOCK inum mkfs_sb) < FSSIZE" using inode_block(2) [OF assms(2)] by (simp add: nmeta_val FSSIZE_def)
  then show ?thesis using assms(1) rsect_ok [OF assms(1)] by (simp add: rinode_def Let_def mk_inv_def)
qed

lemma winode_stores:
  assumes inv: "mk_inv s" and inum: "unat inum < NINODES" and l: "length (i_addrs ip) = NDIRECT + 1"
  obtains t where "winode inum ip s = Inr t" and "mk_inv t" and "\<And>b. b \<noteq> IBLOCK inum mkfs_sb \<Longrightarrow> iview t b = iview s b"
    and "freeblock t = freeblock s"
    and "rinode inum t = Inr (no_inode\<lparr>i_type := i_type ip, i_major := i_major ip, i_minor := i_minor ip, i_nlink := i_nlink ip,
        i_size := i_size ip, i_addrs := i_addrs ip\<rparr>)"
    and "\<And>j. unat j < NINODES \<Longrightarrow> j \<noteq> inum \<Longrightarrow> rinode j t = rinode j s"
proof -
  let ?B = "IBLOCK inum mkfs_sb"
  let ?t = "wsect ?B (splice (iview s ?B) (dip_off inum) (dinode_bytes ip)) s"
  have B: "unat ?B < FSSIZE" "unat ?B < unat (freeblock s)"
    using inode_block(2) [OF inum] inv by (auto simp: nmeta_val FSSIZE_def mk_inv_def)
  note lv = iview_length [OF inv B(1)] and ld = length_dinode_bytes [OF l]
  have w: "winode inum ip s = Inr ?t" using inv rsect_ok [OF inv B(1)] by (simp add: winode_def Let_def mk_inv_def)
  have it: "mk_inv ?t" by (rule wsect_inv [OF inv B(2)]) (use lv ld dip_off_bound [of inum] in simp)
  have v: "iview ?t b = (if b = ?B then splice (iview s ?B) (dip_off inum) (dinode_bytes ip) else iview s b)" for b
    by (rule iview_wsect [OF inv B(1)])
  have "rinode inum ?t = Inr (no_inode\<lparr>i_type := i_type ip, i_major := i_major ip, i_minor := i_minor ip, i_nlink := i_nlink ip,
        i_size := i_size ip, i_addrs := i_addrs ip\<rparr>)"
    unfolding rinode_eq [OF it inum] v using dinode_load_bytes [OF l, of "dip_off inum"] dip_off_bound [of inum] lv by simp
  moreover have "rinode j ?t = rinode j s" if j: "unat j < NINODES" "j \<noteq> inum" for j
  proof (cases "IBLOCK j mkfs_sb = ?B")
    case True
    then have "unat j div IPB = unat inum div IPB" using inode_block(1) [OF inum] inode_block(1) [OF j(1)] by simp
    then have "dip_off j \<noteq> dip_off inum" using j(2) unfolding dip_off_def
      by (metis div_mult_mod_eq mult_cancel1 word_unat_eq_iff zero_neq_numeral)
    then have "dip_off j + 64 \<le> dip_off inum \<or> dip_off inum + 64 \<le> dip_off j" by (rule dip_off_apart)
    then show ?thesis unfolding rinode_eq [OF it j(1)] rinode_eq [OF inv j(1)] v
      using True dinode_load_other [of "dip_off inum" "dinode_bytes ip"] ld lv dip_off_bound [of inum] by simp
  next
    case False
    then show ?thesis unfolding rinode_eq [OF it j(1)] rinode_eq [OF inv j(1)] v by simp
  qed
  ultimately show thesis using that [OF w it] v by simp
qed

text \<open>The blocks of inodes belong to no file.\<close>

lemma own_data:
  assumes "mk_file s din n" and "32 \<le> unat B" and "unat B < nmeta"
  shows "B \<notin> own s din n" and "B \<noteq> ind_block din" and "k < n \<Longrightarrow> B \<noteq> file_block (iview s) din k"
proof -
  show i: "B \<noteq> ind_block din" using assms by (auto simp: mk_file_def split: if_splits)
  show k: "k < n \<Longrightarrow> B \<noteq> file_block (iview s) din k" for k using assms by (auto simp: mk_file_def)
  show "B \<notin> own s din n" using i k by (auto simp: own_def)
qed

lemma mk_file_view:
  assumes "mk_file s din n" and "\<And>b. b \<noteq> B \<Longrightarrow> iview t b = iview s b" and "freeblock t = freeblock s"
    and "32 \<le> unat B" and "unat B < nmeta" and "i_addrs din' = i_addrs din"
  shows "mk_file t din' n" and "y < n * BSIZE \<Longrightarrow> file_byte (iview t) din' y = file_byte (iview s) din y"
proof -
  have b: "file_block (iview t) din' k = file_block (iview s) din k" for k
    using assms(2) [of "ind_block din"] own_data(2) [OF assms(1,4,5)] assms(6) by (auto simp: file_block_def)
  show "mk_file t din' n" using assms(1,3) unfolding mk_file_def inj_on_def b assms(6) by simp
  assume "y < n * BSIZE"
  then have "B \<noteq> file_block (iview s) din (y div BSIZE)"
    using own_data(3) [OF assms(1,4,5)] by (simp add: less_mult_imp_div_less)
  then show "file_byte (iview t) din' y = file_byte (iview s) din y" using assms(2) by (simp add: file_byte_def b)
qed

lemma appended_content:
  assumes "appended s din (unat (i_size din)) p t din'" and y: "y < unat (i_size din) + length p"
  shows "file_byte (iview t) din' y = (file_content (iview s) din @ p) ! y"
proof (cases "y < unat (i_size din)")
  case True
  then show ?thesis using assms(1) by (simp add: appended_def nth_append file_content_def)
next
  case False
  then have "y - unat (i_size din) < length p" using y by linarith
  then have "file_byte (iview t) din' (unat (i_size din) + (y - unat (i_size din))) = p ! (y - unat (i_size din))"
    using assms(1) unfolding appended_def by blast
  then show ?thesis using False by (simp add: nth_append)
qed

text \<open>C19: appending to a file of the image makes its content, as the kernel's \<open>readi\<close> defines it, the old content followed by the
  new bytes, through direct blocks, the indirect block and the allocation of all of them. The image stays
  well-formed, every other inode keeps its bytes, and so does every block that belongs to another file.\<close>

theorem iappend_appends:
  assumes inv: "mk_inv s" and inum: "unat inum < NINODES" and din: "rinode inum s = Inr din"
    and f: "mk_file s din (nblocks_of (unat (i_size din)))" and mx: "unat (i_size din) + length p \<le> MAXFILE * BSIZE"
    and r: "room s din (nblocks_of (unat (i_size din) + length p) - nblocks_of (unat (i_size din)))"
  shows "\<exists>t din'. iappend inum p s = Inr t \<and> mk_inv t \<and> rinode inum t = Inr din'
    \<and> mk_file t din' (nblocks_of (unat (i_size din'))) \<and> file_content (iview t) din' = file_content (iview s) din @ p
    \<and> (\<forall>j. unat j < NINODES \<and> j \<noteq> inum \<longrightarrow> rinode j t = rinode j s)
    \<and> (\<forall>b. nmeta \<le> unat b \<and> unat b < unat (freeblock s) \<and> b \<notin> own s din (nblocks_of (unat (i_size din))) \<longrightarrow>
         iview t b = iview s b)"
proof -
  let ?off = "unat (i_size din)" and ?B = "IBLOCK inum mkfs_sb"
  obtain din1 s1 where l: "iappend_loop p ?off din s = Inr (?off + length p, din1, s1)" and ap: "appended s din ?off p s1 din1"
    using iappend_loop_appends [OF inv f mx r] by blast
  note a = ap [unfolded appended_def]
  have inv1: "mk_inv s1" and f1: "mk_file s1 din1 (nblocks_of (?off + length p))" using a by blast+
  let ?ip = "din1\<lparr>i_size := of_nat (?off + length p)\<rparr>"
  have sz: "unat (of_nat (?off + length p) :: u32) = ?off + length p"
    using mx by (simp add: unsigned_of_nat take_bit_nat_eq_self MAXFILE_def NDIRECT_def NINDIRECT_def BSIZE_def del: of_nat_add)
  have "length (i_addrs ?ip) = NDIRECT + 1" using f1 by (simp add: mk_file_def)
  then obtain t where t: "winode inum ?ip s1 = Inr t" "mk_inv t" "\<And>b. b \<noteq> ?B \<Longrightarrow> iview t b = iview s1 b" "freeblock t = freeblock s1"
    "rinode inum t = Inr (no_inode\<lparr>i_type := i_type ?ip, i_major := i_major ?ip, i_minor := i_minor ?ip, i_nlink := i_nlink ?ip,
        i_size := i_size ?ip, i_addrs := i_addrs ?ip\<rparr>)"
    "\<And>j. unat j < NINODES \<Longrightarrow> j \<noteq> inum \<Longrightarrow> rinode j t = rinode j s1"
    by (rule winode_stores [OF inv1 inum]) blast
  have B: "32 \<le> unat (IBLOCK j mkfs_sb)" "unat (IBLOCK j mkfs_sb) < nmeta" if "unat j < NINODES" for j
    using inode_block [OF that] by auto
  obtain a1 where d1: "din1 = din\<lparr>i_addrs := a1\<rparr>" using a by blast
  have ip: "rinode inum t = Inr ?ip" using t(5) din rinode_eq [OF inv inum] unfolding d1 by (auto simp: dinode_load_def no_inode_def)
  note v = mk_file_view [OF f1 t(3,4) B [OF inum], of ?ip]
  have "file_content (iview t) ?ip = file_content (iview s) din @ p"
  proof (rule nth_equalityI)
    fix y
    assume "y < length (file_content (iview t) ?ip)"
    then have y: "y < ?off + length p" by (simp add: sz del: of_nat_add)
    then have "file_byte (iview t) ?ip y = file_byte (iview s1) din1 y"
      using v(2) nblocks_of_cover [of "?off + length p"] by simp
    also have "\<dots> = (file_content (iview s) din @ p) ! y" by (rule appended_content [OF ap y])
    finally show "file_content (iview t) ?ip ! y = (file_content (iview s) din @ p) ! y"
      using y sz by (simp add: file_content_def del: of_nat_add)
  qed (simp add: sz del: of_nat_add)
  moreover have "rinode j t = rinode j s" if j: "unat j < NINODES" "j \<noteq> inum" for j
  proof -
    have "unat (IBLOCK j mkfs_sb) < unat (freeblock s)" using B(2) [OF j(1)] inv by (simp add: mk_inv_def)
    then have "iview s1 (IBLOCK j mkfs_sb) = iview s (IBLOCK j mkfs_sb)" using a own_data(1) [OF f B [OF j(1)]] by blast
    then show ?thesis using t(6) [OF j] rinode_eq [OF inv j(1)] rinode_eq [OF inv1 j(1)] by simp
  qed
  moreover have "iview t b = iview s b"
    if "nmeta \<le> unat b" "unat b < unat (freeblock s)" "b \<notin> own s din (nblocks_of ?off)" for b
    using t(3) [of b] B(2) [OF inum] a that by force
  moreover have "iappend inum p s = Inr t" using din l t(1) by (simp add: iappend_def)
  moreover have "mk_file t ?ip (nblocks_of (unat (i_size ?ip)))" using v(1) by (simp add: sz del: of_nat_add)
  ultimately show ?thesis using t(2) ip by blast
qed

section \<open>The empty image\<close>

definition mkfs_zeroed :: mkfs where
  "mkfs_zeroed = mkfs_start\<lparr>img := replicate FSSIZE (replicate BSIZE 0)\<rparr>"

text \<open>The first loop of \<^verbatim>\<open>main\<close> makes an image of zeros.\<close>

lemma zero_loop:
  "n \<le> FSSIZE \<Longrightarrow> fold (\<lambda>i. wsect (of_nat i) (replicate BSIZE 0)) [0 ..< n] mkfs_start
    = mkfs_start\<lparr>img := replicate n (replicate BSIZE 0)\<rparr>"
proof (induction n)
  case 0
  show ?case by (simp add: mkfs_start_def)
next
  case (Suc n)
  have "unat (of_nat n :: u32) = n" using Suc.prems by (simp add: unsigned_of_nat take_bit_nat_eq_self FSSIZE_def)
  then have "sect (of_nat n) = n" using sect_id [of "of_nat n"] Suc.prems by simp
  then show ?case using Suc by (simp add: wsect_def replicate_append_same)
qed

lemma mkfs_zeroed_inv: "mk_inv mkfs_zeroed"
proof -
  have "unat (freeblock mkfs_zeroed) = nmeta"
    by (simp add: mkfs_zeroed_def mkfs_start_def nmeta_def nlog_def LOGSIZE_def MAXOPBLOCKS_def ninodeblocks_def NINODES_def
        IPB_def nbitmap_def FSSIZE_def BSIZE_def)
  then show ?thesis by (auto simp: mk_inv_def mkfs_zeroed_def mkfs_start_def nmeta_val FSSIZE_def)
qed

lemma zero_inode:
  assumes "unat inum < NINODES"
  shows "rinode inum mkfs_zeroed = Inr no_inode" and "mk_file mkfs_zeroed no_inode 0"
proof -
  have "unat (IBLOCK inum mkfs_sb) < FSSIZE" using inode_block(2) [OF assms] by (simp add: nmeta_val FSSIZE_def)
  then have "iview mkfs_zeroed (IBLOCK inum mkfs_sb) = replicate BSIZE 0" by (simp add: iview_def mkfs_zeroed_def)
  moreover have "half_at (replicate BSIZE 0) k = 0" for k by (simp add: half_at_def byte_at_def join16_def)
  moreover have "map (\<lambda>k. 0 :: u32) [0 ..< NDIRECT + 1] = replicate (NDIRECT + 1) 0" by (simp add: map_replicate_const del: upt_Suc)
  ultimately show "rinode inum mkfs_zeroed = Inr no_inode"
    unfolding rinode_eq [OF mkfs_zeroed_inv assms] by (simp add: dinode_load_def word_at_zeros no_inode_def del: upt_Suc replicate_Suc)
  show "mk_file mkfs_zeroed no_inode 0" by (simp add: mk_file_def no_inode_def del: replicate_Suc)
qed

theorem iappend_appends_witness:
  "\<exists>t din'. iappend 5 [1, 2, 3] mkfs_zeroed = Inr t \<and> rinode 5 t = Inr din' \<and> file_content (iview t) din' = [1, 2, 3]"
proof -
  have n: "nblocks_of 0 = 0" "nblocks_of (Suc (Suc (Suc 0))) = 1" by (simp_all add: nblocks_of_def BSIZE_def)
  have i: "unat (5 :: u32) < NINODES" "i_size no_inode = 0" by (simp_all add: NINODES_def no_inode_def)
  have "room mkfs_zeroed no_inode 1"
    by (simp add: room_def mkfs_zeroed_def mkfs_start_def no_inode_def nlog_def LOGSIZE_def MAXOPBLOCKS_def ninodeblocks_def
        NINODES_def IPB_def nbitmap_def FSSIZE_def BSIZE_def)
  then obtain t din' where "iappend 5 [1, 2, 3] mkfs_zeroed = Inr t" "rinode 5 t = Inr din'"
    "file_content (iview t) din' = file_content (iview mkfs_zeroed) no_inode @ [1, 2, 3]"
    using iappend_appends [OF mkfs_zeroed_inv i(1) zero_inode(1) [OF i(1)], of "[1, 2, 3]"] zero_inode(2) [OF i(1)] i(2) n
    by (auto simp: MAXFILE_def BSIZE_def NDIRECT_def NINDIRECT_def)
  moreover have "file_content (iview mkfs_zeroed) no_inode = []" using i(2) by (simp add: file_content_def)
  ultimately show ?thesis by simp
qed

text \<open>The kernel finds in block 1 the layout that was written there.\<close>

lemma sb_roundtrip: "sb_of_bytes (splice (replicate BSIZE 0) 0 (sb_bytes sb)) = sb"
proof -
  let ?w = "[sb_size sb, sb_nblocks sb, sb_ninodes sb, sb_nlog sb, sb_logstart sb, sb_inodestart sb, sb_bmapstart sb,
    sb_size_bytes sb, sb_size_avail sb, sb_size_used sb]"
  have "word_at (splice (replicate BSIZE 0) 0 (sb_bytes sb)) (4 * k) = ?w ! k" if "k < 10" for k
  proof -
    have "word_at (splice (replicate BSIZE 0) 0 (sb_bytes sb)) (0 + 4 * k) = word_at (sb_bytes sb) (4 * k)"
      by (rule word_at_part) (use that in \<open>simp_all add: sb_bytes_def BSIZE_def\<close>)
    then show ?thesis using word_at_concat [of k ?w] that by (simp add: sb_bytes_def)
  qed
  from this [of 0] this [of 1] this [of 2] this [of 3] this [of 4] this [of 5] this [of 6] this [of 7] this [of 8] this [of 9]
  show ?thesis by (simp add: sb_of_bytes_def)
qed

end
