(* ===== verification/Umalloc.thy ===== *)
theory Umalloc
  imports User
begin

text \<open>
  The heap of user programs (\<^verbatim>\<open>umalloc.c\<close>): a circular list of free blocks in the order of their addresses, threaded
  through the headers of the blocks, with the static header \<^verbatim>\<open>base\<close> as its lowest element.

  The headers are a function from addresses to their two words; the address \<open>base\<close> of the static header is a
  parameter. The list is walked with fuel. \<open>lseg\<close> says that the headers spell a given list of blocks, and \<open>heap_rep\<close>
  that the free blocks are exactly a given set of bytes; \<open>malloc\<close> and \<open>free\<close> are described by what they take
  from this set and what they give back to it.
\<close>

section \<open>The program\<close>

record header =
  h_ptr :: u32
  h_size :: u32

record uheap =
  hmem :: "u32 \<Rightarrow> header"
  freep :: u32

text \<open>\<^verbatim>\<open>p + n\<close> on header pointers.\<close>

definition hadd :: "u32 \<Rightarrow> u32 \<Rightarrow> u32" where
  "hadd p n = p + 8 * n"

definition set_ptr :: "u32 \<Rightarrow> u32 \<Rightarrow> (u32 \<Rightarrow> header) \<Rightarrow> u32 \<Rightarrow> header" where
  "set_ptr p q m = m(p := (m p)\<lparr>h_ptr := q\<rparr>)"

definition set_size :: "u32 \<Rightarrow> u32 \<Rightarrow> (u32 \<Rightarrow> header) \<Rightarrow> u32 \<Rightarrow> header" where
  "set_size p n m = m(p := (m p)\<lparr>h_size := n\<rparr>)"

fun free_find :: "nat \<Rightarrow> u32 \<Rightarrow> u32 \<Rightarrow> (u32 \<Rightarrow> header) \<Rightarrow> u32 option" where
  "free_find 0 bp p m = None"
| "free_find (Suc k) bp p m =
     (if bp > p \<and> bp < h_ptr (m p) then Some p
      else if p \<ge> h_ptr (m p) \<and> (bp > p \<or> bp < h_ptr (m p)) then Some p
      else free_find k bp (h_ptr (m p)) m)"

definition join_right :: "u32 \<Rightarrow> u32 \<Rightarrow> (u32 \<Rightarrow> header) \<Rightarrow> u32 \<Rightarrow> header" where
  "join_right bp p m =
     (if hadd bp (h_size (m bp)) = h_ptr (m p)
      then let m = set_size bp (h_size (m bp) + h_size (m (h_ptr (m p)))) m
           in set_ptr bp (h_ptr (m (h_ptr (m p)))) m
      else set_ptr bp (h_ptr (m p)) m)"

definition join_left :: "u32 \<Rightarrow> u32 \<Rightarrow> (u32 \<Rightarrow> header) \<Rightarrow> u32 \<Rightarrow> header" where
  "join_left bp p m =
     (if hadd p (h_size (m p)) = bp
      then let m = set_size p (h_size (m p) + h_size (m bp)) m in set_ptr p (h_ptr (m bp)) m
      else set_ptr p bp m)"

definition ufree :: "nat \<Rightarrow> u32 \<Rightarrow> uheap \<Rightarrow> uheap option" where
  "ufree k ap st =
     (let bp = ap - 8
      in case free_find k bp (freep st) (hmem st) of
           None \<Rightarrow> None
         | Some p \<Rightarrow> Some (st\<lparr>hmem := join_left bp p (join_right bp p (hmem st)), freep := p\<rparr>))"

definition morecore :: "nat \<Rightarrow> u32 \<Rightarrow> uheap \<Rightarrow> (u32 \<times> uheap) uprog" where
  "morecore k nu st =
     (let nu = (if nu < 4096 then 4096 else nu)
      in ubnd (usys (USbrk (sint (nu * 8)))) (\<lambda>p.
           if p = -1 then URet (0, st)
           else let hp = word_of_int p
                in case ufree k (hadd hp 1) (st\<lparr>hmem := set_size hp nu (hmem st)\<rparr>) of
                     None \<Rightarrow> UFuel
                   | Some st \<Rightarrow> URet (freep st, st)))"

definition take_block :: "u32 \<Rightarrow> u32 \<Rightarrow> u32 \<Rightarrow> uheap \<Rightarrow> u32 \<times> uheap" where
  "take_block nunits prevp p st =
     (let m = hmem st
      in if h_size (m p) = nunits
         then (hadd p 1, st\<lparr>hmem := set_ptr prevp (h_ptr (m p)) m, freep := prevp\<rparr>)
         else let m = set_size p (h_size (m p) - nunits) m;
                  p = hadd p (h_size (m p));
                  m = set_size p nunits m
              in (hadd p 1, st\<lparr>hmem := m, freep := prevp\<rparr>))"

fun malloc_loop :: "nat \<Rightarrow> u32 \<Rightarrow> u32 \<Rightarrow> u32 \<Rightarrow> uheap \<Rightarrow> (u32 \<times> uheap) uprog" where
  "malloc_loop 0 nunits prevp p st = UFuel"
| "malloc_loop (Suc k) nunits prevp p st =
     (if h_size (hmem st p) \<ge> nunits then URet (take_block nunits prevp p st)
      else if p = freep st
      then ubnd (morecore k nunits st) (\<lambda>(p, st).
             if p = 0 then URet (0, st) else malloc_loop k nunits p (h_ptr (hmem st p)) st)
      else malloc_loop k nunits p (h_ptr (hmem st p)) st)"

definition nunits_of :: "u32 \<Rightarrow> u32" where
  "nunits_of nbytes = (nbytes + 8 - 1) div 8 + 1"

definition malloc :: "nat \<Rightarrow> u32 \<Rightarrow> u32 \<Rightarrow> uheap \<Rightarrow> (u32 \<times> uheap) uprog" where
  "malloc k base nbytes st =
     (let nunits = nunits_of nbytes;
          st = (if freep st = 0
                then st\<lparr>hmem := set_size base 0 (set_ptr base base (hmem st)), freep := base\<rparr>
                else st)
      in malloc_loop k nunits (freep st) (h_ptr (hmem st (freep st))) st)"

section \<open>Lists of blocks\<close>

type_synonym block = "u32 \<times> u32"

fun lseg :: "(u32 \<Rightarrow> header) \<Rightarrow> u32 \<Rightarrow> block list \<Rightarrow> u32 \<Rightarrow> bool" where
  "lseg m p [] q = (p = q)"
| "lseg m p (b # bs) q = (p = fst b \<and> h_size (m p) = snd b \<and> lseg m (h_ptr (m p)) bs q)"

lemma lseg_append: "lseg m p (xs @ ys) q \<longleftrightarrow> (\<exists>r. lseg m p xs r \<and> lseg m r ys q)"
  by (induction xs arbitrary: p) auto

lemma lseg_frame: "(\<And>a. a \<in> fst ` set xs \<Longrightarrow> m a = m' a) \<Longrightarrow> lseg m p xs q = lseg m' p xs q"
  by (induction xs arbitrary: p) auto

lemma lseg_mid: "lseg m p (us @ b # vs) q \<longleftrightarrow>
    lseg m p us (fst b) \<and> h_size (m (fst b)) = snd b \<and> lseg m (h_ptr (m (fst b))) vs q"
  by (auto simp: lseg_append)

lemma lseg_next: "lseg m p (us @ b # vs) q \<Longrightarrow> h_ptr (m (fst b)) = (case vs of [] \<Rightarrow> q | c # _ \<Rightarrow> fst c)"
  by (cases vs) (auto simp: lseg_mid)

definition bend :: "block \<Rightarrow> nat" where
  "bend b = unat (fst b) + 8 * unat (snd b)"

definition bytes :: "block \<Rightarrow> nat set" where
  "bytes b = {unat (fst b) ..< bend b}"

definition fbytes :: "block list \<Rightarrow> nat set" where
  "fbytes fl = \<Union> (bytes ` set fl)"

lemma fbytes_simps [simp]:
  "fbytes [] = {}" "fbytes (b # bs) = bytes b \<union> fbytes bs" "fbytes (xs @ ys) = fbytes xs \<union> fbytes ys"
  by (auto simp: fbytes_def)

definition blocks :: "u32 \<Rightarrow> nat \<Rightarrow> block list \<Rightarrow> bool" where
  "blocks base brk fl \<longleftrightarrow> fl \<noteq> [] \<and> hd fl = (base, 0) \<and> sorted_wrt (\<lambda>b c. bend b < unat (fst c)) fl
     \<and> (\<forall>b \<in> set fl. bend b \<le> brk) \<and> (\<forall>b \<in> set (tl fl). snd b \<noteq> 0)"

text \<open>The free blocks are the bytes \<open>F\<close>; they lie below the end \<open>brk\<close> of the program's memory.\<close>

definition heap_rep :: "u32 \<Rightarrow> nat \<Rightarrow> uheap \<Rightarrow> nat set \<Rightarrow> bool" where
  "heap_rep base brk st F \<longleftrightarrow> base \<noteq> 0 \<and> (\<exists>fl. blocks base brk fl \<and> lseg (hmem st) base fl base
     \<and> freep st \<in> fst ` set fl \<and> F = fbytes fl)"

lemma unat_hadd: "unat p + 8 * unat n < 2 ^ 32 \<Longrightarrow> unat (hadd p n) = unat p + 8 * unat n"
  by (simp add: hadd_def unat_word_ariths unsigned_numeral)

lemma hadd_eq_iff: "unat p + 8 * unat n < 2 ^ 32 \<Longrightarrow> hadd p n = q \<longleftrightarrow> unat p + 8 * unat n = unat q"
  using unat_hadd by (metis word_unat_eq_iff)

text \<open>The ends rise with the addresses.\<close>

lemma blocks_asc:
  assumes "blocks base brk (us @ b # vs)"
  shows "\<forall>c \<in> set us. bend c < unat (fst b)" and "\<forall>c \<in> set vs. bend b < unat (fst c)"
    and "us \<noteq> [] \<Longrightarrow> snd b \<noteq> 0" and "\<forall>c \<in> set vs. snd c \<noteq> 0"
    and "c \<in> set (us @ b # vs) \<Longrightarrow> unat base \<le> unat (fst c)"
proof -
  show "\<forall>c \<in> set us. bend c < unat (fst b)" "\<forall>c \<in> set vs. bend b < unat (fst c)"
    using assms by (auto simp: blocks_def sorted_wrt_append)
  show "us \<noteq> [] \<Longrightarrow> snd b \<noteq> 0" using assms by (cases us) (auto simp: blocks_def)
  show "\<forall>c \<in> set vs. snd c \<noteq> 0" using assms by (cases us) (auto simp: blocks_def)
  assume c: "c \<in> set (us @ b # vs)"
  obtain rest where r: "us @ b # vs = (base, 0) # rest" using assms unfolding blocks_def by (metis hd_Cons_tl)
  then have "\<forall>c \<in> set rest. unat base < unat (fst c)" using assms by (auto simp: blocks_def bend_def)
  then show "unat base \<le> unat (fst c)" using c unfolding r by (auto intro: less_imp_le)
qed

lemma blocks_first: "blocks base brk fl \<Longrightarrow> b \<in> set fl \<Longrightarrow> snd b \<noteq> 0 \<or> b = (base, 0)"
  by (cases fl) (auto simp: blocks_def)

lemma blocks_no_self:
  assumes "blocks base brk (us @ b # vs)"
  shows "fst b \<notin> fst ` set us" and "fst b \<notin> fst ` set vs"
  using blocks_asc(1,2) [OF assms] by (force simp: bend_def)+

section \<open>Looking for the place of a block\<close>

definition stops :: "u32 \<Rightarrow> u32 \<Rightarrow> u32 \<Rightarrow> bool" where
  "stops bp p q \<longleftrightarrow> (bp > p \<and> bp < q) \<or> (p \<ge> q \<and> (bp > p \<or> bp < q))"

lemma free_find_Suc:
  "free_find (Suc k) bp p m = (if stops bp p (h_ptr (m p)) then Some p else free_find k bp (h_ptr (m p)) m)"
  by (auto simp: stops_def)

lemma free_find_walk:
  "lseg m r zs r' \<Longrightarrow> (\<And>b. b \<in> set zs \<Longrightarrow> \<not> stops bp (fst b) (h_ptr (m (fst b)))) \<Longrightarrow>
    free_find (length zs + k) bp r m = free_find k bp r' m"
  by (induction zs arbitrary: r) (auto simp: free_find_Suc simp del: free_find.simps)

lemma stops_unat:
  "stops bp p q \<longleftrightarrow> (unat p < unat bp \<and> unat bp < unat q) \<or> (unat q \<le> unat p \<and> (unat p < unat bp \<or> unat bp < unat q))"
  by (auto simp: stops_def word_less_nat_alt word_le_nat_alt)

lemma passes_below:
  assumes "blocks base brk (xs @ (p, np) # ys)" and "lseg m base (xs @ (p, np) # ys) base"
    and "unat p < unat bp" and "b \<in> set xs"
  shows "\<not> stops bp (fst b) (h_ptr (m (fst b)))"
proof -
  obtain us vs where xs: "xs = us @ b # vs" using assms(4) split_list by fastforce
  let ?c = "hd (vs @ [(p, np)])"
  have n: "h_ptr (m (fst b)) = fst ?c" using lseg_next [of m base us b "vs @ (p, np) # ys"] assms(2) xs by (cases vs) auto
  have "unat (fst b) < unat (fst ?c)"
    using blocks_asc(2) [of base brk us b "vs @ (p, np) # ys"] assms(1) xs by (cases vs) (auto simp: bend_def)
  moreover have "unat (fst ?c) \<le> unat p"
    using blocks_asc(1) [OF assms(1)] xs by (cases vs) (auto simp: bend_def)
  ultimately show ?thesis using assms(3) n by (simp add: stops_unat)
qed

lemma passes_above:
  assumes "blocks base brk (xs @ (p, np) # ys)" and "lseg m base (xs @ (p, np) # ys) base"
    and "unat p < unat bp" and "\<forall>c \<in> set ys. unat bp < unat (fst c)" and "b \<in> set ys"
  shows "\<not> stops bp (fst b) (h_ptr (m (fst b)))"
proof -
  obtain us vs where ys: "ys = us @ b # vs" using assms(5) split_list by fastforce
  have e: "xs @ (p, np) # ys = (xs @ (p, np) # us) @ b # vs" using ys by simp
  note n = lseg_next [OF assms(2) [unfolded e]]
  have "unat base \<le> unat p" using blocks_asc(5) [OF assms(1), of "(p, np)"] by simp
  moreover have "unat bp < unat (fst b)" using assms(4,5) by simp
  moreover have "vs \<noteq> [] \<Longrightarrow> unat (fst b) < unat (fst (hd vs))"
    using blocks_asc(2) [OF assms(1) [unfolded e]] by (cases vs) (auto simp: bend_def)
  ultimately show ?thesis using assms(3) n by (cases vs) (auto simp: stops_unat)
qed

lemma stops_at_place:
  assumes "blocks base brk (xs @ (p, np) # ys)" and "lseg m base (xs @ (p, np) # ys) base"
    and "unat p < unat bp" and "\<forall>c \<in> set ys. unat bp < unat (fst c)"
  shows "stops bp p (h_ptr (m p))"
  using lseg_next [OF assms(2)] blocks_asc(5) [OF assms(1), of "(p, np)"] assms(3,4) by (cases ys) (auto simp: stops_unat)

lemma free_find_place:
  assumes bl: "blocks base brk (xs @ (p, np) # ys)" and ls: "lseg m base (xs @ (p, np) # ys) base"
    and bp: "unat p < unat bp" "\<forall>c \<in> set ys. unat bp < unat (fst c)"
    and r: "r \<in> fst ` set (xs @ (p, np) # ys)" and k: "length (xs @ (p, np) # ys) \<le> k"
  shows "free_find k bp r m = Some p"
proof -
  note below = passes_below [OF bl ls bp(1)] and above = passes_above [OF bl ls bp]
  have go: "free_find k bp r m = Some p"
    if z: "lseg m r zs p" "length zs < k" "set zs \<subseteq> set xs \<union> set ys" for zs
  proof -
    obtain j where j: "k = length zs + Suc j" using z(2) less_imp_Suc_add by fastforce
    have "free_find (length zs + Suc j) bp r m = free_find (Suc j) bp p m"
      using free_find_walk [OF z(1), of bp] below above z(3) by blast
    then show ?thesis using j stops_at_place [OF bl ls bp] by (simp only: free_find_Suc if_True)
  qed
  have base: "lseg m base xs p" using ls by (simp add: lseg_mid)
  consider "r = p" | b where "b \<in> set xs" "r = fst b" | b where "b \<in> set ys" "r = fst b" using r by auto
  then show ?thesis
  proof cases
    case 1
    then show ?thesis using go [of "[]"] k by simp
  next
    case 2
    then obtain us vs where "xs = us @ b # vs" using split_list by fastforce
    then show ?thesis using go [of "b # vs"] base 2 k by (auto simp: lseg_mid)
  next
    case 3
    then obtain us vs where ys: "ys = us @ b # vs" using split_list by fastforce
    then have "lseg m r (b # vs) base" using ls 3 by (auto simp: lseg_mid lseg_append)
    then show ?thesis using go [of "(b # vs) @ xs"] base 3 k ys unfolding lseg_append by auto
  qed
qed

section \<open>Giving a block back\<close>

definition right_of :: "block \<Rightarrow> block list \<Rightarrow> block list" where
  "right_of b ys =
     (case ys of [] \<Rightarrow> [b]
      | c # zs \<Rightarrow> if hadd (fst b) (snd b) = fst c then (fst b, snd b + snd c) # zs else b # ys)"

definition left_of :: "block \<Rightarrow> block list \<Rightarrow> block list" where
  "left_of b zs = (if hadd (fst b) (snd b) = fst (hd zs) then (fst b, snd b + snd (hd zs)) # tl zs else b # zs)"

lemma join_right_lseg:
  assumes "lseg m (h_ptr (m p)) ys base" and "bp \<notin> fst ` set ys" and "p \<noteq> bp"
    and "ys = [] \<Longrightarrow> hadd bp (h_size (m bp)) \<noteq> base"
  shows "lseg (join_right bp p m) bp (right_of (bp, h_size (m bp)) ys) base" and "a \<noteq> bp \<Longrightarrow> join_right bp p m a = m a"
proof -
  show o: "a \<noteq> bp \<Longrightarrow> join_right bp p m a = m a" for a by (simp add: join_right_def set_ptr_def set_size_def Let_def)
  have fr: "lseg (join_right bp p m) r zs base = lseg m r zs base" if "set zs \<subseteq> set ys" for r zs
    by (rule lseg_frame, rule o) (use assms(2) that in auto)
  show "lseg (join_right bp p m) bp (right_of (bp, h_size (m bp)) ys) base"
  proof (cases ys)
    case Nil
    then show ?thesis using assms by (simp add: right_of_def join_right_def set_ptr_def)
  next
    case (Cons c zs)
    then have "h_ptr (m p) = fst c" "fst c \<noteq> bp" using assms by auto
    then have "h_size (join_right bp p m bp) = (if hadd bp (h_size (m bp)) = fst c then h_size (m bp) + snd c else h_size (m bp))"
      "h_ptr (join_right bp p m bp) = (if hadd bp (h_size (m bp)) = fst c then h_ptr (m (fst c)) else fst c)"
      using Cons assms(1,3) by (auto simp: join_right_def set_ptr_def set_size_def Let_def)
    then show ?thesis using Cons assms(1) fr [of zs] fr [of ys] \<open>h_ptr (m p) = fst c\<close> unfolding right_of_def by auto
  qed
qed

lemma join_left_lseg:
  assumes "lseg m bp zs base" and "zs \<noteq> []" and "p \<notin> fst ` set zs"
  shows "lseg (join_left bp p m) p (left_of (p, h_size (m p)) zs) base" and "a \<noteq> p \<Longrightarrow> join_left bp p m a = m a"
proof -
  show o: "a \<noteq> p \<Longrightarrow> join_left bp p m a = m a" for a by (simp add: join_left_def set_ptr_def set_size_def Let_def)
  have fr: "lseg (join_left bp p m) r ys base = lseg m r ys base" if "set ys \<subseteq> set zs" for r ys
    by (rule lseg_frame, rule o) (use assms(3) that in auto)
  obtain c ys where c: "zs = c # ys" using assms(2) by (cases zs) auto
  then have "fst c = bp" "p \<noteq> bp" using assms by auto
  moreover from this have "h_size (join_left bp p m p) = (if hadd p (h_size (m p)) = bp then h_size (m p) + snd c else h_size (m p))"
    "h_ptr (join_left bp p m p) = (if hadd p (h_size (m p)) = bp then h_ptr (m bp) else bp)"
    using c assms(1) by (auto simp: join_left_def set_ptr_def set_size_def Let_def)
  ultimately show "lseg (join_left bp p m) p (left_of (p, h_size (m p)) zs) base"
    using c assms(1) fr [of ys] fr [of zs] unfolding left_of_def by auto
qed

text \<open>The block fits between \<open>b\<close> and \<open>ys\<close>.\<close>

definition fits :: "nat \<Rightarrow> block \<Rightarrow> block \<Rightarrow> block list \<Rightarrow> bool" where
  "fits brk b new ys \<longleftrightarrow> bend b \<le> unat (fst new) \<and> fst b \<noteq> fst new \<and> snd new \<noteq> 0 \<and> bend new \<le> brk
     \<and> (\<forall>c \<in> set ys. bend new \<le> unat (fst c))"

lemma unat_add_sizes: "8 * (unat (m :: u32) + unat n) < 2 ^ 32 \<Longrightarrow> unat (m + n) = unat m + unat n"
  by (simp add: unat_word_ariths)

lemma right_of_blocks:
  assumes "blocks base brk (xs @ b # ys)" and "fits brk b new ys" and "brk < 2 ^ 32"
  defines "zs \<equiv> right_of new ys"
  shows "fst (hd zs) = fst new" and "zs \<noteq> []" and "fbytes zs = bytes new \<union> fbytes ys"
    and "sorted_wrt (\<lambda>b c. bend b < unat (fst c)) zs" and "\<forall>c \<in> set zs. bend c \<le> brk \<and> snd c \<noteq> 0 \<and> unat (fst new) \<le> unat (fst c)"
    and "unat (snd new) \<le> unat (snd (hd zs))"
proof -
  have ys: "sorted_wrt (\<lambda>b c. bend b < unat (fst c)) ys" "\<forall>c \<in> set ys. bend c \<le> brk" "\<forall>c \<in> set ys. snd c \<noteq> 0"
    using assms(1) blocks_asc(4) [OF assms(1)] by (auto simp: blocks_def sorted_wrt_append)
  have new: "bend new \<le> brk" "snd new \<noteq> 0" "\<forall>c \<in> set ys. bend new \<le> unat (fst c)" using assms(2) by (auto simp: fits_def)
  show "fst (hd zs) = fst new" "zs \<noteq> []" by (auto simp: zs_def right_of_def split: list.splits)
  show "fbytes zs = bytes new \<union> fbytes ys" "sorted_wrt (\<lambda>b c. bend b < unat (fst c)) zs"
    "\<forall>c \<in> set zs. bend c \<le> brk \<and> snd c \<noteq> 0 \<and> unat (fst new) \<le> unat (fst c)" "unat (snd new) \<le> unat (snd (hd zs))"
  proof -
    consider "ys = []" | c rest where "ys = c # rest" "hadd (fst new) (snd new) = fst c"
      | c rest where "ys = c # rest" "hadd (fst new) (snd new) \<noteq> fst c" by (cases ys) auto
    note cases = this
    have j: "bend (fst new, snd new + snd c) = bend c" "snd new + snd c \<noteq> 0" "bend new = unat (fst c)"
      "unat (snd new) \<le> unat (snd new + snd c)"
      if "ys = c # rest" "hadd (fst new) (snd new) = fst c" for c rest
    proof -
      have e: "bend new = unat (fst c)" using that(2) new(1) assms(3) by (simp add: hadd_eq_iff bend_def)
      have "bend c \<le> brk" using ys(2) that by simp
      then have u: "unat (snd new + snd c) = unat (snd new) + unat (snd c)"
        using e assms(3) by (intro unat_add_sizes) (simp add: bend_def)
      then show "bend (fst new, snd new + snd c) = bend c" "bend new = unat (fst c)"
        "unat (snd new) \<le> unat (snd new + snd c)" using e by (simp_all add: bend_def)
      show "snd new + snd c \<noteq> 0" using u new(2) by (metis add_is_0 unat_0 unsigned_eq_0_iff)
    qed
    have g: "bend new < unat (fst d)" if "ys = c # rest" "hadd (fst new) (snd new) \<noteq> fst c" "d \<in> set ys" for c rest d
    proof -
      have "bend new \<noteq> unat (fst c)" using that(2) new(1) assms(3) by (simp add: hadd_eq_iff bend_def)
      moreover have "bend new \<le> unat (fst c)" "unat (fst c) \<le> unat (fst d)" using that new(3) ys(1) by (auto simp: bend_def)
      ultimately show ?thesis by simp
    qed
    have le: "unat (fst new) \<le> unat (fst c)" if "c \<in> set ys" for c using new(3) that by (auto simp: bend_def)
    from cases show "fbytes zs = bytes new \<union> fbytes ys"
      by cases (use j in \<open>auto simp: zs_def right_of_def bytes_def bend_def\<close>)
    from cases show "sorted_wrt (\<lambda>b c. bend b < unat (fst c)) zs"
      by cases (use j g ys in \<open>auto simp: zs_def right_of_def\<close>)
    from cases show "\<forall>c \<in> set zs. bend c \<le> brk \<and> snd c \<noteq> 0 \<and> unat (fst new) \<le> unat (fst c)"
      by cases (use j new ys le in \<open>auto simp: zs_def right_of_def\<close>)
    from cases show "unat (snd new) \<le> unat (snd (hd zs))"
      by cases (use j in \<open>auto simp: zs_def right_of_def\<close>)
  qed
qed

lemma bend_ge: "unat (fst b) \<le> bend b"
  by (simp add: bend_def)

lemma left_of_blocks:
  assumes bl: "blocks base brk (xs @ b # ys)" and fit: "fits brk b new ys" and brk: "brk < 2 ^ 32"
  defines "zs \<equiv> right_of new ys"
  shows "blocks base brk (xs @ left_of b zs)" and "fbytes (xs @ left_of b zs) = fbytes (xs @ b # ys) \<union> bytes new"
    and "fst (hd (left_of b zs)) = fst b" and "left_of b zs \<noteq> []"
    and "\<exists>d \<in> set (left_of b zs). unat (snd new) \<le> unat (snd d)"
proof -
  note r = right_of_blocks [OF bl fit brk, folded zs_def]
  obtain c rest where zs: "zs = c # rest" using r(2) by (cases zs) auto
  have xs: "\<forall>d \<in> set xs. bend d < unat (fst b)" "sorted_wrt (\<lambda>b c. bend b < unat (fst c)) xs" "\<forall>d \<in> set xs. bend d \<le> brk"
    using bl by (auto simp: blocks_def sorted_wrt_append)
  show "fst (hd (left_of b zs)) = fst b" "left_of b zs \<noteq> []" by (auto simp: left_of_def)
  have bnew: "bend b \<le> unat (fst c)" "unat (fst b) < unat (fst c)" "\<forall>d \<in> set rest. bend c < unat (fst d)"
    "bend c \<le> brk" "snd c \<noteq> 0" "bend b \<le> brk"
  proof -
    show "bend b \<le> unat (fst c)" using fit r(1) zs by (simp add: fits_def)
    moreover have "fst b \<noteq> fst c" using fit r(1) zs by (simp add: fits_def)
    then have "unat (fst b) \<noteq> unat (fst c)" using word_unat_eq_iff by blast
    ultimately show "unat (fst b) < unat (fst c)" using bend_ge [of b] by linarith
    show "\<forall>d \<in> set rest. bend c < unat (fst d)" "bend c \<le> brk" "snd c \<noteq> 0" using r(4,5) zs by auto
    show "bend b \<le> brk" using bl by (simp add: blocks_def)
  qed
  have bx: "\<forall>d \<in> set xs. \<forall>e \<in> set (b # zs). bend d < unat (fst e)"
  proof (intro ballI)
    fix d e
    assume that: "d \<in> set xs" "e \<in> set (b # zs)"
    have "unat (fst b) \<le> unat (fst e)" using that(2) bnew zs bend_ge [of c] by fastforce
    moreover have "bend d < unat (fst b)" using xs(1) that(1) by blast
    ultimately show "bend d < unat (fst e)" by linarith
  qed
  have hd: "xs = [] \<Longrightarrow> b = (base, 0)" "xs \<noteq> [] \<Longrightarrow> hd xs = (base, 0) \<and> snd b \<noteq> 0 \<and> (\<forall>d \<in> set (tl xs). snd d \<noteq> 0)"
    using bl blocks_asc(3) [OF bl] by (auto simp: blocks_def)
  show "blocks base brk (xs @ left_of b zs)" "fbytes (xs @ left_of b zs) = fbytes (xs @ b # ys) \<union> bytes new"
    "\<exists>d \<in> set (left_of b zs). unat (snd new) \<le> unat (snd d)"
  proof (atomize (full), cases "hadd (fst b) (snd b) = fst c")
    case True
    then have e: "bend b = unat (fst c)" using bnew(6) brk by (simp add: hadd_eq_iff bend_def)
    have u: "unat (snd b + snd c) = unat (snd b) + unat (snd c)"
      using bnew(4) e brk by (intro unat_add_sizes) (simp add: bend_def)
    have l: "left_of b zs = (fst b, snd b + snd c) # rest" using True zs by (simp add: left_of_def)
    have be: "bend (fst b, snd b + snd c) = bend c" using u e by (simp add: bend_def)
    have ne: "xs \<noteq> []" using hd(1) True bnew(2) by (auto simp: hadd_def)
    have nz: "snd b + snd c \<noteq> 0" using u bnew(5) by (metis add_is_0 unat_0 unsigned_eq_0_iff)
    have "fbytes (left_of b zs) = bytes b \<union> fbytes zs"
      using l zs be e bnew by (auto simp: bytes_def bend_def)
    moreover have "blocks base brk (xs @ left_of b zs)"
      using l zs ne be nz xs bx bnew hd r(4,5) by (auto simp: blocks_def sorted_wrt_append)
    moreover have "unat (snd new) \<le> unat (snd b + snd c)" using u r(6) zs by simp
    ultimately show "blocks base brk (xs @ left_of b zs) \<and> fbytes (xs @ left_of b zs) = fbytes (xs @ b # ys) \<union> bytes new
        \<and> (\<exists>d \<in> set (left_of b zs). unat (snd new) \<le> unat (snd d))"
      using r(3) l by auto
  next
    case False
    then have "bend b < unat (fst c)" using bnew(1,6) brk by (simp add: hadd_eq_iff bend_def)
    moreover have "left_of b zs = b # zs" using False zs by (simp add: left_of_def)
    moreover have "\<forall>d \<in> set rest. bend b < unat (fst d)"
      using calculation(1) bnew(3) bend_ge [of c] by fastforce
    ultimately show "blocks base brk (xs @ left_of b zs) \<and> fbytes (xs @ left_of b zs) = fbytes (xs @ b # ys) \<union> bytes new
        \<and> (\<exists>d \<in> set (left_of b zs). unat (snd new) \<le> unat (snd d))"
      using r(3,4,5,6) zs xs bx bnew hd by (cases xs) (auto simp: blocks_def sorted_wrt_append)
  qed
qed

text \<open>The place of a new block in the list.\<close>

lemma place_of:
  assumes bl: "blocks base brk fl" and new: "snd new \<noteq> 0" "unat base < unat (fst new)" "bend new \<le> brk"
    and dis: "bytes new \<inter> fbytes fl = {}"
  shows "\<exists>xs b ys. fl = xs @ b # ys \<and> fits brk b new ys \<and> unat (fst b) < unat (fst new)
    \<and> (\<forall>c \<in> set ys. unat (fst new) < unat (fst c))"
proof -
  let ?P = "\<lambda>c. unat (fst c) < unat (fst new)"
  obtain rest where fl: "fl = (base, 0) # rest" using bl unfolding blocks_def by (metis hd_Cons_tl)
  then have "takeWhile ?P fl \<noteq> []" using new(2) by simp
  then obtain xs b where xb: "takeWhile ?P fl = xs @ [b]" by (metis rev_exhaust)
  define ys where ys_def: "ys = dropWhile ?P fl"
  have split: "fl = xs @ b # ys" using xb takeWhile_dropWhile_id [of ?P fl] ys_def by simp
  have b: "unat (fst b) < unat (fst new)" using xb by (metis in_set_conv_decomp set_takeWhileD)
  note asc = blocks_asc [OF bl [unfolded split]]
  have new_in: "unat (fst new) \<in> bytes new" using new(1) by (simp add: bytes_def bend_def unat_gt_0)
  have c_in: "unat (fst c) \<in> fbytes fl" if "c \<in> set ys" for c
  proof -
    have "c \<in> set fl" "snd c \<noteq> 0" using that asc(4) split by auto
    moreover from this have "unat (fst c) \<in> bytes c" by (simp add: bytes_def bend_def unat_gt_0)
    ultimately show ?thesis by (auto simp: fbytes_def)
  qed
  have above: "unat (fst new) < unat (fst c)" if c: "c \<in> set ys" for c
  proof -
    obtain d ds where ys: "ys = d # ds" using c by (cases ys) auto
    then have "unat (fst new) \<le> unat (fst d)" using hd_dropWhile [of ?P fl] ys_def by simp
    moreover have "unat (fst d) \<le> unat (fst c)"
      using blocks_asc(2) [of base brk "xs @ [b]" d ds] bl split ys c bend_ge [of d] by fastforce
    moreover have "unat (fst c) \<noteq> unat (fst new)" using c_in [OF c] new_in dis by auto
    ultimately show ?thesis by linarith
  qed
  have "bend b \<le> unat (fst new)"
  proof (rule ccontr)
    assume "\<not> ?thesis"
    then have "unat (fst new) \<in> bytes b" using b by (simp add: bytes_def)
    moreover have "b \<in> set fl" using split by (metis in_set_conv_decomp)
    ultimately show False using new_in dis by (auto simp: fbytes_def)
  qed
  moreover have "bend new \<le> unat (fst c)" if "c \<in> set ys" for c
  proof -
    have "unat (fst c) \<notin> bytes new" using c_in [OF that] dis by blast
    then show ?thesis using above [OF that] by (simp add: bytes_def)
  qed
  ultimately have "fits brk b new ys" using b new by (auto simp: fits_def)
  then show ?thesis using split b above by blast
qed

text \<open>What a walk or an update may touch: the headers of free blocks, and \<^verbatim>\<open>base\<close>.\<close>

definition same_outside :: "u32 \<Rightarrow> nat set \<Rightarrow> uheap \<Rightarrow> uheap \<Rightarrow> bool" where
  "same_outside base F st st' \<longleftrightarrow> (\<forall>a. unat a \<notin> F \<union> {unat base} \<longrightarrow> hmem st' a = hmem st a)"

lemma block_header_in:
  "blocks base brk fl \<Longrightarrow> b \<in> set fl \<Longrightarrow> unat (fst b) \<in> fbytes fl \<union> {unat base}"
  using blocks_first [of base brk fl b] by (fastforce simp: fbytes_def bytes_def bend_def unat_gt_0)

lemma free_list:
  assumes bl: "blocks base brk fl" and ls: "lseg (hmem st) base fl base" and fp: "freep st \<in> fst ` set fl"
    and new: "h_size (hmem st bp) = n" "n \<noteq> 0" "unat base < unat bp" "bend (bp, n) \<le> brk" and brk: "brk < 2 ^ 32"
    and dis: "bytes (bp, n) \<inter> fbytes fl = {}"
  obtains fl' st' where "\<And>k. length fl \<le> k \<Longrightarrow> ufree k (hadd bp 1) st = Some st'" and "blocks base brk fl'"
    and "lseg (hmem st') base fl' base" and "freep st' \<in> fst ` set fl'" and "fbytes fl' = fbytes fl \<union> bytes (bp, n)"
    and "same_outside base (fbytes fl \<union> bytes (bp, n)) st st'" and "\<exists>d \<in> set fl'. unat n \<le> unat (snd d)"
proof -
  obtain xs b ys where p: "fl = xs @ b # ys" "fits brk b (bp, n) ys" "unat (fst b) < unat bp"
      "\<forall>c \<in> set ys. unat bp < unat (fst c)"
    using place_of [OF bl, of "(bp, n)"] new dis unfolding fst_conv snd_conv by blast
  let ?m = "hmem st" and ?p = "fst b" and ?zs = "right_of (bp, n) ys"
  let ?m1 = "join_right bp ?p ?m"
  let ?st' = "st\<lparr>hmem := join_left bp ?p ?m1, freep := ?p\<rparr>"
  have bp: "?p \<noteq> bp" "bp \<notin> fst ` set ys" using p(3,4) by fastforce+
  have "unat (fst c) < unat bp" if "c \<in> set xs" for c
    using blocks_asc(1) [OF bl [unfolded p(1)]] that bend_ge [of c] p(3) by fastforce
  then have bx: "bp \<notin> fst ` set xs" by force
  have l: "lseg ?m base xs ?p" "h_size (?m ?p) = snd b" "lseg ?m (h_ptr (?m ?p)) ys base"
    using ls unfolding p(1) lseg_mid by auto
  have "hadd bp n \<noteq> base" using new(3,4) brk by (simp add: hadd_eq_iff bend_def)
  then have j1: "lseg ?m1 bp ?zs base" and o1: "a \<noteq> bp \<Longrightarrow> ?m1 a = ?m a" for a
    using join_right_lseg [OF l(3) bp(2,1)] new(1) by auto
  note r = right_of_blocks [OF bl [unfolded p(1)] p(2) brk] and L = left_of_blocks [OF bl [unfolded p(1)] p(2) brk]
  have pn: "?p \<notin> fst ` set ?zs" using r(5) p(3) by fastforce
  have j2: "lseg (join_left bp ?p ?m1) ?p (left_of b ?zs) base" and o2: "a \<noteq> ?p \<Longrightarrow> join_left bp ?p ?m1 a = ?m1 a" for a
    using join_left_lseg [OF j1 r(2) pn] o1 [OF bp(1)] l(2) by auto
  have "lseg (join_left bp ?p ?m1) base xs ?p = lseg ?m base xs ?p"
  proof (rule lseg_frame)
    fix a
    assume "a \<in> fst ` set xs"
    then have "a \<noteq> bp" "a \<noteq> ?p" using bx blocks_no_self(1) [OF bl [unfolded p(1)]] by metis+
    then show "join_left bp ?p ?m1 a = ?m a" using o1 o2 by simp
  qed
  then have ls': "lseg (hmem ?st') base (xs @ left_of b ?zs) base" using j2 l(1) by (auto simp: lseg_append)
  have "ufree k (hadd bp 1) st = Some ?st'" if "length fl \<le> k" for k
    using free_find_place [of base brk xs ?p "snd b" ys ?m bp "freep st" k] bl ls fp p that
    by (simp add: ufree_def hadd_def)
  moreover have "?p \<in> fst ` set (xs @ left_of b ?zs)" using L(3,4) by (metis Un_iff hd_in_set image_eqI set_append)
  moreover have "same_outside base (fbytes fl \<union> bytes (bp, n)) st ?st'"
  proof -
    have "unat ?p \<in> fbytes fl \<union> {unat base}" using block_header_in [OF bl, of b] p(1) by simp
    moreover have "unat bp \<in> bytes (bp, n)" using new(2) by (simp add: bytes_def bend_def unat_gt_0)
    ultimately have "a \<noteq> bp \<and> a \<noteq> ?p" if "unat a \<notin> fbytes fl \<union> bytes (bp, n) \<union> {unat base}" for a using that by auto
    then show ?thesis using o1 o2 by (simp add: same_outside_def)
  qed
  ultimately show thesis using that [of ?st' "xs @ left_of b ?zs"] L(1,2,5) ls' p(1) by auto
qed

section \<open>Taking a block\<close>

lemma lseg_other:
  assumes "a \<notin> fst ` set zs"
  shows "lseg (m(a := h)) u zs v = lseg m u zs v"
proof (rule lseg_frame)
  fix b
  assume "b \<in> fst ` set zs"
  then have "b \<noteq> a" using assms by metis
  then show "(m(a := h)) b = m b" by simp
qed

lemma lseg_upd_ptr:
  assumes "fst c \<notin> fst ` set xs" and "fst c \<notin> fst ` set ys" and "lseg m p xs (fst c)" and "h_size (m (fst c)) = snd c"
    and "lseg m r ys q"
  shows "lseg (set_ptr (fst c) r m) p (xs @ c # ys) q"
  using assms by (simp add: lseg_mid set_ptr_def lseg_other)

text \<open>The block in front of \<open>b\<close>, and \<open>b\<close> itself cut down or taken out.\<close>

lemma take_exact:
  assumes bl: "blocks base brk (xs @ c # b # ys)" and ls: "lseg m base (xs @ c # b # ys) base"
  shows "blocks base brk (xs @ c # ys)" and "lseg (set_ptr (fst c) (h_ptr (m (fst b))) m) base (xs @ c # ys) base"
    and "fbytes (xs @ c # ys) = fbytes (xs @ c # b # ys) - bytes b"
proof -
  show "blocks base brk (xs @ c # ys)" using bl by (cases xs) (auto simp: blocks_def sorted_wrt_append)
  have n: "fst c \<notin> fst ` set xs" "fst c \<notin> fst ` set ys" using blocks_no_self [OF bl] by auto
  show "lseg (set_ptr (fst c) (h_ptr (m (fst b))) m) base (xs @ c # ys) base"
    using lseg_upd_ptr [OF n] ls by (auto simp: lseg_mid)
  have asc: "\<forall>d \<in> set (xs @ [c]). bend d < unat (fst b)" "\<forall>d \<in> set ys. bend b < unat (fst d)"
    using blocks_asc(1,2) [of base brk "xs @ [c]" b ys] bl by auto
  have "\<forall>d \<in> set (xs @ c # ys). bytes d \<inter> bytes b = {}"
    using asc bend_ge by (fastforce simp: bytes_def)
  then show "fbytes (xs @ c # ys) = fbytes (xs @ c # b # ys) - bytes b" by (auto simp: fbytes_def)
qed

lemma take_tail:
  assumes bl: "blocks base brk (us @ b # ys)" and ls: "lseg m base (us @ b # ys) base" and us: "us \<noteq> []"
    and nu: "nu < snd b" "nu \<noteq> 0" and brk: "brk < 2 ^ 32"
  defines "b' \<equiv> (fst b, snd b - nu)" and "p \<equiv> hadd (fst b) (snd b - nu)"
  defines "m' \<equiv> set_size p nu (set_size (fst b) (snd b - nu) m)"
  shows "blocks base brk (us @ b' # ys)" and "lseg m' base (us @ b' # ys) base"
    and "fbytes (us @ b' # ys) = fbytes (us @ b # ys) - bytes (p, nu)" and "bytes (p, nu) \<subseteq> bytes b" and "bend (p, nu) = bend b"
    and "unat p = unat (fst b) + 8 * unat (snd b - nu)"
proof -
  have lt: "unat nu < unat (snd b)" using nu(1) by (rule word_less_nat_alt [THEN iffD1])
  then have d: "unat (snd b - nu) = unat (snd b) - unat nu" by (simp add: unat_sub_if')
  have "0 < unat nu" using nu(2) by (simp add: unat_gt_0)
  then have sz: "unat (snd b - nu) = unat (snd b) - unat nu" "unat nu < unat (snd b)" "unat nu \<noteq> 0"
    using lt d by auto
  have be: "bend b \<le> brk" using bl by (simp add: blocks_def)
  then show p: "unat p = unat (fst b) + 8 * unat (snd b - nu)"
    using brk sz by (simp add: p_def unat_hadd bend_def)
  show bp: "bend (p, nu) = bend b" using p sz by (simp add: bend_def)
  have bb: "bend b' = unat p" "bend b' < bend b" using p sz by (auto simp: bend_def b'_def)
  have "unat (snd b - nu) \<noteq> 0" using sz by simp
  then have nz: "snd b - nu \<noteq> 0" by (metis unat_0)
  show sub: "bytes (p, nu) \<subseteq> bytes b" using p bp by (auto simp: bytes_def)
  have bs: "bytes b = bytes b' \<union> bytes (p, nu)" "bytes b' \<inter> bytes (p, nu) = {}"
    using p bp bb by (auto simp: bytes_def b'_def bend_def)
  note asc = blocks_asc [OF bl]
  have "\<forall>d \<in> set us. bytes d \<inter> bytes b = {}" "\<forall>d \<in> set ys. bytes d \<inter> bytes b = {}"
    using asc(1,2) bend_ge by (fastforce simp: bytes_def)+
  then have "fbytes us \<inter> bytes b = {}" "fbytes ys \<inter> bytes b = {}" by (auto simp: fbytes_def)
  then show "fbytes (us @ b' # ys) = fbytes (us @ b # ys) - bytes (p, nu)" using bs by auto
  have "\<forall>c \<in> set ys. bend b' < unat (fst c)" using asc(2) bb(2) less_trans by blast
  moreover have "fst b' = fst b" "snd b' \<noteq> 0" "bend b' \<le> brk" using nz be bb by (simp_all add: b'_def)
  ultimately show "blocks base brk (us @ b' # ys)" using bl us by (cases us) (auto simp: blocks_def sorted_wrt_append)
  have pb: "unat (fst b) < unat p" "unat p < bend b" using p bb sz by simp_all
  have out: "p \<noteq> fst d" if d: "d \<in> set (us @ b # ys)" for d
  proof -
    consider "d \<in> set us" | "d = b" | "d \<in> set ys" using d by auto
    then have "unat p \<noteq> unat (fst d)"
    proof cases
      case 1
      then have "bend d < unat (fst b)" using asc(1) by blast
      then show ?thesis using pb bend_ge [of d] by linarith
    next
      case 2
      then show ?thesis using pb by simp
    next
      case 3
      then have "bend b < unat (fst d)" using asc(2) by blast
      then show ?thesis using pb by linarith
    qed
    then show ?thesis by metis
  qed
  have "p \<notin> fst ` set us" "p \<notin> fst ` set ys" using out by fastforce+
  moreover have "p \<noteq> fst b" using out by simp
  ultimately show "lseg m' base (us @ b' # ys) base"
    using ls blocks_no_self [OF bl] by (simp add: lseg_mid b'_def m'_def set_size_def lseg_other)
qed

text \<open>A block \<open>b\<close> of \<open>nu\<close> units was taken from the free bytes \<open>F\<close>.\<close>

definition took_block :: "u32 \<Rightarrow> nat \<Rightarrow> nat set \<Rightarrow> u32 \<Rightarrow> u32 \<Rightarrow> uheap \<Rightarrow> bool" where
  "took_block base brk F nu b st \<longleftrightarrow> h_size (hmem st b) = nu \<and> bytes (b, nu) \<subseteq> F
     \<and> heap_rep base brk st (F - bytes (b, nu))"

lemma heap_repI:
  "base \<noteq> 0 \<Longrightarrow> blocks base brk fl \<Longrightarrow> lseg (hmem st) base fl base \<Longrightarrow> freep st \<in> fst ` set fl \<Longrightarrow> fbytes fl = F \<Longrightarrow>
    heap_rep base brk st F"
  by (auto simp: heap_rep_def)

lemma same_outside_one:
  "unat a \<in> F \<union> {unat base} \<Longrightarrow> hmem st' = (hmem st)(a := h) \<Longrightarrow> same_outside base F st st'"
  by (auto simp: same_outside_def)

lemma same_outside_trans:
  "same_outside base F st st' \<Longrightarrow> same_outside base G st' st'' \<Longrightarrow> same_outside base (F \<union> G) st st''"
  by (simp add: same_outside_def)

lemma take_block_took:
  assumes bl: "blocks base brk (xs @ c # b # ys)" and ls: "lseg (hmem st) base (xs @ c # b # ys) base" and base: "base \<noteq> 0"
    and nu: "nu \<le> snd b" "nu \<noteq> 0" and brk: "brk < 2 ^ 32"
  shows "\<exists>p st'. take_block nu (fst c) (fst b) st = (hadd p 1, st')
    \<and> took_block base brk (fbytes (xs @ c # b # ys)) nu p st' \<and> same_outside base (fbytes (xs @ c # b # ys)) st st'"
proof (cases "snd b = nu")
  case True
  let ?st = "st\<lparr>hmem := set_ptr (fst c) (h_ptr (hmem st (fst b))) (hmem st), freep := fst c\<rparr>"
  note e = take_exact [OF bl ls]
  have s: "h_size (hmem st (fst b)) = nu" using ls True by (auto simp: lseg_mid)
  have "fst c \<noteq> fst b" using blocks_no_self(2) [OF bl] by auto
  moreover have "bytes (fst b, nu) = bytes b" using True by (cases b) simp
  moreover have "heap_rep base brk ?st (fbytes (xs @ c # b # ys) - bytes b)"
    by (rule heap_repI [OF base e(1)]) (use e(2,3) in simp_all)
  moreover have "bytes b \<subseteq> fbytes (xs @ c # b # ys)" by auto
  ultimately have "took_block base brk (fbytes (xs @ c # b # ys)) nu (fst b) ?st"
    using s by (simp add: took_block_def set_ptr_def)
  moreover have "same_outside base (fbytes (xs @ c # b # ys)) st ?st"
    by (rule same_outside_one [OF block_header_in [OF bl, of c]]) (simp_all add: set_ptr_def)
  ultimately show ?thesis using s by (intro exI [of _ "fst b"] exI [of _ ?st]) (simp add: take_block_def Let_def)
next
  case False
  then have lt: "nu < snd b" using nu by simp
  have e: "xs @ c # b # ys = (xs @ [c]) @ b # ys" by simp
  let ?p = "hadd (fst b) (snd b - nu)"
  let ?m = "set_size ?p nu (set_size (fst b) (snd b - nu) (hmem st))"
  let ?st = "st\<lparr>hmem := ?m, freep := fst c\<rparr>"
  note t = take_tail [OF bl [unfolded e] ls [unfolded e] _ lt nu(2) brk, folded e, simplified]
  have "took_block base brk (fbytes (xs @ c # b # ys)) nu ?p ?st"
    unfolding took_block_def
  proof (intro conjI)
    show "bytes (?p, nu) \<subseteq> fbytes (xs @ c # b # ys)" using t(4) by (auto simp: fbytes_def)
    show "heap_rep base brk ?st (fbytes (xs @ c # b # ys) - bytes (?p, nu))"
      by (rule heap_repI [OF base t(1)]) (use t(2,3) in simp_all)
  qed (simp add: set_size_def)
  moreover have "same_outside base (fbytes (xs @ c # b # ys)) st ?st"
  proof -
    have "unat (fst b) \<in> fbytes (xs @ c # b # ys) \<union> {unat base}" using block_header_in [OF bl, of b] by simp
    moreover have "unat ?p \<in> bytes (?p, nu)" using nu(2) by (simp add: bytes_def bend_def unat_gt_0)
    then have "unat ?p \<in> bytes b" using t(4) by blast
    then have "unat ?p \<in> fbytes (xs @ c # b # ys)" by (simp add: fbytes_def)
    ultimately have "a \<noteq> fst b \<and> a \<noteq> ?p" if "unat a \<notin> fbytes (xs @ c # b # ys) \<union> {unat base}" for a using that by blast
    then show ?thesis by (simp add: same_outside_def set_size_def)
  qed
  moreover have "h_size (hmem st (fst b)) = snd b" using ls by (auto simp: lseg_mid)
  ultimately show ?thesis using False
    by (intro exI [of _ ?p] exI [of _ ?st]) (simp add: take_block_def Let_def set_size_def)
qed

section \<open>The search\<close>

definition last_addr :: "u32 \<Rightarrow> block list \<Rightarrow> u32" where
  "last_addr p zs = (if zs = [] then p else fst (last zs))"

lemma malloc_skip:
  "lseg (hmem st) p zs r \<Longrightarrow> \<forall>b \<in> set zs. snd b < nu \<and> fst b \<noteq> freep st \<Longrightarrow>
    malloc_loop (length zs + k) nu prevp p st = malloc_loop k nu (last_addr prevp zs) r st"
  by (induction zs arbitrary: p prevp) (auto simp: last_addr_def)

text \<open>The list from the block behind \<^verbatim>\<open>freep\<close> around to \<^verbatim>\<open>freep\<close>.\<close>

lemma lseg_rotate:
  assumes "lseg m base (us @ f # vs) base"
  shows "lseg m (h_ptr (m (fst f))) (vs @ us) (fst f)"
  using assms by (auto simp: lseg_mid lseg_append)

lemma predecessor:
  assumes "lseg m base fl base" and "c \<in> set fl" and "h_ptr (m (fst c)) = fst b" and "b \<in> set fl" and "fst b \<noteq> base"
    and "\<And>d. d \<in> set fl \<Longrightarrow> fst d = fst b \<Longrightarrow> d = b"
  obtains xs ys where "fl = xs @ c # b # ys"
proof -
  obtain xs zs where fl: "fl = xs @ c # zs" using assms(2) split_list by fastforce
  have "h_ptr (m (fst c)) = (case zs of [] \<Rightarrow> base | d # _ \<Rightarrow> fst d)" using lseg_next assms(1) fl by metis
  then obtain d ys where "zs = d # ys" "fst d = fst b" using assms(3,5) by (cases zs) auto
  then show thesis using that assms(6) [of d] fl by auto
qed

lemma blocks_unique:
  assumes "blocks base brk fl" and "b \<in> set fl" and "d \<in> set fl" and "fst d = fst b"
  shows "d = b"
proof -
  obtain us vs where fl: "fl = us @ b # vs" using assms(2) split_list by fastforce
  have "\<forall>x \<in> set us \<union> set vs. fst x \<noteq> fst b" using blocks_no_self [OF assms(1) [unfolded fl]] by (auto simp: image_iff)
  moreover have "d \<in> set us \<union> set vs \<or> d = b" using assms(3) unfolding fl by auto
  ultimately show ?thesis using assms(4) by blast
qed

lemma malloc_fit:
  assumes bl: "blocks base brk fl" and ls: "lseg (hmem st) base fl base" and fp: "freep st \<in> fst ` set fl" and base: "base \<noteq> 0"
    and fit: "\<exists>d \<in> set fl. nu \<le> snd d" and nu: "nu \<noteq> 0" and brk: "brk < 2 ^ 32" and k: "length fl \<le> k"
  shows "\<exists>p st'. malloc_loop k nu (freep st) (h_ptr (hmem st (freep st))) st = URet (hadd p 1, st')
    \<and> took_block base brk (fbytes fl) nu p st' \<and> same_outside base (fbytes fl) st st'"
proof -
  let ?m = "hmem st"
  obtain f us vs where f: "fst f = freep st" "fl = us @ f # vs" using fp by (metis imageE split_list)
  have rot: "lseg ?m (h_ptr (?m (fst f))) ((vs @ us) @ [f]) (h_ptr (?m (fst f)))"
    unfolding lseg_mid using lseg_rotate [OF ls [unfolded f(2)]] ls [unfolded f(2) lseg_mid] by simp
  have ex: "\<exists>d \<in> set ((vs @ us) @ [f]). nu \<le> snd d" using fit f(2) by auto
  obtain as b bs where cyc: "(vs @ us) @ [f] = as @ b # bs" "nu \<le> snd b" "\<forall>x \<in> set as. \<not> nu \<le> snd x"
    using split_list_first_prop [OF ex] by blast
  have as: "set as \<subseteq> set (vs @ us)" "b \<in> set fl" "length as < length fl"
  proof -
    have "butlast ((vs @ us) @ [f]) = as @ butlast (b # bs)" using cyc(1) by (simp add: butlast_append)
    then show "set as \<subseteq> set (vs @ us)" by (metis Un_upper1 butlast_snoc set_append)
    have "b \<in> set ((vs @ us) @ [f])" using cyc(1) by simp
    then show "b \<in> set fl" using f(2) by auto
    have "length ((vs @ us) @ [f]) = length (as @ b # bs)" using cyc(1) by simp
    then show "length as < length fl" using f(2) by simp
  qed
  have go: "lseg ?m (h_ptr (?m (fst f))) as (fst b)" "h_size (?m (fst b)) = snd b"
    using rot unfolding cyc(1) lseg_mid by auto
  define c where "c = (if as = [] then f else last as)"
  have c: "c \<in> set fl" "fst c = last_addr (fst f) as" using as(1) f(2) unfolding c_def last_addr_def by (cases as rule: rev_cases) auto
  have nxt: "h_ptr (?m (fst c)) = fst b"
    using go(1) lseg_next [of ?m _ "butlast as" "last as" "[]"] by (auto simp: c_def)
  have "snd b \<noteq> 0" using cyc(2) nu by auto
  then have "b \<noteq> (base, 0)" by auto
  moreover have "(base, 0) \<in> set fl" using bl by (metis blocks_def hd_in_set)
  ultimately have "fst b \<noteq> base" using blocks_unique [OF bl as(2), of "(base, 0)"] by auto
  then obtain xs ys where fl: "fl = xs @ c # b # ys"
    using predecessor [OF ls c(1) nxt as(2)] blocks_unique [OF bl as(2)] by metis
  have "length as < k" using as(3) k by linarith
  then obtain j where "k = Suc (length as + j)" using less_imp_Suc_add by blast
  then have j: "k = length as + Suc j" by simp
  have "\<forall>x \<in> set (vs @ us). fst x \<noteq> fst f" using blocks_no_self [OF bl [unfolded f(2)]] by (auto simp: image_iff)
  then have "\<forall>x \<in> set as. snd x < nu \<and> fst x \<noteq> freep st" using cyc(3) as(1) f(1) by (auto simp: not_le)
  then have "malloc_loop k nu (freep st) (h_ptr (?m (freep st))) st = malloc_loop (Suc j) nu (fst c) (fst b) st"
    using malloc_skip [OF go(1) [unfolded f(1)], of nu "Suc j" "freep st"] unfolding j c(2) f(1) by blast
  also have "\<dots> = URet (take_block nu (fst c) (fst b) st)" using go(2) cyc(2) by simp
  finally show ?thesis using take_block_took [OF bl [unfolded fl] ls [unfolded fl] base cyc(2) nu brk] fl by auto
qed

lemma malloc_nofit:
  assumes bl: "blocks base brk fl" and ls: "lseg (hmem st) base fl base" and fp: "freep st \<in> fst ` set fl"
    and nofit: "\<forall>d \<in> set fl. snd d < nu"
  shows "malloc_loop (length fl + k) nu (freep st) (h_ptr (hmem st (freep st))) st =
    ubnd (morecore k nu st) (\<lambda>(p, st). if p = 0 then URet (0, st) else malloc_loop k nu p (h_ptr (hmem st p)) st)"
proof -
  let ?m = "hmem st"
  obtain f us vs where f: "fst f = freep st" "fl = us @ f # vs" using fp by (metis imageE split_list)
  have rot: "lseg ?m (h_ptr (?m (fst f))) (vs @ us) (fst f)" using lseg_rotate [OF ls [unfolded f(2)]] .
  have "h_size (?m (fst f)) = snd f" using ls unfolding f(2) lseg_mid by simp
  moreover have "\<not> nu \<le> snd f" using nofit f(2) by (simp add: not_le)
  ultimately have last: "malloc_loop (Suc k) nu p (fst f) st =
      ubnd (morecore k nu st) (\<lambda>(p, st). if p = 0 then URet (0, st) else malloc_loop k nu p (h_ptr (hmem st p)) st)" for p
    using f(1) by simp
  have "\<forall>x \<in> set (vs @ us). snd x < nu \<and> fst x \<noteq> freep st"
    using nofit f blocks_no_self [OF bl [unfolded f(2)]] by force
  then have "malloc_loop (length (vs @ us) + Suc k) nu (freep st) (h_ptr (?m (fst f))) st =
      malloc_loop (Suc k) nu (last_addr (freep st) (vs @ us)) (fst f) st"
    using malloc_skip [OF rot] by blast
  note e = trans [OF this last, unfolded f(1)]
  have len: "length fl + k = length (vs @ us) + Suc k" using f(2) by simp
  show ?thesis unfolding len by (rule e)
qed

section \<open>More memory from the kernel\<close>

definition core_units :: "u32 \<Rightarrow> nat" where
  "core_units nu = max 4096 (unat nu)"

lemma blocks_more: "blocks base brk fl \<Longrightarrow> brk \<le> brk' \<Longrightarrow> blocks base brk' fl"
  by (auto simp: blocks_def intro: le_trans)

lemma blocks_below:
  assumes "blocks base brk fl" and "unat base < brk" and "b \<in> set fl"
  shows "unat (fst b) < brk" and "fst b = 0 \<Longrightarrow> base = 0"
proof -
  have "bend b \<le> brk" using assms by (simp add: blocks_def)
  then show "unat (fst b) < brk"
    using blocks_first [OF assms(1,3)] assms(2) by (auto simp: bend_def unat_gt_0 [symmetric])
  obtain us vs where fl: "fl = us @ b # vs" using assms(3) split_list by fastforce
  show "fst b = 0 \<Longrightarrow> base = 0" using blocks_asc(5) [OF assms(1) [unfolded fl], of b] by (simp add: unat_eq_0)
qed

text \<open>What \<open>morecore\<close> asks for, as the \<^verbatim>\<open>int\<close> that \<^verbatim>\<open>sbrk\<close> takes.\<close>

lemma core_arg:
  assumes "8 * core_units nu < 2 ^ 31"
  shows "sint ((if nu < 4096 then 4096 else nu) * 8) = int (8 * core_units nu)"
proof -
  let ?nu = "if nu < 4096 then 4096 else nu"
  have "unat ?nu = core_units nu" by (auto simp: core_units_def word_less_nat_alt)
  then have "unat (?nu * 8) = 8 * core_units nu" using assms by (simp add: unat_word_ariths)
  then show ?thesis using assms by (simp add: sint_small)
qed

lemma morecore_fails:
  assumes "sys (USbrk (int (8 * core_units nu))) w = ((-1, d), w')" and "8 * core_units nu < 2 ^ 31"
  shows "urun sys (morecore k nu st) w = (Done (0, st), w')"
  using assms(1) core_arg [OF assms(2)] by (simp add: morecore_def usys_def Let_def)

lemma morecore_gives:
  assumes bl: "blocks base brk fl" and ls: "lseg (hmem st) base fl base" and fp: "freep st \<in> fst ` set fl"
    and base: "base \<noteq> 0" "unat base < brk" and nu: "8 * core_units nu < 2 ^ 31"
    and sys: "sys (USbrk (int (8 * core_units nu))) w = ((int brk, d), w')" and lim: "brk + 8 * core_units nu < 2 ^ 31"
  defines "brk' \<equiv> brk + 8 * core_units nu"
  obtains st' fl' where "\<And>k. length fl \<le> k \<Longrightarrow> urun sys (morecore k nu st) w = (Done (freep st', st'), w')"
    and "freep st' \<noteq> 0"
    and "blocks base brk' fl'" and "lseg (hmem st') base fl' base" and "freep st' \<in> fst ` set fl'"
    and "fbytes fl' = fbytes fl \<union> {brk ..< brk'}" and "\<exists>d \<in> set fl'. nu \<le> snd d"
    and "same_outside base (fbytes fl \<union> {brk ..< brk'}) st st'"
proof -
  define n where "n = (if nu < 4096 then 4096 else nu)"
  define hp :: u32 where "hp = of_nat brk"
  let ?st = "st\<lparr>hmem := set_size hp n (hmem st)\<rparr>"
  have n: "unat n = core_units nu" "n \<noteq> 0" "nu \<le> n"
    by (auto simp: n_def core_units_def word_less_nat_alt word_le_nat_alt)
  have n8: "sint (n * 8) = int (8 * core_units nu)" unfolding n_def by (rule core_arg [OF nu])
  have hp: "unat hp = brk" using lim by (simp add: hp_def unsigned_of_nat take_bit_nat_eq_self)
  have be: "bend (hp, n) = brk'" "bytes (hp, n) = {brk ..< brk'}" using hp n by (simp_all add: bend_def bytes_def brk'_def)
  have bl': "blocks base brk' fl" by (rule blocks_more [OF bl]) (simp add: brk'_def)
  have "unat (fst c) \<noteq> unat hp" if "c \<in> set fl" for c using blocks_below(1) [OF bl base(2) that] hp by simp
  then have "hp \<notin> fst ` set fl" by auto
  then have ls': "lseg (hmem ?st) base fl base" using ls by (simp add: set_size_def lseg_other)
  have dis: "bytes (hp, n) \<inter> fbytes fl = {}" using bl be by (fastforce simp: blocks_def fbytes_def bytes_def)
  have pre: "freep ?st \<in> fst ` set fl" "h_size (hmem ?st hp) = n" "unat base < unat hp" "bend (hp, n) \<le> brk'" "brk' < 2 ^ 32"
    using fp base(2) hp be(1) lim by (simp_all add: set_size_def brk'_def)
  obtain fl' st' where f: "\<And>k. length fl \<le> k \<Longrightarrow> ufree k (hadd hp 1) ?st = Some st'" "blocks base brk' fl'"
    "lseg (hmem st') base fl' base" "freep st' \<in> fst ` set fl'" "fbytes fl' = fbytes fl \<union> bytes (hp, n)"
    "same_outside base (fbytes fl \<union> bytes (hp, n)) ?st st'" "\<exists>d \<in> set fl'. unat n \<le> unat (snd d)"
    by (rule free_list [OF bl' ls' pre(1,2) n(2) pre(3,4,5) dis]) blast
  have "int brk \<noteq> -1" by simp
  then have "urun sys (morecore k nu st) w = (Done (freep st', st'), w')" if "length fl \<le> k" for k
    using f(1) [OF that] sys n8 by (simp add: morecore_def usys_def Let_def n_def [symmetric] hp_def [symmetric])
  moreover have "freep st' \<noteq> 0"
  proof -
    obtain b where "b \<in> set fl'" "freep st' = fst b" using f(4) by auto
    then show ?thesis using blocks_below(2) [OF f(2), of b] base by (auto simp: brk'_def)
  qed
  moreover have "\<exists>d \<in> set fl'. nu \<le> snd d" using f(7) n(3) by (meson le_trans word_le_nat_alt)
  moreover have "same_outside base (fbytes fl \<union> {brk ..< brk'}) st st'"
  proof -
    have "unat hp \<in> bytes (hp, n)" using n(2) by (simp add: bytes_def bend_def unat_gt_0)
    then have "hmem ?st a = hmem st a" if "unat a \<notin> fbytes fl \<union> bytes (hp, n) \<union> {unat base}" for a
      using that by (auto simp: set_size_def)
    then show ?thesis using f(6) be(2) by (simp add: same_outside_def)
  qed
  moreover have "fbytes fl' = fbytes fl \<union> {brk ..< brk'}" using f(5) be(2) by simp
  ultimately show thesis using that f(2-4) by blast
qed

section \<open>The two routines\<close>

text \<open>Before the first call the list is not there yet.\<close>

definition heap_ok :: "u32 \<Rightarrow> nat \<Rightarrow> uheap \<Rightarrow> nat set \<Rightarrow> bool" where
  "heap_ok base brk st F \<longleftrightarrow> unat base < brk \<and> base \<noteq> 0 \<and> (if freep st = 0 then F = {} else heap_rep base brk st F)"

text \<open>What has happened when \<open>malloc\<close> returns \<open>p\<close>, and the program's memory reached to \<open>brk\<close> before and to \<open>brk'\<close> after.\<close>

definition malloc_done :: "u32 \<Rightarrow> nat set \<Rightarrow> u32 \<Rightarrow> uheap \<Rightarrow> nat \<Rightarrow> uheap \<Rightarrow> u32 \<Rightarrow> nat \<Rightarrow> bool" where
  "malloc_done base F nu st brk st' p brk' \<longleftrightarrow>
     (if p = 0 then brk' = brk \<and> heap_rep base brk st' F \<and> same_outside base F st st'
      else brk \<le> brk' \<and> brk' < 2 ^ 31 \<and> took_block base brk' (F \<union> {brk ..< brk'}) nu (p - 8) st'
        \<and> same_outside base (F \<union> {brk ..< brk'}) st st')"

lemma took_nonzero:
  assumes "took_block base brk F nu b st" and "nu \<noteq> 0" and "\<And>x. x \<in> F \<Longrightarrow> x < 2 ^ 31"
  shows "hadd b 1 \<noteq> 0" and "hadd b 1 - 8 = b"
proof -
  have "unat b \<in> bytes (b, nu)" using assms(2) by (simp add: bytes_def bend_def unat_gt_0)
  then have "unat b < 2 ^ 31" using assms(1,3) by (auto simp: took_block_def)
  then have "unat (hadd b 1) = unat b + 8" by (simp add: unat_hadd)
  then show "hadd b 1 \<noteq> 0" by auto
  show "hadd b 1 - 8 = b" by (simp add: hadd_def)
qed

lemma fbytes_below: "blocks base brk fl \<Longrightarrow> x \<in> fbytes fl \<Longrightarrow> x < brk"
  by (fastforce simp: blocks_def fbytes_def bytes_def)

lemma nunits_of_enough:
  assumes "unat nbytes < 2 ^ 31"
  shows "unat (nunits_of nbytes) = (unat nbytes + 7) div 8 + 1"
proof -
  have "nbytes + 8 - 1 = nbytes + 7" by simp
  moreover have u: "unat (nbytes + 7) = unat nbytes + 7" using assms by (simp add: unat_word_ariths)
  moreover have "unat ((nbytes + 7) div 8) = (unat nbytes + 7) div 8" using u by (simp add: unat_div_distrib)
  ultimately show ?thesis using assms by (simp add: nunits_of_def unat_word_ariths)
qed

text \<open>Close to the largest size the sum wraps around, and a huge request is answered with an empty block.\<close>

lemma nunits_of_wraps: "nunits_of 0xFFFFFFFF = 1"
  by (simp add: nunits_of_def)

text \<open>Free blocks do not touch, so a run of free bytes lies in one of them.\<close>

lemma blocks_apart:
  assumes "blocks base brk fl" and "d \<in> set fl" and "e \<in> set fl" and "d \<noteq> e"
  shows "bend d < unat (fst e) \<or> bend e < unat (fst d)"
proof -
  obtain i j where "i < length fl" "j < length fl" "fl ! i = d" "fl ! j = e" "i \<noteq> j"
    using assms(2-4) by (metis in_set_conv_nth)
  moreover have "sorted_wrt (\<lambda>b c. bend b < unat (fst c)) fl" using assms(1) by (simp add: blocks_def)
  ultimately show ?thesis by (metis linorder_neqE_nat sorted_wrt_nth_less)
qed

lemma run_in_block:
  assumes bl: "blocks base brk fl" and "{a ..< a + Suc n} \<subseteq> fbytes fl"
  shows "\<exists>d \<in> set fl. {a ..< a + Suc n} \<subseteq> bytes d"
  using assms(2)
proof (induction n)
  case 0
  then show ?case by (auto simp: fbytes_def)
next
  case (Suc n)
  have "{a ..< a + Suc n} \<subseteq> fbytes fl" using Suc.prems by auto
  with Suc.IH obtain d where d: "d \<in> set fl" "{a ..< a + Suc n} \<subseteq> bytes d" by blast
  have "a + Suc n \<in> fbytes fl" using Suc.prems by auto
  then obtain e where e: "e \<in> set fl" "a + Suc n \<in> bytes e" by (auto simp: fbytes_def)
  have "a \<in> bytes d" "a + n \<in> bytes d" using d(2) by auto
  then have "d = e" using blocks_apart [OF bl d(1) e(1)] e(2) by (fastforce simp: bytes_def)
  then have "{a ..< a + Suc (Suc n)} \<subseteq> bytes d" using d(2) e(2) by (auto simp: less_Suc_eq)
  with d(1) show ?case by blast
qed

lemma no_run:
  assumes "blocks base brk fl" and "\<forall>d \<in> set fl. snd d < nu" and "nu \<noteq> 0"
  shows "\<not> {a ..< a + 8 * unat nu} \<subseteq> fbytes fl"
proof
  assume run: "{a ..< a + 8 * unat nu} \<subseteq> fbytes fl"
  have pos: "0 < unat nu" using assms(3) by (simp add: unat_gt_0)
  then have "8 * unat nu = Suc (8 * unat nu - 1)" by simp
  with run run_in_block [OF assms(1), of a "8 * unat nu - 1"]
  obtain d where d: "d \<in> set fl" "{a ..< a + 8 * unat nu} \<subseteq> bytes d" by auto
  have "a \<in> {a ..< a + 8 * unat nu}" "a + 8 * unat nu - 1 \<in> {a ..< a + 8 * unat nu}" using pos by auto
  then have "a \<in> bytes d" "a + 8 * unat nu - 1 \<in> bytes d" using d(2) by blast+
  then have "unat nu \<le> unat (snd d)" by (auto simp: bytes_def bend_def)
  moreover have "unat (snd d) < unat nu" using assms(2) d(1) by (simp add: word_less_nat_alt)
  ultimately show False by simp
qed

section \<open>The contract of sbrk\<close>

text \<open>
  What the heap relies on, of a kernel \<open>sys\<close> with the program's memory up to \<open>brk\<close>: a request for \<open>n\<close> more bytes that the kernel handles
  without a panic (\<open>ok\<close>) is answered by -1 and no change, or by the old end of the memory and \<open>n\<close> more bytes.
\<close>

locale sbrk_calls =
  fixes sys :: "ucall \<Rightarrow> 'w \<Rightarrow> reply \<times> 'w" and brk :: "'w \<Rightarrow> nat" and ok :: "int \<Rightarrow> 'w \<Rightarrow> bool"
  assumes sbrk_reply: "ok n w \<Longrightarrow> 0 < n \<Longrightarrow> n < 2 ^ 31 \<Longrightarrow> brk w < 2 ^ 31 \<Longrightarrow>
    \<exists>d w'. sys (USbrk n) w = ((-1, d), w') \<and> brk w' = brk w
      \<or> sys (USbrk n) w = ((int (brk w), d), w') \<and> brk w' = brk w + nat n \<and> brk w' < 2 ^ 31"
begin

lemma malloc_loop_fits:
  assumes bl: "blocks base (brk w) fl" and ls: "lseg (hmem st) base fl base" and fp: "freep st \<in> fst ` set fl" and base: "base \<noteq> 0"
    and fit: "\<exists>d \<in> set fl. nu \<le> snd d" and nu: "nu \<noteq> 0" and lim: "brk w < 2 ^ 31" and k: "length fl \<le> k"
  shows "\<exists>p st'. malloc_loop k nu (freep st) (h_ptr (hmem st (freep st))) st = URet (p, st')
    \<and> p \<noteq> 0 \<and> took_block base (brk w) (fbytes fl) nu (p - 8) st' \<and> same_outside base (fbytes fl) st st'"
proof -
  have "brk w < 2 ^ 32" using lim by simp
  from malloc_fit [OF bl ls fp base fit nu this k] obtain p st'
    where p: "malloc_loop k nu (freep st) (h_ptr (hmem st (freep st))) st = URet (hadd p 1, st')"
      "took_block base (brk w) (fbytes fl) nu p st'" "same_outside base (fbytes fl) st st'" by blast
  have "x < 2 ^ 31" if "x \<in> fbytes fl" for x using fbytes_below [OF bl that] lim by simp
  from p took_nonzero [OF p(2) nu this] show ?thesis by (intro exI [of _ "hadd p 1"] exI [of _ st']) simp
qed

lemma malloc_loop_done:
  assumes bl: "blocks base (brk w) fl" and ls: "lseg (hmem st) base fl base" and fp: "freep st \<in> fst ` set fl"
    and base: "base \<noteq> 0" "unat base < brk w" and nu: "nu \<noteq> 0" "8 * core_units nu < 2 ^ 31" and lim: "brk w < 2 ^ 31"
    and ok: "ok (int (8 * core_units nu)) w"
  shows "\<exists>k0. \<forall>k \<ge> k0. \<exists>p st' w'.
    urun sys (malloc_loop k nu (freep st) (h_ptr (hmem st (freep st))) st) w = (Done (p, st'), w')
    \<and> malloc_done base (fbytes fl) nu st (brk w) st' p (brk w')
    \<and> (p = 0 \<longrightarrow> fst (fst (sys (USbrk (int (8 * core_units nu))) w)) = -1 \<and> (\<forall>d \<in> set fl. snd d < nu))"
proof (cases "\<exists>d \<in> set fl. nu \<le> snd d")
  case True
  note fits = malloc_loop_fits [OF bl ls fp base(1) True nu(1) lim]
  show ?thesis
  proof (intro exI [of _ "length fl"] allI impI)
    fix k
    assume "length fl \<le> k"
    from fits [OF this] lim show "\<exists>p st' w'. urun sys (malloc_loop k nu (freep st) (h_ptr (hmem st (freep st))) st) w = (Done (p, st'), w')
        \<and> malloc_done base (fbytes fl) nu st (brk w) st' p (brk w') \<and> (p = 0 \<longrightarrow> fst (fst (sys (USbrk (int (8 * core_units nu))) w)) = -1 \<and> (\<forall>d \<in> set fl. snd d < nu))"
      by (fastforce simp: malloc_done_def)
  qed
next
  case False
  then have nofit: "\<forall>d \<in> set fl. snd d < nu" by (simp add: not_le)
  note step = malloc_nofit [OF bl ls fp nofit]
  have "0 < int (8 * core_units nu)" "int (8 * core_units nu) < 2 ^ 31" using nu(2) by (simp_all add: core_units_def)
  from sbrk_reply [OF ok this lim] obtain d w'
    where "sys (USbrk (int (8 * core_units nu))) w = ((-1, d), w') \<and> brk w' = brk w
      \<or> sys (USbrk (int (8 * core_units nu))) w = ((int (brk w), d), w') \<and> brk w' = brk w + 8 * core_units nu \<and> brk w' < 2 ^ 31"
    by auto
  then consider (no) "sys (USbrk (int (8 * core_units nu))) w = ((-1, d), w')" "brk w' = brk w"
    | (yes) "sys (USbrk (int (8 * core_units nu))) w = ((int (brk w), d), w')" "brk w' = brk w + 8 * core_units nu" "brk w' < 2 ^ 31"
    by blast
  then show ?thesis
  proof cases
    case no
    have "heap_rep base (brk w) st (fbytes fl)" by (rule heap_repI [OF base(1) bl ls fp refl])
    moreover have "same_outside base (fbytes fl) st st" by (simp add: same_outside_def)
    ultimately have "urun sys (malloc_loop (length fl + k) nu (freep st) (h_ptr (hmem st (freep st))) st) w = (Done (0, st), w')
      \<and> malloc_done base (fbytes fl) nu st (brk w) st 0 (brk w')" for k
      using no(2) morecore_fails [where sys = sys and w = w and nu = nu and st = st, OF no(1) nu(2)] by (simp add: step urun_ubnd malloc_done_def)
    then show ?thesis using no(1) nofit by (metis fst_conv le_Suc_ex)
  next
    case yes
    have b': "brk w \<le> brk w'" using yes(2) by simp
    have lt: "brk w + 8 * core_units nu < 2 ^ 31" using yes(2,3) by simp
    obtain st1 fl1 where m: "\<And>k. length fl \<le> k \<Longrightarrow> urun sys (morecore k nu st) w = (Done (freep st1, st1), w')"
      "freep st1 \<noteq> 0" "blocks base (brk w') fl1" "lseg (hmem st1) base fl1 base" "freep st1 \<in> fst ` set fl1"
      "fbytes fl1 = fbytes fl \<union> {brk w ..< brk w'}" "\<exists>d \<in> set fl1. nu \<le> snd d" "same_outside base (fbytes fl \<union> {brk w ..< brk w'}) st st1"
      unfolding yes(2) by (rule morecore_gives [where sys = sys and w = w, OF bl ls fp base nu(2) yes(1) lt]) blast
    show ?thesis
    proof (rule exI [of _ "length fl + (length fl + length fl1)"], intro allI impI)
      fix k
      assume k: "length fl + (length fl + length fl1) \<le> k"
      define j where "j = k - length fl"
      have j: "k = length fl + j" "length fl \<le> j" "length fl1 \<le> j" using k by (simp_all add: j_def)
      obtain p st' where p: "malloc_loop j nu (freep st1) (h_ptr (hmem st1 (freep st1))) st1 = URet (p, st')" "p \<noteq> 0"
        "took_block base (brk w') (fbytes fl1) nu (p - 8) st'" "same_outside base (fbytes fl1) st1 st'"
        using malloc_loop_fits [OF m(3-5) base(1) m(7) nu(1) yes(3) j(3)] by blast
      have "same_outside base (fbytes fl \<union> {brk w ..< brk w'}) st st'"
        using same_outside_trans [OF m(8) p(4)] m(6) by simp
      then have "malloc_done base (fbytes fl) nu st (brk w) st' p (brk w')"
        using p(2,3) b' yes(3) m(6) by (simp add: malloc_done_def)
      moreover have "urun sys (malloc_loop k nu (freep st) (h_ptr (hmem st (freep st))) st) w = (Done (p, st'), w')"
        unfolding j(1) step using m(1) [OF j(2)] m(2) p(1) by (simp add: urun_ubnd)
      ultimately show "\<exists>p st' w'. urun sys (malloc_loop k nu (freep st) (h_ptr (hmem st (freep st))) st) w = (Done (p, st'), w')
        \<and> malloc_done base (fbytes fl) nu st (brk w) st' p (brk w') \<and> (p = 0 \<longrightarrow> fst (fst (sys (USbrk (int (8 * core_units nu))) w)) = -1 \<and> (\<forall>d \<in> set fl. snd d < nu))"
        using p(2) by blast
    qed
  qed
qed

lemma malloc_ends:
  assumes heap: "heap_ok base (brk w) st F" and lim: "brk w < 2 ^ 31" and n: "unat nbytes + 16 \<le> 2 ^ 31"
    and ok: "ok (int (8 * core_units (nunits_of nbytes))) w"
  shows "\<exists>k0. \<forall>k \<ge> k0. \<exists>p st' w'. urun sys (malloc k base nbytes st) w = (Done (p, st'), w')
    \<and> malloc_done base F (nunits_of nbytes) st (brk w) st' p (brk w')
    \<and> (p = 0 \<longrightarrow> fst (fst (sys (USbrk (int (8 * core_units (nunits_of nbytes)))) w)) = -1
        \<and> (\<forall>a. \<not> {a ..< a + 8 * unat (nunits_of nbytes)} \<subseteq> F))"
proof -
  let ?nu = "nunits_of nbytes"
  let ?st = "if freep st = 0 then st\<lparr>hmem := set_size base 0 (set_ptr base base (hmem st)), freep := base\<rparr> else st"
  have base: "base \<noteq> 0" "unat base < brk w" using heap by (auto simp: heap_ok_def)
  have u: "unat ?nu = (unat nbytes + 7) div 8 + 1" by (rule nunits_of_enough) (use n in simp)
  then have nu: "?nu \<noteq> 0" "8 * core_units ?nu < 2 ^ 31" using n by (auto simp: core_units_def)
  obtain fl where fl: "blocks base (brk w) fl" "lseg (hmem ?st) base fl base" "freep ?st \<in> fst ` set fl" "F = fbytes fl"
  proof (cases "freep st = 0")
    case True
    then show thesis using that [of "[(base, 0)]"] heap base
      by (simp add: heap_ok_def blocks_def bend_def bytes_def set_size_def set_ptr_def)
  next
    case False
    then show thesis using that heap by (auto simp: heap_ok_def heap_rep_def)
  qed
  obtain k0 where k0: "\<forall>k \<ge> k0. \<exists>p st' w'.
      urun sys (malloc_loop k ?nu (freep ?st) (h_ptr (hmem ?st (freep ?st))) ?st) w = (Done (p, st'), w')
      \<and> malloc_done base (fbytes fl) ?nu ?st (brk w) st' p (brk w')
      \<and> (p = 0 \<longrightarrow> fst (fst (sys (USbrk (int (8 * core_units ?nu))) w)) = -1 \<and> (\<forall>d \<in> set fl. snd d < ?nu))"
    using malloc_loop_done [OF fl(1-3) base nu lim ok] by blast
  have same: "same_outside base G ?st st' \<Longrightarrow> same_outside base G st st'" for G st'
    by (auto simp: same_outside_def set_size_def set_ptr_def)
  have "malloc_done base (fbytes fl) ?nu ?st b st' p b' \<Longrightarrow> malloc_done base F ?nu st b st' p b'" for st' p b b'
    using same fl(4) by (auto simp: malloc_done_def)
  moreover have "malloc k base nbytes st = malloc_loop k ?nu (freep ?st) (h_ptr (hmem ?st (freep ?st))) ?st" for k
    by (simp only: malloc_def Let_def)
  moreover have "\<forall>a. \<not> {a ..< a + 8 * unat ?nu} \<subseteq> F" if "\<forall>d \<in> set fl. snd d < ?nu"
    using no_run [OF fl(1) that nu(1)] fl(4) by blast
  ultimately show ?thesis using k0 by metis
qed

end

text \<open>C18: \<open>free\<close> ends, and gives exactly the bytes of the block back to the free ones, whatever block of the program it is
  called with and wherever the last search ended; neighbours that are free are joined with it. No header outside the free bytes
  and the block is touched.\<close>

theorem free_returns_block:
  assumes "heap_rep base brk st F" and "h_size (hmem st b) = n" and "n \<noteq> 0" and "unat base < unat b"
    and "bend (b, n) \<le> brk" and "brk < 2 ^ 32" and "bytes (b, n) \<inter> F = {}"
  shows "\<exists>k0 st'. (\<forall>k \<ge> k0. ufree k (hadd b 1) st = Some st') \<and> heap_rep base brk st' (F \<union> bytes (b, n))
    \<and> same_outside base (F \<union> bytes (b, n)) st st'"
proof -
  obtain fl where fl: "base \<noteq> 0" "blocks base brk fl" "lseg (hmem st) base fl base" "freep st \<in> fst ` set fl" "F = fbytes fl"
    using assms(1) by (auto simp: heap_rep_def)
  obtain fl' st' where f: "\<And>k. length fl \<le> k \<Longrightarrow> ufree k (hadd b 1) st = Some st'" "blocks base brk fl'"
    "lseg (hmem st') base fl' base" "freep st' \<in> fst ` set fl'" "fbytes fl' = fbytes fl \<union> bytes (b, n)"
    "same_outside base (fbytes fl \<union> bytes (b, n)) st st'"
    by (rule free_list [OF fl(2-4) assms(2-6)]) (use assms(7) fl(5) in blast)+
  have "heap_rep base brk st' (F \<union> bytes (b, n))" by (rule heap_repI [OF fl(1) f(2-4)]) (simp add: f(5) fl(5))
  then show ?thesis using f(1,6) fl(5) by blast
qed

theorem free_returns_block_witness:
  "\<exists>k0 st'. (\<forall>k \<ge> k0. ufree k (hadd 0x1000 1) \<lparr>hmem = (\<lambda>a. if a = 0x800 then \<lparr>h_ptr = 0x800, h_size = 0\<rparr> else \<lparr>h_ptr = 0, h_size = 2\<rparr>), freep = 0x800\<rparr> = Some st')
    \<and> heap_rep 0x800 0x2000 st' ({} \<union> bytes (0x1000, 2))
    \<and> same_outside 0x800 ({} \<union> bytes (0x1000, 2)) \<lparr>hmem = (\<lambda>a. if a = 0x800 then \<lparr>h_ptr = 0x800, h_size = 0\<rparr> else \<lparr>h_ptr = 0, h_size = 2\<rparr>), freep = 0x800\<rparr> st'"
proof (rule free_returns_block)
  show "heap_rep 0x800 0x2000 \<lparr>hmem = (\<lambda>a. if a = 0x800 then \<lparr>h_ptr = 0x800, h_size = 0\<rparr> else \<lparr>h_ptr = 0, h_size = 2\<rparr>), freep = 0x800\<rparr> {}"
    by (rule heap_repI [of _ _ "[(0x800, 0)]"]) (simp_all add: blocks_def bend_def bytes_def)
qed (simp_all add: bend_def)

end
