(* ===== verification/Sbrk.thy ===== *)
theory Sbrk
  imports Contain Umalloc
begin

text \<open>
  The heap of user programs on the kernel: the system call \<^verbatim>\<open>sbrk\<close> (\<^verbatim>\<open>sys_sbrk\<close> of \<^verbatim>\<open>sysproc.c\<close>,
  \<^verbatim>\<open>growproc\<close> of \<^verbatim>\<open>proc.c\<close>) meets the contract that the theory \<open>Umalloc\<close> asks for. \<open>sv\<close> lists the sizes of the processes, and the rules
  of the collection \<open>keep_sz\<close> say that the allocation of pages leaves them alone.
\<close>

section \<open>Sizes\<close>

definition sv :: "'z kproc_scheme \<Rightarrow> u32 list \<times> nat option" where
  "sv s = (map p_sz (ptable s), cur s)"

named_theorems keep_sz \<open>routines that keep the sizes of the processes\<close>

lemma keep1: "post (\<lambda>t. sv t = sv s) m \<Longrightarrow> (\<And>t. sv t = sv s \<Longrightarrow> Q t) \<Longrightarrow> post Q m"
  and keep2: "post (\<lambda>(x, t). sv t = sv s) n \<Longrightarrow> (\<And>x t. sv t = sv s \<Longrightarrow> R (x, t)) \<Longrightarrow> post R n"
  by (auto simp: post_def split: sum.splits)

lemmas keep_sz_base [keep_sz] = post_bnd readers

lemma sv_conts [simp]: "sv (s\<lparr>containers := a\<rparr>) = sv s"
  by (simp add: sv_def)

lemma sv_kmem [simp]:
  "sv (s\<lparr>pmem := b\<rparr>) = sv s" "sv (s\<lparr>freelist := v\<rparr>) = sv s" "sv (s\<lparr>kmem_i := c\<rparr>) = sv s"
  "sv (s\<lparr>cr3 := v\<rparr>) = sv s" "sv (s\<lparr>ts_esp0 := v\<rparr>) = sv s"
  by (simp_all add: sv_def)

lemma sv_mem [simp]: "sv (mput a v s) = sv s" "sv (mclear p s) = sv s"
  by (simp_all add: mput_def mclear_def)

lemma sv_proc_upd: "(\<And>p. p_sz (f p) = p_sz p) \<Longrightarrow> sv (proc_upd i f s) = sv s"
  by (simp add: sv_def proc_upd_def map_update) (metis list_update_id map_update)

lemma my_upd_sv [keep_sz]: "(\<And>p. p_sz (f p) = p_sz p) \<Longrightarrow> (\<And>t. sv t = sv s \<Longrightarrow> Q t) \<Longrightarrow> post Q (my_upd f s)"
  by (auto simp: my_upd_def sv_proc_upd split: option.splits)

lemma cont_upd_sv [keep_sz]: "(\<And>t. sv t = sv s \<Longrightarrow> Q t) \<Longrightarrow> post Q (cont_upd vc f s)"
  by (rule post_same) (auto simp: cont_upd_def bnd_Inr_iff)

lemma set_conts_sv [keep_sz]:
  "(\<And>t. sv t = sv s \<Longrightarrow> Q t) \<Longrightarrow> post Q (set_curr_mem v vc s)"
  "(\<And>t. sv t = sv s \<Longrightarrow> Q t) \<Longrightarrow> post Q (reduce_curr_mem v vc s)"
  "(\<And>t. sv t = sv s \<Longrightarrow> Q t) \<Longrightarrow> post Q (container_reset vc s)"
  unfolding set_curr_mem_def reduce_curr_mem_def container_reset_def post_if
  by (auto intro: cont_upd_sv)

lemma kill_sv [keep_sz]: "(\<And>r t. sv t = sv s \<Longrightarrow> Q (r, t)) \<Longrightarrow> post Q (kill pid s)"
  by (auto simp: kill_def sv_proc_upd set_killed_def Let_def intro!: keep_sz split: option.splits)

lemma foldR_sv:
  assumes "\<And>x t. x \<in> set xs \<Longrightarrow> post (\<lambda>u. sv u = sv t) (f x t)"
  shows "post (\<lambda>t. sv t = sv s) (foldR f xs s)"
proof (rule post_same)
  fix t
  assume "foldR f xs s = Inr t"
  then show "sv t = sv s"
    by (rule foldR_invariant [where P = "\<lambda>u. sv u = sv s"]) (use postD [OF assms] in auto)
qed

lemma cstop_container_visit_sv [THEN keep1, keep_sz]: "post (\<lambda>t. sv t = sv s) (cstop_container_visit c i s)"
  by (auto simp: cstop_container_visit_def intro!: keep_sz)

lemma cstop_container_helper_sv [THEN keep1, keep_sz]: "post (\<lambda>t. sv t = sv s) (cstop_container_helper c s)"
  by (auto simp: cstop_container_helper_def intro!: keep_sz foldR_sv [THEN keep1])

lemma kalloc_charge_sv [THEN keep1, keep_sz]: "post (\<lambda>t. sv t = sv s) (kalloc_charge s)"
  by (auto simp: kalloc_charge_def Let_def intro!: keep_sz split: option.splits)

lemma kfree_uncharge_sv [THEN keep1, keep_sz]: "post (\<lambda>t. sv t = sv s) (kfree_uncharge s)"
  by (auto simp: kfree_uncharge_def Let_def intro!: keep_sz split: option.splits)

lemma kalloc_sv [THEN keep2, keep_sz]: "post (\<lambda>(x, t). sv t = sv s) (kalloc s)"
  by (auto simp: kalloc_def Let_def intro!: keep_sz)

lemma kfree_sv [THEN keep1, keep_sz]: "post (\<lambda>t. sv t = sv s) (kfree v s)"
  by (auto simp: kfree_def Let_def intro!: keep_sz)

lemma walkpgdir_sv [THEN keep2, keep_sz]: "post (\<lambda>(x, t). sv t = sv s) (walkpgdir pgdir va a s)"
  by (auto simp: walkpgdir_def Let_def intro!: keep_sz)

lemma mappages_loop_sv [THEN keep2, keep_sz]: "post (\<lambda>(x, t). sv t = sv s) (mappages_loop n pgdir a pa perm s)"
proof (induction n arbitrary: a pa s)
  case (Suc n)
  show ?case by (subst mappages_loop.simps) (auto simp: Let_def intro!: keep_sz Suc [THEN keep2])
qed (subst mappages_loop.simps, auto simp: Let_def intro!: keep_sz)

lemma mappages_sv [THEN keep2, keep_sz]: "post (\<lambda>(x, t). sv t = sv s) (mappages pgdir va sz pa perm s)"
  by (auto simp: mappages_def Let_def intro!: keep_sz)

lemma deallocuvm_loop_sv [THEN keep1, keep_sz]: "post (\<lambda>t. sv t = sv s) (deallocuvm_loop pgdir a oldsz s)"
proof (induction "oldsz - a" arbitrary: a s rule: less_induct)
  case less
  have far: "oldsz - (a div 0x400000 + 1) * 0x400000 < oldsz - a" if "a < oldsz"
    using that dividend_less_div_times [of "0x400000" a] by (intro diff_less_mono2) simp_all
  show ?case
    by (subst deallocuvm_loop.simps) (auto simp: Let_def page_step far intro!: keep_sz less [THEN keep1])
qed

lemma deallocuvm_sv [THEN keep2, keep_sz]: "post (\<lambda>(x, t). sv t = sv s) (deallocuvm pgdir oldsz newsz s)"
  by (auto simp: deallocuvm_def intro!: keep_sz)

text \<open>\<open>allocuvm\<close> gives the new size or 0.\<close>

lemma allocuvm_loop_sv:
  fixes s :: "'a kmem_scheme"
  shows "post (\<lambda>(x, t). sv t = sv s \<and> (x = 0 \<or> x = of_nat newsz)) (allocuvm_loop pgdir oldsz a newsz s)"
proof (induction "newsz - a" arbitrary: a s rule: less_induct)
  case less
  have next_page: "post (\<lambda>(x, t). sv t = sv s \<and> (x = 0 \<or> x = of_nat newsz)) (allocuvm_loop pgdir oldsz (a + PGSIZE) newsz u)"
    if "a < newsz" "sv u = sv s" for u :: "'a kmem_scheme" using less [OF page_step [OF that(1)], of u] that(2) by simp
  show ?case
    by (subst allocuvm_loop.simps) (auto intro!: keep_sz next_page)
qed

lemma allocuvm_sv:
  assumes "oldsz \<le> newsz"
  shows "post (\<lambda>(x, t). sv t = sv s \<and> x \<in> {0, newsz} \<and> (x \<noteq> 0 \<longrightarrow> newsz < KERNBASE)) (allocuvm pgdir oldsz newsz s)"
  using assms allocuvm_loop_sv [of s "unat newsz" pgdir oldsz "unat (PGROUNDUP oldsz)"] by (auto simp: allocuvm_def post_def not_le not_less split: sum.splits)

lemma switchuvm_sv [THEN keep1, keep_sz]: "post (\<lambda>t. sv t = sv s) (switchuvm p s)"
  by (auto simp: switchuvm_def intro!: keep_sz split: option.splits)

section \<open>Growing a process\<close>

text \<open>A request for \<open>n > 0\<close> bytes that ends without a panic fails and leaves the size, or adds exactly \<open>n\<close> bytes.\<close>

lemma growproc_grows:
  assumes me: "cur s = Some me" "me < length (ptable s)" and n: "0 < n" "n < 2 ^ 31"
    and sz: "unat (p_sz (ptable s ! me)) < 2 ^ 31" and g: "growproc n s = Inr (r, t)"
  shows "cur t = Some me \<and> (r < 0 \<and> p_sz (ptable t ! me) = p_sz (ptable s ! me)
    \<or> r = 0 \<and> unat (p_sz (ptable t ! me)) = unat (p_sz (ptable s ! me)) + nat n \<and> unat (p_sz (ptable t ! me)) < 2 ^ 31)"
proof -
  let ?sz = "p_sz (ptable s ! me)" and ?pg = "p_pgdir (ptable s ! me)"
  let ?new = "?sz + word_of_int n"
  have "unat (word_of_int n :: u32) = nat n" using n by (simp add: unat_eq_nat_uint uint_word_of_int)
  then have new: "unat ?new = unat ?sz + nat n" using n sz by (simp add: unat_word_ariths)
  have sv: "p_sz (ptable u ! me) = p_sz (ptable v ! me)" "cur u = cur v" "length (ptable u) = length (ptable v)"
    if "sv u = sv v" "me < length (ptable v)" for u v :: "'a kmem_scheme"
    using that map_eq_imp_length_eq [of p_sz "ptable u" p_sz "ptable v"]
    by (auto simp: sv_def dest: arg_cong [of _ _ "\<lambda>xs. xs ! me"])
  obtain x u where a: "allocuvm ?pg ?sz ?new s = Inr (x, u)"
    and rest: "if x = 0 then r = -1 \<and> t = u
      else \<exists>v. my_upd (\<lambda>p. p\<lparr>p_sz := x\<rparr>) u = Inr v \<and> switchuvm (myproc v) v = Inr t \<and> r = 0"
    using g n(1) my_proc_cur [OF me] by (auto simp: growproc_def Let_def bnd_Inr_iff split: if_splits)
  have "?sz \<le> ?new" using new by (simp add: word_le_nat_alt)
  from allocuvm_sv [OF this, of s ?pg] a have al: "sv u = sv s" "x \<in> {0, ?new}" "x \<noteq> 0 \<Longrightarrow> ?new < KERNBASE" by auto
  show ?thesis
  proof (cases "x = 0")
    case True
    with rest sv [OF al(1) me(2)] me(1) show ?thesis by simp
  next
    case False
    then obtain v where v: "my_upd (\<lambda>p. p\<lparr>p_sz := x\<rparr>) u = Inr v" "switchuvm (myproc v) v = Inr t" "r = 0" using rest by auto
    have u: "cur u = Some me" "me < length (ptable u)" using sv [OF al(1) me(2)] me by simp_all
    then have vv: "v = proc_upd me (\<lambda>p. p\<lparr>p_sz := x\<rparr>) u" using v(1) by (simp add: my_upd_def myproc_def)
    have "post (\<lambda>t. sv t = sv v) (switchuvm (myproc v) v)" by (rule switchuvm_sv)
    then have "sv t = sv v" using v(2) by simp
    from sv [OF this] u have "p_sz (ptable t ! me) = x" "cur t = Some me" by (simp_all add: vv proc_upd_def)
    with v(3) False al(2,3) new show ?thesis by (simp add: KERNBASE_def word_less_nat_alt)
  qed
qed

section \<open>The system call\<close>

text \<open>
  \<^verbatim>\<open>sbrk\<close> as a program sees it: the argument is given, the reply is the value of the call. A panic of the
  kernel has no reply; \<open>sbrk_ok\<close> excludes it.
\<close>

definition sbrk_call :: "ucall \<Rightarrow> 'z kfile_scheme \<Rightarrow> reply \<times> 'z kfile_scheme" where
  "sbrk_call c s =
     (case c of
        USbrk n \<Rightarrow>
          (case bnd (my_proc s) (\<lambda>me. bnd (growproc n s) (\<lambda>(r, t). Inr (if r < 0 then -1 else sint (p_sz me), t))) of
             Inl _ \<Rightarrow> ((-1, No_data), s)
           | Inr (v, t) \<Rightarrow> ((v, No_data), t))
      | _ \<Rightarrow> ((-1, No_data), s))"

text \<open>It is what \<^verbatim>\<open>sys_sbrk\<close> does with the argument that it reads from the stack of the program.\<close>

lemma sbrk_call_sys_sbrk:
  assumes "argint 0 s = Inr (Some n)" and "sys_sbrk s = Inr (Ret v, t)"
  shows "sbrk_call (USbrk (sint n)) s = ((v, No_data), t)"
  using assms by (auto simp: sys_sbrk_def sbrk_call_def bnd_Inr_iff)

text \<open>The end of the memory of the process that runs.\<close>

definition proc_end :: "'z kproc_scheme \<Rightarrow> nat" where
  "proc_end s = (case cur s of None \<Rightarrow> 0 | Some me \<Rightarrow> unat (p_sz (ptable s ! me)))"

definition sbrk_ok :: "int \<Rightarrow> 'z kfile_scheme \<Rightarrow> bool" where
  "sbrk_ok n s \<longleftrightarrow> (\<exists>me. cur s = Some me \<and> me < length (ptable s)) \<and> (\<exists>r t. growproc n s = Inr (r, t))"

lemma sbrk_call_grows:
  assumes me: "cur s = Some me" "me < length (ptable s)" and g: "growproc n s = Inr (r, t)"
    and n: "0 < n" "n < 2 ^ 31" and sz: "proc_end s < 2 ^ 31"
  shows "sbrk_call (USbrk n) s = ((if r < 0 then -1 else int (proc_end s), No_data), t)"
    and "if r < 0 then proc_end t = proc_end s else proc_end t = proc_end s + nat n \<and> proc_end t < 2 ^ 31"
proof -
  have e: "proc_end s = unat (p_sz (ptable s ! me))" using me(1) by (simp add: proc_end_def)
  have "sint (p_sz (ptable s ! me)) = int (proc_end s)" using sz by (simp add: e sint_small)
  then show "sbrk_call (USbrk n) s = ((if r < 0 then -1 else int (proc_end s), No_data), t)"
    using g by (simp add: sbrk_call_def my_proc_cur [OF me])
  have "unat (p_sz (ptable s ! me)) < 2 ^ 31" using sz by (simp add: e)
  from growproc_grows [OF me n this g]
  show "if r < 0 then proc_end t = proc_end s else proc_end t = proc_end s + nat n \<and> proc_end t < 2 ^ 31"
    by (auto simp: proc_end_def me(1))
qed

interpretation kernel_sbrk: sbrk_calls sbrk_call proc_end sbrk_ok
proof
  fix n and s :: "'a kfile_scheme"
  assume "sbrk_ok n s" and n: "0 < n" "n < 2 ^ 31" "proc_end s < 2 ^ 31"
  then obtain me r t where "cur s = Some me" "me < length (ptable s)" "growproc n s = Inr (r, t)" by (auto simp: sbrk_ok_def)
  note g = sbrk_call_grows [OF this n]
  show "\<exists>d w'. sbrk_call (USbrk n) s = ((-1, d), w') \<and> proc_end w' = proc_end s
      \<or> sbrk_call (USbrk n) s = ((int (proc_end s), d), w') \<and> proc_end w' = proc_end s + nat n \<and> proc_end w' < 2 ^ 31"
    using g by (intro exI [of _ No_data] exI [of _ t]) (simp split: if_splits)
qed

text \<open>C17: \<open>malloc\<close> on the kernel of \<^verbatim>\<open>growproc\<close> ends, and hands out a block of at least the size asked for that lies in bytes which were free, or which the
  kernel has just added to the program; exactly these bytes stop being free. It fails only when \<^verbatim>\<open>growproc\<close> fails for the memory it
  asks for and no run of free bytes is long enough, and then nothing changes. In both cases no header outside the free bytes is touched, so that what
  the program keeps in its other blocks survives. The conditions are that the request and its header stay below \<open>2 ^ 31\<close> bytes, so that the
  argument of \<^verbatim>\<open>sbrk\<close> is positive, and that the kernel does not panic in \<^verbatim>\<open>growproc\<close>.\<close>

theorem malloc_takes_free_block:
  assumes "heap_ok base (proc_end s) st F" and "cur s = Some me" and "me < length (ptable s)" and "proc_end s < 2 ^ 31"
    and "unat nbytes + 16 \<le> 2 ^ 31" and "growproc (int (8 * core_units (nunits_of nbytes))) s = Inr (r, t)"
  shows "\<exists>k0. \<forall>k \<ge> k0. \<exists>p st' s'. urun sbrk_call (malloc k base nbytes st) s = (Done (p, st'), s')
    \<and> malloc_done base F (nunits_of nbytes) st (proc_end s) st' p (proc_end s')
    \<and> (p = 0 \<longrightarrow> r < 0 \<and> (\<forall>a. \<not> {a ..< a + 8 * unat (nunits_of nbytes)} \<subseteq> F)) \<and> unat nbytes + 8 \<le> 8 * unat (nunits_of nbytes)"
proof -
  let ?nu = "nunits_of nbytes"
  have u: "unat ?nu = (unat nbytes + 7) div 8 + 1" by (rule nunits_of_enough) (use assms(5) in simp)
  then have n: "0 < int (8 * core_units ?nu)" "int (8 * core_units ?nu) < 2 ^ 31" "unat nbytes + 8 \<le> 8 * unat ?nu"
    using assms(5) by (auto simp: core_units_def)
  have "sbrk_ok (int (8 * core_units ?nu)) s" using assms(2,3,6) by (auto simp: sbrk_ok_def)
  note m = kernel_sbrk.malloc_ends [OF assms(1,4,5) this]
  have "fst (fst (sbrk_call (USbrk (int (8 * core_units ?nu))) s)) = -1 \<longrightarrow> r < 0"
    using sbrk_call_grows(1) [OF assms(2,3,6) n(1,2) assms(4)] by auto
  with m n(3) show ?thesis by blast
qed

text \<open>A program of 36864 bytes with its free list in the static header at 2048 and one free block at 4096. The kernel has no free page, but
  none is needed.\<close>

definition uheap_ex :: uheap where
  "uheap_ex = \<lparr>hmem = (\<lambda>a. if a = 0x1000 then \<lparr>h_ptr = 0x800, h_size = 4096\<rparr> else \<lparr>h_ptr = 0x1000, h_size = 0\<rparr>), freep = 0x800\<rparr>"

definition sbrk_ex :: kfile where
  "sbrk_ex = (kfile_ex [] Map.empty)\<lparr>ptable := [proc0\<lparr>p_state := RUNNING, p_sz := 36864, p_pgdir := 0x80500000, p_kstack := 0x80501000\<rparr>],
     cur := Some 0, freelist := 0, pmem := (\<lambda>_. 0)\<rparr>"

lemma heap_ex: "heap_ok 0x800 36864 uheap_ex {4096 ..< 36864}"
proof -
  let ?fl = "[(0x800, 0), (0x1000, 4096)] :: block list"
  have "blocks 0x800 36864 ?fl" by (simp add: blocks_def bend_def)
  moreover have "lseg (hmem uheap_ex) 0x800 ?fl 0x800" "freep uheap_ex \<in> fst ` set ?fl" by (simp_all add: uheap_ex_def)
  moreover have "{4096 ..< 36864} = fbytes ?fl" by (auto simp: bytes_def bend_def)
  ultimately show ?thesis using heap_repI [of "0x800" 36864 ?fl uheap_ex "{4096 ..< 36864}"]
    by (simp add: heap_ok_def uheap_ex_def)
qed

lemma growproc_ex: "\<exists>t. growproc 32768 sbrk_ex = Inr (-1, t)"
proof -
  let ?s = "sbrk_ex\<lparr>kmem_i := i32 (kmem_i sbrk_ex + 1)\<rparr>"
  have k: "kalloc sbrk_ex = Inr (0, ?s)" by (simp add: kalloc_def sbrk_ex_def Let_def)
  have m: "pmem ?s = (\<lambda>_. 0)" by (simp add: sbrk_ex_def)
  then have "walkpgdir 0x80500000 36864 False ?s = Inr (0, ?s)" by (simp add: walkpgdir_def mget_def get32_def join32_def Let_def)
  then have "deallocuvm_loop 0x80500000 36864 69632 ?s = Inr ?s" by (simp add: deallocuvm_loop.simps [of _ 36864] deallocuvm_loop.simps [of _ 4194304])
  moreover have "PGROUNDUP 36864 = 36864" by (simp add: PGROUNDUP_def PGROUNDDOWN_def PGSIZE_def)
  ultimately have "allocuvm 0x80500000 36864 69632 sbrk_ex = Inr (0, ?s)"
    by (simp add: allocuvm_def allocuvm_loop.simps [of _ _ 36864] deallocuvm_def k KERNBASE_def)
  moreover have "my_proc sbrk_ex = Inr (ptable sbrk_ex ! 0)" by (rule my_proc_cur) (simp_all add: sbrk_ex_def)
  ultimately show ?thesis by (simp add: growproc_def Let_def) (simp add: sbrk_ex_def)
qed

theorem malloc_takes_free_block_witness:
  "\<exists>k0. \<forall>k \<ge> k0. \<exists>p st' s'. urun sbrk_call (malloc k 0x800 100 uheap_ex) sbrk_ex = (Done (p, st'), s') \<and> p \<noteq> 0
    \<and> malloc_done 0x800 {4096 ..< 36864} (nunits_of 100) uheap_ex 36864 st' p (proc_end s')"
proof -
  have s: "cur sbrk_ex = Some 0" "0 < length (ptable sbrk_ex)" "proc_end sbrk_ex = 36864" by (simp_all add: sbrk_ex_def proc_end_def)
  have nu: "nunits_of 100 = 14" "core_units 14 = 4096" by (simp_all add: nunits_of_def core_units_def)
  obtain t where g: "growproc (int (8 * core_units (nunits_of 100))) sbrk_ex = Inr (-1, t)"
    using growproc_ex by (auto simp: nu)
  have "{4096 ..< 4096 + 8 * unat (nunits_of 100)} \<subseteq> {4096 ..< 36864}" by (auto simp: nu)
  with malloc_takes_free_block [OF _ s(1,2) _ _ g, of "0x800" uheap_ex "{4096 ..< 36864}"] heap_ex show ?thesis
    by (fastforce simp: s(3))
qed

text \<open>
  Above that size the argument of \<^verbatim>\<open>sbrk\<close> is negative. For \<^verbatim>\<open>malloc(0x7ffffff8)\<close> it is \<open>- (2 ^ 31)\<close>; \<^verbatim>\<open>growproc\<close> takes it for a request
  to shrink, finds nothing to free and reports success. \<open>malloc\<close> gets the end of the memory as the address of a block that is not there.
\<close>

lemma malloc_huge_arg: "sint (nunits_of 0x7FFFFFF8 * 8) = - (2 ^ 31)"
  by (simp add: nunits_of_def)

lemma sbrk_huge:
  assumes me: "cur s = Some me" "me < length (ptable s)" and sz: "0 < proc_end s" "proc_end s < 2 ^ 31"
    and sw: "p_kstack (ptable s ! me) \<noteq> 0" "p_pgdir (ptable s ! me) \<noteq> 0"
  shows "\<exists>t. sbrk_call (USbrk (- (2 ^ 31))) s = ((int (proc_end s), No_data), t) \<and> proc_end t = proc_end s"
proof -
  let ?p = "ptable s ! me"
  have e: "proc_end s = unat (p_sz ?p)" using me(1) by (simp add: proc_end_def)
  have "p_sz ?p \<noteq> 0" using sz(1) e by (auto simp: unat_eq_0)
  have "unat (p_sz ?p + 0x80000000) = unat (p_sz ?p) + 2 ^ 31" using sz(2) e by (simp add: unat_word_ariths)
  then have "p_sz ?p \<le> p_sz ?p + 0x80000000" by (simp add: word_le_nat_alt)
  moreover have eq: "p_sz ?p - 0x80000000 = p_sz ?p + 0x80000000" by (simp add: diff_eq_eq add.assoc)
  ultimately have "p_sz ?p \<le> p_sz ?p - 0x80000000" unfolding eq by simp
  then have "deallocuvm (p_pgdir ?p) (p_sz ?p) (p_sz ?p - 0x80000000) s = Inr (p_sz ?p, s)" by (simp add: deallocuvm_def)
  moreover have "proc_upd me (\<lambda>p. p\<lparr>p_sz := p_sz ?p\<rparr>) s = s" using me(2) by (simp add: proc_upd_def)
  moreover have "sint (p_sz ?p) = int (unat (p_sz ?p))" using sz(2) e by (simp add: sint_small)
  ultimately show ?thesis
    using me sw \<open>p_sz ?p \<noteq> 0\<close> my_proc_cur [OF me]
    by (simp add: sbrk_call_def growproc_def Let_def my_upd_def myproc_def switchuvm_def fetch_def in_range_def e)
      (simp add: proc_end_def)
qed


end
