(* ===== verification/Spec2Isabelle.thy ===== *)
theory Spec2Isabelle
  imports Sched Contain ShRun Grep Init Mkfs Sbrk
begin

text \<open>
  A verification library for xv6 with containers: a Unix-like kernel for the x86 in which a process may belong to a
  container, with limits on its processes, its memory and its disk space and a root directory of its own.

  \<^bold>\<open>The program and its parts.\<close> A process enters the kernel by a trap (\<^verbatim>\<open>trap.c\<close>). A system call is dispatched by
  \<^verbatim>\<open>syscall.c\<close> to \<^verbatim>\<open>sysproc.c\<close> and \<^verbatim>\<open>sysfile.c\<close>, which fetch the arguments from the memory of the process and call
  the layers below: the process table (\<^verbatim>\<open>proc.c\<close>) with the container table (\<^verbatim>\<open>container.c\<close>), the page tables (\<^verbatim>\<open>vm.c\<close>) on
  the page allocator (\<^verbatim>\<open>kalloc.c\<close>), and the open files (\<^verbatim>\<open>file.c\<close>, \<^verbatim>\<open>pipe.c\<close>) on directories and inodes (\<^verbatim>\<open>fs.c\<close>), the
  log (\<^verbatim>\<open>log.c\<close>), the buffer cache (\<^verbatim>\<open>bio.c\<close>) and the disk. The scheduler gives the processors to the processes, container
  by container. User programs, the shell among them, see only the system calls.

  \<^bold>\<open>Style of the model.\<close> The globals of the kernel are one record that grows along the imports: \<open>conts\<close>, \<open>kproc\<close>, \<open>kmem\<close>,
  \<open>kbio\<close>, \<open>klog\<close>, \<open>kfs\<close>, \<open>kcons\<close>, \<open>kfile\<close>. A routine is a function from its arguments and the record to a result and a new
  record, in the type \<open>kerr + 'a\<close>: \<open>Panic\<close> is a call of \<^verbatim>\<open>panic\<close>, \<open>Fault\<close> an access outside an object, and \<open>Blocked\<close> the
  point where the thread has to sleep. Routines are translated whole, early returns and error paths included. C integers
  are words, or integers with the wrap written out by \<open>i32\<close>; pointers into tables are indices; memory is a function
  from addresses to bytes, so that the free list, the page tables and the pages overlap as they do in the machine. A
  routine that runs under a lock is one step; where threads interleave, the steps are a relation of their own.

  \<^bold>\<open>The theories.\<close>
  \<^item> \<open>Prelude\<close> has the result type, the C integers and the list lemmas, with the locale \<open>slot_alloc\<close> for tables whose
    first free slot is taken; \<open>Bytes\<close> has words in byte arrays.
  \<^item> \<open>CString\<close>: \<^verbatim>\<open>string.c\<close> and the string routines of \<^verbatim>\<open>ulib.c\<close>. Block moves are correct for overlapping arguments, copies
    stay inside their arrays, and \<open>atoi\<close> reads back what \<open>itoa\<close> stored when the caller provides the terminator.
  \<^item> \<open>Container\<close>: \<^verbatim>\<open>container.c\<close>. No sequence of charges takes a container over its limits; lookup, start and reset agree.
  \<^item> \<open>SpinLock\<close>, \<open>SleepLock\<close>: \<^verbatim>\<open>spinlock.c\<close>, \<^verbatim>\<open>sleeplock.c\<close>. Mutual exclusion over all interleavings of any number of processors
    and processes; \<open>pushcli\<close> and \<open>popcli\<close> match.
  \<^item> \<open>Proc\<close>: the process table of \<^verbatim>\<open>proc.c\<close>. A process in a container can kill only inside it; stopping a container kills all
    its processes, a paused container stays paused, and resuming gives back the processes that were runnable.
  \<^item> \<open>Sched\<close>: \<open>scheduler\<close>, \<open>sched\<close>, \<open>yield\<close>. No two processors run one process, unless a \<open>resume\<close>, which takes no lock, stores into the
    entry of a process that is on a processor or not yet complete; that this can happen is shown too. A runnable process of the chosen container is reached in the round.
  \<^item> \<open>Kalloc\<close>, \<open>Vm\<close>: \<^verbatim>\<open>kalloc.c\<close>, \<^verbatim>\<open>vm.c\<close>. No page is given out twice; the initialisation frees every page; the charge to
    the container.
  \<^item> \<open>Bio\<close>, \<open>Log\<close>: \<^verbatim>\<open>bio.c\<close> with the disk of \<^verbatim>\<open>memide.c\<close>, and \<^verbatim>\<open>log.c\<close>. Reading through the cache is transparent. A transaction
    is atomic: wherever the machine stops, recovery gives the blocks before or after it, also when recovery itself is
    cut short and run again.
  \<^item> \<open>Ide\<close>: the interrupt driven driver \<^verbatim>\<open>ide.c\<close>. For every order of requests and interrupts it does what the memory disk
    does, request by request; the drive is a parameter, and reports no error.
  \<^item> \<open>Inode\<close>, \<open>Fs\<close>, \<open>Console\<close>: \<^verbatim>\<open>fs.c\<close>, \<^verbatim>\<open>console.c\<close>. Allocated blocks were free and are zeroed; an inode written is the
    inode read; a file is the array of bytes that was written; lookup in a directory finds the first entry of the name.
  \<^item> \<open>Mkfs\<close>: the image builder \<^verbatim>\<open>mkfs.c\<close>. Appending to a file of the image gives the content that the kernel reads back, and
    leaves the other files alone; the kernel reads the superblock that was written.
  \<^item> \<open>Pipe\<close>, \<open>File\<close>: \<^verbatim>\<open>pipe.c\<close>, \<^verbatim>\<open>file.c\<close>. A pipe delivers the bytes of all writers in order over all interleavings, also when
    the counters wrap; file table slots are not shared.
  \<^item> \<open>Life\<close>, \<open>Exec\<close>: process creation, exit and wait of \<^verbatim>\<open>proc.c\<close>, and \<^verbatim>\<open>exec.c\<close>.
  \<^item> \<open>Syscall\<close>, \<open>Sysfile\<close>, \<open>Sysproc\<close>, \<open>Trap\<close>: \<^verbatim>\<open>syscall.c\<close>, \<^verbatim>\<open>sysfile.c\<close>, \<^verbatim>\<open>sysproc.c\<close>, \<^verbatim>\<open>trap.c\<close>. What a read stores stays inside the
    process; unknown calls fail without a change; a fault of a user program ends the program, and is a panic for \<^verbatim>\<open>init\<close>.
  \<^item> \<open>Contain\<close>: the whole kernel. No trap that the kernel handles to its end moves a process to another container, except the
    call \<^verbatim>\<open>cont_proc_set\<close>; calls that go to sleep on the way, and those that panic or fault, are outside the statement. The
    collection \<open>wp\<close> has one rule per routine of the kernel.
  \<^item> \<open>User\<close>, \<open>Sh\<close>, \<open>ShRun\<close>, \<open>Grep\<close>: the user library, the shell and \<^verbatim>\<open>grep\<close>, as trees of system calls. The parser always ends, gives
    back the command that was printed, and separates its words; a pipeline connects its programs as written; the
    matcher agrees with the language of the pattern.
  \<^item> \<open>Umalloc\<close>: the heap of user programs (\<^verbatim>\<open>umalloc.c\<close>). \<open>malloc\<close> takes a block out of the free bytes and \<open>free\<close> puts it back, and neither
    touches the rest. What it needs of the kernel is the locale \<open>sbrk_calls\<close>; \<open>Sbrk\<close> shows that \<^verbatim>\<open>sys_sbrk\<close> and \<^verbatim>\<open>growproc\<close> provide it.
  \<^item> \<open>Progs\<close>, \<open>Ctool\<close>, \<open>Init\<close>: the small programs, the container tool \<^verbatim>\<open>ctool.c\<close> and \<^verbatim>\<open>init.c\<close>, as trees of system calls. \<open>cat\<close> copies its input
    and \<open>wc\<close> counts it, however the input is cut into pieces.

  \<^bold>\<open>Bounds and fuel.\<close> Loops are total functions with a measure wherever the source bounds them. The shell's parser takes
  fuel, and \<open>parsecmd_ends\<close> shows that the fuel given is enough for every line. Loops of user programs over input of unknown
  length take fuel and end in \<open>UFuel\<close> when it runs out; for \<open>malloc\<close>, \<open>free\<close>, \<open>cat\<close> and \<open>wc\<close> it is shown that enough fuel gives the
  result. Polling a device port that never answers is \<open>Blocked\<close>.

  \<^bold>\<open>Not modelled.\<close> The assembly of boot, trap entry and context switch, and the registers it saves; the programming of the
  interrupt controllers, the segment and interrupt descriptor tables and the serial port, which are writes to ports and
  descriptors without a behaviour in the repository; the messages that the kernel prints outside \<^verbatim>\<open>console.c\<close>, and the return addresses in the process list; what the user's memory holds at address 0, which the kernel reads
  for a process outside the containers: it is the unconstrained component \<open>null_cont\<close> of the state;
  the keyboard tables and the processor tables of the firmware; the test and load programs.
\<close>

end
